(* ===== verification/Prelude.thy ===== *)
theory Prelude
  imports Main "HOL-Library.Word" "HOL-Library.Signed_Division"
begin

text \<open>
  Shared vocabulary of the development: the machine types, the collections of rewrite rules the
  component theories fill, the little-endian and big-endian byte images of machine words, the
  \<open>byte_codec\<close> interface that every on-media integer field satisfies, and the generic list
  lemmas (replacing a slice of a buffer, exclusive-or of buffers) the components share.
\<close>

unbundle bit_operations_syntax

section \<open>Machine types\<close>

type_synonym u8 = "8 word"
type_synonym u16 = "16 word"
type_synonym u32 = "32 word"
type_synonym u64 = "64 word"

type_synonym bytes = "u8 list"

named_theorems len_simps \<open>lengths of encoded fields and buffers\<close>
named_theorems crc_simps \<open>algebra of the CRC shift registers\<close>
named_theorems codec_simps \<open>decoding what was encoded\<close>

section \<open>Outcomes of C functions\<close>

text \<open>
  A C function returns normally, reports an error, or has no defined behaviour on its input: it
  reads or writes outside an object, divides by zero, or never returns. The third case is kept as a
  value of its own, so that its absence is something to prove.
\<close>

datatype ('e, 'a) outcome = Ret 'a | Err 'e | Undef

definition returns :: "('e, 'a) outcome \<Rightarrow> bool" where
  "returns r \<longleftrightarrow> (\<exists>x. r = Ret x)"

text \<open>Conversion of a mathematical integer to a 32-bit C \<open>int\<close> (two's complement).\<close>

definition to_int32 :: "int \<Rightarrow> int" where
  "to_int32 x = (x + 2 ^ 31) mod 2 ^ 32 - 2 ^ 31"

lemma to_int32_id [simp]: "- (2 ^ 31) \<le> x \<Longrightarrow> x < 2 ^ 31 \<Longrightarrow> to_int32 x = x"
  by (simp add: to_int32_def)

text \<open>On nonnegative operands C's truncating division is the mathematical one.\<close>

lemma sdiv_nonneg: "0 \<le> a \<Longrightarrow> 0 < b \<Longrightarrow> a sdiv b = a div (b::int)"
  by (cases "a = 0") (simp_all add: signed_divide_int_def sgn_if)

lemma smod_nonneg: "0 \<le> a \<Longrightarrow> 0 < b \<Longrightarrow> a smod b = a mod (b::int)"
  by (cases "a = 0") (simp_all add: signed_modulo_int_def sgn_if)

section \<open>Words as byte strings\<close>

text \<open>
  \<open>le_bytes n w\<close> is the image of \<open>w\<close> in memory, least significant byte first, and
  \<open>le_word\<close> reads such an image back; \<open>be_bytes\<close> and \<open>be_word\<close> put the most significant
  byte first.
\<close>

definition le_bytes :: "nat \<Rightarrow> 'a::len word \<Rightarrow> bytes" where
  "le_bytes n w = map (\<lambda>i. ucast (drop_bit (8 * i) w)) [0..<n]"

primrec le_word :: "bytes \<Rightarrow> 'a::len word" where
  "le_word [] = 0"
| "le_word (b # bs) = ucast b OR push_bit 8 (le_word bs)"

definition be_bytes :: "nat \<Rightarrow> 'a::len word \<Rightarrow> bytes" where
  "be_bytes n w = rev (le_bytes n w)"

definition be_word :: "bytes \<Rightarrow> 'a::len word" where
  "be_word bs = le_word (rev bs)"

lemma length_le_bytes [simp, len_simps]: "length (le_bytes n w) = n"
  by (simp add: le_bytes_def)

lemma length_be_bytes [simp, len_simps]: "length (be_bytes n w) = n"
  by (simp add: be_bytes_def)

lemma nth_le_bytes: "i < n \<Longrightarrow> le_bytes n w ! i = ucast (drop_bit (8 * i) w)"
  by (simp add: le_bytes_def)

lemma bit_le_word:
  "bit (le_word bs :: 'a::len word) k \<longleftrightarrow>
     k < LENGTH('a) \<and> k div 8 < length bs \<and> bit (bs ! (k div 8)) (k mod 8)"
proof (induction bs arbitrary: k)
  case Nil
  then show ?case by simp
next
  case (Cons b bs)
  show ?case
  proof (cases "k < 8")
    case True
    then show ?thesis
      by (auto simp: bit_simps)
  next
    case False
    then obtain j where j: "k = 8 + j"
      by (metis le_Suc_ex not_less)
    have "k div 8 = Suc (j div 8)" "k mod 8 = j mod 8" using j by simp_all
    moreover have "\<not> bit b k" using False bit_imp_le_length [of b k] by auto
    ultimately show ?thesis
      using Cons.IH [of j] j by (auto simp: bit_simps)
  qed
qed

lemma le_word_le_bytes:
  assumes "LENGTH('a) = 8 * n"
  shows "le_word (le_bytes n (w :: 'a::len word)) = w"
proof (rule bit_word_eqI)
  fix k assume k: "k < LENGTH('a)"
  then have "k div 8 < n" using assms by simp
  with k show "bit (le_word (le_bytes n w) :: 'a word) k = bit w k"
    by (simp add: bit_le_word nth_le_bytes bit_simps)
qed

lemma le_bytes_le_word:
  assumes "LENGTH('a) = 8 * length bs"
  shows "le_bytes (length bs) (le_word bs :: 'a::len word) = bs"
proof (rule nth_equalityI)
  fix i assume i: "i < length (le_bytes (length bs) (le_word bs :: 'a word))"
  then have "8 * i + 8 \<le> LENGTH('a)" using assms by simp
  then show "le_bytes (length bs) (le_word bs :: 'a word) ! i = bs ! i"
    using i by (intro bit_word_eqI) (simp add: nth_le_bytes bit_le_word bit_simps)
qed simp

section \<open>The interface of an on-media integer field\<close>

text \<open>
  A field codec writes a value as a fixed number of bytes and reads it back. Everything the
  image writers and readers need of an endianness is proved here once, from the two laws.
\<close>

locale byte_codec =
  fixes enc :: "'w \<Rightarrow> bytes" and dec :: "bytes \<Rightarrow> 'w" and width :: nat
  assumes length_enc: "length (enc x) = width"
    and dec_enc: "dec (enc x) = x"
    and enc_dec: "length bs = width \<Longrightarrow> enc (dec bs) = bs"
begin

lemma enc_inject: "enc x = enc y \<longleftrightarrow> x = y"
  using dec_enc by metis

lemma dec_inject: "length bs = width \<Longrightarrow> length cs = width \<Longrightarrow> dec bs = dec cs \<longleftrightarrow> bs = cs"
  using enc_dec by metis

lemma dec_field: "length pre = off \<Longrightarrow> dec (take width (drop off (pre @ enc x @ post))) = x"
  by (simp add: length_enc dec_enc)

lemma take_enc: "take width (enc x @ post) = enc x"
  by (simp add: length_enc)

lemma drop_enc: "drop width (enc x @ post) = post"
  by (simp add: length_enc)

end

definition be16 :: "u16 \<Rightarrow> bytes" where "be16 = be_bytes 2"
definition be32 :: "u32 \<Rightarrow> bytes" where "be32 = be_bytes 4"
definition be64 :: "u64 \<Rightarrow> bytes" where "be64 = be_bytes 8"
definition le16 :: "u16 \<Rightarrow> bytes" where "le16 = le_bytes 2"
definition le32 :: "u32 \<Rightarrow> bytes" where "le32 = le_bytes 4"
definition le64 :: "u64 \<Rightarrow> bytes" where "le64 = le_bytes 8"

lemmas endian_defs = be16_def be32_def be64_def le16_def le32_def le64_def

lemma length_endian [simp, len_simps]:
  "length (be16 a) = 2" "length (be32 b) = 4" "length (be64 c) = 8"
  "length (le16 a) = 2" "length (le32 b) = 4" "length (le64 c) = 8"
  by (simp_all add: endian_defs)

lemma le_word_codec:
  assumes "LENGTH('a) = 8 * n"
  shows "byte_codec (le_bytes n :: 'a::len word \<Rightarrow> bytes) le_word n"
  using assms by unfold_locales (auto simp: le_word_le_bytes le_bytes_le_word)

lemma be_word_codec:
  assumes "LENGTH('a) = 8 * n"
  shows "byte_codec (be_bytes n :: 'a::len word \<Rightarrow> bytes) be_word n"
proof unfold_locales
  fix bs :: bytes assume "length bs = n"
  then show "be_bytes n (be_word bs :: 'a word) = bs"
    using assms le_bytes_le_word [where ?'a = 'a, of "rev bs"] by (simp add: be_bytes_def be_word_def)
qed (use assms in \<open>simp_all add: be_bytes_def be_word_def le_word_le_bytes\<close>)

interpretation be16: byte_codec be16 be_word 2
  unfolding be16_def by (rule be_word_codec) simp

interpretation be32: byte_codec be32 be_word 4
  unfolding be32_def by (rule be_word_codec) simp

interpretation be64: byte_codec be64 be_word 8
  unfolding be64_def by (rule be_word_codec) simp

interpretation le16: byte_codec le16 le_word 2
  unfolding le16_def by (rule le_word_codec) simp

interpretation le32: byte_codec le32 le_word 4
  unfolding le32_def by (rule le_word_codec) simp

interpretation le64: byte_codec le64 le_word 8
  unfolding le64_def by (rule le_word_codec) simp

lemmas word_codecs [codec_simps] =
  be16.dec_enc be32.dec_enc be64.dec_enc le16.dec_enc le32.dec_enc le64.dec_enc

section \<open>Buffers\<close>

text \<open>\<open>memset\<close> and \<open>memcpy\<close> into a buffer that is long enough.\<close>

definition memset :: "u8 \<Rightarrow> nat \<Rightarrow> bytes" where
  "memset c n = replicate n c"

definition overwrite :: "nat \<Rightarrow> 'a list \<Rightarrow> 'a list \<Rightarrow> 'a list" where
  "overwrite off src dst = take off dst @ src @ drop (off + length src) dst"

lemma length_memset [simp, len_simps]: "length (memset c n) = n"
  by (simp add: memset_def)

lemma length_overwrite [simp]:
  "off + length src \<le> length dst \<Longrightarrow> length (overwrite off src dst) = length dst"
  by (simp add: overwrite_def)

lemma take_drop_overwrite:
  "off + length src \<le> length dst \<Longrightarrow> take (length src) (drop off (overwrite off src dst)) = src"
  by (simp add: overwrite_def)

lemma nth_overwrite:
  "off + length src \<le> length dst \<Longrightarrow> i < length dst \<Longrightarrow>
   overwrite off src dst ! i = (if off \<le> i \<and> i < off + length src then src ! (i - off) else dst ! i)"
  by (auto simp: overwrite_def nth_append min_def)

lemma overwrite_other:
  assumes "off + length src \<le> length dst" and "pos + k \<le> length dst"
    and "pos + k \<le> off \<or> off + length src \<le> pos"
  shows "take k (drop pos (overwrite off src dst)) = take k (drop pos dst)"
  by (rule nth_equalityI) (use assms in \<open>auto simp: nth_overwrite\<close>)

definition xor_bytes :: "bytes \<Rightarrow> bytes \<Rightarrow> bytes" where
  "xor_bytes xs ys = map2 (XOR) xs ys"

lemma length_xor_bytes [simp]: "length (xor_bytes xs ys) = min (length xs) (length ys)"
  by (simp add: xor_bytes_def)

lemma xor_bytes_Cons [simp]: "xor_bytes (x # xs) (y # ys) = (x XOR y) # xor_bytes xs ys"
  by (simp add: xor_bytes_def)

lemma xor_bytes_Nil [simp]: "xor_bytes [] ys = []" "xor_bytes xs [] = []"
  by (simp_all add: xor_bytes_def)

lemma xor_bytes_twice:
  "length xs = length ys \<Longrightarrow> xor_bytes (xor_bytes xs ys) ys = xs"
  by (induction xs ys rule: list_induct2) (simp_all add: xor.assoc)

section \<open>Counting in lists\<close>

lemma length_filter_update:
  assumes "i < length xs"
  shows "int (length (filter P (xs[i := x]))) =
     int (length (filter P xs)) - of_bool (P (xs ! i)) + of_bool (P x)"
proof -
  have "length (filter P (take i xs @ y # drop (Suc i) xs)) =
      length (filter P (take i xs)) + of_bool (P y) + length (filter P (drop (Suc i) xs))" for y
    by simp
  from this [of x] this [of "xs ! i"] show ?thesis
    using assms id_take_nth_drop [OF assms] by (simp add: upd_conv_take_nth_drop)
qed

lemma length_filter_less: "x \<in> set xs \<Longrightarrow> \<not> P x \<Longrightarrow> length (filter P xs) < length xs"
  by (induction xs) (auto simp: less_Suc_eq_le)

section \<open>Cutting a list into pieces\<close>

function chunks :: "nat \<Rightarrow> 'a list \<Rightarrow> 'a list list" where
  "chunks k xs = (if k = 0 \<or> xs = [] then [] else take k xs # chunks k (drop k xs))"
  by pat_completeness auto
termination
  by (relation "measure (\<lambda>(k, xs). length xs)") auto

declare chunks.simps [simp del]

lemma chunks_Nil [simp]: "chunks k [] = []"
  by (simp add: chunks.simps)

lemma concat_chunks: "0 < k \<Longrightarrow> concat (chunks k xs) = xs"
proof (induction k xs rule: chunks.induct)
  case (1 k xs)
  then show ?case by (cases "xs = []") (simp_all add: chunks.simps [of k xs])
qed

lemma chunks_bounds: "c \<in> set (chunks k xs) \<Longrightarrow> 0 < length c \<and> length c \<le> k"
proof (induction k xs rule: chunks.induct)
  case (1 k xs)
  then show ?case by (auto simp: chunks.simps [of k xs] split: if_splits)
qed

lemma length_chunks: "0 < k \<Longrightarrow> length (chunks k xs) = (length xs + k - 1) div k"
proof (induction k xs rule: chunks.induct)
  case (1 k xs)
  show ?case
  proof (cases "xs = []")
    case True
    with "1.prems" show ?thesis by simp
  next
    case False
    with "1" have "length (chunks k xs) = Suc ((length xs - k + k - 1) div k)"
      by (simp add: chunks.simps [of k xs])
    also have "(length xs - k + k - 1) div k = (length xs - 1) div k"
    proof (cases "k \<le> length xs")
      case short: False
      then have "(length xs - 1) div k = 0" "(k - 1) div k = 0" using "1.prems" by simp_all
      with short show ?thesis by simp
    qed simp
    also have "Suc ((length xs - 1) div k) = (length xs - 1 + k) div k"
      using "1.prems" by (simp add: div_add_self2)
    also have "length xs - 1 + k = length xs + k - 1" using False by (cases xs) simp_all
    finally show ?thesis .
  qed
qed

lemma nth_chunks:
  "i < length (chunks k xs) \<Longrightarrow> chunks k xs ! i = take k (drop (i * k) xs)"
proof (induction k xs arbitrary: i rule: chunks.induct)
  case (1 k xs)
  then show ?case
    by (cases i) (auto simp: chunks.simps [of k xs] add.commute split: if_splits)
qed

lemma overwrite_append:
  "length pre = off \<Longrightarrow> length x = length src \<Longrightarrow> overwrite off src (pre @ x @ post) = pre @ src @ post"
  by (simp add: overwrite_def)

lemma overwrite_0: "length x = length src \<Longrightarrow> overwrite 0 src (x @ post) = src @ post"
  by (simp add: overwrite_def)

end
