(* ===== verification/Swab.thy ===== *)
theory Swab
  imports Prelude
begin

text \<open>
  Byte order (\<open>include/mtd_swab.h\<close>). The macros swap the bytes of a word when the host's order is not
  the one of the medium. A store writes the host's image of the converted word; the theorem is that
  the bytes on the medium do not depend on the host, so the rest of the development writes
  \<open>be32 x\<close> for the bytes of a field assigned \<open>cpu_to_be32(x)\<close>, and \<open>be_word\<close> for reading one back.
\<close>

unbundle bit_operations_syntax

section \<open>The code\<close>

datatype byte_order = Little_endian | Big_endian

definition swab16 :: "u16 \<Rightarrow> u16" where
  "swab16 x = push_bit 8 (x AND 0x00ff) OR drop_bit 8 (x AND 0xff00)"

definition swab32 :: "u32 \<Rightarrow> u32" where
  "swab32 x = push_bit 24 (x AND 0x000000ff) OR push_bit 8 (x AND 0x0000ff00)
     OR drop_bit 8 (x AND 0x00ff0000) OR drop_bit 24 (x AND 0xff000000)"

definition swab64 :: "u64 \<Rightarrow> u64" where
  "swab64 x = push_bit 56 (x AND 0x00000000000000ff) OR push_bit 40 (x AND 0x000000000000ff00)
     OR push_bit 24 (x AND 0x0000000000ff0000) OR push_bit 8 (x AND 0x00000000ff000000)
     OR drop_bit 8 (x AND 0x000000ff00000000) OR drop_bit 24 (x AND 0x0000ff0000000000)
     OR drop_bit 40 (x AND 0x00ff000000000000) OR drop_bit 56 (x AND 0xff00000000000000)"

definition cpu_to_be16 :: "byte_order \<Rightarrow> u16 \<Rightarrow> u16" where
  "cpu_to_be16 bo x = (if bo = Big_endian then x else swab16 x)"
definition cpu_to_be32 :: "byte_order \<Rightarrow> u32 \<Rightarrow> u32" where
  "cpu_to_be32 bo x = (if bo = Big_endian then x else swab32 x)"
definition cpu_to_be64 :: "byte_order \<Rightarrow> u64 \<Rightarrow> u64" where
  "cpu_to_be64 bo x = (if bo = Big_endian then x else swab64 x)"
definition cpu_to_le16 :: "byte_order \<Rightarrow> u16 \<Rightarrow> u16" where
  "cpu_to_le16 bo x = (if bo = Big_endian then swab16 x else x)"
definition cpu_to_le32 :: "byte_order \<Rightarrow> u32 \<Rightarrow> u32" where
  "cpu_to_le32 bo x = (if bo = Big_endian then swab32 x else x)"
definition cpu_to_le64 :: "byte_order \<Rightarrow> u64 \<Rightarrow> u64" where
  "cpu_to_le64 bo x = (if bo = Big_endian then swab64 x else x)"

abbreviation "be16_to_cpu \<equiv> cpu_to_be16"
abbreviation "be32_to_cpu \<equiv> cpu_to_be32"
abbreviation "be64_to_cpu \<equiv> cpu_to_be64"

text \<open>The host's image of a word in memory, and reading one.\<close>

definition store :: "byte_order \<Rightarrow> nat \<Rightarrow> 'a::len word \<Rightarrow> bytes" where
  "store bo k w = (if bo = Big_endian then be_bytes k w else le_bytes k w)"

definition load :: "byte_order \<Rightarrow> bytes \<Rightarrow> 'a::len word" where
  "load bo bs = (if bo = Big_endian then be_word bs else le_word bs)"

section \<open>Swapping reverses the image\<close>

lemma le_bytes_unroll:
  "le_bytes 2 w = [ucast w, ucast (drop_bit 8 w)]"
  "le_bytes 4 w = [ucast w, ucast (drop_bit 8 w), ucast (drop_bit 16 w), ucast (drop_bit 24 w)]"
  "le_bytes 8 w = [ucast w, ucast (drop_bit 8 w), ucast (drop_bit 16 w), ucast (drop_bit 24 w),
     ucast (drop_bit 32 w), ucast (drop_bit 40 w), ucast (drop_bit 48 w), ucast (drop_bit 56 w)]"
  by (simp_all add: le_bytes_def eval_nat_numeral)

lemma byte_masks:
  "(0x00ff :: u16) = mask 8" "(0xff00 :: u16) = push_bit 8 (mask 8)"
  "(0x000000ff :: u32) = mask 8" "(0x0000ff00 :: u32) = push_bit 8 (mask 8)"
  "(0x00ff0000 :: u32) = push_bit 16 (mask 8)" "(0xff000000 :: u32) = push_bit 24 (mask 8)"
  "(0x00000000000000ff :: u64) = mask 8" "(0x000000000000ff00 :: u64) = push_bit 8 (mask 8)"
  "(0x0000000000ff0000 :: u64) = push_bit 16 (mask 8)" "(0x00000000ff000000 :: u64) = push_bit 24 (mask 8)"
  "(0x000000ff00000000 :: u64) = push_bit 32 (mask 8)" "(0x0000ff0000000000 :: u64) = push_bit 40 (mask 8)"
  "(0x00ff000000000000 :: u64) = push_bit 48 (mask 8)" "(0xff00000000000000 :: u64) = push_bit 56 (mask 8)"
  by (simp_all add: mask_eq_exp_minus_1 push_bit_eq_mult)

lemma le_bytes_swab:
  "le_bytes 2 (swab16 a) = be_bytes 2 a"
  "le_bytes 4 (swab32 b) = be_bytes 4 b"
  "le_bytes 8 (swab64 c) = be_bytes 8 c"
  unfolding be_bytes_def le_bytes_unroll swab16_def swab32_def swab64_def byte_masks
  by (auto simp: bit_eq_iff bit_simps)

lemma be_bytes_swab:
  "be_bytes 2 (swab16 a) = le_bytes 2 a"
  "be_bytes 4 (swab32 b) = le_bytes 4 b"
  "be_bytes 8 (swab64 c) = le_bytes 8 c"
  using le_bytes_swab(1) [of a] le_bytes_swab(2) [of b] le_bytes_swab(3) [of c]
  by (simp_all add: be_bytes_def)

lemma swab_swab [simp]: "swab16 (swab16 a) = a" "swab32 (swab32 b) = b" "swab64 (swab64 c) = c"
  by (metis le_bytes_swab(1) be_bytes_swab(1) le16.enc_inject le16_def,
      metis le_bytes_swab(2) be_bytes_swab(2) le32.enc_inject le32_def,
      metis le_bytes_swab(3) be_bytes_swab(3) le64.enc_inject le64_def)

lemmas store_convert = store_def le_bytes_swab be_bytes_swab endian_defs
  cpu_to_be16_def cpu_to_be32_def cpu_to_be64_def cpu_to_le16_def cpu_to_le32_def cpu_to_le64_def

lemma load_store:
  "load bo (store bo 2 (a :: u16)) = a" "load bo (store bo 4 (b :: u32)) = b"
  "load bo (store bo 8 (c :: u64)) = c"
  using le16.dec_enc [of a] le32.dec_enc [of b] le64.dec_enc [of c]
    be16.dec_enc [of a] be32.dec_enc [of b] be64.dec_enc [of c]
  by (simp_all add: load_def store_def endian_defs)

lemma media_images:
  "store bo 2 (cpu_to_be16 bo a) = be16 a" "store bo 4 (cpu_to_be32 bo b) = be32 b"
  "store bo 8 (cpu_to_be64 bo c) = be64 c"
  by (simp_all add: store_convert)

section \<open>Properties\<close>

text \<open>C24. The medium's byte order does not depend on the host's: storing \<open>cpu_to_be16/32/64\<close> of a value
  writes the same big-endian bytes on a little-endian and on a big-endian host,
  \<open>cpu_to_le16/32/64\<close> the same little-endian ones, and on every host
  \<open>be16/32/64_to_cpu\<close> of a load of those bytes gives the value back.\<close>

theorem media_bytes_host_independent:
  "store bo 2 (cpu_to_be16 bo a) = be16 a \<and> store bo 4 (cpu_to_be32 bo b) = be32 b
   \<and> store bo 8 (cpu_to_be64 bo c) = be64 c \<and> store bo 2 (cpu_to_le16 bo a) = le16 a
   \<and> store bo 4 (cpu_to_le32 bo b) = le32 b \<and> store bo 8 (cpu_to_le64 bo c) = le64 c
   \<and> be16_to_cpu bo (load bo (be16 a)) = a \<and> be32_to_cpu bo (load bo (be32 b)) = b
   \<and> be64_to_cpu bo (load bo (be64 c)) = c"
proof -
  have "load bo (be16 a) = cpu_to_be16 bo a" "load bo (be32 b) = cpu_to_be32 bo b"
    "load bo (be64 c) = cpu_to_be64 bo c"
    by (simp_all only: media_images [of bo, symmetric] load_store)
  then have "be16_to_cpu bo (load bo (be16 a)) = a" "be32_to_cpu bo (load bo (be32 b)) = b"
    "be64_to_cpu bo (load bo (be64 c)) = c"
    by (simp_all add: cpu_to_be16_def cpu_to_be32_def cpu_to_be64_def)
  then show ?thesis by (simp add: store_convert)
qed

end
