(* ===== verification/LinkedList.thy ===== *)
theory LinkedList
  imports Prelude
begin

text \<open>
  The circular doubly linked list of \<open>sunxi-tools/include/list.h\<close>, on an explicit store: every hook has
  a \<open>prev\<close> and a \<open>next\<close> pointer, an anchor hook heads the list. The predicate \<open>dll h head xs\<close> says that
  the store \<open>h\<close> holds the list \<open>xs\<close> at the anchor \<open>head\<close>; the operations are shown to implement the
  operations on \<open>xs\<close>. The script tree of \<open>fexc\<close> uses such lists for its sections and entries and is
  modelled with plain lists on the strength of these lemmas.
\<close>

section \<open>The code\<close>

record 'a store =
  lprev :: "'a \<Rightarrow> 'a"
  lnext :: "'a \<Rightarrow> 'a"

definition list_init :: "'a store \<Rightarrow> 'a \<Rightarrow> 'a store" where
  "list_init h self = h\<lparr>lprev := (lprev h)(self := self), lnext := (lnext h)(self := self)\<rparr>"

definition list_inject :: "'a store \<Rightarrow> 'a \<Rightarrow> 'a \<Rightarrow> 'a \<Rightarrow> 'a store" where
  "list_inject h l p n =
     (let h = h\<lparr>lprev := (lprev h)(l := p)\<rparr>;
          h = h\<lparr>lnext := (lnext h)(l := n)\<rparr>;
          h = h\<lparr>lprev := (lprev h)(n := l)\<rparr>
      in h\<lparr>lnext := (lnext h)(p := l)\<rparr>)"

definition list_push :: "'a store \<Rightarrow> 'a \<Rightarrow> 'a \<Rightarrow> 'a store" where
  "list_push h hk e = list_inject h e hk (lnext h hk)"

definition list_append :: "'a store \<Rightarrow> 'a \<Rightarrow> 'a \<Rightarrow> 'a store" where
  "list_append h hk e = list_inject h e (lprev h hk) hk"

definition list_remove :: "'a store \<Rightarrow> 'a \<Rightarrow> 'a store" where
  "list_remove h l =
     (let p = lprev h l; n = lnext h l;
          h = h\<lparr>lprev := (lprev h)(n := p)\<rparr>
      in h\<lparr>lnext := (lnext h)(p := n)\<rparr>)"

definition list_first :: "'a store \<Rightarrow> 'a \<Rightarrow> 'a option" where
  "list_first h l = (if lnext h l = l then None else Some (lnext h l))"

definition list_last :: "'a store \<Rightarrow> 'a \<Rightarrow> 'a option" where
  "list_last h l = (if lprev h l = l then None else Some (lprev h l))"

definition list_next :: "'a store \<Rightarrow> 'a \<Rightarrow> 'a \<Rightarrow> 'a option" where
  "list_next h l e = (if lnext h e = l then None else Some (lnext h e))"

definition list_empty :: "'a store \<Rightarrow> 'a \<Rightarrow> bool" where
  "list_empty h l \<longleftrightarrow> lprev h l = l"

text \<open>The traversal every client writes, \<open>for (o = list_first(l); o; o = list_next(l, o))\<close>, with fuel.\<close>

fun walk :: "nat \<Rightarrow> 'a store \<Rightarrow> 'a \<Rightarrow> 'a option \<Rightarrow> 'a list option" where
  "walk n h l None = Some []"
| "walk 0 h l (Some e) = None"
| "walk (Suc n) h l (Some e) = map_option ((#) e) (walk n h l (list_next h l e))"

section \<open>Lists in the store\<close>

fun linked :: "'a store \<Rightarrow> 'a list \<Rightarrow> bool" where
  "linked h (a # b # cs) \<longleftrightarrow> lnext h a = b \<and> lprev h b = a \<and> linked h (b # cs)"
| "linked h _ \<longleftrightarrow> True"

definition dll :: "'a store \<Rightarrow> 'a \<Rightarrow> 'a list \<Rightarrow> bool" where
  "dll h hk xs \<longleftrightarrow> distinct (hk # xs) \<and> linked h (hk # xs @ [hk])"

lemma linked_append: "linked h (xs @ a # ys) \<longleftrightarrow> linked h (xs @ [a]) \<and> linked h (a # ys)"
proof (induction xs)
  case (Cons x xs)
  then show ?case by (cases xs) auto
qed simp

lemma linked_suffix: "linked h (xs @ a # ys) \<Longrightarrow> linked h (a # ys)"
  using linked_append [of h xs a ys] by blast

lemma linked_tl: "linked h (a # xs) \<Longrightarrow> linked h xs"
  by (cases xs) auto

lemma linked_cong:
  assumes "\<And>a. a \<in> set (butlast xs) \<Longrightarrow> lnext h a = lnext h' a"
    and "\<And>a. a \<in> set (tl xs) \<Longrightarrow> lprev h a = lprev h' a"
  shows "linked h xs = linked h' xs"
  using assms
proof (induction xs)
  case (Cons a ys)
  show ?case
  proof (cases ys)
    case (Cons b cs)
    have "linked h ys = linked h' ys"
      by (rule Cons.IH) (use Cons.prems Cons in \<open>auto dest: list.set_sel(2)\<close>)
    then show ?thesis using Cons.prems(1) [of a] Cons.prems(2) [of b] Cons by simp
  qed simp
qed simp

lemma dll_next:
  assumes "dll h hk (xs @ e # ys)"
  shows "lnext h e = (case ys of [] \<Rightarrow> hk | y # _ \<Rightarrow> y)" and "lprev h e = last (hk # xs)"
proof -
  have l: "linked h ((hk # xs) @ e # ys @ [hk])" using assms by (simp add: dll_def)
  from linked_suffix [OF this] show "lnext h e = (case ys of [] \<Rightarrow> hk | y # _ \<Rightarrow> y)"
    by (cases ys) auto
  have "hk # xs = butlast (hk # xs) @ [last (hk # xs)]" by (rule append_butlast_last_id [symmetric]) simp
  with l have "linked h (butlast (hk # xs) @ last (hk # xs) # e # ys @ [hk])"
    by (metis append.assoc append_Cons append_Nil)
  from linked_suffix [OF this] show "lprev h e = last (hk # xs)" by simp
qed

lemma dll_ends:
  assumes "dll h hk xs"
  shows "lnext h hk = (case xs of [] \<Rightarrow> hk | x # _ \<Rightarrow> x)" and "lprev h hk = last (hk # xs)"
proof -
  show "lnext h hk = (case xs of [] \<Rightarrow> hk | x # _ \<Rightarrow> x)"
    using assms by (cases xs) (auto simp: dll_def)
  show "lprev h hk = last (hk # xs)"
  proof (cases xs rule: rev_cases)
    case Nil
    then show ?thesis using assms by (simp add: dll_def)
  next
    case (snoc ys y)
    then have "linked h ((hk # ys) @ y # [hk])" using assms by (simp add: dll_def)
    from linked_suffix [OF this] show ?thesis by (simp add: snoc)
  qed
qed

section \<open>The operations implement lists\<close>

lemma dll_init: "dll (list_init h hk) hk []"
  by (simp add: dll_def list_init_def)

text \<open>Injecting a fresh hook between two neighbours.\<close>

lemma linked_inject:
  assumes "linked h (hk # xs @ ys @ [hk])" and "distinct (hk # xs @ ys)" and "e \<notin> set (hk # xs @ ys)"
  shows "linked (list_inject h e (last (hk # xs)) (hd (ys @ [hk]))) (hk # xs @ e # ys @ [hk])"
proof -
  let ?p = "last (hk # xs)" and ?n = "hd (ys @ [hk])"
  let ?h = "list_inject h e ?p ?n"
  have nx: "lnext ?h a = lnext h a" if "a \<noteq> e" "a \<noteq> ?p" for a
    using that by (simp add: list_inject_def Let_def)
  have pv: "lprev ?h a = lprev h a" if "a \<noteq> e" "a \<noteq> ?n" for a
    using that by (simp add: list_inject_def Let_def)
  have ends: "lnext ?h ?p = e" "lprev ?h e = ?p" "lnext ?h e = ?n" "lprev ?h ?n = e"
    using assms(3) by (auto simp: list_inject_def Let_def hd_append)
  have zs: "hk # xs = butlast (hk # xs) @ [?p]" by (rule append_butlast_last_id [symmetric]) simp
  have ys: "ys @ [hk] = ?n # tl (ys @ [hk])" by (simp add: hd_append)
  have "linked h (butlast (hk # xs) @ ?p # ys @ [hk])" using assms(1) zs by (metis append.assoc append_Cons append_Nil)
  then have l: "linked h (butlast (hk # xs) @ [?p]) \<and> linked h (?p # ys @ [hk])"
    by (rule linked_append [THEN iffD1])
  have l1: "linked h (?n # tl (ys @ [hk]))" using linked_tl [OF conjunct2 [OF l]] ys by simp
  have "distinct (butlast (hk # xs) @ [?p])" unfolding zs [symmetric] using assms(2) by simp
  then have d: "?p \<notin> set (butlast (hk # xs))" "?n \<notin> set xs" using assms(2) by (simp, cases ys) auto
  have "linked ?h (hk # xs) = linked h (hk # xs)"
  proof (rule linked_cong)
    show "lnext ?h a = lnext h a" if "a \<in> set (butlast (hk # xs))" for a
      using that d(1) assms(3) by (intro nx) (auto dest: in_set_butlastD split: if_splits)
    show "lprev ?h a = lprev h a" if "a \<in> set (tl (hk # xs))" for a
      using that d(2) assms(3) by (intro pv) auto
  qed
  then have first: "linked ?h (butlast (hk # xs) @ [?p])" using l zs by simp
  have "linked ?h (?n # tl (ys @ [hk])) = linked h (?n # tl (ys @ [hk]))"
  proof (rule linked_cong)
    show "lnext ?h a = lnext h a" if "a \<in> set (butlast (?n # tl (ys @ [hk])))" for a
    proof (rule nx)
      have "a \<in> set ys" using that ys by (metis butlast_snoc)
      then show "a \<noteq> e" and "a \<noteq> ?p" using assms(2,3) by (auto simp: disjoint_iff split: if_splits)
    qed
    show "lprev ?h a = lprev h a" if "a \<in> set (tl (?n # tl (ys @ [hk])))" for a
    proof (rule pv)
      show "a \<noteq> e" using that assms(3) by (cases ys) auto
      show "a \<noteq> ?n" using that assms(2) by (cases ys) auto
    qed
  qed
  with l1 ends ys have "linked ?h (?p # e # ys @ [hk])" by (metis linked.simps(1))
  with first have "linked ?h (butlast (hk # xs) @ ?p # e # ys @ [hk])"
    by (rule linked_append [THEN iffD2, OF conjI])
  then show ?thesis using zs by (metis append.assoc append_Cons append_Nil)
qed

lemma dll_append:
  assumes "dll h hk xs" and "e \<notin> set (hk # xs)"
  shows "dll (list_append h hk e) hk (xs @ [e])"
  using linked_inject [of h hk xs "[]" e] assms dll_ends(2) [OF assms(1)]
  by (auto simp: dll_def list_append_def)

lemma dll_push:
  assumes "dll h hk xs" and "e \<notin> set (hk # xs)"
  shows "dll (list_push h hk e) hk (e # xs)"
proof -
  have "hd (xs @ [hk]) = lnext h hk" using dll_ends(1) [OF assms(1)] by (cases xs) simp_all
  then show ?thesis
    using linked_inject [of h hk "[]" xs e] assms by (auto simp: dll_def list_push_def)
qed

lemma dll_remove:
  assumes "dll h hk (xs @ e # ys)"
  shows "dll (list_remove h e) hk (xs @ ys)"
proof -
  let ?p = "last (hk # xs)" and ?n = "hd (ys @ [hk])"
  let ?h = "list_remove h e"
  have dist: "distinct (hk # xs @ e # ys)" using assms by (simp add: dll_def)
  have l: "linked h ((hk # xs) @ e # ys @ [hk])" using assms by (simp add: dll_def)
  have p: "lprev h e = ?p" and n: "lnext h e = ?n"
    using dll_next [OF assms] by (simp_all add: hd_append split: list.splits)
  have nx: "lnext ?h a = (if a = ?p then ?n else lnext h a)" and pv: "lprev ?h a = (if a = ?n then ?p else lprev h a)" for a
    by (simp_all add: list_remove_def Let_def p n)
  have zs: "hk # xs = butlast (hk # xs) @ [?p]" by (rule append_butlast_last_id [symmetric]) simp
  have ys: "ys @ [hk] = ?n # tl (ys @ [hk])" by (simp add: hd_append)
  have "distinct (butlast (hk # xs) @ [?p])" unfolding zs [symmetric] using dist by simp
  then have d: "?p \<notin> set (butlast (hk # xs))" "?n \<notin> set xs" using dist by (simp, cases ys) auto
  have l1: "linked h (hk # xs)"
    using l linked_append [of h "butlast (hk # xs)" ?p "e # ys @ [hk]"] zs
    by (metis append.assoc append_Cons append_Nil)
  have l2: "linked h (?n # tl (ys @ [hk]))"
    using linked_tl [OF linked_suffix [OF l]] ys by simp
  have "linked ?h (hk # xs) = linked h (hk # xs)"
    by (rule linked_cong) (use d in \<open>auto simp: nx pv\<close>)
  then have first: "linked ?h (butlast (hk # xs) @ [?p])" using l1 zs by simp
  have "linked ?h (?n # tl (ys @ [hk])) = linked h (?n # tl (ys @ [hk]))"
  proof (rule linked_cong)
    show "lnext ?h a = lnext h a" if "a \<in> set (butlast (?n # tl (ys @ [hk])))" for a
    proof -
      have "a \<in> set ys" using that ys by (metis butlast_snoc)
      then have "a \<noteq> ?p" using dist by (auto simp: disjoint_iff split: if_splits)
      then show ?thesis by (simp add: nx)
    qed
    show "lprev ?h a = lprev h a" if "a \<in> set (tl (?n # tl (ys @ [hk])))" for a
    proof -
      have "a \<noteq> ?n" using that dist by (cases ys) auto
      then show ?thesis by (simp add: pv)
    qed
  qed
  moreover have "lnext ?h ?p = ?n" "lprev ?h ?n = ?p" by (simp_all add: nx pv)
  ultimately have "linked ?h (?p # ys @ [hk])" using l2 ys by (metis linked.simps(1))
  with first have "linked ?h (butlast (hk # xs) @ ?p # ys @ [hk])"
    by (rule linked_append [THEN iffD2, OF conjI])
  then have "linked ?h (hk # xs @ ys @ [hk])" using zs by (metis append.assoc append_Cons append_Nil)
  then show ?thesis using dist by (simp add: dll_def)
qed

lemma walk_suffix:
  assumes "dll h hk (xs @ e # ys)" and "length ys < n"
  shows "walk n h hk (Some e) = Some (e # ys)"
  using assms
proof (induction ys arbitrary: xs e n)
  case Nil
  then show ?case using dll_next(1) [OF Nil.prems(1)] by (cases n) (simp_all add: list_next_def)
next
  case (Cons y ys)
  have "y \<noteq> hk" using Cons.prems(1) by (auto simp: dll_def)
  then have nx: "list_next h hk e = Some y" using dll_next(1) [OF Cons.prems(1)] by (simp add: list_next_def)
  obtain m where m: "n = Suc m" "length ys < m" using Cons.prems(2) by (cases n) auto
  have "walk m h hk (Some y) = Some (y # ys)"
    using Cons.IH [of "xs @ [e]" y m] Cons.prems(1) m(2) by simp
  then show ?case by (simp add: m(1) nx)
qed

lemma dll_walk:
  assumes "dll h hk xs" and "length xs \<le> n"
  shows "walk n h hk (list_first h hk) = Some xs"
proof (cases xs)
  case Nil
  then show ?thesis using dll_ends(1) [OF assms(1)] by (simp add: list_first_def)
next
  case (Cons y ys)
  then have "y \<noteq> hk" using assms(1) by (auto simp: dll_def)
  then show ?thesis
    using walk_suffix [of h hk "[]" y ys n] assms dll_ends(1) [OF assms(1)] Cons by (simp add: list_first_def)
qed

text \<open>C32. The hooks implement lists: on a store that holds \<open>xs\<close>, appending or pushing a hook that is in no
  way part of the list gives \<open>xs\<close> with the hook at the end or at the front, removing a member gives
  \<open>xs\<close> without it, \<open>list_first\<close>, \<open>list_last\<close> and \<open>list_empty\<close> see the ends of \<open>xs\<close>, and the traversal of
  the clients visits exactly \<open>xs\<close> and ends.\<close>

theorem linked_list_refines_list:
  assumes "dll h hk xs"
  shows "(e \<notin> set (hk # xs) \<longrightarrow> dll (list_append h hk e) hk (xs @ [e]) \<and> dll (list_push h hk e) hk (e # xs))
    \<and> (e \<in> set xs \<longrightarrow> dll (list_remove h e) hk (remove1 e xs))
    \<and> list_first h hk = (if xs = [] then None else Some (hd xs))
    \<and> list_last h hk = (if xs = [] then None else Some (last xs))
    \<and> (list_empty h hk \<longleftrightarrow> xs = [])
    \<and> walk (length xs) h hk (list_first h hk) = Some xs"
proof -
  have ne: "xs \<noteq> [] \<Longrightarrow> hd xs \<noteq> hk \<and> last xs \<noteq> hk"
    using assms by (auto simp: dll_def dest: hd_in_set last_in_set)
  have "dll (list_remove h e) hk (remove1 e xs)" if e: "e \<in> set xs"
  proof -
    obtain us vs where us: "xs = us @ e # vs" "e \<notin> set us" using split_list_first [OF e] by blast
    have "dll (list_remove h e) hk (us @ vs)" by (rule dll_remove) (use assms us in simp)
    then show ?thesis using us by (simp add: remove1_append)
  qed
  moreover have "list_first h hk = (if xs = [] then None else Some (hd xs))"
    using dll_ends(1) [OF assms] ne by (cases xs) (auto simp: list_first_def)
  moreover have "list_last h hk = (if xs = [] then None else Some (last xs))" "list_empty h hk \<longleftrightarrow> xs = []"
    using dll_ends(2) [OF assms] ne by (auto simp: list_last_def list_empty_def)
  ultimately show ?thesis
    using dll_append [OF assms] dll_push [OF assms] dll_walk [OF assms order_refl] by blast
qed

theorem linked_list_refines_list_witness:
  "dll (list_append (list_init \<lparr>lprev = (\<lambda>_. 0), lnext = (\<lambda>_. 0)\<rparr> (1::nat)) 1 2) 1 [2]"
proof -
  have "dll (list_init \<lparr>lprev = (\<lambda>_. 0), lnext = (\<lambda>_. 0)\<rparr> (1::nat)) 1 []" by (rule dll_init)
  from linked_list_refines_list [OF this, of 2] show ?thesis by simp
qed

end
