(* ===== verification/Script.thy ===== *)
theory Script
  imports LinkedList Swab
begin

text \<open>
  The script tree of \<open>fexc\<close> (\<open>sunxi-tools/script.h\<close>, \<open>script.c\<close>): sections with entries of four types.
  The hooked lists of the source are lists here (see \<open>LinkedList\<close>); the structures that embed a
  \<open>struct script_entry\<close> are the constructors of one datatype. A section or entry name is what the
  32-byte field holds before its NUL. An assertion that fails ends the program with \<open>Assert_failed\<close>;
  memory is assumed available.
\<close>

section \<open>The tree\<close>

definition GPIO_BANK_MAX :: nat where "GPIO_BANK_MAX = 14"

datatype script_value =
    Single_word u32
  | String_value string
  | Gpio u32 u32 "u32 list"
  | Null_value

definition value_type :: "script_value \<Rightarrow> nat" where
  "value_type v = (case v of Single_word _ \<Rightarrow> 1 | String_value _ \<Rightarrow> 2 | Gpio _ _ _ \<Rightarrow> 4 | Null_value \<Rightarrow> 5)"

record script_entry =
  en_name :: string
  en_value :: script_value

record script_section =
  sn_name :: string
  sn_entries :: "script_entry list"

type_synonym script = "script_section list"

datatype script_error = Assert_failed
  | Malformed_version | Too_many_sections | Invalid_section_offset | Invalid_section_length
  | Unknown_port | Unknown_type
  | Invalid_character | Incomplete_section | No_section | Port_out_of_range | Value_out_of_range | Parse_error | Read_error

section \<open>The operations\<close>

definition script_new :: script where "script_new = []"

text \<open>The 31 bytes that fit a name field.\<close>

definition name_field :: "string \<Rightarrow> string" where
  "name_field name = take 31 name"

definition script_section_new :: "script \<Rightarrow> string \<Rightarrow> (script_error, script) outcome" where
  "script_section_new s name =
     (if name = [] then Err Assert_failed else Ret (s @ [\<lparr>sn_name = name_field name, sn_entries = []\<rparr>]))"

definition script_entry_append :: "script_section \<Rightarrow> script_value \<Rightarrow> string \<Rightarrow> script_section" where
  "script_entry_append sec v name =
     sec\<lparr>sn_entries := sn_entries sec @ [\<lparr>en_name = name_field name, en_value = v\<rparr>]\<rparr>"

definition script_null_entry_new :: "script_section \<Rightarrow> string \<Rightarrow> (script_error, script_section) outcome" where
  "script_null_entry_new sec name =
     (if name = [] then Err Assert_failed else Ret (script_entry_append sec Null_value name))"

definition script_single_entry_new :: "script_section \<Rightarrow> string \<Rightarrow> u32 \<Rightarrow>
    (script_error, script_section) outcome" where
  "script_single_entry_new sec name v =
     (if name = [] then Err Assert_failed else Ret (script_entry_append sec (Single_word v) name))"

text \<open>Only this constructor accepts an empty name.\<close>

definition script_string_entry_new :: "script_section \<Rightarrow> string \<Rightarrow> string \<Rightarrow>
    (script_error, script_section) outcome" where
  "script_string_entry_new sec name s = Ret (script_entry_append sec (String_value s) name)"

definition script_gpio_entry_new :: "script_section \<Rightarrow> string \<Rightarrow> u32 \<Rightarrow> u32 \<Rightarrow> u32 list \<Rightarrow>
    (script_error, script_section) outcome" where
  "script_gpio_entry_new sec name port num dat =
     (if name = [] then Err Assert_failed else Ret (script_entry_append sec (Gpio port num (take 4 dat)) name))"

definition script_find_section :: "script \<Rightarrow> string \<Rightarrow> script_section option" where
  "script_find_section s name = List.find (\<lambda>sec. sn_name sec = name) s"

definition script_find_entry :: "script_section \<Rightarrow> string \<Rightarrow> script_entry option" where
  "script_find_entry sec name = List.find (\<lambda>e. en_name e = name) (sn_entries sec)"

text \<open>Deleting pops the entries from the end and then unhooks the section; the tree is deleted from its
  last section.\<close>

definition script_entry_delete :: "script_section \<Rightarrow> script_section" where
  "script_entry_delete sec = sec\<lparr>sn_entries := butlast (sn_entries sec)\<rparr>"

function script_section_delete :: "script_section \<Rightarrow> script_section" where
  "script_section_delete sec =
     (if sn_entries sec = [] then sec else script_section_delete (script_entry_delete sec))"
  by pat_completeness auto
termination by (relation "measure (\<lambda>sec. length (sn_entries sec))") (auto simp: script_entry_delete_def)

function script_delete :: "script \<Rightarrow> script" where
  "script_delete s =
     (if s = [] then s else script_delete (butlast (s[length s - 1 := script_section_delete (last s)])))"
  by pat_completeness auto
termination by (relation "measure length") auto

declare script_section_delete.simps [simp del] script_delete.simps [simp del]

text \<open>The clients hold a pointer to the section they made last; an operation on it changes the last
  element of the tree.\<close>

definition on_last :: "(script_section \<Rightarrow> (script_error, script_section) outcome) \<Rightarrow> script \<Rightarrow>
    (script_error, script) outcome" where
  "on_last f s =
     (case f (last s) of Ret sec \<Rightarrow> Ret (butlast s @ [sec]) | Err e \<Rightarrow> Err e | Undef \<Rightarrow> Undef)"

section \<open>Lemmas\<close>

lemma script_delete_all: "script_delete s = []"
proof (induction "length s" arbitrary: s)
  case 0
  then show ?case by (simp add: script_delete.simps)
next
  case (Suc n)
  then show ?case by (subst script_delete.simps) auto
qed

lemma on_last_append: "on_last f (s @ [sec]) =
    (case f sec of Ret sec' \<Rightarrow> Ret (s @ [sec']) | Err e \<Rightarrow> Err e | Undef \<Rightarrow> Undef)"
  by (simp add: on_last_def split: outcome.split)

lemma name_field_id: "length n \<le> 31 \<Longrightarrow> name_field n = n"
  by (simp add: name_field_def)

end
