(* ===== verification/ScriptBin.thy ===== *)
theory ScriptBin
  imports Script
begin

text \<open>
  The binary form of a script (\<open>sunxi-tools/script_bin.h\<close>, \<open>script_bin.c\<close>): a head of 16 bytes, a table
  of 40-byte sections, a table of 40-byte entries and the data, with offsets counted in words. The host
  byte order is an argument. The generator writes into a zeroed buffer by offsets, as the code does
  through pointers; the decompiler reads the file image followed by whatever memory lies behind it
  (\<open>after\<close>), and a read beyond both has no defined result.
\<close>

unbundle bit_operations_syntax

section \<open>Characters and bytes\<close>

definition bytes_of :: "string \<Rightarrow> bytes" where "bytes_of s = map of_char s"
definition str_of :: "bytes \<Rightarrow> string" where "str_of bs = map (\<lambda>b. char_of (unat b)) bs"

section \<open>The generator\<close>

definition WORDS :: "nat \<Rightarrow> nat" where "WORDS s = (s + 3) div 4"

definition value_size :: "script_value \<Rightarrow> nat" where
  "value_size v = (case v of Null_value \<Rightarrow> 4 | Single_word _ \<Rightarrow> 4 | String_value s \<Rightarrow> length s | Gpio _ _ _ \<Rightarrow> 24)"

definition script_bin_size :: "script \<Rightarrow> nat \<times> nat \<times> nat" where
  "script_bin_size s =
     (let words = (\<Sum>sec \<leftarrow> s. \<Sum>e \<leftarrow> sn_entries sec. WORDS (value_size (en_value e)));
          sections = length s;
          entries = (\<Sum>sec \<leftarrow> s. length (sn_entries sec))
      in (16 + sections * 40 + entries * 40 + words * 4, sections, entries))"

record gen_state =
  g_bin :: bytes
  g_section :: nat
  g_entry :: nat
  g_data :: nat

definition put32 :: "byte_order \<Rightarrow> nat \<Rightarrow> u32 \<Rightarrow> bytes \<Rightarrow> bytes" where
  "put32 bo off w bin = overwrite off (store bo 4 w) bin"

text \<open>The switch on the type: the data written and its size, rounded up to words for a string.\<close>

definition put_value :: "byte_order \<Rightarrow> nat \<Rightarrow> script_value \<Rightarrow> bytes \<Rightarrow> bytes \<times> nat" where
  "put_value bo dat v bin =
     (case v of
        Single_word w \<Rightarrow> (put32 bo dat w bin, 4)
      | String_value s \<Rightarrow> (overwrite dat (bytes_of s) bin, (length s + 3) div 4 * 4)
      | Gpio port num d \<Rightarrow>
          (put32 bo (dat + 20) (d ! 3) (put32 bo (dat + 16) (d ! 2) (put32 bo (dat + 12) (d ! 1)
             (put32 bo (dat + 8) (d ! 0) (put32 bo (dat + 4) num (put32 bo dat port bin))))), 24)
      | Null_value \<Rightarrow> (bin, 4))"

definition gen_entry :: "byte_order \<Rightarrow> gen_state \<Rightarrow> script_entry \<Rightarrow> gen_state" where
  "gen_entry bo st e =
     (let bin = overwrite (g_entry st) (bytes_of (en_name e)) (g_bin st);
          bin = put32 bo (g_entry st + 32) (of_nat (g_data st div 4)) bin;
          pattern = push_bit 16 (of_nat (value_type (en_value e)));
          (bin, sz) = put_value bo (g_data st) (en_value e) bin;
          pattern = pattern OR of_nat (sz div 4);
          bin = put32 bo (g_entry st + 36) pattern bin
      in st\<lparr>g_bin := bin, g_data := g_data st + sz, g_entry := g_entry st + 40\<rparr>)"

definition gen_section :: "byte_order \<Rightarrow> gen_state \<Rightarrow> script_section \<Rightarrow> gen_state" where
  "gen_section bo st sec =
     (let bin = overwrite (g_section st) (bytes_of (sn_name sec)) (g_bin st);
          bin = put32 bo (g_section st + 36) (of_nat (g_entry st div 4)) bin;
          st = foldl (gen_entry bo) (st\<lparr>g_bin := bin\<rparr>) (sn_entries sec);
          bin = put32 bo (g_section st + 32) (of_nat (length (sn_entries sec))) (g_bin st)
      in st\<lparr>g_bin := bin, g_section := g_section st + 40\<rparr>)"

definition script_generate_bin :: "byte_order \<Rightarrow> bytes \<Rightarrow> nat \<Rightarrow> script \<Rightarrow> nat \<Rightarrow> nat \<Rightarrow> bytes" where
  "script_generate_bin bo bin bin_size s sections entries =
     (let entry = 16 + sections * 40; dat = entry + entries * 40;
          bin = put32 bo 0 (of_nat sections) bin;
          bin = put32 bo 4 (of_nat bin_size) bin;
          bin = put32 bo 8 1 bin;
          bin = put32 bo 12 2 bin
      in g_bin (foldl (gen_section bo) \<lparr>g_bin = bin, g_section = 16, g_entry = entry, g_data = dat\<rparr> s))"

section \<open>The decompiler\<close>

definition get32 :: "byte_order \<Rightarrow> bytes \<Rightarrow> int \<Rightarrow> u32 option" where
  "get32 bo mem off =
     (if 0 \<le> off \<and> off + 4 \<le> int (length mem) then Some (load bo (take 4 (drop (nat off) mem))) else None)"

definition get_str :: "bytes \<Rightarrow> nat \<Rightarrow> string option" where
  "get_str mem off =
     (let s = takeWhile (\<lambda>b. b \<noteq> 0) (drop off mem)
      in if off + length s < length mem then Some (str_of s) else None)"

text \<open>The loop that seeks the end of a string reads a byte before it compares the pointer with the end
  of the field.\<close>

fun seek_end :: "bytes \<Rightarrow> nat \<Rightarrow> nat \<Rightarrow> nat option" where
  "seek_end mem p 0 = (if p < length mem then Some 0 else None)"
| "seek_end mem p (Suc n) =
     (if p < length mem then (if mem ! p = 0 then Some 0 else map_option Suc (seek_end mem (Suc p) n)) else None)"

definition of_opt :: "('a \<Rightarrow> (script_error, 'b) outcome) \<Rightarrow> 'a option \<Rightarrow> (script_error, 'b) outcome" where
  "of_opt f x = (case x of None \<Rightarrow> Undef | Some y \<Rightarrow> f y)"

definition decompile_entry :: "byte_order \<Rightarrow> bytes \<Rightarrow> nat \<Rightarrow> script_section \<Rightarrow>
    (script_error, script_section) outcome" where
  "decompile_entry bo mem entry s =
     of_opt (\<lambda>offset. of_opt (\<lambda>pattern. of_opt (\<lambda>name.
       (let dat = 4 * sint offset;
            type = unat (drop_bit 16 pattern);
            words = unat (pattern AND 0xFFFF)
        in if type = 1 then of_opt (\<lambda>v. script_single_entry_new s name v) (get32 bo mem dat)
           else if type = 2 then
             (if dat < 0 then Undef
              else of_opt (\<lambda>l. script_string_entry_new s name (str_of (take l (drop (nat dat) mem))))
                     (seek_end mem (nat dat) (4 * words)))
           else if type = 4 then
             of_opt (\<lambda>port.
               if words = 6 \<and> port \<noteq> 0xFFFF \<and> (sint port < 1 \<or> sint port > int GPIO_BANK_MAX)
               then Err Unknown_port
               else of_opt (\<lambda>v0. of_opt (\<lambda>v1. of_opt (\<lambda>v2. of_opt (\<lambda>v3. of_opt (\<lambda>num.
                      script_gpio_entry_new s name port num [v0, v1, v2, v3])
                    (get32 bo mem (dat + 4))) (get32 bo mem (dat + 20))) (get32 bo mem (dat + 16)))
                    (get32 bo mem (dat + 12))) (get32 bo mem (dat + 8))) (get32 bo mem dat)
           else if type = 5 then (if name = [] then Ret s else script_null_entry_new s name)
           else Err Unknown_type))
      (get_str mem entry)) (get32 bo mem (int entry + 36))) (get32 bo mem (int entry + 32))"

fun decompile_entries :: "byte_order \<Rightarrow> bytes \<Rightarrow> nat \<Rightarrow> nat \<Rightarrow> script \<Rightarrow> (script_error, script) outcome" where
  "decompile_entries bo mem entry 0 s = Ret s"
| "decompile_entries bo mem entry (Suc i) s =
     (case on_last (decompile_entry bo mem entry) s of
        Ret s' \<Rightarrow> decompile_entries bo mem (entry + 40) i s' | Err e \<Rightarrow> Err e | Undef \<Rightarrow> Undef)"

definition decompile_section :: "byte_order \<Rightarrow> bytes \<Rightarrow> nat \<Rightarrow> nat \<Rightarrow> script \<Rightarrow> (script_error, script) outcome" where
  "decompile_section bo mem bin_size section s =
     of_opt (\<lambda>offset.
       if sint offset < 0 \<or> sint offset > to_int32 (int (bin_size div 4)) then Err Invalid_section_offset
       else let sz = to_int32 (int bin_size - 4 * sint offset) in
         of_opt (\<lambda>len.
           if sint len < 0 \<or> sint len > sz sdiv 40 then Err Invalid_section_length
           else of_opt (\<lambda>name.
             (case script_section_new s name of
                Ret s' \<Rightarrow> decompile_entries bo mem (4 * nat (sint offset)) (nat (sint len)) s'
              | Err e \<Rightarrow> Err e
              | Undef \<Rightarrow> Undef))
            (get_str mem section))
          (get32 bo mem (int section + 32)))
      (get32 bo mem (int section + 36))"

definition SCRIPT_BIN_VERSION_LIMIT :: u32 where "SCRIPT_BIN_VERSION_LIMIT = 0x10"
definition SCRIPT_BIN_SECTION_LIMIT :: u32 where "SCRIPT_BIN_SECTION_LIMIT = 0x100"

fun decompile_sections :: "byte_order \<Rightarrow> bytes \<Rightarrow> nat \<Rightarrow> nat \<Rightarrow> nat \<Rightarrow> script \<Rightarrow> (script_error, script) outcome" where
  "decompile_sections bo mem bin_size section 0 s = Ret s"
| "decompile_sections bo mem bin_size section (Suc i) s =
     (case decompile_section bo mem bin_size section s of
        Ret s' \<Rightarrow> decompile_sections bo mem bin_size (section + 40) i s' | Err e \<Rightarrow> Err e | Undef \<Rightarrow> Undef)"

definition script_decompile_bin :: "byte_order \<Rightarrow> bytes \<Rightarrow> bytes \<Rightarrow> script \<Rightarrow> (script_error, script) outcome" where
  "script_decompile_bin bo bin after s =
     (let mem = bin @ after in
      of_opt (\<lambda>v0. of_opt (\<lambda>v1. of_opt (\<lambda>sections.
        if v0 > SCRIPT_BIN_VERSION_LIMIT \<or> v1 > SCRIPT_BIN_VERSION_LIMIT then Err Malformed_version
        else if sections > SCRIPT_BIN_SECTION_LIMIT then Err Too_many_sections
        else decompile_sections bo mem (length bin) 16 (unat sections) s)
       (get32 bo mem 0)) (get32 bo mem 12)) (get32 bo mem 8))"

section \<open>The image\<close>

text \<open>What a generated file consists of, region by region.\<close>

definition name32 :: "string \<Rightarrow> bytes" where
  "name32 n = bytes_of n @ replicate (32 - length n) 0"

definition value_bytes :: "byte_order \<Rightarrow> script_value \<Rightarrow> bytes" where
  "value_bytes bo v =
     (case v of
        Single_word w \<Rightarrow> store bo 4 w
      | String_value s \<Rightarrow> bytes_of s @ replicate ((length s + 3) div 4 * 4 - length s) 0
      | Gpio port num d \<Rightarrow> store bo 4 port @ store bo 4 num @ store bo 4 (d ! 0) @ store bo 4 (d ! 1)
          @ store bo 4 (d ! 2) @ store bo 4 (d ! 3)
      | Null_value \<Rightarrow> replicate 4 0)"

definition entry_pattern :: "script_value \<Rightarrow> u32" where
  "entry_pattern v = push_bit 16 (of_nat (value_type v)) OR of_nat (WORDS (value_size v))"

definition entry_bytes :: "byte_order \<Rightarrow> nat \<Rightarrow> script_entry \<Rightarrow> bytes" where
  "entry_bytes bo dat e =
     name32 (en_name e) @ store bo 4 (of_nat (dat div 4) :: u32) @ store bo 4 (entry_pattern (en_value e))"

definition vlen :: "script_entry \<Rightarrow> nat" where
  "vlen e = 4 * WORDS (value_size (en_value e))"

fun entries_bytes :: "byte_order \<Rightarrow> nat \<Rightarrow> script_entry list \<Rightarrow> bytes" where
  "entries_bytes bo dat [] = []"
| "entries_bytes bo dat (e # es) = entry_bytes bo dat e @ entries_bytes bo (dat + vlen e) es"

definition data_bytes :: "byte_order \<Rightarrow> script_entry list \<Rightarrow> bytes" where
  "data_bytes bo es = concat (map (\<lambda>e. value_bytes bo (en_value e)) es)"

definition section_bytes :: "byte_order \<Rightarrow> nat \<Rightarrow> script_section \<Rightarrow> bytes" where
  "section_bytes bo ent sec =
     name32 (sn_name sec) @ store bo 4 (of_nat (length (sn_entries sec)) :: u32) @ store bo 4 (of_nat (ent div 4) :: u32)"

fun sections_bytes :: "byte_order \<Rightarrow> nat \<Rightarrow> script \<Rightarrow> bytes" where
  "sections_bytes bo ent [] = []"
| "sections_bytes bo ent (sec # ss) =
     section_bytes bo ent sec @ sections_bytes bo (ent + 40 * length (sn_entries sec)) ss"

definition all_entries :: "script \<Rightarrow> script_entry list" where
  "all_entries s = concat (map sn_entries s)"

definition names_fit :: "script \<Rightarrow> bool" where
  "names_fit s \<longleftrightarrow> (\<forall>sec \<in> set s. length (sn_name sec) \<le> 31 \<and> (\<forall>e \<in> set (sn_entries sec). length (en_name e) \<le> 31))"

lemma length_store [simp]: "length (store bo k w) = k"
  by (simp add: store_def)

lemma length_bytes_of [simp]: "length (bytes_of s) = length s"
  by (simp add: bytes_of_def)

lemma length_name32: "length n \<le> 32 \<Longrightarrow> length (name32 n) = 32"
  by (simp add: name32_def)

lemma length_value_bytes: "length (value_bytes bo v) = 4 * WORDS (value_size v)"
  by (cases v) (simp_all add: value_bytes_def value_size_def WORDS_def)

lemma length_entry_bytes: "length (en_name e) \<le> 31 \<Longrightarrow> length (entry_bytes bo dat e) = 40"
  by (simp add: entry_bytes_def length_name32)

lemma length_entries_bytes:
  "\<forall>e \<in> set es. length (en_name e) \<le> 31 \<Longrightarrow> length (entries_bytes bo dat es) = 40 * length es"
  by (induction es arbitrary: dat) (simp_all add: length_entry_bytes)

lemma length_sections_bytes:
  "\<forall>sec \<in> set ss. length (sn_name sec) \<le> 31 \<Longrightarrow> length (sections_bytes bo ent ss) = 40 * length ss"
  by (induction ss arbitrary: ent) (simp_all add: section_bytes_def length_name32)

lemma length_data_bytes: "length (data_bytes bo es) = (\<Sum>e \<leftarrow> es. vlen e)"
  by (induction es) (simp_all add: data_bytes_def length_value_bytes vlen_def)

lemma entries_bytes_append:
  "entries_bytes bo dat (es @ es') = entries_bytes bo dat es @ entries_bytes bo (dat + (\<Sum>e \<leftarrow> es. vlen e)) es'"
  by (induction es arbitrary: dat) (simp_all add: add.assoc)

lemma data_bytes_append: "data_bytes bo (es @ es') = data_bytes bo es @ data_bytes bo es'"
  by (simp add: data_bytes_def)

text \<open>Writing into a zeroed stretch of a buffer.\<close>

lemma overwrite_zeros:
  assumes "length p = off" and "length xs \<le> k"
  shows "overwrite off xs (p @ replicate k 0 @ q) = p @ xs @ replicate (k - length xs) 0 @ q"
proof -
  have "replicate k 0 @ q = replicate (length xs) 0 @ replicate (k - length xs) 0 @ q"
    using assms(2) by (simp add: replicate_add [symmetric])
  then show ?thesis using overwrite_append [OF assms(1), of "replicate (length xs) 0" xs] by simp
qed

lemma put32_zeros:
  assumes "length p = off" and "4 \<le> k"
  shows "put32 bo off w (p @ replicate k 0 @ q) = (p @ store bo 4 w) @ replicate (k - 4) 0 @ q"
  using overwrite_zeros [OF assms(1), of "store bo 4 w" k q] assms(2) by (simp add: put32_def)

lemma put_value_zeros:
  assumes "length p = dat" and "k = 4 * WORDS (value_size v) + m"
  shows "put_value bo dat v (p @ replicate k 0 @ q) =
    (p @ value_bytes bo v @ replicate m 0 @ q, 4 * WORDS (value_size v))"
proof (cases v)
  case (Single_word w)
  then show ?thesis
    using put32_zeros [OF assms(1), of k bo w q] assms(2)
    by (simp add: put_value_def value_bytes_def value_size_def WORDS_def)
next
  case (String_value s)
  have le: "length s \<le> 4 * WORDS (length s)" by (simp add: WORDS_def)
  have "overwrite dat (bytes_of s) (p @ replicate k 0 @ q) = p @ bytes_of s @ replicate (k - length s) 0 @ q"
    using overwrite_zeros [OF assms(1), of "bytes_of s" k q] assms(2) le by (simp add: String_value value_size_def)
  moreover have "replicate (k - length s) (0::u8) = replicate (4 * WORDS (length s) - length s) 0 @ replicate m 0"
    using assms(2) le by (simp add: String_value value_size_def replicate_add [symmetric])
  ultimately show ?thesis
    by (simp add: String_value put_value_def value_bytes_def value_size_def WORDS_def mult.commute)
next
  case (Gpio port num d)
  have k: "k = 24 + m" using assms(2) by (simp add: Gpio value_size_def WORDS_def)
  have 1: "put32 bo dat port (p @ replicate k 0 @ q) = (p @ store bo 4 port) @ replicate (20 + m) 0 @ q"
    using put32_zeros [OF assms(1), of k bo port q] k by simp
  have 2: "put32 bo (dat + 4) num \<dots> = (p @ store bo 4 port @ store bo 4 num) @ replicate (16 + m) 0 @ q"
    using put32_zeros [of "p @ store bo 4 port" "dat + 4" "20 + m" bo num q] assms(1) by simp
  have 3: "put32 bo (dat + 8) (d ! 0) \<dots> = (p @ store bo 4 port @ store bo 4 num @ store bo 4 (d ! 0)) @ replicate (12 + m) 0 @ q"
    using put32_zeros [of "p @ store bo 4 port @ store bo 4 num" "dat + 8" "16 + m" bo "d ! 0" q] assms(1) by simp
  have 4: "put32 bo (dat + 12) (d ! 1) \<dots> = (p @ store bo 4 port @ store bo 4 num @ store bo 4 (d ! 0)
      @ store bo 4 (d ! 1)) @ replicate (8 + m) 0 @ q"
    using put32_zeros [of "p @ store bo 4 port @ store bo 4 num @ store bo 4 (d ! 0)" "dat + 12" "12 + m" bo "d ! 1" q]
      assms(1) by simp
  have 5: "put32 bo (dat + 16) (d ! 2) \<dots> = (p @ store bo 4 port @ store bo 4 num @ store bo 4 (d ! 0)
      @ store bo 4 (d ! 1) @ store bo 4 (d ! 2)) @ replicate (4 + m) 0 @ q"
    using put32_zeros [of "p @ store bo 4 port @ store bo 4 num @ store bo 4 (d ! 0) @ store bo 4 (d ! 1)"
        "dat + 16" "8 + m" bo "d ! 2" q] assms(1) by simp
  have 6: "put32 bo (dat + 20) (d ! 3) \<dots> = (p @ store bo 4 port @ store bo 4 num @ store bo 4 (d ! 0)
      @ store bo 4 (d ! 1) @ store bo 4 (d ! 2) @ store bo 4 (d ! 3)) @ replicate m 0 @ q"
    using put32_zeros [of "p @ store bo 4 port @ store bo 4 num @ store bo 4 (d ! 0) @ store bo 4 (d ! 1) @ store bo 4 (d ! 2)"
        "dat + 20" "4 + m" bo "d ! 3" q] assms(1) by simp
  show ?thesis
    unfolding Gpio put_value_def script_value.case 1 2 3 4 5 6
    by (simp add: value_bytes_def value_size_def WORDS_def)
next
  case Null_value
  have "replicate k (0::u8) = replicate 4 0 @ replicate m 0"
    using assms(2) by (simp add: Null_value value_size_def WORDS_def replicate_add)
  then show ?thesis by (simp add: Null_value put_value_def value_bytes_def value_size_def WORDS_def)
qed

lemma gen_entry_image:
  assumes "g_bin st = p @ replicate (40 + z) 0 @ q @ replicate (vlen e + m) 0"
    and "g_entry st = length p" and "g_data st = length p + 40 + z + length q" and "length (en_name e) \<le> 31"
  shows "gen_entry bo st e = st\<lparr>
      g_bin := (p @ entry_bytes bo (g_data st) e) @ replicate z 0 @ (q @ value_bytes bo (en_value e)) @ replicate m 0,
      g_data := g_data st + vlen e, g_entry := g_entry st + 40\<rparr>"
proof -
  let ?n = "en_name e" and ?v = "en_value e" and ?d = "g_data st"
  let ?tail = "replicate z 0 @ q @ replicate (vlen e + m) 0"
  have "overwrite (length p) (bytes_of ?n) (p @ replicate (40 + z) 0 @ q @ replicate (vlen e + m) 0)
      = p @ bytes_of ?n @ replicate (40 + z - length ?n) 0 @ q @ replicate (vlen e + m) 0"
    using overwrite_zeros [of p "length p" "bytes_of ?n" "40 + z"] assms(4) by simp
  moreover have "replicate (40 + z - length ?n) (0::u8) = replicate (32 - length ?n) 0 @ replicate 8 0 @ replicate z 0"
    using assms(4) by (simp add: replicate_add [symmetric])
  ultimately have 1: "overwrite (g_entry st) (bytes_of ?n) (g_bin st) = (p @ name32 ?n) @ replicate 8 0 @ ?tail"
    by (simp add: assms(1,2) name32_def)
  have p32: "length (p @ name32 ?n) = g_entry st + 32" using assms(2,4) by (simp add: length_name32)
  have 2: "put32 bo (g_entry st + 32) (of_nat (?d div 4)) ((p @ name32 ?n) @ replicate 8 0 @ ?tail)
      = (p @ name32 ?n @ store bo 4 (of_nat (?d div 4) :: u32)) @ replicate 4 0 @ ?tail"
    using put32_zeros [OF p32, of 8 bo _ ?tail] by simp
  let ?P = "p @ name32 ?n @ store bo 4 (of_nat (?d div 4) :: u32)"
  have d: "length (?P @ replicate 4 0 @ replicate z 0 @ q) = ?d"
    using p32 assms(2,3) by simp
  have 3: "put_value bo ?d ?v (?P @ replicate 4 0 @ ?tail)
      = (?P @ replicate 4 0 @ replicate z 0 @ (q @ value_bytes bo ?v) @ replicate m 0, vlen e)"
    using put_value_zeros [OF d, of "vlen e + m" ?v m bo "[]"] by (simp add: vlen_def)
  have p36: "length ?P = g_entry st + 36" using p32 by simp
  have 4: "put32 bo (g_entry st + 36) (entry_pattern ?v) (?P @ replicate 4 0 @ replicate z 0 @ (q @ value_bytes bo ?v) @ replicate m 0)
      = (p @ entry_bytes bo ?d e) @ replicate z 0 @ (q @ value_bytes bo ?v) @ replicate m 0"
    using put32_zeros [OF p36, of 4 bo "entry_pattern ?v"] by (simp add: entry_bytes_def)
  have pat: "push_bit 16 (of_nat (value_type ?v)) OR of_nat (vlen e div 4) = entry_pattern ?v"
    by (simp add: entry_pattern_def vlen_def)
  show ?thesis
    unfolding gen_entry_def Let_def 1 2 3 prod.case pat 4 by simp
qed

lemma gen_entries_image:
  assumes "g_bin st = p @ replicate (40 * length es + z) 0 @ q @ replicate ((\<Sum>e \<leftarrow> es. vlen e) + m) 0"
    and "g_entry st = length p" and "g_data st = length p + 40 * length es + z + length q"
    and "\<forall>e \<in> set es. length (en_name e) \<le> 31"
  shows "foldl (gen_entry bo) st es = st\<lparr>
      g_bin := (p @ entries_bytes bo (g_data st) es) @ replicate z 0 @ (q @ data_bytes bo es) @ replicate m 0,
      g_data := g_data st + (\<Sum>e \<leftarrow> es. vlen e), g_entry := g_entry st + 40 * length es\<rparr>"
  using assms
proof (induction es arbitrary: st p q)
  case Nil
  then show ?case by (simp add: data_bytes_def)
next
  case (Cons e es)
  let ?m = "(\<Sum>e \<leftarrow> es. vlen e) + m" and ?z = "40 * length es + z"
  have "g_bin st = p @ replicate (40 + ?z) 0 @ q @ replicate (vlen e + ?m) 0"
    using Cons.prems(1) by (simp add: add.assoc)
  moreover have "g_data st = length p + 40 + ?z + length q" using Cons.prems(3) by simp
  ultimately have e: "gen_entry bo st e = st\<lparr>
      g_bin := (p @ entry_bytes bo (g_data st) e) @ replicate ?z 0 @ (q @ value_bytes bo (en_value e)) @ replicate ?m 0,
      g_data := g_data st + vlen e, g_entry := g_entry st + 40\<rparr>" (is "_ = ?st")
    using gen_entry_image [of st p ?z q e ?m bo] Cons.prems(2,4) by simp
  have "foldl (gen_entry bo) ?st es = ?st\<lparr>
      g_bin := ((p @ entry_bytes bo (g_data st) e) @ entries_bytes bo (g_data ?st) es) @ replicate z 0
        @ ((q @ value_bytes bo (en_value e)) @ data_bytes bo es) @ replicate m 0,
      g_data := g_data ?st + (\<Sum>e \<leftarrow> es. vlen e), g_entry := g_entry ?st + 40 * length es\<rparr>"
    by (rule Cons.IH) (use Cons.prems in \<open>simp_all add: length_entry_bytes length_value_bytes vlen_def\<close>)
  then show ?case by (simp add: e data_bytes_def add.assoc)
qed

lemma gen_section_image:
  assumes "g_bin st = s0 @ replicate (40 + zs) 0 @ e0 @ replicate (40 * length (sn_entries sec) + ze) 0
      @ d0 @ replicate ((\<Sum>e \<leftarrow> sn_entries sec. vlen e) + zd) 0"
    and "g_section st = length s0" and "g_entry st = length s0 + 40 + zs + length e0"
    and "g_data st = g_entry st + 40 * length (sn_entries sec) + ze + length d0"
    and "length (sn_name sec) \<le> 31" "\<forall>e \<in> set (sn_entries sec). length (en_name e) \<le> 31"
  shows "gen_section bo st sec = \<lparr>
      g_bin = (s0 @ section_bytes bo (g_entry st) sec) @ replicate zs 0
        @ (e0 @ entries_bytes bo (g_data st) (sn_entries sec)) @ replicate ze 0
        @ (d0 @ data_bytes bo (sn_entries sec)) @ replicate zd 0,
      g_section = g_section st + 40, g_entry = g_entry st + 40 * length (sn_entries sec),
      g_data = g_data st + (\<Sum>e \<leftarrow> sn_entries sec. vlen e)\<rparr>"
proof -
  let ?n = "sn_name sec" and ?es = "sn_entries sec" and ?E = "g_entry st" and ?D = "g_data st"
  let ?tail = "replicate zs 0 @ e0 @ replicate (40 * length ?es + ze) 0 @ d0 @ replicate ((\<Sum>e \<leftarrow> ?es. vlen e) + zd) 0"
  have "overwrite (length s0) (bytes_of ?n) (s0 @ replicate (40 + zs) 0 @ drop zs ?tail)
      = s0 @ bytes_of ?n @ replicate (40 + zs - length ?n) 0 @ drop zs ?tail"
    using overwrite_zeros [of s0 "length s0" "bytes_of ?n" "40 + zs"] assms(5) by simp
  moreover have "replicate (40 + zs - length ?n) (0::u8) = replicate (32 - length ?n) 0 @ replicate 4 0 @ replicate 4 0 @ replicate zs 0"
    using assms(5) by (simp add: replicate_add [symmetric])
  ultimately have 1: "overwrite (g_section st) (bytes_of ?n) (g_bin st)
      = (s0 @ name32 ?n @ replicate 4 0) @ replicate 4 0 @ ?tail"
    by (simp add: assms(1,2) name32_def)
  have p36: "length (s0 @ name32 ?n @ replicate 4 0) = g_section st + 36"
    using assms(2,5) by (simp add: length_name32)
  let ?P = "s0 @ name32 ?n @ replicate 4 0 @ store bo 4 (of_nat (?E div 4) :: u32)"
  have 2: "put32 bo (g_section st + 36) (of_nat (?E div 4)) ((s0 @ name32 ?n @ replicate 4 0) @ replicate 4 0 @ ?tail)
      = ?P @ ?tail"
    using put32_zeros [OF p36, of 4 bo _ ?tail] by simp
  let ?st = "st\<lparr>g_bin := ?P @ ?tail\<rparr>"
  have "length (?P @ replicate zs 0 @ e0) = ?E" using assms(3,5) by (simp add: length_name32)
  then have 3: "foldl (gen_entry bo) ?st ?es = ?st\<lparr>
      g_bin := ((?P @ replicate zs 0 @ e0) @ entries_bytes bo ?D ?es) @ replicate ze 0 @ (d0 @ data_bytes bo ?es) @ replicate zd 0,
      g_data := ?D + (\<Sum>e \<leftarrow> ?es. vlen e), g_entry := ?E + 40 * length ?es\<rparr>"
    using gen_entries_image [of ?st "?P @ replicate zs 0 @ e0" ?es ze d0 zd bo] assms(4,6) by simp
  let ?rest = "store bo 4 (of_nat (?E div 4) :: u32) @ replicate zs 0 @ (e0 @ entries_bytes bo ?D ?es) @ replicate ze 0
      @ (d0 @ data_bytes bo ?es) @ replicate zd 0"
  have p32: "length (s0 @ name32 ?n) = g_section st + 32" using assms(2,5) by (simp add: length_name32)
  have 4: "put32 bo (g_section st + 32) (of_nat (length ?es)) ((s0 @ name32 ?n) @ replicate 4 0 @ ?rest)
      = (s0 @ section_bytes bo ?E sec) @ drop 4 ?rest"
    using put32_zeros [OF p32, of 4 bo _ ?rest] by (simp add: section_bytes_def)
  show ?thesis
    unfolding gen_section_def Let_def 1 2 3 using 4 by simp
qed

lemma gen_sections_image:
  assumes "g_bin st = s0 @ replicate (40 * length ss) 0 @ e0 @ replicate (40 * length (all_entries ss)) 0
      @ d0 @ replicate (\<Sum>e \<leftarrow> all_entries ss. vlen e) 0"
    and "g_section st = length s0" and "g_entry st = length s0 + 40 * length ss + length e0"
    and "g_data st = g_entry st + 40 * length (all_entries ss) + length d0" and "names_fit ss"
  shows "g_bin (foldl (gen_section bo) st ss) = (s0 @ sections_bytes bo (g_entry st) ss)
     @ (e0 @ entries_bytes bo (g_data st) (all_entries ss)) @ d0 @ data_bytes bo (all_entries ss)"
  using assms
proof (induction ss arbitrary: st s0 e0 d0)
  case Nil
  then show ?case by (simp add: all_entries_def data_bytes_def)
next
  case (Cons sec ss)
  let ?es = "sn_entries sec" and ?zs = "40 * length ss" and ?ze = "40 * length (all_entries ss)"
  let ?zd = "\<Sum>e \<leftarrow> all_entries ss. vlen e"
  have all: "all_entries (sec # ss) = ?es @ all_entries ss" by (simp add: all_entries_def)
  have fit: "length (sn_name sec) \<le> 31" "\<forall>e \<in> set ?es. length (en_name e) \<le> 31" "names_fit ss"
    using Cons.prems(5) by (simp_all add: names_fit_def)
  have st1: "gen_section bo st sec = \<lparr>
      g_bin = (s0 @ section_bytes bo (g_entry st) sec) @ replicate ?zs 0
        @ (e0 @ entries_bytes bo (g_data st) ?es) @ replicate ?ze 0 @ (d0 @ data_bytes bo ?es) @ replicate ?zd 0,
      g_section = g_section st + 40, g_entry = g_entry st + 40 * length ?es,
      g_data = g_data st + (\<Sum>e \<leftarrow> ?es. vlen e)\<rparr>" (is "_ = ?st")
    by (rule gen_section_image) (use Cons.prems fit in \<open>simp_all add: all add.assoc distrib_left\<close>)
  have "g_bin (foldl (gen_section bo) ?st ss) =
      ((s0 @ section_bytes bo (g_entry st) sec) @ sections_bytes bo (g_entry ?st) ss)
      @ ((e0 @ entries_bytes bo (g_data st) ?es) @ entries_bytes bo (g_data ?st) (all_entries ss))
      @ (d0 @ data_bytes bo ?es) @ data_bytes bo (all_entries ss)"
    by (rule Cons.IH) (use Cons.prems fit in \<open>simp_all add: all section_bytes_def length_name32
      length_entries_bytes length_data_bytes distrib_left\<close>)
  then show ?case by (simp add: st1 all entries_bytes_append data_bytes_append)
qed

definition head_bytes :: "byte_order \<Rightarrow> script \<Rightarrow> bytes" where
  "head_bytes bo s = store bo 4 (of_nat (length s) :: u32) @ store bo 4 (of_nat (fst (script_bin_size s)) :: u32)
     @ store bo 4 (1 :: u32) @ store bo 4 (2 :: u32)"

definition ent0 :: "script \<Rightarrow> nat" where "ent0 s = 16 + 40 * length s"
definition dat0 :: "script \<Rightarrow> nat" where "dat0 s = ent0 s + 40 * length (all_entries s)"

definition bin_image :: "byte_order \<Rightarrow> script \<Rightarrow> bytes" where
  "bin_image bo s = head_bytes bo s @ sections_bytes bo (ent0 s) s @ entries_bytes bo (dat0 s) (all_entries s)
     @ data_bytes bo (all_entries s)"

lemma bin_size_eq:
  "script_bin_size s = (dat0 s + (\<Sum>e \<leftarrow> all_entries s. vlen e), length s, length (all_entries s))"
proof -
  have "(\<Sum>sec \<leftarrow> s. \<Sum>e \<leftarrow> sn_entries sec. WORDS (value_size (en_value e))) * 4 = (\<Sum>e \<leftarrow> all_entries s. vlen e)"
  proof (induction s)
    case (Cons sec s)
    have "(\<Sum>e \<leftarrow> es. WORDS (value_size (en_value e))) * 4 = (\<Sum>e \<leftarrow> es. vlen e)" for es
      by (induction es) (simp_all add: vlen_def)
    then show ?case using Cons by (simp add: all_entries_def distrib_right)
  qed (simp add: all_entries_def)
  moreover have "(\<Sum>sec \<leftarrow> s. length (sn_entries sec)) = length (all_entries s)"
    by (simp add: all_entries_def length_concat o_def)
  ultimately show ?thesis by (simp add: script_bin_size_def Let_def dat0_def ent0_def)
qed

lemma generate_image:
  assumes "names_fit s" and "script_bin_size s = (sz, ns, ne)"
  shows "script_generate_bin bo (replicate sz 0) sz s ns ne = bin_image bo s" and "length (bin_image bo s) = sz"
proof -
  have sz: "sz = dat0 s + (\<Sum>e \<leftarrow> all_entries s. vlen e)" "ns = length s" "ne = length (all_entries s)"
    using assms(2) by (simp_all add: bin_size_eq)
  let ?d = "\<Sum>e \<leftarrow> all_entries s. vlen e"
  have fit: "\<forall>e \<in> set (all_entries s). length (en_name e) \<le> 31" "\<forall>sec \<in> set s. length (sn_name sec) \<le> 31"
    using assms(1) by (auto simp: names_fit_def all_entries_def)
  show "length (bin_image bo s) = sz"
    by (simp add: bin_image_def head_bytes_def sz length_sections_bytes length_entries_bytes fit length_data_bytes
        dat0_def ent0_def)
  define h where "h = put32 bo 12 2 (put32 bo 8 1 (put32 bo 4 (of_nat sz) (put32 bo 0 (of_nat ns) (replicate sz 0))))"
  have "replicate sz (0::u8) = [] @ replicate 16 0 @ replicate (40 * length s) 0 @ [] @ replicate (40 * length (all_entries s)) 0
      @ [] @ replicate ?d 0"
    by (simp add: sz dat0_def ent0_def replicate_add [symmetric])
  then have "h = head_bytes bo s @ replicate (40 * length s) 0 @ [] @ replicate (40 * length (all_entries s)) 0 @ [] @ replicate ?d 0"
    unfolding h_def
    using put32_zeros [of "[]" 0 16 bo "of_nat ns"]
      put32_zeros [of "store bo 4 (of_nat ns :: u32)" 4 12 bo "of_nat sz"]
      put32_zeros [of "store bo 4 (of_nat ns :: u32) @ store bo 4 (of_nat sz :: u32)" 8 8 bo 1]
      put32_zeros [of "store bo 4 (of_nat ns :: u32) @ store bo 4 (of_nat sz :: u32) @ store bo 4 (1 :: u32)" 12 4 bo 2]
    by (simp add: head_bytes_def assms(2) sz(2))
  then have "g_bin (foldl (gen_section bo) \<lparr>g_bin = h, g_section = 16, g_entry = ent0 s, g_data = dat0 s\<rparr> s) = bin_image bo s"
    using gen_sections_image [of "\<lparr>g_bin = h, g_section = 16, g_entry = ent0 s, g_data = dat0 s\<rparr>" "head_bytes bo s" s "[]" "[]" bo]
      assms(1)
    by (simp add: bin_image_def head_bytes_def ent0_def dat0_def)
  then show "script_generate_bin bo (replicate sz 0) sz s ns ne = bin_image bo s"
    by (simp add: script_generate_bin_def Let_def h_def sz(2,3) ent0_def dat0_def mult.commute)
qed

section \<open>Reading the image\<close>

lemma str_of_bytes_of [simp]: "str_of (bytes_of s) = s"
proof -
  have "char_of (unat (of_char c :: u8)) = c" for c
  proof -
    have "(of_char c :: u8) = of_nat (of_char c)" by (cases c) simp
    moreover have "(of_char c :: nat) < 256" by simp
    ultimately have "unat (of_char c :: u8) = of_char c" by (simp add: unsigned_of_nat take_bit_nat_eq_self)
    then show ?thesis by simp
  qed
  then show ?thesis by (simp add: str_of_def bytes_of_def o_def)
qed

definition nul_free :: "string \<Rightarrow> bool" where
  "nul_free s \<longleftrightarrow> CHR 0x00 \<notin> set s"

lemma nul_free_bytes: "nul_free s \<Longrightarrow> 0 \<notin> set (bytes_of s)"
proof
  assume s: "nul_free s" and "0 \<in> set (bytes_of s)"
  then obtain c where c: "c \<in> set s" "of_char c = (0 :: u8)" by (auto simp: bytes_of_def)
  have "str_of (bytes_of [c]) = [c]" by simp
  then have "c = CHR 0x00" using c(2) by (simp add: bytes_of_def str_of_def) (simp add: char_of_def)
  with s c(1) show False by (simp add: nul_free_def)
qed

lemma get32_at: "mem = p @ store bo 4 w @ q \<Longrightarrow> length p = off \<Longrightarrow> get32 bo mem (int off) = Some w"
  using load_store(2) [of bo w] by (simp add: get32_def)

lemma get_str_at:
  assumes "mem = p @ name32 n @ q" and "length p = off" and "nul_free n" and "length n \<le> 31"
  shows "get_str mem off = Some n"
proof -
  have d: "drop off mem = bytes_of n @ 0 # replicate (31 - length n) 0 @ q"
  proof -
    have "32 - length n = Suc (31 - length n)" using assms(4) by simp
    then show ?thesis using assms(1,2) by (simp add: name32_def)
  qed
  have nz: "\<And>b. b \<in> set (bytes_of n) \<Longrightarrow> b \<noteq> 0" using nul_free_bytes [OF assms(3)] by metis
  have "takeWhile (\<lambda>b. b \<noteq> 0) (drop off mem) = bytes_of n" unfolding d by (simp add: takeWhile_append2 nz)
  moreover have "off + length n < length mem" using arg_cong [OF d, of length] by simp
  ultimately show ?thesis by (simp add: get_str_def)
qed

lemma seek_end_at:
  assumes "0 \<notin> set xs" and "length xs \<le> n" and "q \<noteq> []" and "length xs < n \<longrightarrow> hd q = 0"
  shows "seek_end (p @ xs @ q) (length p) n = Some (length xs)"
  using assms
proof (induction xs arbitrary: p n)
  case Nil
  then show ?case by (cases n) (auto simp: nth_append hd_conv_nth)
next
  case (Cons x xs)
  then obtain m where m: "n = Suc m" by (cases n) auto
  have "seek_end ((p @ [x]) @ xs @ q) (length (p @ [x])) m = Some (length xs)"
    by (rule Cons.IH) (use Cons.prems m in auto)
  then show ?case using Cons.prems(1) by (simp add: m nth_append)
qed

lemma high_bits:
  assumes "k < 2 ^ 16" and "16 \<le> i"
  shows "\<not> bit (of_nat k :: u32) i"
proof -
  have "take_bit 16 (of_nat k :: u32) = of_nat k"
    using assms(1) by (simp add: take_bit_of_nat take_bit_nat_eq_self)
  then show ?thesis using assms(2) by (metis bit_take_bit_iff not_le)
qed

lemma pattern_decode:
  assumes "k < 2 ^ 16" and "t < 2 ^ 16"
  defines "w \<equiv> push_bit 16 (of_nat t) OR of_nat k :: u32"
  shows "unat (drop_bit 16 w) = t" and "unat (w AND 0xFFFF) = k"
proof -
  have m: "(0xFFFF :: u32) = mask 16" by (simp add: mask_eq_exp_minus_1)
  have kb: "\<not> bit (of_nat k :: u32) i" and tb: "\<not> bit (of_nat t :: u32) i" if "16 \<le> i" for i
    using high_bits [OF assms(1) that] high_bits [OF assms(2) that] by simp_all
  have "drop_bit 16 w = (of_nat t :: u32)"
  proof (rule bit_eqI)
    show "bit (drop_bit 16 w) n = bit (of_nat t :: u32) n" for n
      using kb [of "16 + n"] tb [of n] by (cases "16 \<le> n") (auto simp: w_def bit_simps)
  qed
  then show "unat (drop_bit 16 w) = t" using assms(2) by (simp add: unsigned_of_nat take_bit_nat_eq_self)
  have "w AND 0xFFFF = (of_nat k :: u32)"
    unfolding m
  proof (rule bit_eqI)
    show "bit (w AND mask 16) n = bit (of_nat k :: u32) n" for n
      using kb [of n] by (cases "16 \<le> n") (auto simp: w_def bit_simps)
  qed
  then show "unat (w AND 0xFFFF) = k" using assms(1) by (simp add: unsigned_of_nat take_bit_nat_eq_self)
qed

section \<open>Round trip\<close>

text \<open>The scripts the binary form can hold: names of one to 31 characters, ports the decompiler accepts,
  strings that fit the 16-bit word count, no NUL in any text.\<close>

definition value_ok :: "script_value \<Rightarrow> bool" where
  "value_ok v = (case v of
      Single_word _ \<Rightarrow> True
    | String_value s \<Rightarrow> nul_free s \<and> WORDS (length s) < 2 ^ 16
    | Gpio port num d \<Rightarrow> (port = 0xFFFF \<or> 1 \<le> uint port \<and> uint port \<le> int GPIO_BANK_MAX) \<and> length d = 4
    | Null_value \<Rightarrow> True)"

definition bin_entry_ok :: "script_entry \<Rightarrow> bool" where
  "bin_entry_ok e \<longleftrightarrow> en_name e \<noteq> [] \<and> length (en_name e) \<le> 31 \<and> nul_free (en_name e) \<and> value_ok (en_value e)"

definition bin_section_ok :: "script_section \<Rightarrow> bool" where
  "bin_section_ok sec \<longleftrightarrow> sn_name sec \<noteq> [] \<and> length (sn_name sec) \<le> 31 \<and> nul_free (sn_name sec)
     \<and> list_all bin_entry_ok (sn_entries sec)"

lemma sint_of_nat: "n < 2 ^ 31 \<Longrightarrow> sint (of_nat n :: u32) = int n"
  by (simp add: sint_uint unsigned_of_nat take_bit_nat_eq_self signed_take_bit_int_eq_self)

lemma words_small: "value_ok v \<Longrightarrow> WORDS (value_size v) < 2 ^ 16"
  by (cases v) (simp_all add: value_ok_def value_size_def WORDS_def)

lemma port_ok:
  assumes "value_ok (Gpio port num d)"
  shows "port = 0xFFFF \<or> \<not> (sint port < 1 \<or> sint port > int GPIO_BANK_MAX)"
proof (cases "port = 0xFFFF")
  case False
  then have "1 \<le> uint port" "uint port \<le> 14" using assms by (simp_all add: value_ok_def GPIO_BANK_MAX_def)
  moreover from this have "sint port = uint port" by (simp add: sint_uint signed_take_bit_int_eq_self)
  ultimately show ?thesis by (simp add: GPIO_BANK_MAX_def)
qed simp

lemma decompile_entry_image:
  assumes e: "bin_entry_ok e" and ent: "mem = p @ entry_bytes bo dat e @ q" "length p = entry"
    and val: "mem = pd @ value_bytes bo (en_value e) @ qd" "length pd = dat" "qd \<noteq> []"
    and al: "4 dvd dat" "dat < 2 ^ 31"
  shows "decompile_entry bo mem entry sec = Ret (script_entry_append sec (en_value e) (en_name e))"
proof -
  let ?v = "en_value e" and ?n = "en_name e"
  let ?k = "WORDS (value_size ?v)" and ?t = "value_type ?v"
  have ok: "?n \<noteq> []" "length ?n \<le> 31" "nul_free ?n" "value_ok ?v" using e by (simp_all add: bin_entry_ok_def)
  have l32: "length (p @ name32 ?n) = entry + 32" using ent(2) ok(2) by (simp add: length_name32)
  have off: "get32 bo mem (int entry + 32) = Some (of_nat (dat div 4))"
    using get32_at [OF _ l32, of mem bo "of_nat (dat div 4)"] ent(1) by (simp add: entry_bytes_def)
  have pat: "get32 bo mem (int entry + 36) = Some (entry_pattern ?v)"
    using get32_at [of mem "p @ name32 ?n @ store bo 4 (of_nat (dat div 4) :: u32)" bo "entry_pattern ?v" q "entry + 36"]
      ent(1) l32 by (simp add: entry_bytes_def)
  have name: "get_str mem entry = Some ?n"
    by (rule get_str_at [of _ p]) (use ent ok in \<open>simp_all add: entry_bytes_def\<close>)
  have dat: "4 * sint (of_nat (dat div 4) :: u32) = int dat"
    using al by (auto simp: sint_of_nat elim!: dvdE)
  then have nonneg: "\<not> sint (of_nat (dat div 4) :: u32) < 0" by linarith
  have t: "unat (drop_bit 16 (entry_pattern ?v)) = ?t" and k: "unat (entry_pattern ?v AND 0xFFFF) = ?k"
    using pattern_decode [OF words_small [OF ok(4)], of ?t]
    by (simp_all add: entry_pattern_def value_type_def split: script_value.split)
  have dec: "decompile_entry bo mem entry sec =
     (if ?t = 1 then of_opt (\<lambda>v. script_single_entry_new sec ?n v) (get32 bo mem (int dat))
      else if ?t = 2 then
        of_opt (\<lambda>l. script_string_entry_new sec ?n (str_of (take l (drop dat mem)))) (seek_end mem dat (4 * ?k))
      else if ?t = 4 then
        of_opt (\<lambda>port.
          if ?k = 6 \<and> port \<noteq> 0xFFFF \<and> (sint port < 1 \<or> sint port > int GPIO_BANK_MAX) then Err Unknown_port
          else of_opt (\<lambda>v0. of_opt (\<lambda>v1. of_opt (\<lambda>v2. of_opt (\<lambda>v3. of_opt (\<lambda>num.
                 script_gpio_entry_new sec ?n port num [v0, v1, v2, v3])
               (get32 bo mem (int dat + 4))) (get32 bo mem (int dat + 20))) (get32 bo mem (int dat + 16)))
               (get32 bo mem (int dat + 12))) (get32 bo mem (int dat + 8))) (get32 bo mem (int dat))
      else if ?t = 5 then script_null_entry_new sec ?n else Err Unknown_type)"
    using ok(1) by (simp add: decompile_entry_def off pat name dat nonneg t k Let_def of_opt_def [of _ "Some _"] cong: if_cong)
  show ?thesis
  proof (cases ?v)
    case (Single_word w)
    have "get32 bo mem (int dat) = Some w"
      by (rule get32_at [OF _ val(2)]) (use val(1) in \<open>simp add: Single_word value_bytes_def\<close>)
    then show ?thesis
      using ok by (simp add: dec of_opt_def Single_word value_type_def script_single_entry_new_def)
  next
    case (String_value s)
    have s: "nul_free s" using ok(4) by (simp add: String_value value_ok_def)
    let ?z = "replicate ((length s + 3) div 4 * 4 - length s) (0 :: u8) @ qd"
    have mem: "mem = pd @ bytes_of s @ ?z" using val(1) by (simp add: String_value value_bytes_def)
    have "seek_end (pd @ bytes_of s @ ?z) (length pd) (4 * ?k) = Some (length (bytes_of s))"
    proof (rule seek_end_at)
      show "length (bytes_of s) < 4 * ?k \<longrightarrow> hd ?z = 0"
        by (auto simp: String_value value_size_def WORDS_def hd_append)
    qed (use val(3) nul_free_bytes [OF s] in \<open>simp_all add: String_value value_size_def WORDS_def\<close>)
    then have "seek_end mem dat (4 * ?k) = Some (length s)" by (simp only: mem val(2) length_bytes_of)
    moreover have "str_of (take (length s) (drop dat mem)) = s" by (simp add: mem val(2))
    ultimately show ?thesis
      by (simp add: dec of_opt_def String_value value_type_def script_string_entry_new_def)
  next
    case (Gpio port num d)
    have d: "length d = 4" using ok(4) by (simp add: Gpio value_ok_def)
    then have d4: "[d ! 0, d ! 1, d ! 2, d ! 3] = d" by (auto simp: list_eq_iff_nth_eq less_Suc_eq numeral_eq_Suc)
    have at: "get32 bo mem (int (dat + i)) = Some w" if "mem = (pd @ x) @ store bo 4 w @ y" "length x = i" for i x w y
      by (rule get32_at [OF that(1)]) (use that(2) val(2) in simp)
    note mem = val(1) [unfolded Gpio value_bytes_def script_value.case]
    have r: "get32 bo mem (int dat) = Some port" "get32 bo mem (int dat + 4) = Some num"
      "get32 bo mem (int dat + 8) = Some (d ! 0)" "get32 bo mem (int dat + 12) = Some (d ! 1)"
      "get32 bo mem (int dat + 16) = Some (d ! 2)" "get32 bo mem (int dat + 20) = Some (d ! 3)"
      using at [of "[]" port _ 0] at [of "store bo 4 port" num _ 4] at [of "store bo 4 port @ store bo 4 num" "d ! 0" _ 8]
        at [of "store bo 4 port @ store bo 4 num @ store bo 4 (d ! 0)" "d ! 1" _ 12]
        at [of "store bo 4 port @ store bo 4 num @ store bo 4 (d ! 0) @ store bo 4 (d ! 1)" "d ! 2" _ 16]
        at [of "store bo 4 port @ store bo 4 num @ store bo 4 (d ! 0) @ store bo 4 (d ! 1) @ store bo 4 (d ! 2)" "d ! 3" _ 20]
        mem by (simp_all add: val(2))
    show ?thesis
      using ok port_ok [of port num d] d
      by (simp add: dec of_opt_def r Gpio value_type_def script_gpio_entry_new_def d4 [unfolded One_nat_def])
  next
    case Null_value
    then show ?thesis
      using ok by (simp add: dec of_opt_def value_type_def script_null_entry_new_def)
  qed
qed

lemma vlen_dvd [simp]: "4 dvd vlen e"
  by (simp add: vlen_def)

lemma vlens_dvd: "4 dvd (\<Sum>e \<leftarrow> es. vlen e)"
  by (induction es) simp_all

lemma decompile_entries_image:
  assumes "list_all bin_entry_ok es" and "mem = p @ entries_bytes bo dat es @ q" "length p = entry"
    and "mem = pd @ data_bytes bo es @ qd" "length pd = dat" "qd \<noteq> []" and "4 dvd dat" "length mem < 2 ^ 31"
  shows "decompile_entries bo mem entry (length es) (ss @ [sec])
    = Ret (ss @ [sec\<lparr>sn_entries := sn_entries sec @ es\<rparr>])"
  using assms
proof (induction es arbitrary: sec p pd entry dat)
  case Nil
  then show ?case by simp
next
  case (Cons e es)
  have ok: "bin_entry_ok e" "length (en_name e) \<le> 31" using Cons.prems(1) by (simp_all add: bin_entry_ok_def)
  have val: "mem = pd @ value_bytes bo (en_value e) @ data_bytes bo es @ qd"
    using Cons.prems(4) by (simp add: data_bytes_def)
  have small: "dat < 2 ^ 31" using Cons.prems(4,5,8) by simp
  have one: "decompile_entry bo mem entry sec = Ret (script_entry_append sec (en_value e) (en_name e))"
    by (rule decompile_entry_image [OF ok(1) _ Cons.prems(3) val Cons.prems(5)])
      (use Cons.prems small in simp_all)
  let ?sec = "sec\<lparr>sn_entries := sn_entries sec @ [e]\<rparr>"
  have app: "script_entry_append sec (en_value e) (en_name e) = ?sec"
    using ok(2) by (simp add: script_entry_append_def name_field_id)
  have "decompile_entries bo mem (entry + 40) (length es) (ss @ [?sec])
      = Ret (ss @ [?sec\<lparr>sn_entries := sn_entries ?sec @ es\<rparr>])"
  proof (rule Cons.IH)
    show "mem = (p @ entry_bytes bo dat e) @ entries_bytes bo (dat + vlen e) es @ q"
      using Cons.prems(2) by simp
    show "mem = (pd @ value_bytes bo (en_value e)) @ data_bytes bo es @ qd" using val by simp
  qed (use Cons.prems ok in \<open>simp_all add: length_entry_bytes length_value_bytes vlen_def\<close>)
  then show ?case by (simp add: on_last_append one app)
qed

lemma to_int32_small: "n < 2 ^ 31 \<Longrightarrow> to_int32 (int n) = int n"
  by simp

lemma decompile_section_image:
  assumes ok: "bin_section_ok sec" and sec: "mem = p @ section_bytes bo ent sec @ q" "length p = section"
    and ent: "mem = pe @ entries_bytes bo dat (sn_entries sec) @ qe" "length pe = ent" "4 dvd ent"
      "ent + 40 * length (sn_entries sec) \<le> bin_size"
    and dat: "mem = pd @ data_bytes bo (sn_entries sec) @ qd" "length pd = dat" "4 dvd dat" "qd \<noteq> []"
    and small: "length mem < 2 ^ 31" "bin_size \<le> length mem"
  shows "decompile_section bo mem bin_size section ss = Ret (ss @ [sec])"
proof -
  let ?n = "sn_name sec" and ?es = "sn_entries sec"
  have n: "?n \<noteq> []" "length ?n \<le> 31" "nul_free ?n" "list_all bin_entry_ok ?es"
    using ok by (simp_all add: bin_section_ok_def)
  have l32: "length (p @ name32 ?n) = section + 32" using sec(2) n(2) by (simp add: length_name32)
  have len: "get32 bo mem (int section + 32) = Some (of_nat (length ?es))"
    using get32_at [OF _ l32, of mem bo "of_nat (length ?es)"] sec(1) by (simp add: section_bytes_def)
  have off: "get32 bo mem (int section + 36) = Some (of_nat (ent div 4))"
    using get32_at [of mem "p @ name32 ?n @ store bo 4 (of_nat (length ?es) :: u32)" bo "of_nat (ent div 4)" q "section + 36"]
      sec(1) l32 by (simp add: section_bytes_def)
  have name: "get_str mem section = Some ?n"
    by (rule get_str_at [of _ p]) (use sec n in \<open>simp_all add: section_bytes_def\<close>)
  have s: "sint (of_nat (ent div 4) :: u32) = int (ent div 4)" "sint (of_nat (length ?es) :: u32) = int (length ?es)"
    using ent(4) small by (simp_all add: sint_of_nat)
  have e4: "4 * (ent div 4) = ent" using ent(3) by simp
  have sz: "to_int32 (int bin_size - 4 * int (ent div 4)) = int (bin_size - ent)"
  proof -
    have "int bin_size - 4 * int (ent div 4) = int (bin_size - ent)" using e4 ent(4) by linarith
    then show ?thesis using to_int32_small [of "bin_size - ent"] small by simp
  qed
  have lenok: "length ?es \<le> (bin_size - ent) div 40" using ent(4) by linarith
  have "decompile_entries bo mem ent (length ?es) (ss @ [\<lparr>sn_name = ?n, sn_entries = []\<rparr>]) = Ret (ss @ [sec])"
    using decompile_entries_image [OF n(4) ent(1,2) dat(1,2,4,3) small(1), of ss "\<lparr>sn_name = ?n, sn_entries = []\<rparr>"]
    by simp
  moreover have "to_int32 (int (bin_size div 4)) = int (bin_size div 4)" using small by (intro to_int32_small) simp
  moreover have "ent div 4 \<le> bin_size div 4" using ent(4) by (intro div_le_mono) simp
  moreover have "\<not> int (length ?es) > int (bin_size - ent) sdiv 40" using lenok by (simp add: sdiv_nonneg flip: of_nat_div)
  ultimately show ?thesis
    using n by (simp add: decompile_section_def of_opt_def len off name s sz e4 script_section_new_def name_field_id Let_def)
qed

lemma decompile_sections_image:
  assumes "list_all bin_section_ok ss" and "mem = p @ sections_bytes bo ent ss @ q" "length p = section"
    and "mem = pe @ entries_bytes bo dat (all_entries ss) @ qe" "length pe = ent" "4 dvd ent"
      "ent + 40 * length (all_entries ss) \<le> bin_size"
    and "mem = pd @ data_bytes bo (all_entries ss) @ qd" "length pd = dat" "4 dvd dat" "qd \<noteq> []"
    and "length mem < 2 ^ 31" "bin_size \<le> length mem"
  shows "decompile_sections bo mem bin_size section (length ss) acc = Ret (acc @ ss)"
  using assms
proof (induction ss arbitrary: acc p pe pd "section" ent dat)
  case Nil
  then show ?case by simp
next
  case (Cons sec ss)
  let ?es = "sn_entries sec"
  have all: "all_entries (sec # ss) = ?es @ all_entries ss" by (simp add: all_entries_def)
  have ok: "bin_section_ok sec" "length (sn_name sec) \<le> 31" "\<forall>e \<in> set ?es. length (en_name e) \<le> 31"
    using Cons.prems(1) by (auto simp: bin_section_ok_def bin_entry_ok_def list_all_iff)
  let ?dat = "dat + (\<Sum>e \<leftarrow> ?es. vlen e)"
  have ents: "mem = pe @ entries_bytes bo dat ?es @ entries_bytes bo ?dat (all_entries ss) @ qe"
    using Cons.prems(4) by (simp add: all entries_bytes_append)
  have dats: "mem = pd @ data_bytes bo ?es @ data_bytes bo (all_entries ss) @ qd"
    using Cons.prems(8) by (simp add: all data_bytes_append)
  have dvd: "4 dvd (\<Sum>e \<leftarrow> ?es. vlen e)" by (rule vlens_dvd)
  have one: "decompile_section bo mem bin_size section acc = Ret (acc @ [sec])"
    by (rule decompile_section_image [OF ok(1) _ Cons.prems(3) ents Cons.prems(5,6) _ dats Cons.prems(9,10)])
      (use Cons.prems in \<open>simp_all add: all\<close>)
  have "decompile_sections bo mem bin_size (section + 40) (length ss) (acc @ [sec]) = Ret ((acc @ [sec]) @ ss)"
  proof (rule Cons.IH)
    show "mem = (p @ section_bytes bo ent sec) @ sections_bytes bo (ent + 40 * length ?es) ss @ q"
      using Cons.prems(2) by simp
    show "mem = (pe @ entries_bytes bo dat ?es) @ entries_bytes bo ?dat (all_entries ss) @ qe" using ents by simp
    show "mem = (pd @ data_bytes bo ?es) @ data_bytes bo (all_entries ss) @ qd" using dats by simp
  qed (use Cons.prems ok dvd in \<open>simp_all add: all section_bytes_def length_name32 length_entries_bytes length_data_bytes\<close>)
  then show ?case by (simp add: one)
qed

lemma bin_roundtrip:
  assumes "list_all bin_section_ok s" and "length s \<le> 0x100" and "script_bin_size s = (sz, ns, ne)"
    and "sz + length after < 2 ^ 31" and "after \<noteq> []"
  shows "let bin = script_generate_bin bo (replicate sz 0) sz s ns ne in
    length bin = sz \<and> script_decompile_bin bo bin after script_new = Ret s"
proof -
  have fit: "names_fit s"
    using assms(1) by (auto simp: names_fit_def bin_section_ok_def bin_entry_ok_def list_all_iff)
  note img = generate_image [OF fit assms(3), of bo]
  let ?mem = "bin_image bo s @ after"
  have mem: "?mem = head_bytes bo s @ sections_bytes bo (ent0 s) s @ entries_bytes bo (dat0 s) (all_entries s)
      @ data_bytes bo (all_entries s) @ after"
    by (simp add: bin_image_def)
  have names: "\<forall>e \<in> set (all_entries s). length (en_name e) \<le> 31" "\<forall>sec \<in> set s. length (sn_name sec) \<le> 31"
    using fit by (auto simp: names_fit_def all_entries_def)
  have pos: "4 dvd ent0 s" "4 dvd dat0 s" "dat0 s \<le> sz"
    using assms(3) by (auto simp: ent0_def dat0_def bin_size_eq intro: dvd_add)
  have len: "length ?mem < 2 ^ 31" using img(2) assms(4) by simp
  have secs: "decompile_sections bo ?mem sz 16 (length s) [] = Ret ([] @ s)"
  proof (rule decompile_sections_image [OF assms(1)])
    show "?mem = head_bytes bo s @ sections_bytes bo (ent0 s) s
        @ (entries_bytes bo (dat0 s) (all_entries s) @ data_bytes bo (all_entries s) @ after)"
      by (rule mem)
    show "?mem = (head_bytes bo s @ sections_bytes bo (ent0 s) s) @ entries_bytes bo (dat0 s) (all_entries s)
        @ (data_bytes bo (all_entries s) @ after)"
      using mem by simp
    show "?mem = (head_bytes bo s @ sections_bytes bo (ent0 s) s @ entries_bytes bo (dat0 s) (all_entries s))
        @ data_bytes bo (all_entries s) @ after"
      using mem by simp
    show "ent0 s + 40 * length (all_entries s) \<le> sz" using pos(3) by (simp add: dat0_def)
  qed (use pos len img assms(5) names in \<open>simp_all add: head_bytes_def length_sections_bytes length_entries_bytes ent0_def dat0_def\<close>)
  have head: "get32 bo ?mem 0 = Some (of_nat (length s))" "get32 bo ?mem 8 = Some 1" "get32 bo ?mem 12 = Some 2"
    using get32_at [of ?mem "[]" bo "of_nat (length s)" _ 0]
      get32_at [of ?mem "store bo 4 (of_nat (length s) :: u32) @ store bo 4 (of_nat (fst (script_bin_size s)) :: u32)" bo 1 _ 8]
      get32_at [of ?mem "store bo 4 (of_nat (length s) :: u32) @ store bo 4 (of_nat (fst (script_bin_size s)) :: u32)
        @ store bo 4 (1 :: u32)" bo 2 _ 12]
    by (simp_all add: bin_image_def head_bytes_def)
  have n: "unat (of_nat (length s) :: u32) = length s" using assms(2) by (simp add: unsigned_of_nat take_bit_nat_eq_self)
  have lim: "\<not> (of_nat (length s) :: u32) > SCRIPT_BIN_SECTION_LIMIT"
    using assms(2) n by (simp add: word_less_nat_alt SCRIPT_BIN_SECTION_LIMIT_def)
  show ?thesis
    using secs lim img
    by (simp add: script_decompile_bin_def of_opt_def head n script_new_def SCRIPT_BIN_VERSION_LIMIT_def Let_def)
qed

text \<open>C14. What \<open>script_generate_bin\<close> writes into a zeroed buffer of the size \<open>script_bin_size\<close> computes is
  exactly that long, and \<open>script_decompile_bin\<close> reads the same script back, section by section and
  entry by entry, on a host of either byte order, provided at least one more byte of memory follows the
  file image.\<close>

theorem script_bin_roundtrip:
  assumes "list_all bin_section_ok s" and "length s \<le> 0x100" and "script_bin_size s = (sz, ns, ne)"
    and "sz + length after < 2 ^ 31" and "after \<noteq> []"
  shows "let bin = script_generate_bin bo (replicate sz 0) sz s ns ne in
    length bin = sz \<and> script_decompile_bin bo bin after script_new = Ret s"
  using assms by (rule bin_roundtrip)

definition demo_script :: script where
  "demo_script = [\<lparr>sn_name = ''uart'', sn_entries = [
     \<lparr>en_name = ''port'', en_value = Single_word 3\<rparr>,
     \<lparr>en_name = ''tx'', en_value = Gpio 2 22 [2, -1, -1, -1]\<rparr>,
     \<lparr>en_name = ''label'', en_value = String_value ''tty0''\<rparr>]\<rparr>]"

theorem script_bin_roundtrip_witness:
  "script_decompile_bin Little_endian
     (script_generate_bin Little_endian (replicate 208 0) 208 demo_script 1 3) [0] script_new = Ret demo_script"
proof -
  have "list_all bin_section_ok demo_script"
    by (simp add: demo_script_def bin_section_ok_def bin_entry_ok_def value_ok_def nul_free_def WORDS_def GPIO_BANK_MAX_def)
  moreover have "script_bin_size demo_script = (208, 1, 3)"
    by (simp add: demo_script_def script_bin_size_def WORDS_def value_size_def)
  ultimately show ?thesis
    using script_bin_roundtrip [of demo_script 208 1 3 "[0]" Little_endian] by (simp add: demo_script_def Let_def)
qed

text \<open>Without memory behind the image the loop that seeks the end of a string reads one byte past it when
  the last string fills its words.\<close>

lemma decompile_reads_past_end:
  "script_decompile_bin Little_endian (script_generate_bin Little_endian (replicate 100 0) 100
     [\<lparr>sn_name = ''u'', sn_entries = [\<lparr>en_name = ''l'', en_value = String_value ''tty0''\<rparr>]\<rparr>] 1 1) [] script_new = Undef"
  by code_simp

end
