(* ===== verification/CText.thy ===== *)
theory CText
  imports Prelude
begin

text \<open>
  What the tools use of the C library's character classes, number scanning and number printing, on
  character lists: \<open>isspace\<close>, \<open>isblank\<close>, \<open>isalnum\<close>, \<open>strtol\<close> with its bases and saturation, and the
  conversions \<open>%d\<close>, \<open>%u\<close>, \<open>%x\<close> and zero padding, with the lemmas that scanning a printed number gives the
  number back.
\<close>

section \<open>Character classes of the C locale\<close>

definition isspace :: "char \<Rightarrow> bool" where
  "isspace c \<longleftrightarrow> c \<in> set [CHR 0x20, CHR 0x09, CHR 0x0A, CHR 0x0B, CHR 0x0C, CHR 0x0D]"

definition isblank :: "char \<Rightarrow> bool" where
  "isblank c \<longleftrightarrow> c = CHR 0x20 \<or> c = CHR 0x09"

definition in_range :: "char \<Rightarrow> char \<Rightarrow> char \<Rightarrow> bool" where
  "in_range a b c \<longleftrightarrow> (of_char a :: nat) \<le> of_char c \<and> (of_char c :: nat) \<le> of_char b"

definition isdigit :: "char \<Rightarrow> bool" where "isdigit c \<longleftrightarrow> in_range CHR ''0'' CHR ''9'' c"

definition isalnum :: "char \<Rightarrow> bool" where
  "isalnum c \<longleftrightarrow> isdigit c \<or> in_range CHR ''a'' CHR ''z'' c \<or> in_range CHR ''A'' CHR ''Z'' c"

definition tolower :: "char \<Rightarrow> char" where
  "tolower c = (if in_range CHR ''A'' CHR ''Z'' c then char_of (of_char c + 32 :: nat) else c)"

section \<open>Numbers\<close>

definition digit_val :: "char \<Rightarrow> nat" where
  "digit_val c =
     (if in_range CHR ''0'' CHR ''9'' c then of_char c - 48
      else if in_range CHR ''a'' CHR ''z'' c then of_char c - 87
      else if in_range CHR ''A'' CHR ''Z'' c then of_char c - 55 else 36)"

definition is_digit :: "nat \<Rightarrow> char \<Rightarrow> bool" where
  "is_digit base c \<longleftrightarrow> digit_val c < base"

definition num_val :: "nat \<Rightarrow> string \<Rightarrow> nat" where
  "num_val base ds = foldl (\<lambda>n c. n * base + digit_val c) 0 ds"

definition digit_char :: "nat \<Rightarrow> char" where
  "digit_char d = (if d < 10 then char_of (48 + d) else char_of (87 + d))"

fun show_base :: "nat \<Rightarrow> nat \<Rightarrow> string" where
  "show_base b n =
     (if b < 2 \<or> n < b then [digit_char n] else show_base b (n div b) @ [digit_char (n mod b)])"

declare show_base.simps [simp del]

definition show_nat :: "nat \<Rightarrow> string" where "show_nat n = show_base 10 n"

definition show_int :: "int \<Rightarrow> string" where
  "show_int i = (if i < 0 then CHR ''-'' # show_nat (nat (- i)) else show_nat (nat i))"

definition show_hex :: "nat \<Rightarrow> string" where "show_hex n = show_base 16 n"

definition pad0 :: "nat \<Rightarrow> string \<Rightarrow> string" where
  "pad0 w s = replicate (w - length s) CHR ''0'' @ s"

subsection \<open>Scanning\<close>

text \<open>The sign and prefix of a number for base 0 or a fixed base, and the conversion: the value, clamped
  to the 64-bit range, and the text behind the number. \<open>None\<close> stands for no conversion, which leaves the
  end pointer at the start.\<close>

definition split_sign :: "string \<Rightarrow> bool \<times> string" where
  "split_sign s = (case s of [] \<Rightarrow> (False, [])
     | c # cs \<Rightarrow> if c = CHR ''-'' then (True, cs) else if c = CHR ''+'' then (False, cs) else (False, s))"

definition split_base :: "nat \<Rightarrow> string \<Rightarrow> nat \<times> string" where
  "split_base base s =
     (if base \<noteq> 0 then (base, s)
      else case s of
          z # x # d # r \<Rightarrow>
            if z = CHR ''0'' \<and> (x = CHR ''x'' \<or> x = CHR ''X'') \<and> is_digit 16 d then (16, d # r)
            else if z = CHR ''0'' then (8, s) else (10, s)
        | z # r \<Rightarrow> if z = CHR ''0'' then (8, s) else (10, s)
        | [] \<Rightarrow> (10, []))"

definition strtol :: "nat \<Rightarrow> string \<Rightarrow> (int \<times> string) option" where
  "strtol base s =
     (let (neg, s1) = split_sign (dropWhile isspace s);
          (b, s2) = split_base base s1;
          ds = takeWhile (is_digit b) s2
      in if ds = [] then None
         else let v = int (num_val b ds); v = (if neg then - v else v)
              in Some (max (- (2 ^ 63)) (min (2 ^ 63 - 1) v), drop (length ds) s2))"

section \<open>Reading lines\<close>

text \<open>What \<open>fgets\<close> with a buffer of \<open>n + 1\<close> characters takes from the file.\<close>

definition fgets :: "nat \<Rightarrow> string \<Rightarrow> string \<times> string" where
  "fgets n f = (let m = min n (length (takeWhile (\<lambda>c. c \<noteq> CHR 0x0A) f) + 1) in (take m f, drop m f))"

lemma fgets_newline: "CHR 0x0A \<notin> set (butlast (fst (fgets n f)))"
proof -
  define k where "k = length (takeWhile (\<lambda>c. c \<noteq> CHR 0x0A) f)"
  have "take k f = takeWhile (\<lambda>c. c \<noteq> CHR 0x0A) f" by (simp add: k_def takeWhile_eq_take [symmetric])
  then have "CHR 0x0A \<notin> set (take k f)" by (auto dest: set_takeWhileD)
  moreover have "set (butlast (take (min n (k + 1)) f)) \<subseteq> set (take k f)"
    unfolding butlast_conv_take take_take by (rule set_take_subset_set_take) simp
  ultimately show ?thesis by (auto simp: fgets_def k_def [symmetric] Let_def)
qed

section \<open>Scanning what was printed\<close>

lemma of_char_bounds:
  "of_char CHR ''0'' = (48 :: nat)" "of_char CHR ''9'' = (57 :: nat)" "of_char CHR ''a'' = (97 :: nat)"
  "of_char CHR ''z'' = (122 :: nat)" "of_char CHR ''A'' = (65 :: nat)" "of_char CHR ''Z'' = (90 :: nat)"
  by simp_all

lemma digit_char_val: "d < 16 \<Longrightarrow> digit_val (digit_char d) = d"
  by (auto simp: digit_char_def digit_val_def in_range_def of_char_bounds)

lemma digit_val_sound: "is_digit b c \<Longrightarrow> b \<le> 10 \<Longrightarrow> isdigit c"
  by (auto simp: is_digit_def digit_val_def isdigit_def in_range_def of_char_bounds split: if_splits)

lemma mod_digit: "2 \<le> b \<Longrightarrow> b \<le> 16 \<Longrightarrow> digit_val (digit_char (n mod b)) = n mod b"
  by (rule digit_char_val, rule less_le_trans [of _ b]) auto

lemma num_val_snoc: "num_val b (ds @ [c]) = num_val b ds * b + digit_val c"
  by (simp add: num_val_def)

lemma show_base_value:
  assumes "2 \<le> b" and "b \<le> 16"
  shows "num_val b (show_base b n) = n"
  using assms
proof (induction b n rule: show_base.induct)
  case (1 b n)
  show ?case
  proof (cases "n < b")
    case True
    then show ?thesis using 1 by (simp add: show_base.simps [of b n] num_val_def digit_char_val)
  next
    case False
    then have "num_val b (show_base b (n div b)) = n div b" using 1 by simp
    moreover have "digit_val (digit_char (n mod b)) = n mod b" using 1(2,3) by (rule mod_digit)
    ultimately show ?thesis using False 1(2) by (simp add: show_base.simps [of b n] num_val_snoc)
  qed
qed

lemma show_base_digits:
  assumes "2 \<le> b" and "b \<le> 16"
  shows "list_all (is_digit b) (show_base b n)"
  using assms
proof (induction b n rule: show_base.induct)
  case (1 b n)
  have "is_digit b (digit_char (n mod b))"
    using 1(2,3) by (simp add: is_digit_def mod_digit)
  with 1 show ?case
    by (cases "n < b") (auto simp: show_base.simps [of b n])
qed

lemma show_base_nonempty [simp]: "show_base b n \<noteq> []"
  by (simp add: show_base.simps [of b n])

text \<open>The first digit of a printed number is not a zero, unless the number is zero.\<close>

lemma digit_char_zero: "d < 16 \<Longrightarrow> digit_char d = CHR ''0'' \<Longrightarrow> d = 0"
  using digit_char_val [of d] by (simp add: digit_val_def in_range_def of_char_bounds)

lemma show_base_first:
  assumes "2 \<le> b" and "b \<le> 16" and "0 < n"
  shows "hd (show_base b n) \<noteq> CHR ''0''"
  using assms
proof (induction b n rule: show_base.induct)
  case (1 b n)
  show ?case
  proof (cases "n < b")
    case True
    then show ?thesis using 1 digit_char_zero [of n] by (auto simp: show_base.simps [of b n])
  next
    case False
    then have "hd (show_base b (n div b)) \<noteq> CHR ''0''" using 1 by (simp add: div_greater_zero_iff)
    then show ?thesis using False 1(2) by (simp add: show_base.simps [of b n])
  qed
qed

lemma takeWhile_digits:
  "list_all P ds \<Longrightarrow> r = [] \<or> \<not> P (hd r) \<Longrightarrow> takeWhile P (ds @ r) = ds"
  by (induction ds) (auto simp: takeWhile_eq_Nil_iff)

lemma digit_not_space: "is_digit b c \<Longrightarrow> b \<le> 36 \<Longrightarrow> \<not> isspace c \<and> c \<noteq> CHR ''-'' \<and> c \<noteq> CHR ''+''"
  by (auto simp: is_digit_def digit_val_def isspace_def in_range_def of_char_bounds split: if_splits)

lemma split_sign_digit: "is_digit b c \<Longrightarrow> b \<le> 36 \<Longrightarrow> split_sign (c # s) = (False, c # s)"
  using digit_not_space [of b c] by (simp add: split_sign_def)

lemma split_sign_minus: "split_sign (CHR ''-'' # s) = (True, s)"
  by (simp add: split_sign_def)

lemma digits_nonempty: "ds \<noteq> [] \<Longrightarrow> list_all P ds \<Longrightarrow> \<exists>c cs. ds = c # cs \<and> P c"
  by (cases ds) auto

lemma strtol_digits:
  assumes ds: "ds \<noteq> []" "list_all (is_digit b) ds" and b: "0 < b" "b \<le> 36" and r: "r = [] \<or> \<not> is_digit b (hd r)"
    and small: "num_val b ds < 2 ^ 63"
  shows "strtol b (ds @ r) = Some (int (num_val b ds), r)"
proof -
  obtain c cs where c: "ds = c # cs" "is_digit b c" using digits_nonempty [OF ds] by blast
  have drop: "dropWhile isspace (ds @ r) = ds @ r" using c digit_not_space [of b c] b by simp
  have sign: "split_sign (ds @ r) = (False, ds @ r)" using c split_sign_digit [of b c] b by simp
  have "int (num_val b ds) < 2 ^ 63" using small by (metis of_nat_less_iff of_nat_numeral of_nat_power)
  then show ?thesis using b ds r
    by (simp add: strtol_def drop sign split_base_def takeWhile_digits)
qed

lemma strtol_show_nat:
  assumes "n < 2 ^ 63" and "r = [] \<or> \<not> is_digit 10 (hd r)"
  shows "strtol 10 (show_nat n @ r) = Some (int n, r)"
  using assms strtol_digits [of "show_nat n" 10 r] show_base_digits [of 10 n] show_base_value [of 10 n]
  by (simp add: show_nat_def)

lemma num_val_zeros: "num_val b (replicate k CHR ''0'' @ ds) = num_val b ds"
proof -
  have "foldl (\<lambda>n c. n * b + digit_val c) 0 (replicate k CHR ''0'') = 0"
    by (induction k) (auto simp: digit_val_def in_range_def of_char_bounds)
  then show ?thesis by (simp add: num_val_def)
qed

lemma strtol_pad0:
  assumes "n < 2 ^ 63" and "r = [] \<or> \<not> is_digit 10 (hd r)"
  shows "strtol 10 (pad0 w (show_nat n) @ r) = Some (int n, r)"
proof -
  have "is_digit 10 CHR ''0''" by (simp add: is_digit_def digit_val_def in_range_def of_char_bounds)
  then have "list_all (is_digit 10) (pad0 w (show_nat n))"
    using show_base_digits [of 10 n] by (auto simp: pad0_def show_nat_def list_all_iff)
  then show ?thesis
    using assms strtol_digits [of "pad0 w (show_nat n)" 10 r] show_base_value [of 10 n]
    by (simp add: pad0_def num_val_zeros show_nat_def)
qed

lemma split_base_dec: "s \<noteq> [] \<Longrightarrow> hd s \<noteq> CHR ''0'' \<Longrightarrow> split_base 0 s = (10, s)"
  by (auto simp: split_base_def split: list.split)

lemma show_nat_value: "num_val 10 (show_nat n) = n"
  by (simp add: show_nat_def show_base_value)

lemma show_nat_inj: "show_nat m = show_nat n \<Longrightarrow> m = n"
  by (drule arg_cong [where f = "num_val 10"]) (simp only: show_nat_value)

lemma show_nat_0: "show_nat 0 = ''0''"
  by code_simp

text \<open>With base 0 the first character decides: a printed decimal starts with a zero only if it is zero,
  and then the octal reading gives the same value.\<close>

lemma auto_base_nat: "\<exists>b. split_base 0 (show_nat n) = (b, show_nat n) \<and> num_val b (show_nat n) = n \<and>
    list_all (is_digit b) (show_nat n)"
proof (cases "n = 0")
  case True
  then show ?thesis
    by (simp add: show_nat_0 split_base_def num_val_def is_digit_def digit_val_def in_range_def of_char_bounds)
next
  case False
  then have "split_base 0 (show_nat n) = (10, show_nat n)"
    using show_base_first [of 10 n] by (intro split_base_dec) (simp_all add: show_nat_def)
  then show ?thesis using show_base_value [of 10 n] show_base_digits [of 10 n] by (simp add: show_nat_def)
qed

lemma show_nat_hd: "\<exists>c cs. show_nat n = c # cs \<and> is_digit 10 c"
  using digits_nonempty [of "show_nat n" "is_digit 10"] show_base_digits [of 10 n] by (simp add: show_nat_def)

lemma takeWhile_all: "list_all P ds \<Longrightarrow> takeWhile P ds = ds"
  by (simp add: list_all_iff takeWhile_eq_all_conv)

lemma strtol_show_int:
  assumes "- (2 ^ 63) \<le> i" and "i < 2 ^ 63"
  shows "strtol 0 (show_int i) = Some (i, [])"
proof -
  obtain c cs where c: "show_nat (nat \<bar>i\<bar>) = c # cs" "is_digit 10 c" using show_nat_hd by blast
  obtain b where b: "split_base 0 (show_nat (nat \<bar>i\<bar>)) = (b, show_nat (nat \<bar>i\<bar>))"
      "num_val b (show_nat (nat \<bar>i\<bar>)) = nat \<bar>i\<bar>" "list_all (is_digit b) (show_nat (nat \<bar>i\<bar>))"
    using auto_base_nat by blast
  note c1 = digit_not_space [OF c(2)]
  show ?thesis
  proof (cases "i < 0")
    case True
    then have "show_int i = CHR ''-'' # show_nat (nat \<bar>i\<bar>)" by (simp add: show_int_def)
    then show ?thesis using True assms b c
      by (simp add: strtol_def split_sign_minus isspace_def takeWhile_all Let_def)
  next
    case False
    then have "show_int i = show_nat (nat \<bar>i\<bar>)" by (simp add: show_int_def)
    moreover have "split_sign (show_nat (nat \<bar>i\<bar>)) = (False, show_nat (nat \<bar>i\<bar>))"
      using c split_sign_digit [of 10 c cs] by simp
    ultimately show ?thesis using False assms b c c1
      by (simp add: strtol_def takeWhile_all Let_def)
  qed
qed

lemma strtol_show_hex:
  assumes "n < 2 ^ 63"
  shows "strtol 0 (''0x'' @ show_hex n) = Some (int n, [])"
proof -
  have ds: "list_all (is_digit 16) (show_hex n)" "show_hex n \<noteq> []"
    using show_base_digits [of 16 n] by (simp_all add: show_hex_def)
  obtain c cs where c: "show_hex n = c # cs" "is_digit 16 c" using digits_nonempty [OF ds(2,1)] by blast
  have base: "split_base 0 (''0x'' @ show_hex n) = (16, show_hex n)"
    using c by (simp add: split_base_def)
  have sign: "split_sign (''0x'' @ show_hex n) = (False, ''0x'' @ show_hex n)" by (simp add: split_sign_def)
  have "num_val 16 (show_hex n) = n" using show_base_value [of 16 n] by (simp add: show_hex_def)
  moreover have "int n < 2 ^ 63" using assms by (metis of_nat_less_iff of_nat_numeral of_nat_power)
  moreover have "dropWhile isspace (''0x'' @ show_hex n) = ''0x'' @ show_hex n" by (simp add: isspace_def)
  ultimately show ?thesis using ds base sign
    unfolding strtol_def by (simp only: sign base takeWhile_all Let_def prod.case) (simp add: takeWhile_all)
qed

text \<open>Lengths.\<close>

lemma length_show_base:
  "2 \<le> b \<Longrightarrow> n < b ^ k \<Longrightarrow> 0 < k \<Longrightarrow> length (show_base b n) \<le> k"
proof (induction b n arbitrary: k rule: show_base.induct)
  case (1 b n)
  show ?case
  proof (cases "n < b")
    case True
    then show ?thesis using 1 by (simp add: show_base.simps [of b n])
  next
    case False
    have k: "k \<noteq> 1" using False 1(3) by auto
    then obtain k' where k': "k = Suc k'" "0 < k'" using 1(4) by (cases k) auto
    have "n div b < b ^ k'" using 1(3) k' by (simp add: less_mult_imp_div_less mult.commute)
    then have "length (show_base b (n div b)) \<le> k'" using 1 False k' by simp
    then show ?thesis using False 1(2) k' by (simp add: show_base.simps [of b n])
  qed
qed

end
