(* ===== verification/ScriptFex.thy ===== *)
theory ScriptFex
  imports Script CText "HOL-Library.Sublist"
begin

text \<open>
  The text format of \<open>fexc\<close> (\<open>sunxi-tools/script_fex.c\<close>): the generator writes characters, the parser
  reads the file in pieces of at most 255 characters as \<open>fgets\<close> delivers them. A comparison by
  \<open>memcmp\<close> with a literal is taken to stop at the first difference; \<open>long\<close> has 64 bits. What the parser
  prints for warnings and errors is not modelled, the reason it stops is.
\<close>

section \<open>The generator\<close>

definition strlen2 :: "string \<Rightarrow> nat" where
  "strlen2 s = length (dropWhile isdigit (rev s))"

definition find_full_match :: "string \<Rightarrow> nat \<Rightarrow> string list \<Rightarrow> bool" where
  "find_full_match s l items = list_ex (\<lambda>item. prefix (take l s) item) items"

definition hexa_entries :: "string list" where
  "hexa_entries =
     [''dram_baseaddr'', ''dram_zq'', ''dram_tpr'', ''dram_emr'', ''g2d_size'', ''rtp_press_threshold'',
      ''rtp_sensitive_level'', ''ctp_twi_addr'', ''csi_twi_addr'', ''csi_twi_addr_b'', ''tkey_twi_addr'',
      ''lcd_gamma_tbl_'', ''gsensor_twi_addr'']"

definition decompile_single_mode :: "string \<Rightarrow> int" where
  "decompile_single_mode name =
     (if find_full_match name (strlen2 name) hexa_entries then 0 else - 1)"

definition single_text :: "int \<Rightarrow> u32 \<Rightarrow> string" where
  "single_text mode v =
     (if mode < 0 then show_int (sint v)
      else if mode > 0 then ''0x'' @ pad0 (nat mode) (show_hex (unat v))
      else ''0x'' @ show_hex (unat v))"

definition gpio_data_text :: "u32 \<Rightarrow> string" where
  "gpio_data_text d = (if d = - 1 then ''<default>'' else ''<'' @ show_int (sint d) @ ''>'')"

definition port_text :: "u32 \<Rightarrow> u32 \<Rightarrow> string" where
  "port_text port num =
     (if port = 0xFFFF then ''port:power'' @ show_nat (unat num)
      else ''port:P'' @ [char_of (64 + unat port)] @ pad0 2 (show_nat (unat num)))"

definition entry_text :: "script_entry \<Rightarrow> string" where
  "entry_text e =
     en_name e @
     (case en_value e of
        Single_word v \<Rightarrow> '' = '' @ single_text (decompile_single_mode (en_name e)) v
      | String_value s \<Rightarrow> '' = '' @ [CHR 0x22] @ takeWhile (\<lambda>c. c \<noteq> CHR 0x00) s @ [CHR 0x22]
      | Gpio port num d \<Rightarrow> '' = '' @ port_text port num @ concat (map gpio_data_text (take 4 d))
      | Null_value \<Rightarrow> '' ='') @ [CHR 0x0A]"

definition section_text :: "script_section \<Rightarrow> string" where
  "section_text sec =
     ''['' @ sn_name sec @ '']'' @ [CHR 0x0A] @ concat (map entry_text (sn_entries sec)) @ [CHR 0x0A]"

definition script_generate_fex :: "script \<Rightarrow> string" where
  "script_generate_fex s = concat (map section_text s)"

section \<open>The parser\<close>

definition MAX_LINE :: nat where "MAX_LINE = 255"

definition skip_blank :: "string \<Rightarrow> string" where
  "skip_blank s = dropWhile isblank s"

text \<open>The loop never removes the first character.\<close>

definition rtrim :: "string \<Rightarrow> string" where
  "rtrim s = (case s of [] \<Rightarrow> [] | c # cs \<Rightarrow> c # rev (dropWhile isblank (rev cs)))"

definition strip_newline :: "string \<Rightarrow> string" where
  "strip_newline s =
     (if s \<noteq> [] \<and> last s = CHR 0x0A then
        (if butlast s \<noteq> [] \<and> last (butlast s) = CHR 0x0D then butlast (butlast s) else butlast s)
      else s)"

definition clean_line :: "string \<Rightarrow> string" where
  "clean_line buffer = rtrim (strip_newline (skip_blank (takeWhile (\<lambda>c. c \<noteq> CHR 0x00) buffer)))"

definition word_char :: "char \<Rightarrow> bool" where
  "word_char c \<longleftrightarrow> isalnum c \<or> c = CHR ''_''"

text \<open>The four values behind a GPIO pin: the values read and the text where the loop stopped.\<close>

fun gpio_values :: "nat \<Rightarrow> string \<Rightarrow> (script_error, u32 list \<times> string) outcome" where
  "gpio_values 0 p = Ret ([], p)"
| "gpio_values (Suc n) p =
     (if p = [] then Ret (replicate (Suc n) (- 1), [])
      else if prefix ''<default>'' p then
        (case gpio_values n (drop 9 p) of Ret (ds, q) \<Rightarrow> Ret (- 1 # ds, q) | Err e \<Rightarrow> Err e | Undef \<Rightarrow> Undef)
      else if hd p = CHR ''<'' then
        (case strtol 10 (tl p) of
           None \<Rightarrow> Ret (replicate (Suc n) (- 1), tl p)
         | Some (v, q) \<Rightarrow>
             if v < 0 \<or> v > 2 ^ 31 - 1 then Err Value_out_of_range
             else if q = [] \<or> hd q \<noteq> CHR ''>'' then Ret (replicate (Suc n) (- 1), q)
             else (case gpio_values n (tl q) of
                     Ret (ds, r) \<Rightarrow> Ret (word_of_int v # ds, r) | Err e \<Rightarrow> Err e | Undef \<Rightarrow> Undef))
      else Ret (replicate (Suc n) (- 1), p))"

definition parse_gpio :: "string \<Rightarrow> (script_error, script_value) outcome" where
  "parse_gpio p =
     (if prefix ''P'' p \<and> (length p < 2 \<or> \<not> in_range CHR ''A'' CHR ''O'' (p ! 1)) then Err Parse_error
      else if \<not> prefix ''P'' p \<and> \<not> prefix ''power'' p then Err Parse_error
      else let (port, p) = (if prefix ''P'' p then (of_char (p ! 1) - 64, drop 2 p) else (0xFFFF, drop 5 p))
           in case strtol 10 p of
                None \<Rightarrow> Err Invalid_character
              | Some (v, p) \<Rightarrow>
                  if v < 0 \<or> v > 255 then Err Port_out_of_range
                  else (case gpio_values 4 p of
                          Ret (ds, q) \<Rightarrow> if q \<noteq> [] then Err Invalid_character else Ret (Gpio port (word_of_int v) ds)
                        | Err e \<Rightarrow> Err e
                        | Undef \<Rightarrow> Undef))"

definition parse_value :: "string \<Rightarrow> (script_error, script_value) outcome" where
  "parse_value p =
     (if p = [] then Ret Null_value
      else if 1 < length p \<and> hd p = CHR 0x22 \<and> last p = CHR 0x22 then Ret (String_value (butlast (tl p)))
      else if prefix ''port:'' p then parse_gpio (drop 5 p)
      else if isdigit (hd p) \<or> hd p = CHR ''-'' \<and> 1 < length p \<and> isdigit (p ! 1) then
        (case strtol 0 p of
           None \<Rightarrow> Err Invalid_character
         | Some (v, q) \<Rightarrow> if q \<noteq> [] then Err Invalid_character
                         else if v > 2 ^ 32 - 1 then Err Value_out_of_range
                         else Ret (Single_word (word_of_int v)))
      else Ret (String_value p))"

definition add_entry :: "string \<Rightarrow> script_value \<Rightarrow> script_section \<Rightarrow> (script_error, script_section) outcome" where
  "add_entry key v sec =
     (case v of
        Null_value \<Rightarrow> script_null_entry_new sec key
      | String_value s \<Rightarrow> script_string_entry_new sec key s
      | Gpio port num d \<Rightarrow> script_gpio_entry_new sec key port num d
      | Single_word w \<Rightarrow> script_single_entry_new sec key w)"

text \<open>One line: the flag says that a section was seen.\<close>

definition parse_line :: "string \<Rightarrow> bool \<times> script \<Rightarrow> (script_error, bool \<times> script) outcome" where
  "parse_line buffer st =
     (let (seen, script) = st; s = clean_line buffer in
      if s = [] \<or> hd s = CHR '';'' \<or> hd s = CHR ''#'' \<or> hd s = CHR '':'' then Ret st
      else if hd s = CHR ''['' then
        (let name = takeWhile word_char (tl s); p = dropWhile word_char (tl s) in
         if p = '']'' then
           (case script_section_new script name of Ret script' \<Rightarrow> Ret (True, script') | Err e \<Rightarrow> Err e | Undef \<Rightarrow> Undef)
         else if p \<noteq> [] then Err Invalid_character else Err Incomplete_section)
      else if \<not> seen then Err No_section
      else
        (let key = takeWhile word_char s; p = skip_blank (dropWhile word_char s) in
         if p = [] \<or> hd p \<noteq> CHR ''='' then Err Invalid_character
         else (case parse_value (skip_blank (tl p)) of
                 Ret v \<Rightarrow> (case on_last (add_entry key v) script of
                             Ret script' \<Rightarrow> Ret (True, script') | Err e \<Rightarrow> Err e | Undef \<Rightarrow> Undef)
               | Err e \<Rightarrow> Err e
               | Undef \<Rightarrow> Undef)))"

function parse_lines :: "string \<Rightarrow> bool \<times> script \<Rightarrow> (script_error, bool \<times> script) outcome" where
  "parse_lines f st =
     (if f = [] then Ret st
      else let (buffer, rest) = fgets MAX_LINE f in
        case parse_line buffer st of Ret st' \<Rightarrow> parse_lines rest st' | Err e \<Rightarrow> Err e | Undef \<Rightarrow> Undef)"
  by pat_completeness auto
termination by (relation "measure (\<lambda>(f, st). length f)") (auto simp: fgets_def MAX_LINE_def Let_def)

declare parse_lines.simps [simp del]

text \<open>\<open>err\<close> says whether reading the file ended in an error.\<close>

definition script_parse_fex :: "string \<Rightarrow> bool \<Rightarrow> script \<Rightarrow> (script_error, script) outcome" where
  "script_parse_fex f err s =
     (case parse_lines f (False, s) of
        Ret (_, s') \<Rightarrow> if err then Err Read_error else Ret s' | Err e \<Rightarrow> Err e | Undef \<Rightarrow> Undef)"

section \<open>Reading back what was written\<close>

definition word_name :: "string \<Rightarrow> bool" where
  "word_name n \<longleftrightarrow> n \<noteq> [] \<and> length n \<le> 31 \<and> list_all word_char n"

definition fex_value_ok :: "script_value \<Rightarrow> bool" where
  "fex_value_ok v =
     (case v of
        String_value s \<Rightarrow> CHR 0x00 \<notin> set s \<and> CHR 0x0A \<notin> set s
      | Gpio port num d \<Rightarrow> (1 \<le> unat port \<and> unat port \<le> 15 \<or> port = 0xFFFF) \<and> unat num \<le> 255 \<and>
          length d = 4 \<and> list_all (\<lambda>x. x = - 1 \<or> 0 \<le> sint x) d
      | _ \<Rightarrow> True)"

definition fex_entry_ok :: "script_entry \<Rightarrow> bool" where
  "fex_entry_ok e \<longleftrightarrow> word_name (en_name e) \<and> fex_value_ok (en_value e) \<and>
     (case en_value e of String_value s \<Rightarrow> length (en_name e) + length s \<le> 249 | _ \<Rightarrow> True)"

definition fex_section_ok :: "script_section \<Rightarrow> bool" where
  "fex_section_ok sec \<longleftrightarrow> word_name (sn_name sec) \<and> list_all fex_entry_ok (sn_entries sec)"

lemma word_char_not:
  "word_char c \<Longrightarrow> \<not> isblank c \<and> c \<noteq> CHR 0x00 \<and> c \<noteq> CHR 0x0A \<and> c \<noteq> CHR '';'' \<and> c \<noteq> CHR ''#'' \<and>
     c \<noteq> CHR '':'' \<and> c \<noteq> CHR ''['' \<and> c \<noteq> CHR '']'' \<and> c \<noteq> CHR ''='' \<and> c \<noteq> CHR 0x0D"
  by (auto simp: word_char_def isalnum_def isdigit_def in_range_def of_char_bounds isblank_def)

lemma not_word_char: "\<not> word_char CHR '']''" "\<not> word_char CHR '' ''"
  using word_char_not [of "CHR '']''"] word_char_not [of "CHR '' ''"] by (auto simp: isblank_def)

lemma digit_char_not: "is_digit 16 c \<Longrightarrow> word_char c"
  by (auto simp: is_digit_def digit_val_def word_char_def isalnum_def isdigit_def split: if_splits)

lemma show_base_word_chars: "2 \<le> b \<Longrightarrow> b \<le> 16 \<Longrightarrow> list_all word_char (show_base b n)"
  using show_base_digits [of b n] digit_char_not by (auto simp: list_all_iff is_digit_def)

subsection \<open>Values\<close>

definition value_text :: "script_entry \<Rightarrow> string" where
  "value_text e =
     (case en_value e of
        Single_word v \<Rightarrow> single_text (decompile_single_mode (en_name e)) v
      | String_value s \<Rightarrow> [CHR 0x22] @ s @ [CHR 0x22]
      | Gpio port num d \<Rightarrow> port_text port num @ concat (map gpio_data_text d)
      | Null_value \<Rightarrow> [])"

lemma gpio_default: "gpio_data_text (- 1) = ''<default>''"
  by (simp add: gpio_data_text_def)

lemma gpio_values_text:
  "list_all (\<lambda>x. x = - 1 \<or> 0 \<le> sint x) ds \<Longrightarrow>
     gpio_values (length ds) (concat (map gpio_data_text ds)) = Ret (ds, [])"
proof (induction ds)
  case (Cons d ds)
  show ?case
  proof (cases "d = - 1")
    case True
    then show ?thesis using Cons by (simp add: gpio_default)
  next
    case False
    then have d: "0 \<le> sint d" using Cons.prems by simp
    then have nat: "show_int (sint d) = show_nat (nat (sint d))" by (simp add: show_int_def)
    have "sint d < 2 ^ 31" using sint_lt [of d] by simp
    then have "strtol 10 (show_nat (nat (sint d)) @ CHR ''>'' # concat (map gpio_data_text ds)) =
        Some (sint d, CHR ''>'' # concat (map gpio_data_text ds))"
      using d by (subst strtol_show_nat) (simp_all add: is_digit_def digit_val_def in_range_def of_char_bounds nat_less_iff)
    moreover obtain c cs where "show_nat (nat (sint d)) = c # cs" "is_digit 10 c" using show_nat_hd by blast
    moreover have "c \<noteq> CHR ''d''" using \<open>is_digit 10 c\<close>
      by (auto simp: is_digit_def digit_val_def in_range_def of_char_bounds)
    ultimately show ?thesis using False d Cons \<open>sint d < 2 ^ 31\<close>
      by (simp add: gpio_data_text_def [of d] nat)
  qed
qed simp

lemma parse_port_text:
  assumes "1 \<le> unat port \<and> unat port \<le> 15 \<or> port = 0xFFFF" and "unat num \<le> 255"
    and "length ds = 4" and "list_all (\<lambda>x. x = - 1 \<or> 0 \<le> sint x) ds"
  shows "parse_value (port_text port num @ concat (map gpio_data_text ds)) = Ret (Gpio port num ds)"
proof -
  define r where "r = concat (map gpio_data_text ds)"
  have r: "gpio_values 4 r = Ret (ds, [])" using gpio_values_text [OF assms(4)] assms(3) by (simp add: r_def)
  obtain d ds' where "ds = d # ds'" using assms(3) by (cases ds) auto
  then obtain r' where r': "r = CHR ''<'' # r'"
    by (cases "d = - 1") (auto simp: r_def gpio_default gpio_data_text_def [of d])
  have stop: "r = [] \<or> \<not> is_digit 10 (hd r)"
    using r' by (simp add: is_digit_def digit_val_def in_range_def of_char_bounds)
  have num: "word_of_int (int (unat num)) = num" "unat num < 2 ^ 63" using assms(2) by simp_all
  have "int (unat num) \<le> 255" using assms(2) by linarith
  then have small: "uint num \<le> 255" by simp
  have "parse_value (port_text port num @ r) = Ret (Gpio port num ds)"
  proof (cases "port = 0xFFFF")
    case True
    then show ?thesis using strtol_show_nat [OF num(2) stop] r small
      by (simp add: parse_value_def port_text_def parse_gpio_def isdigit_def in_range_def of_char_bounds num)
  next
    case False
    then have p: "1 \<le> unat port" "unat port \<le> 15" using assms(1) by auto
    have "of_char (char_of (64 + unat port) :: char) = (64 + unat port)" using p by simp
    moreover have "(of_char (char_of (64 + unat port) :: char) - 64 :: u32) = port"
    proof -
      have "(of_char (char_of (64 + unat port) :: char) :: u32) = of_nat (of_char (char_of (64 + unat port) :: char))"
        by (rule of_nat_of_char [symmetric])
      then show ?thesis using p by simp
    qed
    ultimately show ?thesis using False p strtol_pad0 [OF num(2) stop, of 2] r small
      by (simp add: parse_value_def port_text_def parse_gpio_def isdigit_def in_range_def of_char_bounds num)
  qed
  then show ?thesis by (simp add: r_def)
qed

lemma parse_single_text:
  assumes "mode = 0 \<or> mode = - 1"
  shows "parse_value (single_text mode v) = Ret (Single_word v)"
proof (cases "mode = 0")
  case True
  have "unat v < 2 ^ 32" "uint v \<le> 2 ^ 32 - 1" using unsigned_less [of v] uint_lt2p [of v] by simp_all
  moreover from this have "strtol 0 (''0x'' @ show_hex (unat v)) = Some (uint v, [])"
    using strtol_show_hex [of "unat v"] by simp
  ultimately show ?thesis using True
    by (simp add: single_text_def parse_value_def isdigit_def in_range_def of_char_bounds)
next
  case False
  have b: "- (2 ^ 31) \<le> sint v" "sint v < 2 ^ 31" using sint_lt [of v] sint_ge [of v] by simp_all
  then have st: "strtol 0 (show_int (sint v)) = Some (sint v, [])" by (intro strtol_show_int) simp_all
  obtain c cs where c: "show_nat (nat \<bar>sint v\<bar>) = c # cs" "is_digit 10 c" using show_nat_hd by blast
  have dig: "isdigit c" using digit_val_sound [OF c(2)] by simp
  then have nq: "c \<noteq> CHR 0x22" "c \<noteq> CHR ''p''" by (auto simp: isdigit_def in_range_def of_char_bounds)
  have "show_int (sint v) = (if sint v < 0 then CHR ''-'' # c # cs else c # cs)"
    using c(1) by (cases "sint v < 0") (simp_all add: show_int_def)
  then show ?thesis using False assms st b dig nq
    by (auto simp: single_text_def parse_value_def)
qed

subsection \<open>Lines\<close>

lemma single_mode: "decompile_single_mode n = 0 \<or> decompile_single_mode n = - 1"
  by (simp add: decompile_single_mode_def)

lemma parse_value_text:
  assumes "fex_value_ok (en_value e)"
  shows "parse_value (value_text e) = Ret (en_value e)"
proof (cases "en_value e")
  case (Single_word v)
  then show ?thesis using parse_single_text [OF single_mode, of "en_name e" v] by (simp add: value_text_def)
next
  case (String_value s)
  then show ?thesis by (simp add: value_text_def parse_value_def)
next
  case (Gpio port num d)
  then show ?thesis using assms parse_port_text [of port num d] by (simp add: value_text_def fex_value_ok_def)
next
  case Null_value
  then show ?thesis by (simp add: value_text_def parse_value_def)
qed

text \<open>A line that cleaning leaves alone.\<close>

definition tidy :: "string \<Rightarrow> bool" where
  "tidy l \<longleftrightarrow> l \<noteq> [] \<and> CHR 0x00 \<notin> set l \<and> CHR 0x0A \<notin> set l \<and> \<not> isblank (hd l) \<and> \<not> isblank (last l) \<and>
     last l \<noteq> CHR 0x0D"

lemma rtrim_id: "s \<noteq> [] \<Longrightarrow> \<not> isblank (last s) \<Longrightarrow> rtrim s = s"
  by (cases s; cases "tl s" rule: rev_cases) (auto simp: rtrim_def)

lemma clean_tidy: "tidy l \<Longrightarrow> clean_line (l @ [CHR 0x0A]) = l"
proof -
  assume t: "tidy l"
  then have "takeWhile (\<lambda>c. c \<noteq> CHR 0x00) (l @ [CHR 0x0A]) = l @ [CHR 0x0A]"
    by (auto simp: tidy_def takeWhile_eq_all_conv)
  moreover have "skip_blank (l @ [CHR 0x0A]) = l @ [CHR 0x0A]"
    using t by (cases l) (auto simp: tidy_def skip_blank_def)
  ultimately show ?thesis using t by (simp add: clean_line_def strip_newline_def rtrim_id tidy_def)
qed

lemma parse_lines_line:
  assumes "CHR 0x0A \<notin> set l" and "length l \<le> 254"
  shows "parse_lines (l @ CHR 0x0A # rest) st =
    (case parse_line (l @ [CHR 0x0A]) st of Ret st' \<Rightarrow> parse_lines rest st' | Err e \<Rightarrow> Err e | Undef \<Rightarrow> Undef)"
proof -
  have "takeWhile (\<lambda>c. c \<noteq> CHR 0x0A) (l @ CHR 0x0A # rest) = l"
    using assms(1) by (induction l) auto
  then have "fgets MAX_LINE (l @ CHR 0x0A # rest) = (l @ [CHR 0x0A], rest)"
    using assms(2) by (simp add: fgets_def MAX_LINE_def Let_def)
  then show ?thesis by (subst parse_lines.simps) simp
qed

lemma word_name_split:
  assumes "word_name n" and "r = [] \<or> \<not> word_char (hd r)"
  shows "takeWhile word_char (n @ r) = n" "dropWhile word_char (n @ r) = r"
  using assms takeWhile_digits [of word_char n r] takeWhile_dropWhile_id [of word_char "n @ r"]
  by (auto simp: word_name_def)

lemma word_name_hd: "word_name n \<Longrightarrow> word_char (hd n)"
  by (cases n) (auto simp: word_name_def)

lemma parse_section_line:
  assumes "word_name n"
  shows "parse_line (''['' @ n @ '']'' @ [CHR 0x0A]) (seen, s) = Ret (True, s @ [\<lparr>sn_name = n, sn_entries = []\<rparr>])"
proof -
  have "tidy (''['' @ n @ '']'')"
    using assms word_char_not by (auto simp: tidy_def word_name_def list_all_iff isblank_def)
  then have "clean_line ((''['' @ n @ '']'') @ [CHR 0x0A]) = ''['' @ n @ '']''" by (rule clean_tidy)
  moreover have "takeWhile word_char (n @ '']'') = n" "dropWhile word_char (n @ '']'') = '']''"
    using word_name_split [OF assms, of "'']''"] not_word_char by simp_all
  ultimately show ?thesis using assms
    by (simp add: parse_line_def script_section_new_def name_field_id word_name_def)
qed

definition text_char :: "char \<Rightarrow> bool" where
  "text_char c \<longleftrightarrow> word_char c \<or> c = CHR '':'' \<or> c = CHR ''-'' \<or> c = CHR ''<'' \<or> c = CHR ''>''"

lemma text_char_not: "text_char c \<Longrightarrow> \<not> isblank c \<and> c \<noteq> CHR 0x00 \<and> c \<noteq> CHR 0x0A \<and> c \<noteq> CHR 0x0D"
proof (cases "word_char c")
  case True
  then show ?thesis using word_char_not [of c] by simp
next
  case False
  assume "text_char c"
  with False have "c = CHR '':'' \<or> c = CHR ''-'' \<or> c = CHR ''<'' \<or> c = CHR ''>''" by (simp add: text_char_def)
  then show ?thesis by (elim disjE) (simp_all add: isblank_def)
qed

lemma text_tidy: "l \<noteq> [] \<Longrightarrow> list_all text_char l \<Longrightarrow> tidy l"
  using text_char_not [of "hd l"] text_char_not [of "last l"] text_char_not
  by (auto simp: tidy_def list_all_iff)

lemma text_char_literal: "text_char (CHR ''0'')" "text_char (CHR ''x'')" "text_char (CHR ''p'')" "text_char (CHR ''o'')"
  "text_char (CHR ''r'')" "text_char (CHR ''t'')" "text_char (CHR ''w'')" "text_char (CHR ''e'')" "text_char (CHR ''P'')"
  "text_char (CHR ''d'')" "text_char (CHR ''f'')" "text_char (CHR ''a'')" "text_char (CHR ''u'')" "text_char (CHR ''l'')"
  "text_char (CHR '':'')" "text_char (CHR ''-'')" "text_char (CHR ''<'')" "text_char (CHR ''>'')"
  by (simp_all add: text_char_def word_char_def isalnum_def isdigit_def in_range_def of_char_bounds)

lemma show_text: "list_all text_char (show_nat n)" "list_all text_char (show_hex n)" "list_all text_char (show_int i)"
  using show_base_word_chars [of 10] show_base_word_chars [of 16]
  by (auto simp: show_nat_def show_hex_def show_int_def text_char_def list_all_iff)

lemma single_text_chars: "mode \<le> 0 \<Longrightarrow> list_all text_char (single_text mode v) \<and> single_text mode v \<noteq> []"
  by (simp add: single_text_def show_text text_char_literal)
    (simp add: show_int_def show_nat_def)

lemma gpio_data_chars: "list_all text_char (gpio_data_text d)"
  by (simp add: gpio_data_text_def show_text text_char_literal)

lemma port_text_chars:
  assumes "1 \<le> unat port \<and> unat port \<le> 15 \<or> port = 0xFFFF"
  shows "list_all text_char (port_text port num) \<and> port_text port num \<noteq> []"
proof (cases "port = 0xFFFF")
  case False
  then have "text_char (char_of (64 + unat port))" using assms
    by (auto simp: text_char_def word_char_def isalnum_def in_range_def of_char_bounds)
  then show ?thesis using False
    by (simp add: port_text_def show_text text_char_literal pad0_def) (simp add: list_all_iff text_char_literal)
qed (simp add: port_text_def show_text text_char_literal)

lemma tidy_value:
  assumes "fex_value_ok (en_value e)" and "en_value e \<noteq> Null_value"
  shows "tidy (value_text e)"
proof (cases "en_value e")
  case (Single_word v)
  then show ?thesis using single_text_chars [of "decompile_single_mode (en_name e)" v] single_mode [of "en_name e"]
    by (intro text_tidy) (auto simp: value_text_def)
next
  case (String_value s)
  then show ?thesis using assms by (simp add: value_text_def tidy_def isblank_def fex_value_ok_def)
next
  case (Gpio port num d)
  then show ?thesis using assms port_text_chars [of port num] gpio_data_chars
    by (intro text_tidy) (auto simp: value_text_def fex_value_ok_def list_all_iff)
qed (use assms in simp)

definition entry_line :: "script_entry \<Rightarrow> string" where
  "entry_line e = en_name e @ '' ='' @ (if en_value e = Null_value then [] else '' '' @ value_text e)"

lemma entry_text_line:
  assumes "fex_value_ok (en_value e)"
  shows "entry_text e = entry_line e @ [CHR 0x0A]"
proof (cases "en_value e")
  case (String_value s)
  then have "takeWhile (\<lambda>c. c \<noteq> CHR 0x00) s = s"
    using assms by (auto simp: fex_value_ok_def takeWhile_eq_all_conv)
  then show ?thesis using String_value by (simp add: entry_text_def entry_line_def value_text_def)
qed (use assms in \<open>auto simp: entry_text_def entry_line_def value_text_def fex_value_ok_def\<close>)

lemma tidy_entry_line:
  assumes "fex_entry_ok e"
  shows "tidy (entry_line e)"
proof -
  have n: "en_name e \<noteq> []" "\<And>c. c \<in> set (en_name e) \<Longrightarrow> word_char c"
    using assms by (auto simp: fex_entry_ok_def word_name_def list_all_iff)
  then have "word_char (hd (en_name e))" by simp
  note nots = word_char_not [OF this] n(2) [THEN word_char_not]
  show ?thesis
  proof (cases "en_value e = Null_value")
    case True
    then show ?thesis using n(1) nots by (auto simp: tidy_def entry_line_def isblank_def)
  next
    case False
    then show ?thesis using n(1) nots tidy_value [of e] assms
      by (auto simp: tidy_def entry_line_def fex_entry_ok_def)
  qed
qed

subsection \<open>Lengths\<close>

lemma length_show_int: "\<bar>i\<bar> < 10 ^ 10 \<Longrightarrow> length (show_int i) \<le> 11"
  using length_show_base [of 10 "nat (- i)" 10] length_show_base [of 10 "nat i" 10]
  by (auto simp: show_int_def show_nat_def nat_less_iff)

lemma length_single_text: "mode \<le> 0 \<Longrightarrow> length (single_text mode v) \<le> 11"
proof -
  have "unat v < 16 ^ 8" using unsigned_less [of v] by simp
  then have "length (show_hex (unat v)) \<le> 8" by (simp add: show_hex_def length_show_base)
  moreover have "\<bar>sint v\<bar> < 10 ^ 10" using sint_lt [of v] sint_ge [of v] by simp
  ultimately show "mode \<le> 0 \<Longrightarrow> ?thesis" using length_show_int [of "sint v"] by (simp add: single_text_def)
qed

lemma length_gpio_data: "length (gpio_data_text d) \<le> 13"
proof -
  have "\<bar>sint d\<bar> < 10 ^ 10" using sint_lt [of d] sint_ge [of d] by simp
  then show ?thesis using length_show_int [of "sint d"] by (simp add: gpio_data_text_def)
qed

lemma length_gpio_datas: "length (concat (map gpio_data_text ds)) \<le> 13 * length ds"
proof (induction ds)
  case (Cons d ds)
  then show ?case using length_gpio_data [of d] by simp
qed simp

lemma length_entry_line:
  assumes "fex_entry_ok e"
  shows "length (entry_line e) \<le> 254"
proof (cases "en_value e")
  case (Single_word v)
  then show ?thesis using assms length_single_text [of "decompile_single_mode (en_name e)" v] single_mode [of "en_name e"]
    by (auto simp: entry_line_def value_text_def fex_entry_ok_def word_name_def)
next
  case (Gpio port num d)
  then have "unat num < 10 ^ 3" "length d = 4" using assms by (auto simp: fex_entry_ok_def fex_value_ok_def)
  then have "length (port_text port num) \<le> 13" "length (concat (map gpio_data_text d)) \<le> 52"
    using length_show_base [of 10 "unat num" 3] length_gpio_datas [of d]
    by (auto simp: port_text_def pad0_def show_nat_def)
  then show ?thesis using assms Gpio by (auto simp: entry_line_def value_text_def fex_entry_ok_def word_name_def)
qed (use assms in \<open>auto simp: entry_line_def value_text_def fex_entry_ok_def word_name_def\<close>)

subsection \<open>The whole file\<close>

lemma add_entry_ok:
  assumes "fex_entry_ok e"
  shows "add_entry (en_name e) (en_value e) sec = Ret (sec\<lparr>sn_entries := sn_entries sec @ [e]\<rparr>)"
  using assms
  by (cases "en_value e")
    (auto simp: add_entry_def script_null_entry_new_def script_single_entry_new_def script_string_entry_new_def
      script_gpio_entry_new_def script_entry_append_def fex_entry_ok_def word_name_def name_field_id fex_value_ok_def)

lemma parse_entry_line:
  assumes "fex_entry_ok e"
  shows "parse_line (entry_line e @ [CHR 0x0A]) (True, s @ [sec]) =
    Ret (True, s @ [sec\<lparr>sn_entries := sn_entries sec @ [e]\<rparr>])"
proof -
  define vt where "vt = (if en_value e = Null_value then [] else '' '' @ value_text e)"
  have line: "entry_line e = en_name e @ '' ='' @ vt" by (simp add: entry_line_def vt_def)
  have n: "word_name (en_name e)" and v: "fex_value_ok (en_value e)" using assms by (auto simp: fex_entry_ok_def)
  have hd: "hd (entry_line e) = hd (en_name e)" "entry_line e \<noteq> []" using n by (auto simp: line word_name_def)
  note nots = word_char_not [OF word_name_hd [OF n]]
  have split: "takeWhile word_char (entry_line e) = en_name e" "dropWhile word_char (entry_line e) = '' ='' @ vt"
    using word_name_split [OF n, of "'' ='' @ vt"] not_word_char by (simp_all add: line)
  have eq: "skip_blank (CHR '' '' # CHR ''='' # vt) = CHR ''='' # vt" by (simp add: skip_blank_def isblank_def)
  have "skip_blank vt = value_text e"
  proof (cases "en_value e = Null_value")
    case False
    then have "\<not> isblank (hd (value_text e))" "value_text e \<noteq> []" using tidy_value [OF v] by (auto simp: tidy_def)
    then show ?thesis using False by (cases "value_text e") (auto simp: vt_def skip_blank_def isblank_def)
  qed (simp add: vt_def skip_blank_def value_text_def)
  then have "parse_value (skip_blank (tl (''='' @ vt))) = Ret (en_value e)" by (simp add: parse_value_text [OF v])
  then show ?thesis
    using nots hd by (simp add: parse_line_def clean_tidy [OF tidy_entry_line [OF assms]] split eq on_last_append
        Let_def add_entry_ok [OF assms])
qed

lemma parse_entries:
  "list_all fex_entry_ok es \<Longrightarrow>
   parse_lines (concat (map entry_text es) @ rest) (True, s @ [sec]) =
     parse_lines rest (True, s @ [sec\<lparr>sn_entries := sn_entries sec @ es\<rparr>])"
proof (induction es arbitrary: sec)
  case (Cons e es)
  then have e: "fex_entry_ok e" by simp
  then have "entry_text e = entry_line e @ [CHR 0x0A]" by (intro entry_text_line) (simp add: fex_entry_ok_def)
  then have "concat (map entry_text (e # es)) @ rest = entry_line e @ CHR 0x0A # concat (map entry_text es) @ rest"
    by simp
  then show ?case
    using parse_lines_line [OF _ length_entry_line [OF e]] tidy_entry_line [OF e] parse_entry_line [OF e] Cons
    by (simp add: tidy_def)
qed simp

lemma parse_empty_line: "parse_line [CHR 0x0A] st = Ret st"
  by (cases st) (simp add: parse_line_def clean_line_def skip_blank_def isblank_def strip_newline_def rtrim_def)

lemma parse_section_text:
  assumes "fex_section_ok sec"
  shows "parse_lines (section_text sec @ rest) (seen, s) = parse_lines rest (True, s @ [sec])"
proof -
  have n: "word_name (sn_name sec)" and es: "list_all fex_entry_ok (sn_entries sec)"
    using assms by (auto simp: fex_section_ok_def)
  have nl: "CHR 0x0A \<notin> set (''['' @ sn_name sec @ '']'')" "length (''['' @ sn_name sec @ '']'') \<le> 254"
    using n word_char_not by (auto simp: word_name_def list_all_iff)
  have "parse_lines (section_text sec @ rest) (seen, s) =
      parse_lines (concat (map entry_text (sn_entries sec)) @ CHR 0x0A # rest)
        (True, s @ [\<lparr>sn_name = sn_name sec, sn_entries = []\<rparr>])"
    using parse_lines_line [OF nl, of "concat (map entry_text (sn_entries sec)) @ CHR 0x0A # rest" "(seen, s)"]
      parse_section_line [OF n, of seen s] by (simp add: section_text_def)
  also have "\<dots> = parse_lines (CHR 0x0A # rest) (True, s @ [sec])"
    using parse_entries [OF es, of "CHR 0x0A # rest" s "\<lparr>sn_name = sn_name sec, sn_entries = []\<rparr>"]
    by (cases sec) simp
  also have "\<dots> = parse_lines rest (True, s @ [sec])"
    using parse_lines_line [of "[]" rest] by (simp add: parse_empty_line)
  finally show ?thesis .
qed

lemma parse_sections_text:
  "list_all fex_section_ok ss \<Longrightarrow>
     \<exists>seen'. parse_lines (concat (map section_text ss)) (seen, s) = Ret (seen', s @ ss)"
proof (induction ss arbitrary: seen s)
  case Nil
  then show ?case by (simp add: parse_lines.simps)
next
  case (Cons sec ss)
  then show ?case using parse_section_text [of sec "concat (map section_text ss)" seen s]
    Cons.IH [of True "s @ [sec]"] by simp
qed

lemma fex_roundtrip:
  assumes "list_all fex_section_ok s"
  shows "script_parse_fex (script_generate_fex s) False [] = Ret s"
  using parse_sections_text [OF assms, of False "[]"]
  by (auto simp: script_parse_fex_def script_generate_fex_def)

section \<open>Properties\<close>

text \<open>C13. Parsing the text \<open>script_generate_fex\<close> writes gives the script back, for every script whose names
  are words of 1 to 31 characters, whose strings have no NUL and no newline and fit a line, and whose
  pins are on the banks A to O or the power pins with a number up to 255 and settings that are not negative
  or default. Words come back whether they are written in decimal or, by their name, in hexadecimal.\<close>

theorem script_fex_roundtrip:
  assumes "list_all fex_section_ok s"
  shows "script_parse_fex (script_generate_fex s) False [] = Ret s"
  using assms by (rule fex_roundtrip)

definition fex_demo :: script where
  "fex_demo =
     [\<lparr>sn_name = ''dram_para'', sn_entries =
        [\<lparr>en_name = ''dram_zq'', en_value = Single_word 123\<rparr>, \<lparr>en_name = ''vol'', en_value = Single_word (- 5)\<rparr>,
         \<lparr>en_name = ''chip'', en_value = String_value ''a b''\<rparr>, \<lparr>en_name = ''off'', en_value = Null_value\<rparr>,
         \<lparr>en_name = ''pin'', en_value = Gpio 2 7 [1, - 1, 0, - 1]\<rparr>]\<rparr>]"

lemma fex_demo_ok: "list_all fex_section_ok fex_demo"
  by (simp add: fex_demo_def fex_section_ok_def fex_entry_ok_def fex_value_ok_def word_name_def
      word_char_def isalnum_def isdigit_def in_range_def)

theorem script_fex_roundtrip_witness:
  "script_parse_fex (script_generate_fex fex_demo) False [] = Ret fex_demo"
  by (rule script_fex_roundtrip [OF fex_demo_ok])

subsection \<open>What the parser accepts\<close>

definition parsed_entry_ok :: "script_entry \<Rightarrow> bool" where
  "parsed_entry_ok e \<longleftrightarrow> length (en_name e) \<le> 31 \<and> list_all word_char (en_name e) \<and> fex_value_ok (en_value e) \<and>
     (en_name e = [] \<longrightarrow> (\<exists>s. en_value e = String_value s))"

definition parsed_section_ok :: "script_section \<Rightarrow> bool" where
  "parsed_section_ok sec \<longleftrightarrow> word_name (sn_name sec) \<and> list_all parsed_entry_ok (sn_entries sec)"

lemma gpio_values_range:
  "gpio_values n p = Ret (ds, q) \<Longrightarrow> length ds = n \<and> list_all (\<lambda>x. x = - 1 \<or> 0 \<le> sint x) ds"
proof (induction n arbitrary: p ds q)
  case (Suc n)
  have small: "0 \<le> sint (word_of_int v :: u32)" if "\<not> (v < 0 \<or> v > 2 ^ 31 - 1)" for v
    using that by (simp add: signed_of_int signed_take_bit_int_eq_self)
  have pad: "list_all (\<lambda>x. x = - 1 \<or> 0 \<le> sint x) (replicate n (- 1 :: u32))" by (simp add: list_all_iff)
  from Suc.prems small pad show ?case
    by (auto split: if_splits option.splits outcome.splits prod.splits dest!: Suc.IH)
qed simp

lemma parse_gpio_range:
  assumes "parse_gpio p = Ret v"
  shows "fex_value_ok v"
proof -
  obtain port :: u32 and q where port: "(port, q) = (if prefix ''P'' p then (of_char (p ! 1) - 64, drop 2 p) else (0xFFFF, drop 5 p))"
    by (metis surj_pair)
  have bank: "prefix ''P'' p \<Longrightarrow> in_range CHR ''A'' CHR ''O'' (p ! 1)"
    using assms by (auto simp: parse_gpio_def split: if_splits)
  have "1 \<le> unat port \<and> unat port \<le> 15 \<or> port = 0xFFFF"
  proof (cases "prefix ''P'' p")
    case True
    then have c: "65 \<le> (of_char (p ! 1) :: nat)" "(of_char (p ! 1) :: nat) \<le> 79"
      using bank by (simp_all add: in_range_def)
    have "port = of_nat (of_char (p ! 1)) - of_nat 64" using port True by (simp add: of_nat_of_char)
    also have "\<dots> = of_nat (of_char (p ! 1) - 64)" using c by (subst of_nat_diff) simp_all
    finally obtain m where "port = of_nat m" "1 \<le> m" "m \<le> 15" using c by fastforce
    then show ?thesis by (simp add: unsigned_of_nat take_bit_nat_eq_self)
  qed (use port in simp)
  moreover obtain n r where "strtol 10 q = Some (n, r)" "\<not> (n < 0 \<or> n > 255)"
      and ds: "\<exists>ds. gpio_values 4 r = Ret (ds, []) \<and> v = Gpio port (word_of_int n) ds"
    using assms port [symmetric]
    by (auto simp: parse_gpio_def split: if_splits option.splits outcome.splits prod.splits)
  moreover have "unat (word_of_int n :: u32) \<le> 255"
  proof -
    obtain m where "n = int m" "m \<le> 255" using calculation by (cases n) auto
    then show ?thesis by (simp add: unsigned_of_nat take_bit_nat_eq_self)
  qed
  ultimately show ?thesis using gpio_values_range by (auto simp: fex_value_ok_def)
qed

lemma parse_value_range:
  assumes "parse_value p = Ret v" and "CHR 0x00 \<notin> set p" and "CHR 0x0A \<notin> set p"
  shows "fex_value_ok v"
proof -
  have "set (butlast (tl p)) \<subseteq> set p" by (metis in_set_butlastD list.set_sel(2) subsetI tl_Nil)
  then show ?thesis using assms parse_gpio_range [of "drop 5 p" v]
    by (auto simp: parse_value_def fex_value_ok_def split: if_splits option.splits prod.splits)
qed

lemma rtrim_set: "set (rtrim s) \<subseteq> set s"
  using set_dropWhileD by (fastforce simp: rtrim_def split: list.split)

lemma strip_newline_newline:
  assumes "CHR 0x0A \<notin> set (butlast s)"
  shows "CHR 0x0A \<notin> set (strip_newline s)"
proof (cases "s \<noteq> [] \<and> last s = CHR 0x0A")
  case True
  then have "set (strip_newline s) \<subseteq> set (butlast s)"
    by (simp add: strip_newline_def) (blast dest: in_set_butlastD)
  then show ?thesis using assms by blast
next
  case False
  then have same: "strip_newline s = s" unfolding strip_newline_def by argo
  show ?thesis using False assms unfolding same by (cases s rule: rev_cases) simp_all
qed

lemma clean_line_sets: "set (clean_line b) \<subseteq> set b - {CHR 0x00}"
proof -
  note 1 = rtrim_set
  have 2: "set (strip_newline s) \<subseteq> set s" for s
    by (auto simp: strip_newline_def dest: in_set_butlastD)
  have 3: "set (skip_blank s) \<subseteq> set s" for s
    by (auto simp: skip_blank_def dest: set_dropWhileD)
  show ?thesis using 1 2 3 unfolding clean_line_def by (blast dest: set_takeWhileD)
qed

lemma butlast_takeWhile: "set (butlast (takeWhile P b)) \<subseteq> set (butlast b)"
  by (cases b rule: rev_cases) (auto simp: takeWhile_append dest: in_set_butlastD set_takeWhileD split: if_splits)

lemma butlast_dropWhile: "set (butlast (dropWhile P b)) \<subseteq> set (butlast b)"
  by (cases b rule: rev_cases) (auto simp: dropWhile_append dest: set_dropWhileD split: if_splits)

lemma clean_line_newline:
  assumes "CHR 0x0A \<notin> set (butlast b)"
  shows "CHR 0x0A \<notin> set (clean_line b)"
proof -
  define s where "s = skip_blank (takeWhile (\<lambda>c. c \<noteq> CHR 0x00) b)"
  have "set (butlast s) \<subseteq> set (butlast b)"
    unfolding s_def skip_blank_def by (rule subset_trans [OF butlast_dropWhile butlast_takeWhile])
  then have "CHR 0x0A \<notin> set (butlast s)" using assms by blast
  then have "CHR 0x0A \<notin> set (strip_newline s)" by (rule strip_newline_newline)
  then show ?thesis using rtrim_set [of "strip_newline s"] by (auto simp: clean_line_def s_def)
qed

lemma word_field: "list_all word_char n \<Longrightarrow> list_all word_char (name_field n) \<and> length (name_field n) \<le> 31"
  by (auto simp: name_field_def list_all_iff dest: in_set_takeD)

lemma word_key: "list_all word_char (takeWhile word_char s)"
  by (auto simp: list_all_iff dest: set_takeWhileD)

lemma add_entry_parsed:
  assumes "add_entry key v sec = Ret sec'" and "parsed_section_ok sec" and "fex_value_ok v" and "list_all word_char key"
  shows "parsed_section_ok sec'"
proof -
  have "\<exists>v'. sec' = script_entry_append sec v' key \<and> fex_value_ok v' \<and> (key = [] \<longrightarrow> (\<exists>s. v' = String_value s))"
    using assms(1,3)
    by (cases v) (auto simp: add_entry_def script_null_entry_new_def script_single_entry_new_def
        script_string_entry_new_def script_gpio_entry_new_def fex_value_ok_def split: if_splits)
  then show ?thesis using assms(2) word_field [OF assms(4)]
    by (auto simp: script_entry_append_def parsed_section_ok_def parsed_entry_ok_def name_field_def)
qed

lemma parse_line_value_set: "set (skip_blank (tl (skip_blank (dropWhile word_char s)))) \<subseteq> set s"
proof -
  have "set (skip_blank x) \<subseteq> set x" "set (tl x) \<subseteq> set x" for x
    by (auto simp: skip_blank_def dest: set_dropWhileD list.set_sel(2)) (metis list.sel(2) list.set_sel(2))
  then show ?thesis by (meson set_dropWhileD subset_iff)
qed

lemma parse_line_ok:
  assumes "parse_line b (seen, s) = Ret (seen', s')" and "CHR 0x0A \<notin> set (butlast b)"
    and "list_all parsed_section_ok s" and "seen \<longrightarrow> s \<noteq> []"
  shows "list_all parsed_section_ok s' \<and> (seen' \<longrightarrow> s' \<noteq> [])"
proof -
  consider "(seen', s') = (seen, s)"
    | "seen'" "script_section_new s (takeWhile word_char (tl (clean_line b))) = Ret s'"
    | v q where "seen'" "seen" "set q \<subseteq> set (clean_line b)" "parse_value q = Ret v"
        "on_last (add_entry (takeWhile word_char (clean_line b)) v) s = Ret s'"
    using assms(1) parse_line_value_set [of "clean_line b"]
    by (simp add: parse_line_def Let_def split: if_splits outcome.splits)
  then show ?thesis
  proof cases
    case 2
    then show ?thesis using assms(3) word_field [OF word_key]
      by (auto simp: script_section_new_def parsed_section_ok_def word_name_def name_field_def split: if_splits)
  next
    case 3
    have "CHR 0x00 \<notin> set q" "CHR 0x0A \<notin> set q"
      using 3(3) clean_line_sets [of b] clean_line_newline [OF assms(2)] by auto
    then have v: "fex_value_ok v" by (rule parse_value_range [OF 3(4)])
    obtain ss sec where s: "s = ss @ [sec]" using 3(2) assms(4) by (cases s rule: rev_cases) auto
    then obtain sec' where "add_entry (takeWhile word_char (clean_line b)) v sec = Ret sec'" "s' = ss @ [sec']"
      using 3(5) by (auto simp: on_last_append split: outcome.splits)
    then show ?thesis using add_entry_parsed [OF _ _ v word_key] assms(3) s by auto
  qed (use assms in auto)
qed

lemma parse_lines_ok:
  assumes "parse_lines f (seen, s) = Ret (seen', s')" and "list_all parsed_section_ok s" and "seen \<longrightarrow> s \<noteq> []"
  shows "list_all parsed_section_ok s'"
  using assms
proof (induction "length f" arbitrary: f seen s rule: less_induct)
  case less
  show ?case
  proof (cases "f = []")
    case False
    obtain b r where br: "fgets MAX_LINE f = (b, r)" by fastforce
    then have "length r < length f" using False by (auto simp: fgets_def MAX_LINE_def Let_def)
    moreover have "CHR 0x0A \<notin> set (butlast b)" using fgets_newline [of MAX_LINE f] br by simp
    moreover obtain seen1 s1 where "parse_line b (seen, s) = Ret (seen1, s1)" "parse_lines r (seen1, s1) = Ret (seen', s')"
      using less.prems(1) False br by (subst (asm) parse_lines.simps) (auto split: outcome.splits)
    ultimately show ?thesis using less.hyps less.prems parse_line_ok by blast
  qed (use less.prems in \<open>auto simp: parse_lines.simps\<close>)
qed

lemma fex_parsed_ok: "script_parse_fex f err script_new = Ret s \<Longrightarrow> list_all parsed_section_ok s"
  using parse_lines_ok [of f False "[]"]
  by (auto simp: script_parse_fex_def script_new_def split: outcome.splits if_splits)

text \<open>C17. Whatever the input, a parse that succeeds builds a well-formed tree: section names are words of 1
  to 31 characters, entry names are words of at most 31 characters (empty only for a string entry),
  strings have no NUL and no newline, and a pin has a bank from A to O or the power bank, a number up to
  255 and exactly four settings, each default or not negative.\<close>

theorem script_parse_fex_wellformed:
  assumes "script_parse_fex f err script_new = Ret s"
  shows "list_all parsed_section_ok s"
  using assms by (rule fex_parsed_ok)

theorem script_parse_fex_wellformed_witness:
  "list_all parsed_section_ok fex_demo"
proof -
  have "script_parse_fex (script_generate_fex fex_demo) False script_new = Ret fex_demo"
    unfolding script_new_def by (rule fex_roundtrip [OF fex_demo_ok])
  then show ?thesis by (rule script_parse_fex_wellformed)
qed

text \<open>A setting without its closing bracket at the end of the line is dropped without an error, and a number
  below the 32-bit range wraps.\<close>

lemma unterminated_setting_dropped: "parse_gpio ''PA0<5'' = Ret (Gpio 1 0 [- 1, - 1, - 1, - 1])"
  by code_simp

lemma negative_number_wraps: "parse_value ''-4294967295'' = Ret (Single_word 1)"
  by (simp add: parse_value_def isdigit_def in_range_def strtol_def split_sign_def split_base_def isspace_def
      is_digit_def digit_val_def num_val_def)

end
