(* ===== verification/ScriptUboot.thy ===== *)
theory ScriptUboot
  imports Script CText
begin

text \<open>
  The boot loader header of \<open>fexc\<close> (\<open>sunxi-tools/script_uboot.c\<close>): the \<open>dram_para\<close> section written as
  the initialiser of a C structure. The parts under \<open>#if 0\<close> are not compiled and not modelled.
\<close>

section \<open>The generator\<close>

record members =
  m_name :: string
  m_translation :: "string option"
  m_mode :: bool

abbreviation tab :: string where "tab \<equiv> [CHR 0x09]"
abbreviation nl :: string where "nl \<equiv> [CHR 0x0A]"

text \<open>The text of \<open>%#x\<close> and \<open>%u\<close>.\<close>

definition u32_text :: "bool \<Rightarrow> u32 \<Rightarrow> string" where
  "u32_text hexa v =
     (if hexa then (if v = 0 then ''0'' else ''0x'' @ show_hex (unat v)) else show_nat (unat v))"

definition out_u32_member :: "string \<Rightarrow> bool \<Rightarrow> u32 \<Rightarrow> string" where
  "out_u32_member key hexa v = tab @ ''.'' @ key @ '' = '' @ u32_text hexa v @ '','' @ nl"

definition out_gpio_member :: "string \<Rightarrow> u32 \<Rightarrow> u32 \<Rightarrow> u32 list \<Rightarrow> string" where
  "out_gpio_member key port num d =
     tab @ ''.'' @ key @ '' = '' @
     (if port = 0xFFFF then ''GPIO_AXP_CFG('' @ show_nat (unat num)
      else ''GPIO_CFG('' @ show_nat (unat port) @ '', '' @ show_nat (unat num)) @
     concat (map (\<lambda>x. if x = - 1 then '', 0xff'' else '', '' @ show_nat (unat x)) (take 4 d)) @ ''),'' @ nl"

definition out_null_member :: "string \<Rightarrow> string" where
  "out_null_member key = tab @ ''/* '' @ key @ '' is NULL */'' @ nl"

text \<open>\<open>None\<close> stands for the result 0: nothing is written.\<close>

definition out_member :: "string \<Rightarrow> bool \<Rightarrow> script_entry \<Rightarrow> string option" where
  "out_member key mode ep =
     (case en_value ep of
        Single_word v \<Rightarrow> Some (out_u32_member key mode v)
      | Null_value \<Rightarrow> Some (out_null_member key)
      | Gpio port num d \<Rightarrow> Some (out_gpio_member key port num d)
      | String_value _ \<Rightarrow> None)"

definition plain_member :: "string \<Rightarrow> members" where
  "plain_member n = \<lparr>m_name = n, m_translation = None, m_mode = False\<rparr>"
definition hexa_member :: "string \<Rightarrow> members" where
  "hexa_member n = \<lparr>m_name = n, m_translation = None, m_mode = True\<rparr>"
definition renamed_member :: "string \<Rightarrow> string \<Rightarrow> members" where
  "renamed_member n t = \<lparr>m_name = n, m_translation = Some t, m_mode = False\<rparr>"

definition dram_members :: "members list" where
  "dram_members =
     [plain_member ''dram_clock'', renamed_member ''dram_clk'' ''clock'', plain_member ''dram_type'',
      plain_member ''dram_rank_num'', plain_member ''dram_density'',
      renamed_member ''dram_chip_density'' ''density'', plain_member ''dram_io_width'',
      plain_member ''dram_bus_width'', plain_member ''dram_cas'', plain_member ''dram_zq'',
      plain_member ''dram_odt_en'', plain_member ''dram_size'', hexa_member ''dram_tpr0'',
      hexa_member ''dram_tpr1'', hexa_member ''dram_tpr2'', hexa_member ''dram_tpr3'', hexa_member ''dram_tpr4'',
      hexa_member ''dram_tpr5'', hexa_member ''dram_emr1'', hexa_member ''dram_emr2'', hexa_member ''dram_emr3'']"

definition member_key :: "members \<Rightarrow> string" where
  "member_key mp = (case m_translation mp of Some t \<Rightarrow> t | None \<Rightarrow> drop 5 (m_name mp))"

text \<open>One turn of the loop over the members: the text written so far and the return value.\<close>

definition dram_step :: "script_section \<Rightarrow> string \<times> bool \<Rightarrow> members \<Rightarrow> string \<times> bool" where
  "dram_step sp acc mp =
     (let (out, ret) = acc in
      case script_find_entry sp (m_name mp) of
        None \<Rightarrow> (out, ret)
      | Some ep \<Rightarrow> (case out_member (member_key mp) (m_mode mp) ep of
                     Some t \<Rightarrow> (out @ t, ret) | None \<Rightarrow> (out, False)))"

definition dram_head :: string where
  "dram_head = ''static struct dram_para dram_para = {'' @ nl"

definition dram_tail :: string where
  "dram_tail = ''};'' @ nl @ nl @ ''unsigned long sunxi_dram_init(void)'' @ nl @ ''{'' @ nl @ tab @
     ''return dramc_init(&dram_para);'' @ nl @ ''}'' @ nl"

definition generate_dram_struct :: "script_section \<Rightarrow> string \<times> bool" where
  "generate_dram_struct sp =
     (let (out, ret) = foldl (dram_step sp) (dram_head, True) dram_members in (out @ dram_tail, ret))"

definition uboot_head :: string where
  "uboot_head = ''/* this file is generated, don'' @ [CHR 0x27] @ ''t edit it yourself */'' @ nl @ nl @
     ''#include <common.h>'' @ nl @ ''#include <asm/arch/dram.h>'' @ nl @ nl"

text \<open>The result of \<open>generate_dram_struct\<close> is ignored. \<open>None\<close> is the failure for a missing section.\<close>

definition script_generate_uboot :: "script \<Rightarrow> string option" where
  "script_generate_uboot s =
     (case script_find_section s ''dram_para'' of
        None \<Rightarrow> None
      | Some sp \<Rightarrow> Some (uboot_head @ fst (generate_dram_struct sp)))"

section \<open>What is written\<close>

definition member_text :: "script_section \<Rightarrow> members \<Rightarrow> string" where
  "member_text sp mp =
     (case script_find_entry sp (m_name mp) of
        None \<Rightarrow> []
      | Some ep \<Rightarrow> (case out_member (member_key mp) (m_mode mp) ep of Some t \<Rightarrow> t | None \<Rightarrow> []))"

lemma dram_step_fold:
  "fst (foldl (dram_step sp) (out, ret) ms) = out @ concat (map (member_text sp) ms)"
proof (induction ms arbitrary: out ret)
  case (Cons mp ms)
  obtain out' ret' where st: "dram_step sp (out, ret) mp = (out', ret')" by fastforce
  then have "out' = out @ member_text sp mp"
    by (auto simp: dram_step_def member_text_def split: option.splits)
  then show ?case using Cons st by simp
qed simp

lemma u32_text_reads_back: "strtol 0 (u32_text hexa v) = Some (uint v, [])"
proof -
  have "unat v < 2 ^ 32" using unsigned_less [of v] by simp
  then have v: "unat v < 2 ^ 63" by simp
  have "show_int (int (unat v)) = show_nat (unat v)" by (simp add: show_int_def)
  moreover have "int (unat v) < 2 ^ 63" using v by (metis of_nat_less_iff of_nat_numeral of_nat_power)
  ultimately have "strtol 0 (show_nat (unat v)) = Some (int (unat v), [])"
    using strtol_show_int [of "int (unat v)"] order_trans [of "- (2 ^ 63)" 0 "int (unat v)"] by simp
  moreover have "strtol 0 ''0'' = Some (0, [])" by code_simp
  ultimately show ?thesis using strtol_show_hex [OF v] by (simp add: u32_text_def)
qed

text \<open>C33. A script gives a boot loader header exactly if it has a \<open>dram_para\<close> section. The header holds one
  piece per supported parameter the section has, in the order of the table, and for a word parameter the
  piece assigns a C constant whose value is the word, whether it is written in decimal or hexadecimal.
  A parameter with a string value is left out, and the header is still reported as generated.\<close>

theorem script_generate_uboot_correct:
  "(script_generate_uboot s = None \<longleftrightarrow> script_find_section s ''dram_para'' = None) \<and>
   (case script_find_section s ''dram_para'' of None \<Rightarrow> True | Some sp \<Rightarrow>
      \<exists>pre post. script_generate_uboot s = Some (pre @ concat (map (member_text sp) dram_members) @ post) \<and>
        (\<forall>mp. case script_find_entry sp (m_name mp) of
           None \<Rightarrow> member_text sp mp = []
         | Some ep \<Rightarrow> (case en_value ep of
               String_value _ \<Rightarrow> member_text sp mp = []
             | Single_word v \<Rightarrow> (\<exists>t. member_text sp mp = tab @ ''.'' @ member_key mp @ '' = '' @ t @ '','' @ nl \<and>
                   strtol 0 t = Some (uint v, []))
             | _ \<Rightarrow> member_text sp mp \<noteq> [])))"
proof (cases "script_find_section s ''dram_para''")
  case None
  then show ?thesis by (simp add: script_generate_uboot_def)
next
  case (Some sp)
  have "fst (generate_dram_struct sp) = (dram_head @ concat (map (member_text sp) dram_members)) @ dram_tail"
    using dram_step_fold [of sp dram_head True dram_members] by (auto simp: generate_dram_struct_def split: prod.split)
  then have "script_generate_uboot s =
      Some ((uboot_head @ dram_head) @ concat (map (member_text sp) dram_members) @ dram_tail)"
    using Some by (simp add: script_generate_uboot_def)
  moreover have "\<forall>mp. case script_find_entry sp (m_name mp) of
           None \<Rightarrow> member_text sp mp = []
         | Some ep \<Rightarrow> (case en_value ep of
               String_value _ \<Rightarrow> member_text sp mp = []
             | Single_word v \<Rightarrow> (\<exists>t. member_text sp mp = tab @ ''.'' @ member_key mp @ '' = '' @ t @ '','' @ nl \<and>
                   strtol 0 t = Some (uint v, []))
             | _ \<Rightarrow> member_text sp mp \<noteq> [])"
    using u32_text_reads_back
    by (auto simp: member_text_def out_member_def out_u32_member_def out_null_member_def out_gpio_member_def
        split: option.split script_value.split)
  ultimately show ?thesis using Some by (simp only: option.case option.distinct simp_thms) blast
qed

end
