(* ===== verification/Fexc.thy ===== *)
theory Fexc
  imports ScriptBin ScriptFex ScriptUboot
begin

text \<open>
  The command \<open>sunxi-fexc\<close> with its aliases \<open>fex2bin\<close> and \<open>bin2fex\<close> (\<open>sunxi-tools/fexc.c\<close>): reading and
  writing files, choosing the formats and running a parser and a generator. The system is a record of
  file contents; the results of single \<open>read\<close> and \<open>write\<close> calls are given as schedules; the options are
  those \<open>getopt\<close> delivers. Memory is assumed available, and a file is not changed while it is mapped.
\<close>

section \<open>Reading and writing\<close>

text \<open>The outcome of one \<open>read\<close>: bytes, the end of the file, an interruption, or another error.\<close>

datatype read_result = Got bytes | Eof | Again | Read_failed

text \<open>A read never delivers more than was asked for; a schedule that ends early never returns.\<close>

fun read_all :: "nat \<Rightarrow> bytes \<Rightarrow> read_result list \<Rightarrow> (script_error, bytes \<times> nat) outcome" where
  "read_all buf_size buf [] = Undef"
| "read_all buf_size buf (rc # rs) =
     (case rc of
        Eof \<Rightarrow> Ret (buf, buf_size)
      | Got bs \<Rightarrow>
          if bs = [] \<or> length bs > buf_size - length buf then Undef
          else let buf = buf @ bs; buf_size = (if length buf = buf_size then buf_size * 2 else buf_size)
               in read_all buf_size buf rs
      | Again \<Rightarrow> read_all buf_size buf rs
      | Read_failed \<Rightarrow> Err Read_error)"

datatype write_result = Wrote nat | Interrupted | Write_failed

text \<open>The loop around \<open>write\<close>: what was written, and whether everything was.\<close>

fun write_all :: "bytes \<Rightarrow> write_result list \<Rightarrow> (bytes \<times> bool) option" where
  "write_all bin ws =
     (if bin = [] then Some ([], True)
      else case ws of
          [] \<Rightarrow> None
        | Wrote n # ws \<Rightarrow>
            (case write_all (drop n bin) ws of Some (out, ok) \<Rightarrow> Some (take n bin @ out, ok) | None \<Rightarrow> None)
        | Interrupted # ws \<Rightarrow> write_all bin ws
        | Write_failed # ws \<Rightarrow> Some ([], False))"

declare write_all.simps [simp del]

section \<open>The system\<close>

record system =
  sy_order :: byte_order
  sy_files :: "string \<rightharpoonup> bytes"
  sy_writable :: "string \<Rightarrow> bool"
  sy_stdin :: bytes
  sy_stdin_regular :: bool
  sy_reads :: "read_result list"
  sy_writes :: "write_result list"
  sy_heap_tail :: "nat \<Rightarrow> bytes"
  sy_stdout :: bytes

datatype script_format = FEX_SCRIPT_FORMAT | BIN_SCRIPT_FORMAT | UBOOT_HEADER_FORMAT

definition PAGE_SIZE :: nat where "PAGE_SIZE = 4096"

text \<open>Behind a mapped file the rest of its last page reads as zeros.\<close>

definition page_tail :: "nat \<Rightarrow> bytes" where
  "page_tail n = replicate ((PAGE_SIZE - n mod PAGE_SIZE) mod PAGE_SIZE) 0"

text \<open>The bytes of an input with what lies behind them: a regular file is mapped, which fails for an
  empty one, anything else is read into a buffer. The tail of that buffer is not initialised.\<close>

definition load_bin :: "system \<Rightarrow> string option \<Rightarrow> (script_error, bytes \<times> bytes) outcome" where
  "load_bin sy filename =
     (let mapped = (\<lambda>bin. if bin = [] then Err Read_error else Ret (bin, page_tail (length bin))) in
      case filename of
        Some f \<Rightarrow> (case sy_files sy f of None \<Rightarrow> Err Read_error | Some bin \<Rightarrow> mapped bin)
      | None \<Rightarrow>
          if sy_stdin_regular sy then mapped (sy_stdin sy)
          else (case read_all 4096 [] (sy_reads sy) of
                  Ret (bin, buf_size) \<Rightarrow> Ret (bin, take (buf_size - length bin) (sy_heap_tail sy (buf_size - length bin)))
                | Err e \<Rightarrow> Err e
                | Undef \<Rightarrow> Undef))"

definition script_parse :: "system \<Rightarrow> script_format \<Rightarrow> string option \<Rightarrow> script \<Rightarrow> (script_error, script) outcome" where
  "script_parse sy fmt filename s =
     (case fmt of
        FEX_SCRIPT_FORMAT \<Rightarrow>
          (case filename of
             None \<Rightarrow> script_parse_fex (str_of (sy_stdin sy)) False s
           | Some f \<Rightarrow> (case sy_files sy f of None \<Rightarrow> Err Read_error | Some t \<Rightarrow> script_parse_fex (str_of t) False s))
      | BIN_SCRIPT_FORMAT \<Rightarrow>
          (case load_bin sy filename of
             Ret (bin, after) \<Rightarrow> script_decompile_bin (sy_order sy) bin after s
           | Err e \<Rightarrow> Err e
           | Undef \<Rightarrow> Undef)
      | UBOOT_HEADER_FORMAT \<Rightarrow> Err Parse_error)"

text \<open>Opening for writing truncates the file.\<close>

definition put_out :: "system \<Rightarrow> string option \<Rightarrow> bytes \<Rightarrow> system" where
  "put_out sy filename bs =
     (case filename of None \<Rightarrow> sy\<lparr>sy_stdout := sy_stdout sy @ bs\<rparr> | Some f \<Rightarrow> sy\<lparr>sy_files := (sy_files sy)(f \<mapsto> bs)\<rparr>)"

definition can_open :: "system \<Rightarrow> string option \<Rightarrow> bool" where
  "can_open sy filename = (case filename of None \<Rightarrow> True | Some f \<Rightarrow> sy_writable sy f)"

definition script_generate :: "system \<Rightarrow> script_format \<Rightarrow> string option \<Rightarrow> script \<Rightarrow> (system \<times> bool) option" where
  "script_generate sy fmt filename s =
     (if \<not> can_open sy filename then Some (sy, False)
      else case fmt of
          FEX_SCRIPT_FORMAT \<Rightarrow> Some (put_out sy filename (bytes_of (script_generate_fex s)), True)
        | UBOOT_HEADER_FORMAT \<Rightarrow>
            (case script_generate_uboot s of
               Some t \<Rightarrow> Some (put_out sy filename (bytes_of t), True)
             | None \<Rightarrow> Some (put_out sy filename [], False))
        | BIN_SCRIPT_FORMAT \<Rightarrow>
            (let (bin_size, sections, entries) = script_bin_size s;
                 bin = script_generate_bin (sy_order sy) (replicate bin_size 0) bin_size s sections entries
             in case write_all bin (sy_writes sy) of
                  Some (out, ok) \<Rightarrow> Some (put_out sy filename out, ok) | None \<Rightarrow> None))"

section \<open>The command\<close>

text \<open>\<open>basename\<close> of \<open>libgen.h\<close>: slashes at the end do not count.\<close>

definition base_name :: "string \<Rightarrow> string" where
  "base_name s =
     (let t = dropWhile (\<lambda>c. c = CHR ''/'') (rev s) in
      if s = [] then ''.'' else if t = [] then ''/'' else rev (takeWhile (\<lambda>c. c \<noteq> CHR ''/'') t))"

definition app_choose_mode :: "string \<Rightarrow> nat" where
  "app_choose_mode arg0 =
     (let name = base_name arg0 in if name = ''fex2bin'' then 1 else if name = ''bin2fex'' then 2 else 0)"

datatype opt = Opt_I string | Opt_O string | Opt_v | Opt_q | Opt_other

definition format_of :: "string \<Rightarrow> script_format option" where
  "format_of t =
     (if t = ''fex'' then Some FEX_SCRIPT_FORMAT else if t = ''bin'' then Some BIN_SCRIPT_FORMAT
      else if t = ''uboot'' then Some UBOOT_HEADER_FORMAT else None)"

text \<open>The formats after the options; \<open>None\<close> shows the usage. The aliases do not know \<open>-I\<close> and \<open>-O\<close>.\<close>

fun scan_opts :: "nat \<Rightarrow> opt list \<Rightarrow> script_format \<times> script_format \<Rightarrow> (script_format \<times> script_format) option" where
  "scan_opts mode [] fmts = Some fmts"
| "scan_opts mode (op # ops) (infmt, outfmt) =
     (case op of
        Opt_I a \<Rightarrow>
          if mode \<noteq> 0 then None
          else (case format_of a of
                  Some UBOOT_HEADER_FORMAT \<Rightarrow> None
                | Some f \<Rightarrow> scan_opts mode ops (f, outfmt)
                | None \<Rightarrow> None)
      | Opt_O a \<Rightarrow>
          if mode \<noteq> 0 then None
          else (case format_of a of Some f \<Rightarrow> scan_opts mode ops (infmt, f) | None \<Rightarrow> None)
      | Opt_v \<Rightarrow> scan_opts mode ops (infmt, outfmt)
      | Opt_q \<Rightarrow> scan_opts mode ops (infmt, outfmt)
      | Opt_other \<Rightarrow> None)"

definition in_name :: "string \<Rightarrow> string option" where
  "in_name a = (if a = ''-'' then None else Some a)"

definition file_args :: "string list \<Rightarrow> (string option \<times> string option) option" where
  "file_args args =
     (case args of
        [] \<Rightarrow> Some (None, None) | [a] \<Rightarrow> Some (in_name a, None) | [a, b] \<Rightarrow> Some (in_name a, Some b) | _ \<Rightarrow> None)"

text \<open>The exit status and the system afterwards. A run that reads outside a buffer has no defined outcome,
  an assertion that fails ends the program by a signal, the status a shell shows as 134.\<close>

definition fexc_main :: "string \<Rightarrow> opt list \<Rightarrow> string list \<Rightarrow> system \<Rightarrow> (nat \<times> system) option" where
  "fexc_main arg0 ops args sy =
     (let mode = app_choose_mode arg0;
          fmts = (if mode = 2 then (BIN_SCRIPT_FORMAT, FEX_SCRIPT_FORMAT) else (FEX_SCRIPT_FORMAT, BIN_SCRIPT_FORMAT))
      in case scan_opts mode ops fmts of
           None \<Rightarrow> Some (1, sy)
         | Some (infmt, outfmt) \<Rightarrow>
             (case file_args args of
                None \<Rightarrow> Some (1, sy)
              | Some (fin, fout) \<Rightarrow>
                  (case script_parse sy infmt fin script_new of
                     Undef \<Rightarrow> None
                   | Err e \<Rightarrow> Some (if e = Assert_failed then 134 else 1, sy)
                   | Ret s \<Rightarrow>
                       (case script_generate sy outfmt fout s of
                          None \<Rightarrow> None | Some (sy', ok) \<Rightarrow> Some (if ok then 0 else 1, sy')))))"

section \<open>Reading and writing everything\<close>

text \<open>A file that delivers its content in pieces: each number bounds one read, zero is an interruption.\<close>

fun serve :: "nat \<Rightarrow> nat \<Rightarrow> bytes \<Rightarrow> nat list \<Rightarrow> read_result list" where
  "serve buf_size count content ks =
     (if content = [] then [Eof]
      else case ks of
          [] \<Rightarrow> []
        | k # ks \<Rightarrow>
            if k = 0 then Again # serve buf_size count content ks
            else let n = min k (min (buf_size - count) (length content)) in
              Got (take n content) #
                serve (if count + n = buf_size then buf_size * 2 else buf_size) (count + n) (drop n content) ks)"

declare serve.simps [simp del]

lemma read_all_serve:
  assumes "length buf < buf_size" and "length content \<le> length (filter (\<lambda>k. 0 < k) ks)"
  shows "\<exists>size'. read_all buf_size buf (serve buf_size (length buf) content ks) = Ret (buf @ content, size') \<and>
    length (buf @ content) < size'"
  using assms
proof (induction ks arbitrary: buf_size buf content)
  case Nil
  then show ?case by (simp add: serve.simps)
next
  case (Cons k ks)
  consider "content = []" | "content \<noteq> []" "k = 0" | "content \<noteq> []" "0 < k" by auto
  then show ?case
  proof cases
    case 1
    then show ?thesis using Cons.prems by (subst serve.simps) simp
  next
    case 2
    then show ?thesis using Cons.IH [of buf buf_size content] Cons.prems by (subst serve.simps) simp
  next
    case 3
    define n where "n = min k (min (buf_size - length buf) (length content))"
    define size1 where "size1 = (if length buf + n = buf_size then buf_size * 2 else buf_size)"
    have n: "0 < n" "n \<le> length content" "n \<le> buf_size - length buf"
      using 3 Cons.prems by (auto simp: n_def)
    then have "length (buf @ take n content) < size1"
      using Cons.prems(1) by (auto simp: size1_def)
    moreover have "length (drop n content) \<le> length (filter (\<lambda>k. 0 < k) ks)" using Cons.prems(2) 3 n by simp
    ultimately have "\<exists>size'. read_all size1 (buf @ take n content)
        (serve size1 (length (buf @ take n content)) (drop n content) ks) =
          Ret ((buf @ take n content) @ drop n content, size') \<and>
        length ((buf @ take n content) @ drop n content) < size'"
      by (rule Cons.IH)
    then show ?thesis using 3 n
      by (subst serve.simps) (simp add: n_def [symmetric] size1_def [symmetric] Let_def)
  qed
qed

text \<open>C34. Reading a pipe to its end succeeds however the system cuts the data into pieces and however often it
  interrupts: \<open>read_all\<close> returns exactly the content, in order, in a buffer with at least one byte to
  spare, provided the system keeps delivering data.\<close>

theorem read_all_complete:
  assumes "length content \<le> length (filter (\<lambda>k. 0 < k) ks)"
  shows "\<exists>size'. read_all 4096 [] (serve 4096 0 content ks) = Ret (content, size') \<and> length content < size'"
  using read_all_serve [of "[]" 4096 content ks] assms by simp

theorem read_all_complete_witness:
  "\<exists>size'. read_all 4096 [] (serve 4096 0 [1, 2, 3] [0, 2, 0, 5, 1]) = Ret ([1, 2, 3], size') \<and> 3 < size'"
  using read_all_complete [of "[1, 2, 3]" "[0, 2, 0, 5, 1]"] by (simp add: numeral_3_eq_3)

fun written :: "write_result list \<Rightarrow> nat" where
  "written [] = 0"
| "written (Wrote n # ws) = n + written ws"
| "written (_ # ws) = written ws"

lemma write_all_complete:
  "list_all (\<lambda>w. w \<noteq> Write_failed) ws \<Longrightarrow> length bin \<le> written ws \<Longrightarrow> write_all bin ws = Some (bin, True)"
proof (induction ws arbitrary: bin)
  case (Cons w ws)
  then show ?case
    by (subst write_all.simps) (auto split: write_result.split)
qed (simp add: write_all.simps)

section \<open>Converting back and forth\<close>

definition convertible :: "script_entry \<Rightarrow> bool" where
  "convertible e \<longleftrightarrow> en_name e \<noteq> [] \<and>
     (case en_value e of
        String_value t \<Rightarrow> length (en_name e) + length t \<le> 249 | Gpio port _ _ \<Rightarrow> port \<noteq> 15 | _ \<Rightarrow> True)"

lemma parsed_convertible_fex:
  assumes "list_all parsed_section_ok s" and "list_all convertible (all_entries s)"
  shows "list_all fex_section_ok s"
  using assms
  by (auto simp: list_all_iff all_entries_def parsed_section_ok_def fex_section_ok_def parsed_entry_ok_def
      fex_entry_ok_def convertible_def word_name_def split: script_value.splits)

lemma parsed_convertible_bin_entry:
  assumes "parsed_entry_ok e" and "convertible e"
  shows "bin_entry_ok e"
proof -
  have "nul_free (en_name e)"
    using assms(1) word_char_not by (fastforce simp: parsed_entry_ok_def list_all_iff nul_free_def)
  moreover have "value_ok (en_value e)"
  proof (cases "en_value e")
    case (String_value t)
    then have "length t \<le> 249" "nul_free t" using assms
      by (auto simp: convertible_def parsed_entry_ok_def fex_value_ok_def nul_free_def)
    then show ?thesis using String_value by (simp add: value_ok_def WORDS_def)
  next
    case (Gpio port num d)
    then have "1 \<le> unat port \<and> unat port \<le> 15 \<or> port = 0xFFFF" "port \<noteq> 15" "length d = 4"
      using assms by (auto simp: convertible_def parsed_entry_ok_def fex_value_ok_def)
    moreover have "unat port \<noteq> 15"
    proof
      assume "unat port = 15"
      then have "unat port = unat (15 :: u32)" by simp
      then have "port = 15" by (rule unsigned_word_eqI)
      then show False using \<open>port \<noteq> 15\<close> by simp
    qed
    ultimately have "1 \<le> int (unat port) \<and> int (unat port) \<le> 14 \<or> port = 0xFFFF" by linarith
    then show ?thesis using Gpio \<open>length d = 4\<close> by (simp add: value_ok_def GPIO_BANK_MAX_def disj_commute)
  qed (simp_all add: value_ok_def)
  ultimately show ?thesis using assms by (simp add: bin_entry_ok_def parsed_entry_ok_def convertible_def)
qed

lemma parsed_convertible_bin:
  assumes "list_all parsed_section_ok s" and "list_all convertible (all_entries s)"
  shows "list_all bin_section_ok s"
proof -
  have "bin_section_ok sec" if sec: "sec \<in> set s" for sec
  proof -
    have "nul_free (sn_name sec)" "word_name (sn_name sec)"
      using assms(1) sec word_char_not
      by (fastforce simp: parsed_section_ok_def word_name_def list_all_iff nul_free_def)+
    moreover have "list_all bin_entry_ok (sn_entries sec)"
      using assms sec parsed_convertible_bin_entry
      by (auto simp: list_all_iff all_entries_def parsed_section_ok_def)
    ultimately show ?thesis by (simp add: bin_section_ok_def word_name_def)
  qed
  then show ?thesis by (simp add: list_all_iff)
qed

lemma page_tail_nonempty: "n mod PAGE_SIZE \<noteq> 0 \<Longrightarrow> page_tail n \<noteq> []"
  by (auto simp: page_tail_def PAGE_SIZE_def)

lemma page_tail_short: "length (page_tail n) < PAGE_SIZE"
  by (simp add: page_tail_def PAGE_SIZE_def)

text \<open>C2. A text file that parses survives the way to the binary form and back: \<open>fex2bin\<close> writes the binary
  file and exits with 0, \<open>bin2fex\<close> turns that file into a text and exits with 0, and this text parses to
  the script of the original file. The script must use only what both forms can hold (named entries, no
  bank O, strings that fit a line, at most 256 sections), and the binary file must not end exactly at the end
  of a page, where the mapped file has no byte to spare.\<close>

theorem fex2bin_bin2fex:
  assumes files: "a \<noteq> ''-''" "b \<noteq> ''-''" "sy_files sy a = Some f" "sy_writable sy b" "sy_writable sy c"
    and parse: "script_parse_fex (str_of f) False script_new = Ret s"
    and conv: "list_all convertible (all_entries s)" "length s \<le> 0x100"
    and sz: "fst (script_bin_size s) < 2 ^ 30" "fst (script_bin_size s) mod PAGE_SIZE \<noteq> 0"
    and ws: "list_all (\<lambda>w. w \<noteq> Write_failed) (sy_writes sy)" "fst (script_bin_size s) \<le> written (sy_writes sy)"
  shows "\<exists>sy1 sy2 out. fexc_main ''fex2bin'' [] [a, b] sy = Some (0, sy1) \<and>
    fexc_main ''bin2fex'' [] [b, c] sy1 = Some (0, sy2) \<and>
    sy_files sy2 c = Some out \<and> script_parse_fex (str_of out) False script_new = Ret s"
proof -
  obtain n ns ne where bs: "script_bin_size s = (n, ns, ne)" using prod_cases3 by blast
  have ok: "list_all parsed_section_ok s" by (rule fex_parsed_ok [OF parse])
  define bin where "bin = script_generate_bin (sy_order sy) (replicate n 0) n s ns ne"
  have tail: "page_tail n \<noteq> []" "n + length (page_tail n) < 2 ^ 31"
    using sz bs page_tail_nonempty page_tail_short [of n] by (auto simp: PAGE_SIZE_def)
  have rt: "length bin = n" "script_decompile_bin (sy_order sy) bin (page_tail n) script_new = Ret s"
    using bin_roundtrip [OF parsed_convertible_bin [OF ok conv(1)] conv(2) bs tail(2,1), of "sy_order sy"]
    by (simp_all add: bin_def Let_def)
  have "bin \<noteq> []" using rt(1) sz(2) bs by auto
  define sy1 where "sy1 = sy\<lparr>sy_files := (sy_files sy)(b \<mapsto> bin)\<rparr>"
  define out where "out = bytes_of (script_generate_fex s)"
  define sy2 where "sy2 = sy1\<lparr>sy_files := (sy_files sy1)(c \<mapsto> out)\<rparr>"
  have "write_all bin (sy_writes sy) = Some (bin, True)"
    using write_all_complete [OF ws(1), of bin] ws(2) bs rt(1) by simp
  then have 1: "fexc_main ''fex2bin'' [] [a, b] sy = Some (0, sy1)"
    using files parse bs
    by (simp add: fexc_main_def app_choose_mode_def base_name_def file_args_def in_name_def script_parse_def
        script_generate_def can_open_def put_out_def bin_def [symmetric] sy1_def)
  have 2: "fexc_main ''bin2fex'' [] [b, c] sy1 = Some (0, sy2)"
    using files rt \<open>bin \<noteq> []\<close>
    by (simp add: fexc_main_def app_choose_mode_def base_name_def file_args_def in_name_def script_parse_def
        load_bin_def script_generate_def can_open_def put_out_def out_def sy2_def sy1_def)
  have "script_parse_fex (str_of out) False script_new = Ret s"
    using fex_roundtrip [OF parsed_convertible_fex [OF ok conv(1)]] by (simp add: out_def script_new_def)
  then show ?thesis using 1 2 by (auto simp: sy2_def)
qed

definition demo_system :: system where
  "demo_system = \<lparr>sy_order = Little_endian, sy_files = [''in'' \<mapsto> bytes_of (script_generate_fex fex_demo)],
     sy_writable = (\<lambda>f. True), sy_stdin = [], sy_stdin_regular = False, sy_reads = [],
     sy_writes = [Interrupted, Wrote 4096], sy_heap_tail = (\<lambda>n. replicate n 0), sy_stdout = []\<rparr>"

theorem fex2bin_bin2fex_witness:
  "\<exists>sy1 sy2 out. fexc_main ''fex2bin'' [] [''in'', ''mid''] demo_system = Some (0, sy1) \<and>
    fexc_main ''bin2fex'' [] [''mid'', ''out''] sy1 = Some (0, sy2) \<and>
    sy_files sy2 ''out'' = Some out \<and> script_parse_fex (str_of out) False script_new = Ret fex_demo"
proof (rule fex2bin_bin2fex)
  show "script_parse_fex (str_of (bytes_of (script_generate_fex fex_demo))) False script_new = Ret fex_demo"
    using fex_roundtrip [OF fex_demo_ok] by (simp add: script_new_def)
  have "fst (script_bin_size fex_demo) = 296"
    by (simp add: fex_demo_def script_bin_size_def WORDS_def value_size_def)
  then show "fst (script_bin_size fex_demo) < 2 ^ 30" "fst (script_bin_size fex_demo) mod PAGE_SIZE \<noteq> 0"
    "fst (script_bin_size fex_demo) \<le> written (sy_writes demo_system)"
    by (simp_all add: PAGE_SIZE_def demo_system_def)
qed (simp_all add: demo_system_def fex_demo_def all_entries_def convertible_def)

end
