(* ===== verification/Rtime.thy ===== *)
theory Rtime
  imports Prelude
begin

text \<open>
  The compressor \<open>rtime\<close> of JFFS2 (\<open>CHIP-mtd-utils/compr_rtime.c\<close>): each literal byte is followed by the
  length of a run copied from behind the last occurrence of that byte. The positions are C \<open>short\<close>s, so an
  input of more than 32767 bytes makes them negative. Reading or writing outside a buffer has no defined
  outcome. The interface of a compressor is the locale \<open>jffs2_codec\<close>, which this one interprets.
\<close>

unbundle bit_operations_syntax

section \<open>The interface of a compressor\<close>

text \<open>\<open>compress data srclen dstlen\<close> returns the output and how much of the input it holds, or fails;
  \<open>decompress data destlen\<close> fills a buffer of \<open>destlen\<close> bytes. \<open>limit\<close> bounds the input.\<close>

type_synonym compress_fn = "bytes \<Rightarrow> nat \<Rightarrow> nat \<Rightarrow> (unit, bytes \<times> nat) outcome"
type_synonym decompress_fn = "bytes \<Rightarrow> nat \<Rightarrow> (unit, bytes) outcome"

locale jffs2_codec =
  fixes compress :: compress_fn and decompress :: decompress_fn and limit :: nat
  assumes defined: "n \<le> length d \<Longrightarrow> n \<le> limit \<Longrightarrow> compress d n dst \<noteq> Undef"
    and lossless: "n \<le> length d \<Longrightarrow> n \<le> limit \<Longrightarrow> compress d n dst = Ret (out, n') \<Longrightarrow>
      n' \<le> n \<and> 0 < n' \<and> 0 < length out \<and> length out \<le> dst \<and> decompress out n' = Ret (take n' d)"
begin

text \<open>A caller that gets a result can always expand it.\<close>

lemma reads_back:
  assumes "n \<le> length d" and "n \<le> limit" and "compress d n dst = Ret (out, n')"
  shows "decompress out n' = Ret (take n' d)" and "length (take n' d) = n'"
  using lossless [OF assms] assms(1) by auto

lemma fits: "n \<le> length d \<Longrightarrow> n \<le> limit \<Longrightarrow> compress d n dst = Ret (out, n') \<Longrightarrow> length out \<le> dst"
  using lossless by blast

end

section \<open>The compressor\<close>

text \<open>The run behind a literal: the first position that does not match and the length.\<close>

function rtime_run :: "bytes \<Rightarrow> nat \<Rightarrow> int \<Rightarrow> nat \<Rightarrow> nat \<Rightarrow> (nat \<times> nat) option" where
  "rtime_run d n backpos pos runlen =
     (if backpos < int pos \<and> pos < n then
        (if backpos < 0 then None
         else if d ! pos = d ! nat backpos \<and> runlen < 255 then rtime_run d n (backpos + 1) (pos + 1) (runlen + 1)
         else Some (pos, runlen))
      else Some (pos, runlen))"
  by pat_completeness auto
termination by (relation "measure (\<lambda>(d, n, b, p, r). n - p)") auto

declare rtime_run.simps [simp del]

lemma rtime_run_pos: "rtime_run d n b p r = Some (p', r') \<Longrightarrow> p \<le> p'"
proof (induction d n b p r rule: rtime_run.induct)
  case (1 d n b p r)
  then show ?case by (subst (asm) (2) rtime_run.simps) (fastforce split: if_splits)
qed

function rtime_loop :: "bytes \<Rightarrow> nat \<Rightarrow> nat \<Rightarrow> u16 list \<Rightarrow> nat \<Rightarrow> nat \<Rightarrow> (bytes \<times> nat) option" where
  "rtime_loop d n dst positions outpos pos =
     (if pos < n \<and> outpos + 2 \<le> dst then
        (let v = d ! pos; backpos = sint (positions ! unat v); positions = positions[unat v := of_nat (pos + 1)] in
         case rtime_run d n backpos (pos + 1) 0 of
           None \<Rightarrow> None
         | Some (pos', runlen) \<Rightarrow>
             (case rtime_loop d n dst positions (outpos + 2) pos' of
                None \<Rightarrow> None | Some (out, end_pos) \<Rightarrow> Some (v # of_nat runlen # out, end_pos)))
      else Some ([], pos))"
  by pat_completeness auto
termination
  by (relation "measure (\<lambda>(d, n, dst, ps, o', p). n - p)") (auto dest!: rtime_run_pos)

declare rtime_loop.simps [simp del]

definition jffs2_rtime_compress :: compress_fn where
  "jffs2_rtime_compress d srclen dstlen =
     (case rtime_loop d srclen dstlen (replicate 256 0) 0 0 of
        None \<Rightarrow> Undef
      | Some (out, pos) \<Rightarrow> if length out \<ge> pos then Err () else Ret (out, pos))"

section \<open>The decompressor\<close>

fun copy_run :: "bytes \<Rightarrow> nat \<Rightarrow> nat \<Rightarrow> bytes" where
  "copy_run out backoffs 0 = out"
| "copy_run out backoffs (Suc repeat) = copy_run (out @ [out ! backoffs]) (backoffs + 1) repeat"

text \<open>The output so far is the list \<open>out\<close>; it must stay within \<open>destlen\<close> bytes, and the input is read two
  bytes at a time.\<close>

fun unrtime_loop :: "u16 list \<Rightarrow> bytes \<Rightarrow> nat \<Rightarrow> bytes \<Rightarrow> bytes option" where
  "unrtime_loop positions out destlen (v # r # rest) =
     (if length out < destlen then
        (let out = out @ [v]; repeat = unat r; backoffs = sint (positions ! unat v);
             positions = positions[unat v := of_nat (length out)] in
         if repeat = 0 then unrtime_loop positions out destlen rest
         else if backoffs < 0 \<or> length out + repeat > destlen then None
         else if backoffs + int repeat \<ge> int (length out) then
           unrtime_loop positions (copy_run out (nat backoffs) repeat) destlen rest
         else unrtime_loop positions (out @ take repeat (drop (nat backoffs) out)) destlen rest)
      else Some out)"
| "unrtime_loop positions out destlen short = (if length out < destlen then None else Some out)"

definition jffs2_rtime_decompress :: decompress_fn where
  "jffs2_rtime_decompress d destlen =
     (case unrtime_loop (replicate 256 0) [] destlen d of None \<Rightarrow> Undef | Some out \<Rightarrow> Ret out)"

section \<open>Round trip\<close>

text \<open>What a run means: the bytes at the position repeat the bytes behind the last occurrence.\<close>

lemma rtime_run_spec:
  assumes "rtime_run d n b p r = Some (p', r')" and "0 \<le> b"
  shows "p' = p + (r' - r) \<and> r \<le> r' \<and> (r \<le> 255 \<longrightarrow> r' \<le> 255) \<and> (p \<le> n \<longrightarrow> p' \<le> n) \<and>
    (\<forall>i < r' - r. d ! (p + i) = d ! (nat b + i)) \<and> (r < r' \<longrightarrow> b < int p)"
  using assms
proof (induction d n b p r rule: rtime_run.induct)
  case (1 d n b p r)
  show ?case
  proof (cases "b < int p \<and> p < n \<and> d ! p = d ! nat b \<and> r < 255")
    case True
    then have rec: "rtime_run d n (b + 1) (p + 1) (r + 1) = Some (p', r')"
      using 1(2,3) by (subst (asm) rtime_run.simps) simp
    have ih: "p' = p + 1 + (r' - (r + 1)) \<and> r + 1 \<le> r' \<and> (r + 1 \<le> 255 \<longrightarrow> r' \<le> 255) \<and> (p + 1 \<le> n \<longrightarrow> p' \<le> n) \<and>
        (\<forall>i < r' - (r + 1). d ! (p + 1 + i) = d ! (nat (b + 1) + i))"
      using 1(1) [OF _ _ _ rec] True 1(3) by auto
    have "d ! (p + i) = d ! (nat b + i)" if "i < r' - r" for i
    proof (cases i)
      case (Suc j)
      then have "d ! (p + 1 + j) = d ! (nat (b + 1) + j)" using ih that by simp
      then show ?thesis using Suc 1(3) by (simp add: nat_add_distrib)
    qed (use True in simp)
    then show ?thesis using ih True by auto
  next
    case False
    then have "p' = p \<and> r' = r" using 1(2,3) by (subst (asm) rtime_run.simps) (auto split: if_splits)
    then show ?thesis by simp
  qed
qed

lemma copy_run_take:
  assumes "b < p" and "p + r \<le> length d" and "\<forall>i < r. d ! (p + i) = d ! (b + i)"
  shows "copy_run (take p d) b r = take (p + r) d"
  using assms
proof (induction r arbitrary: b p)
  case (Suc r)
  have "take p d @ [take p d ! b] = take (p + 1) d"
    using Suc.prems by (auto simp: take_Suc_conv_app_nth)
  moreover have "copy_run (take (p + 1) d) (b + 1) r = take (p + 1 + r) d"
  proof (rule Suc.IH)
    show "\<forall>i < r. d ! (p + 1 + i) = d ! (b + 1 + i)"
    proof (intro allI impI)
      fix i assume "i < r"
      then show "d ! (p + 1 + i) = d ! (b + 1 + i)" using Suc.prems(3) [rule_format, of "Suc i"] by simp
    qed
  qed (use Suc.prems in auto)
  ultimately show ?case by simp
qed simp

lemma copy_run_memcpy:
  assumes "b + r \<le> length out"
  shows "copy_run out b r = out @ take r (drop b out)"
  using assms
proof (induction r arbitrary: out b)
  case (Suc r)
  then have "copy_run (out @ [out ! b]) (b + 1) r = (out @ [out ! b]) @ take r (drop (b + 1) (out @ [out ! b]))"
    by (intro Suc.IH) simp
  then show ?case using Suc.prems by (simp add: Cons_nth_drop_Suc [symmetric])
qed simp

text \<open>The positions are those of bytes seen before, in the range of a \<open>short\<close>.\<close>

definition positions_ok :: "nat \<Rightarrow> u16 list \<Rightarrow> bool" where
  "positions_ok pos ps \<longleftrightarrow> length ps = 256 \<and> list_all (\<lambda>w. 0 \<le> sint w \<and> sint w \<le> int pos) ps"

lemma short_pos: "k \<le> 32767 \<Longrightarrow> sint (of_nat k :: u16) = int k"
  by (simp add: sint_uint unsigned_of_nat take_bit_nat_eq_self signed_take_bit_int_eq_self)

lemma byte_index: "unat (v :: u8) < 256"
  using unsigned_less [of v] by simp

lemma positions_ok_upd:
  assumes "positions_ok pos ps" and "k \<le> 32767" and "pos \<le> k"
  shows "positions_ok k (ps[i := of_nat k])"
proof -
  have "set (ps[i := of_nat k]) \<subseteq> insert (of_nat k) (set ps)" by (rule set_update_subset_insert)
  then show ?thesis using assms short_pos [OF assms(2)] by (force simp: positions_ok_def list_all_iff)
qed

lemma positions_nth: "positions_ok pos ps \<Longrightarrow> 0 \<le> sint (ps ! unat (v :: u8)) \<and> sint (ps ! unat v) \<le> int pos"
  using byte_index [of v] by (simp add: positions_ok_def list_all_length)

lemma positions_ok_mono: "positions_ok pos ps \<Longrightarrow> pos \<le> pos' \<Longrightarrow> positions_ok pos' ps"
  by (force simp: positions_ok_def list_all_iff)

lemma rtime_run_defined: "0 \<le> b \<Longrightarrow> rtime_run d n b p r \<noteq> None"
proof (induction d n b p r rule: rtime_run.induct)
  case (1 d n b p r)
  then show ?case by (subst rtime_run.simps) simp
qed

text \<open>One turn of the decoder undoes one turn of the encoder.\<close>

lemma unrtime_step:
  assumes run: "rtime_run d n (sint (ps ! unat (d ! pos))) (pos + 1) 0 = Some (pos', runlen)"
    and ps: "positions_ok pos ps" and n: "n \<le> length d" "pos < n" and dest: "pos' \<le> dest"
  shows "unrtime_loop ps (take pos d) dest (d ! pos # of_nat runlen # rest) =
    unrtime_loop (ps[unat (d ! pos) := of_nat (pos + 1)]) (take pos' d) dest rest"
proof -
  define b where "b = sint (ps ! unat (d ! pos))"
  have b: "0 \<le> b" "b \<le> int pos" using positions_nth [OF ps] by (auto simp: b_def)
  have spec: "pos' = pos + 1 + runlen" "runlen \<le> 255" "pos' \<le> n"
      "\<forall>i < runlen. d ! (pos + 1 + i) = d ! (nat b + i)"
    using rtime_run_spec [OF run] b n by (auto simp: b_def)
  have out: "take pos d @ [d ! pos] = take (pos + 1) d" using n by (simp add: take_Suc_conv_app_nth)
  have len: "length (take (pos + 1) d) = pos + 1" "length (take pos d) = pos" using n by auto
  have rep: "unat (of_nat runlen :: u8) = runlen"
    using spec(2) by (simp add: unsigned_of_nat take_bit_nat_eq_self)
  have copy: "copy_run (take (pos + 1) d) (nat b) runlen = take pos' d"
    using copy_run_take [of "nat b" "pos + 1" runlen d] b spec n by simp
  have memcpy: "take (pos + 1) d @ take runlen (drop (nat b) (take (pos + 1) d)) = take pos' d"
    if "b + int runlen < int (pos + 1)"
  proof -
    have "nat b + runlen \<le> length (take (pos + 1) d)" using that b len by linarith
    then show ?thesis using copy_run_memcpy copy by simp
  qed
  have lt: "pos < dest" using spec dest by simp
  show ?thesis
  proof (cases "runlen = 0")
    case True
    then show ?thesis using lt spec
      by (simp only: unrtime_loop.simps Let_def rep out len if_True) simp
  next
    case False
    then show ?thesis using lt spec dest b copy memcpy
      by (simp only: unrtime_loop.simps Let_def rep out len b_def [symmetric] if_True) auto
  qed
qed

lemma rtime_loop_reads_back:
  assumes "rtime_loop d n dst ps outpos pos = Some (out, end_pos)" and "positions_ok pos ps"
    and "n \<le> length d" and "n \<le> 32767" and "pos \<le> n"
  shows "pos \<le> end_pos \<and> end_pos \<le> n \<and> length out + outpos \<le> max dst outpos \<and>
    unrtime_loop ps (take pos d) end_pos out = Some (take end_pos d)"
  using assms
proof (induction d n dst ps outpos pos arbitrary: out rule: rtime_loop.induct)
  case (1 d n dst ps outpos pos)
  show ?case
  proof (cases "pos < n \<and> outpos + 2 \<le> dst")
    case True
    define v where "v = d ! pos"
    obtain pos' runlen where run: "rtime_run d n (sint (ps ! unat v)) (pos + 1) 0 = Some (pos', runlen)"
      using rtime_run_defined [of "sint (ps ! unat v)"] positions_nth [OF 1(3)] by fastforce
    obtain out' where rec: "rtime_loop d n dst (ps[unat v := of_nat (pos + 1)]) (outpos + 2) pos' = Some (out', end_pos)"
        and out: "out = v # of_nat runlen # out'"
      using 1(2) True run by (subst (asm) rtime_loop.simps) (auto simp: Let_def v_def split: option.splits)
    have pos': "pos + 1 \<le> pos'" "pos' \<le> n"
      using rtime_run_spec [OF run] positions_nth [OF 1(3)] True by auto
    have "positions_ok pos' (ps[unat v := of_nat (pos + 1)])"
      by (rule positions_ok_mono [OF positions_ok_upd]) (use 1 pos' True in auto)
    then have ih: "pos' \<le> end_pos \<and> end_pos \<le> n \<and> length out' + (outpos + 2) \<le> max dst (outpos + 2) \<and>
        unrtime_loop (ps[unat v := of_nat (pos + 1)]) (take pos' d) end_pos out' = Some (take end_pos d)"
      using 1(1) [OF True v_def refl refl run refl rec] 1 pos' by simp
    then show ?thesis
      using unrtime_step [of d n ps pos pos' runlen end_pos out'] run 1 True pos' by (auto simp: out v_def)
  next
    case False
    then have "out = [] \<and> end_pos = pos" using 1(2) by (subst (asm) rtime_loop.simps) auto
    then show ?thesis using 1 by simp
  qed
qed

lemma rtime_loop_defined:
  assumes "positions_ok pos ps" and "n \<le> 32767"
  shows "rtime_loop d n dst ps outpos pos \<noteq> None"
  using assms
proof (induction d n dst ps outpos pos rule: rtime_loop.induct)
  case (1 d n dst ps outpos pos)
  show ?case
  proof (cases "pos < n \<and> outpos + 2 \<le> dst")
    case True
    define v where "v = d ! pos"
    obtain pos' runlen where run: "rtime_run d n (sint (ps ! unat v)) (pos + 1) 0 = Some (pos', runlen)"
      using rtime_run_defined [of "sint (ps ! unat v)"] positions_nth [OF 1(2)] by fastforce
    have "pos + 1 \<le> pos'" using rtime_run_pos [OF run] .
    then have "positions_ok pos' (ps[unat v := of_nat (pos + 1)])"
      by (intro positions_ok_mono [OF positions_ok_upd [OF 1(2)]]) (use 1 True in auto)
    then have "rtime_loop d n dst (ps[unat v := of_nat (pos + 1)]) (outpos + 2) pos' \<noteq> None"
      using 1(1) [OF True v_def refl refl run refl] 1(3) by blast
    then show ?thesis using True run by (subst rtime_loop.simps) (auto simp: Let_def v_def)
  qed (subst rtime_loop.simps, auto)
qed

lemma positions_start: "positions_ok 0 (replicate 256 0)"
  by (simp add: positions_ok_def list_all_iff)

interpretation rtime: jffs2_codec jffs2_rtime_compress jffs2_rtime_decompress 32767
proof
  fix n dst :: nat and d :: bytes
  assume n: "n \<le> length d" "n \<le> 32767"
  show "jffs2_rtime_compress d n dst \<noteq> Undef"
    using rtime_loop_defined [OF positions_start n(2), of d dst 0]
    by (auto simp: jffs2_rtime_compress_def split: option.split)
  fix out n'
  assume "jffs2_rtime_compress d n dst = Ret (out, n')"
  then have loop: "rtime_loop d n dst (replicate 256 0) 0 0 = Some (out, n')" and small: "length out < n'"
    by (auto simp: jffs2_rtime_compress_def split: option.splits if_splits)
  have "0 < length out"
    using loop small by (cases "out = []") (auto simp: rtime_loop.simps [of d n] Let_def split: if_splits option.splits)
  then show "n' \<le> n \<and> 0 < n' \<and> 0 < length out \<and> length out \<le> dst \<and> jffs2_rtime_decompress out n' = Ret (take n' d)"
    using rtime_loop_reads_back [OF loop positions_start n] small by (simp add: jffs2_rtime_decompress_def)
qed

section \<open>Properties\<close>

text \<open>C12. The compressor \<open>rtime\<close> loses nothing: for every input of at most 32767 bytes and every output size the
  compressor ends without leaving its buffers, and when it reports success its output fits, is
  shorter than the input it covers, and expands to exactly that part of the input.\<close>

theorem rtime_roundtrip:
  assumes "n \<le> length d" and "n \<le> 32767"
  shows "case jffs2_rtime_compress d n dst of
      Undef \<Rightarrow> False
    | Err _ \<Rightarrow> True
    | Ret (out, n') \<Rightarrow> n' \<le> n \<and> length out \<le> dst \<and> length out < n' \<and>
        jffs2_rtime_decompress out n' = Ret (take n' d)"
  using rtime.defined [OF assms] rtime.lossless [OF assms]
  by (auto simp: jffs2_rtime_compress_def split: outcome.split option.splits if_splits)

theorem rtime_roundtrip_witness:
  "case jffs2_rtime_compress [7, 7, 7, 7, 7, 7, 9, 7, 7, 7] 10 10 of
      Undef \<Rightarrow> False | Err _ \<Rightarrow> False
    | Ret (out, n') \<Rightarrow> n' = 10 \<and> length out = 4 \<and>
        jffs2_rtime_decompress out 10 = Ret [7, 7, 7, 7, 7, 7, 9, 7, 7, 7]"
proof -
  have "jffs2_rtime_compress [7, 7, 7, 7, 7, 7, 9, 7, 7, 7] 10 10 = Ret ([7, 5, 9, 3], 10)"
    by code_simp
  then show ?thesis using rtime_roundtrip [of 10 "[7, 7, 7, 7, 7, 7, 9, 7, 7, 7]" 10] by simp
qed

text \<open>A crafted input makes the decompressor write behind its output buffer.\<close>

lemma decompress_overruns: "jffs2_rtime_decompress [1, 200] 4 = Undef"
  by code_simp

end
