(* ===== verification/JffsCompr.thy ===== *)
theory JffsCompr
  imports Rtime CText "HOL-Library.Multiset"
begin

text \<open>
  The compression framework of \<open>mkfs.jffs2\<close> (\<open>CHIP-mtd-utils/compr.c\<close>, \<open>compr.h\<close>): a list of compressors
  ordered by priority, and \<open>jffs2_compress\<close>, which tries them in one of four modes. The hooked list is a
  list. The use count is raised and lowered around each call and never changes otherwise, memory is
  assumed available, and a fresh buffer holds an arbitrary byte \<open>junk\<close>. \<open>zlib\<close> and \<open>lzo\<close> are external
  libraries; any compressor that meets the interface \<open>jffs2_codec\<close> may be registered. A compressor that
  fails leaves the lengths as they were.
\<close>

section \<open>Compressors\<close>

definition JFFS2_COMPR_NONE :: u8 where "JFFS2_COMPR_NONE = 0"
definition JFFS2_COMPR_RTIME :: u8 where "JFFS2_COMPR_RTIME = 2"
definition JFFS2_COMPR_LZO :: u8 where "JFFS2_COMPR_LZO = 7"
definition JFFS2_RTIME_PRIORITY :: int where "JFFS2_RTIME_PRIORITY = 50"

record jffs2_compressor =
  c_priority :: int
  c_name :: "string option"
  c_compr :: u8
  c_compress :: "compress_fn option"
  c_decompress :: "decompress_fn option"
  c_usecount :: int
  c_disabled :: bool
  c_buf :: "bytes option"
  c_buf_size :: nat
  c_orig_size :: u32
  c_new_size :: u32
  c_blocks :: u32
  c_decompr_blocks :: u32

datatype compr_mode = MODE_NONE | MODE_PRIORITY | MODE_SIZE | MODE_FAVOURLZO | MODE_UNKNOWN

record compr_state =
  js_list :: "jffs2_compressor list"
  js_mode :: compr_mode
  js_check :: bool
  js_errors :: nat
  js_none_blocks :: u32
  js_none_decompr :: u32
  js_none_size :: u32

definition jffs2_start :: compr_state where
  "jffs2_start = \<lparr>js_list = [], js_mode = MODE_PRIORITY, js_check = False, js_errors = 0, js_none_blocks = 0,
     js_none_decompr = 0, js_none_size = 0\<rparr>"

subsection \<open>The mode\<close>

definition jffs2_set_compression_mode :: "compr_mode \<Rightarrow> compr_state \<Rightarrow> compr_state" where
  "jffs2_set_compression_mode m st = st\<lparr>js_mode := m\<rparr>"

definition jffs2_get_compression_mode :: "compr_state \<Rightarrow> compr_mode" where
  "jffs2_get_compression_mode st = js_mode st"

definition jffs2_compression_check_set :: "bool \<Rightarrow> compr_state \<Rightarrow> compr_state" where
  "jffs2_compression_check_set yesno st = st\<lparr>js_check := yesno\<rparr>"

definition jffs2_compression_check_get :: "compr_state \<Rightarrow> bool" where
  "jffs2_compression_check_get st = js_check st"

definition jffs2_compression_check_errorcnt_get :: "compr_state \<Rightarrow> nat" where
  "jffs2_compression_check_errorcnt_get st = js_errors st"

definition jffs2_set_compression_mode_name :: "string \<Rightarrow> compr_state \<Rightarrow> nat \<times> compr_state" where
  "jffs2_set_compression_mode_name name st =
     (if name = ''none'' then (0, st\<lparr>js_mode := MODE_NONE\<rparr>)
      else if name = ''priority'' then (0, st\<lparr>js_mode := MODE_PRIORITY\<rparr>)
      else if name = ''size'' then (0, st\<lparr>js_mode := MODE_SIZE\<rparr>)
      else if name = ''favourlzo'' then (0, st\<lparr>js_mode := MODE_FAVOURLZO\<rparr>)
      else (1, st))"

subsection \<open>The list\<close>

text \<open>The place in front of the first compressor with a smaller priority, or the end.\<close>

fun insert_by_priority :: "jffs2_compressor \<Rightarrow> jffs2_compressor list \<Rightarrow> jffs2_compressor list" where
  "insert_by_priority c [] = [c]"
| "insert_by_priority c (x # xs) = (if c_priority x < c_priority c then c # x # xs else x # insert_by_priority c xs)"

definition reset_compressor :: "jffs2_compressor \<Rightarrow> jffs2_compressor" where
  "reset_compressor c = c\<lparr>c_buf_size := 0, c_buf := None, c_usecount := 0, c_orig_size := 0, c_new_size := 0,
     c_blocks := 0, c_decompr_blocks := 0\<rparr>"

definition jffs2_register_compressor :: "jffs2_compressor \<Rightarrow> compr_state \<Rightarrow> int \<times> compr_state" where
  "jffs2_register_compressor c st =
     (if c_name c = None then (- 1, st)
      else (0, st\<lparr>js_list := insert_by_priority (reset_compressor c) (js_list st)\<rparr>))"

text \<open>A compressor is unregistered through its place in the list.\<close>

definition jffs2_unregister_compressor :: "nat \<Rightarrow> compr_state \<Rightarrow> int \<times> compr_state" where
  "jffs2_unregister_compressor i st =
     (if c_usecount (js_list st ! i) \<noteq> 0 then (- 1, st)
      else (0, st\<lparr>js_list := take i (js_list st) @ drop (i + 1) (js_list st)\<rparr>))"

fun find_name :: "string \<Rightarrow> jffs2_compressor list \<Rightarrow> nat option" where
  "find_name name [] = None"
| "find_name name (c # cs) = (if c_name c = Some name then Some 0 else map_option Suc (find_name name cs))"

definition jffs2_compressor_Xable :: "string \<Rightarrow> bool \<Rightarrow> compr_state \<Rightarrow> nat \<times> compr_state" where
  "jffs2_compressor_Xable name off st =
     (case find_name name (js_list st) of
        None \<Rightarrow> (1, st)
      | Some i \<Rightarrow> (0, st\<lparr>js_list := (js_list st)[i := (js_list st ! i)\<lparr>c_disabled := off\<rparr>]\<rparr>))"

definition jffs2_enable_compressor_name :: "string \<Rightarrow> compr_state \<Rightarrow> nat \<times> compr_state" where
  "jffs2_enable_compressor_name name st = jffs2_compressor_Xable name False st"

definition jffs2_disable_compressor_name :: "string \<Rightarrow> compr_state \<Rightarrow> nat \<times> compr_state" where
  "jffs2_disable_compressor_name name st = jffs2_compressor_Xable name True st"

definition jffs2_set_compressor_priority :: "string \<Rightarrow> int \<Rightarrow> compr_state \<Rightarrow> nat \<times> compr_state" where
  "jffs2_set_compressor_priority name p st =
     (case find_name name (js_list st) of
        None \<Rightarrow> (1, st)
      | Some i \<Rightarrow>
          (0, st\<lparr>js_list := insert_by_priority ((js_list st ! i)\<lparr>c_priority := p\<rparr>)
                   (take i (js_list st) @ drop (i + 1) (js_list st))\<rparr>))"

definition jffs2_rtime_comp :: jffs2_compressor where
  "jffs2_rtime_comp = \<lparr>c_priority = JFFS2_RTIME_PRIORITY, c_name = Some ''rtime'', c_compr = JFFS2_COMPR_RTIME,
     c_compress = Some jffs2_rtime_compress, c_decompress = Some jffs2_rtime_decompress, c_usecount = 0,
     c_disabled = False, c_buf = None, c_buf_size = 0, c_orig_size = 0, c_new_size = 0, c_blocks = 0,
     c_decompr_blocks = 0\<rparr>"

definition jffs2_rtime_init :: "compr_state \<Rightarrow> int \<times> compr_state" where
  "jffs2_rtime_init st = jffs2_register_compressor jffs2_rtime_comp st"

text \<open>The pointer a module passes when it unregisters is that of its entry in the list.\<close>

definition unregister_named :: "string \<Rightarrow> compr_state \<Rightarrow> compr_state" where
  "unregister_named name st =
     (case find_name name (js_list st) of None \<Rightarrow> st | Some i \<Rightarrow> snd (jffs2_unregister_compressor i st))"

definition jffs2_rtime_exit :: "compr_state \<Rightarrow> compr_state" where
  "jffs2_rtime_exit st = unregister_named ''rtime'' st"

text \<open>The modules in the order they are registered; \<open>zlib\<close> and \<open>lzo\<close> are parameters.\<close>

definition jffs2_compressors_init :: "jffs2_compressor \<Rightarrow> jffs2_compressor \<Rightarrow> compr_state \<Rightarrow> compr_state" where
  "jffs2_compressors_init zlib lzo st =
     snd (jffs2_register_compressor lzo (snd (jffs2_rtime_init (snd (jffs2_register_compressor zlib st)))))"

definition jffs2_compressors_exit :: "compr_state \<Rightarrow> compr_state" where
  "jffs2_compressors_exit st = unregister_named ''lzo'' (unregister_named ''zlib'' (jffs2_rtime_exit st))"

subsection \<open>Reports\<close>

definition pad_left :: "nat \<Rightarrow> string \<Rightarrow> string" where
  "pad_left w s = replicate (w - length s) CHR '' '' @ s"

definition d32 :: "u32 \<Rightarrow> string" where "d32 w = show_int (sint w)"

definition line_end :: string where "line_end = [CHR 0x0A]"

definition list_line :: "jffs2_compressor \<Rightarrow> string" where
  "list_line c =
     pad_left 10 (the (c_name c)) @ '' priority:'' @ show_int (c_priority c) @ '' '' @
     (if c_disabled c \<or> c_compress c = None then ''disabled'' else ''enabled'') @ line_end"

definition jffs2_list_compressors :: "compr_state \<Rightarrow> string" where
  "jffs2_list_compressors st = concat (map list_line (js_list st))"

definition mode_text :: "compr_mode \<Rightarrow> string" where
  "mode_text m = (case m of MODE_NONE \<Rightarrow> ''none'' | MODE_PRIORITY \<Rightarrow> ''priority'' | MODE_SIZE \<Rightarrow> ''size''
     | MODE_FAVOURLZO \<Rightarrow> ''favourlzo'' | MODE_UNKNOWN \<Rightarrow> ''unknown'')"

definition stat_line :: "jffs2_compressor \<Rightarrow> string" where
  "stat_line c =
     pad_left 10 (the (c_name c)) @ '' (prio:'' @ show_int (c_priority c) @ '') '' @
     (if c_disabled c \<or> c_compress c = None then ''- '' else ''+ '') @
     ''compr: '' @ d32 (c_blocks c) @ '' blocks ('' @ d32 (c_new_size c) @ ''/'' @ d32 (c_orig_size c) @
     '')  decompr: '' @ d32 (c_decompr_blocks c) @ '' blocks '' @ line_end"

definition jffs2_stats :: "compr_state \<Rightarrow> string" where
  "jffs2_stats st =
     ''Compression mode: '' @ mode_text (js_mode st) @ line_end @ ''Compressors:'' @ line_end @
     pad_left 10 ''none'' @ ''             '' @ ''compr: '' @ d32 (js_none_blocks st) @ '' blocks ('' @
     d32 (js_none_size st) @ '')  decompr: '' @ d32 (js_none_decompr st) @ '' blocks'' @ line_end @
     concat (map stat_line (js_list st))"

section \<open>The check\<close>

definition JFFS2_BUFFER_FILL :: u8 where "JFFS2_BUFFER_FILL = 0x55"

definition jffs2_decompression_test_prepare :: "bytes \<Rightarrow> nat \<Rightarrow> bytes option" where
  "jffs2_decompression_test_prepare buf sz =
     (if sz + 1 \<le> length buf then Some (replicate (sz + 1) JFFS2_BUFFER_FILL @ drop (sz + 1) buf) else None)"

text \<open>The number of errors a check adds. The buffer that receives the expanded data has \<open>page_size\<close> bytes.\<close>

definition jffs2_decompression_test :: "nat \<Rightarrow> jffs2_compressor \<Rightarrow> bytes \<Rightarrow> bytes \<Rightarrow> nat \<Rightarrow> nat \<Rightarrow> nat \<Rightarrow>
    (unit, nat) outcome" where
  "jffs2_decompression_test page_size c data_in output_buf cdatalen datalen buf_size =
     (if cdatalen < buf_size \<and> length output_buf \<le> buf_size then Undef
      else if list_ex (\<lambda>i. output_buf ! i \<noteq> JFFS2_BUFFER_FILL) [cdatalen + 1 ..< buf_size + 1] then Ret 1
      else case c_decompress c of
          None \<Rightarrow> Ret 1
        | Some decompress \<Rightarrow>
            if datalen > page_size then Undef
            else (case decompress (take cdatalen output_buf) datalen of
                    Undef \<Rightarrow> Undef
                  | Err _ \<Rightarrow> Ret 1
                  | Ret out \<Rightarrow> Ret (if take datalen data_in = out then 0 else 1)))"

definition FAVOUR_LZO_PERCENT :: nat where "FAVOUR_LZO_PERCENT = 80"

definition percent :: "nat \<Rightarrow> nat" where
  "percent n = (n * FAVOUR_LZO_PERCENT) mod 2 ^ 32 div 100"

definition jffs2_is_best_compression :: "compr_mode \<Rightarrow> jffs2_compressor \<Rightarrow> jffs2_compressor \<Rightarrow> nat \<Rightarrow> nat \<Rightarrow> bool" where
  "jffs2_is_best_compression mode this best sz bestsize =
     (case mode of
        MODE_SIZE \<Rightarrow> bestsize > sz
      | MODE_FAVOURLZO \<Rightarrow>
          c_compr this = JFFS2_COMPR_LZO \<and> bestsize > sz \<or>
          c_compr best \<noteq> JFFS2_COMPR_LZO \<and> bestsize > sz \<or>
          c_compr this = JFFS2_COMPR_LZO \<and> bestsize > percent sz \<or>
          percent bestsize > sz
      | _ \<Rightarrow> False)"

section \<open>Compressing\<close>

definition active :: "jffs2_compressor \<Rightarrow> bool" where
  "active c \<longleftrightarrow> c_compress c \<noteq> None \<and> \<not> c_disabled c"

text \<open>One call of a compressor on a buffer, with the check around it: the buffer, what was compressed and
  the errors found; \<open>None\<close> for a compressor that fails. \<open>sz\<close> is the size the check assumes.\<close>

definition call_compressor :: "bool \<Rightarrow> nat \<Rightarrow> jffs2_compressor \<Rightarrow> bytes \<Rightarrow> nat \<Rightarrow> nat \<Rightarrow> bytes \<Rightarrow> nat \<Rightarrow>
    (unit, (bytes \<times> nat \<times> nat \<times> nat) option) outcome" where
  "call_compressor check page_size c data_in slen dlen buf sz =
     (case (if check then jffs2_decompression_test_prepare buf sz else Some buf) of
        None \<Rightarrow> Undef
      | Some buf \<Rightarrow>
          (case the (c_compress c) data_in slen dlen of
             Undef \<Rightarrow> Undef
           | Err _ \<Rightarrow> Ret None
           | Ret (out, n) \<Rightarrow>
               if length out > length buf then Undef
               else let buf = overwrite 0 out buf in
                 if \<not> check then Ret (Some (buf, n, length out, 0))
                 else (case jffs2_decompression_test page_size c data_in buf (length out) n sz of
                         Undef \<Rightarrow> Undef
                       | Err _ \<Rightarrow> Undef
                       | Ret errs \<Rightarrow> Ret (Some (buf, n, length out, errs)))))"

definition count_block :: "nat \<Rightarrow> nat \<Rightarrow> jffs2_compressor \<Rightarrow> jffs2_compressor" where
  "count_block n m c = c\<lparr>c_blocks := c_blocks c + 1, c_orig_size := c_orig_size c + of_nat n,
     c_new_size := c_new_size c + of_nat m\<rparr>"

text \<open>The loop of the priority mode: the compressors afterwards and the first success.\<close>

fun priority_loop :: "bool \<Rightarrow> nat \<Rightarrow> bytes \<Rightarrow> nat \<Rightarrow> nat \<Rightarrow> bytes \<Rightarrow> jffs2_compressor list \<Rightarrow>
    (unit, jffs2_compressor list \<times> (u8 \<times> bytes \<times> nat \<times> nat \<times> nat) option) outcome" where
  "priority_loop check page_size data_in slen dlen buf [] = Ret ([], None)"
| "priority_loop check page_size data_in slen dlen buf (c # cs) =
     (let skip = (case priority_loop check page_size data_in slen dlen buf cs of
                    Ret (cs', r) \<Rightarrow> Ret (c # cs', r) | Err e \<Rightarrow> Err e | Undef \<Rightarrow> Undef) in
      if \<not> active c then skip
      else case call_compressor check page_size c data_in slen dlen buf dlen of
          Undef \<Rightarrow> Undef
        | Err e \<Rightarrow> Err e
        | Ret None \<Rightarrow> skip
        | Ret (Some (buf', n, m, errs)) \<Rightarrow> Ret (count_block n m c # cs, Some (c_compr c, buf', n, m, errs)))"

text \<open>The buffer of a compressor in the size modes, made again when it is too small.\<close>

definition prepare_buf :: "u8 \<Rightarrow> nat \<Rightarrow> nat \<Rightarrow> jffs2_compressor \<Rightarrow> jffs2_compressor" where
  "prepare_buf junk needed dlen c =
     (let c = (if c_buf_size c < needed \<and> c_buf c \<noteq> None then c\<lparr>c_buf_size := 0, c_buf := None\<rparr> else c)
      in if c_buf c = None then c\<lparr>c_buf := Some (replicate needed junk), c_buf_size := dlen\<rparr> else c)"

text \<open>The loop of the size modes. The best so far is a place in \<open>seen\<close> with its two lengths; a length of 0
  stands for none. \<open>cd\<close> is what the last call left in \<open>*cdatalen\<close>.\<close>

record size_state =
  z_seen :: "jffs2_compressor list"
  z_best :: nat
  z_slen :: nat
  z_dlen :: nat
  z_cd :: nat
  z_errors :: nat

definition size_step :: "compr_mode \<Rightarrow> bool \<Rightarrow> nat \<Rightarrow> u8 \<Rightarrow> bytes \<Rightarrow> nat \<Rightarrow> nat \<Rightarrow> jffs2_compressor \<Rightarrow> size_state \<Rightarrow>
    (unit, size_state) outcome" where
  "size_step mode check page_size junk data_in slen dlen c z =
     (if \<not> active c then Ret (z\<lparr>z_seen := z_seen z @ [c]\<rparr>)
      else
        (let needed = (if mode = MODE_FAVOURLZO then slen else dlen) + (if check then 1 else 0);
             c = prepare_buf junk needed dlen c in
         case call_compressor check page_size c data_in slen dlen (the (c_buf c)) (c_buf_size c) of
           Undef \<Rightarrow> Undef
         | Err e \<Rightarrow> Err e
         | Ret None \<Rightarrow> Ret (z\<lparr>z_seen := z_seen z @ [c], z_cd := dlen\<rparr>)
         | Ret (Some (buf, n, m, errs)) \<Rightarrow>
             (let z = z\<lparr>z_seen := z_seen z @ [c\<lparr>c_buf := Some buf\<rparr>], z_cd := m, z_errors := z_errors z + errs\<rparr> in
              if (z_dlen z = 0 \<or> jffs2_is_best_compression mode c (z_seen z ! z_best z) m (z_dlen z)) \<and> m < n
              then Ret (z\<lparr>z_dlen := m, z_slen := n, z_best := length (z_seen z) - 1\<rparr>)
              else Ret z)))"

fun size_loop :: "compr_mode \<Rightarrow> bool \<Rightarrow> nat \<Rightarrow> u8 \<Rightarrow> bytes \<Rightarrow> nat \<Rightarrow> nat \<Rightarrow> jffs2_compressor list \<Rightarrow> size_state \<Rightarrow>
    (unit, size_state) outcome" where
  "size_loop mode check page_size junk data_in slen dlen [] z = Ret z"
| "size_loop mode check page_size junk data_in slen dlen (c # cs) z =
     (case size_step mode check page_size junk data_in slen dlen c z of
        Ret z' \<Rightarrow> size_loop mode check page_size junk data_in slen dlen cs z' | Err e \<Rightarrow> Err e | Undef \<Rightarrow> Undef)"

record compressed =
  r_compr :: u8
  r_page :: bytes
  r_datalen :: nat
  r_cdatalen :: nat

text \<open>The common end: without a compressor the page is the data, as much of it as fits.\<close>

definition finish :: "u8 \<Rightarrow> bytes \<Rightarrow> bytes \<Rightarrow> nat \<Rightarrow> nat \<Rightarrow> compr_state \<Rightarrow> compressed \<times> compr_state" where
  "finish ret data_in output_buf datalen cdatalen st =
     (if ret = JFFS2_COMPR_NONE then
        (\<lparr>r_compr = ret, r_page = data_in, r_datalen = cdatalen, r_cdatalen = cdatalen\<rparr>,
         st\<lparr>js_none_blocks := js_none_blocks st + 1, js_none_size := js_none_size st + of_nat cdatalen\<rparr>)
      else (\<lparr>r_compr = ret, r_page = output_buf, r_datalen = datalen, r_cdatalen = cdatalen\<rparr>, st))"

definition compress_priority :: "nat \<Rightarrow> u8 \<Rightarrow> bytes \<Rightarrow> nat \<Rightarrow> nat \<Rightarrow> compr_state \<Rightarrow> (unit, compressed \<times> compr_state) outcome" where
  "compress_priority page_size junk data_in slen dlen st =
     (case priority_loop (js_check st) page_size data_in slen dlen
             (replicate (dlen + (if js_check st then 1 else 0)) junk) (js_list st) of
        Undef \<Rightarrow> Undef
      | Err e \<Rightarrow> Err e
      | Ret (cs, None) \<Rightarrow> Ret (finish JFFS2_COMPR_NONE data_in [] slen dlen (st\<lparr>js_list := cs\<rparr>))
      | Ret (cs, Some (ret, buf, n, m, errs)) \<Rightarrow>
          Ret (finish ret data_in buf n m (st\<lparr>js_list := cs, js_errors := js_errors st + errs\<rparr>)))"

definition compress_size :: "nat \<Rightarrow> u8 \<Rightarrow> bytes \<Rightarrow> nat \<Rightarrow> nat \<Rightarrow> compr_state \<Rightarrow> (unit, compressed \<times> compr_state) outcome" where
  "compress_size page_size junk data_in slen dlen st =
     (case size_loop (js_mode st) (js_check st) page_size junk data_in slen dlen (js_list st)
             \<lparr>z_seen = [], z_best = 0, z_slen = 0, z_dlen = 0, z_cd = dlen, z_errors = 0\<rparr> of
        Undef \<Rightarrow> Undef
      | Err e \<Rightarrow> Err e
      | Ret z \<Rightarrow>
          (let st = st\<lparr>js_list := z_seen z, js_errors := js_errors st + z_errors z\<rparr> in
           if z_dlen z = 0 then Ret (finish JFFS2_COMPR_NONE data_in [] slen (z_cd z) st)
           else let best = z_seen z ! z_best z;
                    best' = count_block (z_slen z) (z_dlen z) (best\<lparr>c_buf := None, c_buf_size := 0\<rparr>)
                in Ret (finish (c_compr best) data_in (the (c_buf best)) (z_slen z) (z_dlen z)
                          (st\<lparr>js_list := (z_seen z)[z_best z := best']\<rparr>))))"

definition jffs2_compress :: "nat \<Rightarrow> u8 \<Rightarrow> bytes \<Rightarrow> nat \<Rightarrow> nat \<Rightarrow> compr_state \<Rightarrow> (unit, compressed \<times> compr_state) outcome" where
  "jffs2_compress page_size junk data_in datalen cdatalen st =
     (case js_mode st of
        MODE_PRIORITY \<Rightarrow> compress_priority page_size junk data_in datalen cdatalen st
      | MODE_SIZE \<Rightarrow> compress_size page_size junk data_in datalen cdatalen st
      | MODE_FAVOURLZO \<Rightarrow> compress_size page_size junk data_in datalen cdatalen st
      | _ \<Rightarrow> Ret (finish JFFS2_COMPR_NONE data_in [] datalen cdatalen st))"

section \<open>The list stays sorted\<close>

abbreviation by_priority :: "jffs2_compressor list \<Rightarrow> bool" where
  "by_priority cs \<equiv> sorted_wrt (\<lambda>a b. c_priority b \<le> c_priority a) cs"

lemma insert_by_priority_mset: "mset (insert_by_priority c cs) = add_mset c (mset cs)"
  by (induction cs) auto

lemma insert_by_priority_set: "set (insert_by_priority c cs) = insert c (set cs)"
  using insert_by_priority_mset [of c cs] by (metis set_mset_add_mset_insert set_mset_mset)

lemma insert_by_priority_sorted: "by_priority cs \<Longrightarrow> by_priority (insert_by_priority c cs)"
  by (induction cs) (auto simp: insert_by_priority_set)

text \<open>Among equal priorities the one that came first stays first.\<close>

lemma insert_by_priority_stable:
  "by_priority cs \<Longrightarrow>
   filter (\<lambda>x. c_priority x = c_priority c) (insert_by_priority c cs) = filter (\<lambda>x. c_priority x = c_priority c) cs @ [c]"
proof (induction cs)
  case (Cons a cs)
  show ?case
  proof (cases "c_priority a < c_priority c")
    case True
    then have "filter (\<lambda>x. c_priority x = c_priority c) cs = []" using Cons.prems by (auto simp: filter_empty_conv)
    then show ?thesis using True by simp
  qed (use Cons in auto)
qed simp

text \<open>Where the compressor goes; the others stay in their order.\<close>

lemma insert_by_priority_split: "\<exists>us vs. insert_by_priority c cs = us @ c # vs \<and> cs = us @ vs"
proof (induction cs)
  case (Cons x cs)
  then obtain us vs where "insert_by_priority c cs = us @ c # vs" "cs = us @ vs" by blast
  then show ?case
    by (cases "c_priority x < c_priority c") (auto intro: exI [of _ "[]"] exI [of _ "x # us"])
qed simp

lemma insert_by_priority_place:
  assumes "by_priority cs"
  shows "\<exists>us vs. cs = us @ vs \<and> insert_by_priority c cs = us @ c # vs \<and> (\<forall>x\<in>set us. c_priority x \<ge> c_priority c) \<and> (\<forall>x\<in>set vs. c_priority x < c_priority c)"
  using assms
proof (induction cs)
  case (Cons x cs)
  show ?case
  proof (cases "c_priority x < c_priority c")
    case True
    then show ?thesis using Cons.prems by (intro exI [of _ "[]"] exI [of _ "x # cs"]) auto
  next
    case False
    from Cons obtain us vs where "cs = us @ vs" "insert_by_priority c cs = us @ c # vs" "\<forall>x\<in>set us. c_priority x \<ge> c_priority c" "\<forall>x\<in>set vs. c_priority x < c_priority c"
      by auto
    then show ?thesis using False by (intro exI [of _ "x # us"] exI [of _ vs]) auto
  qed
qed simp

lemma find_name_spec:
  "find_name name cs = Some i \<Longrightarrow> i < length cs \<and> c_name (cs ! i) = Some name"
  by (induction cs arbitrary: i) (auto split: if_splits)

lemma sorted_remove: "by_priority cs \<Longrightarrow> by_priority (take i cs @ drop (i + 1) cs)"
proof -
  assume "by_priority cs"
  then have s: "by_priority (take i cs @ drop i cs)" by simp
  have "drop (i + 1) cs = drop 1 (drop i cs)" by simp
  then have "set (drop (i + 1) cs) \<subseteq> set (drop i cs)" by (metis set_drop_subset)
  moreover have "by_priority (drop (i + 1) cs)" using \<open>by_priority cs\<close> by (rule sorted_wrt_drop)
  ultimately show ?thesis using s unfolding sorted_wrt_append by blast
qed

lemma mset_remove: "i < length cs \<Longrightarrow> add_mset (cs ! i) (mset (take i cs @ drop (i + 1) cs)) = mset cs"
  using arg_cong [OF id_take_nth_drop [of i cs], of mset] by simp

section \<open>Compression loses nothing\<close>

definition codec_ok :: "nat \<Rightarrow> jffs2_compressor \<Rightarrow> bool" where
  "codec_ok limit c \<longleftrightarrow> c_compr c \<noteq> JFFS2_COMPR_NONE \<and>
     (case c_compress c of None \<Rightarrow> True | Some f \<Rightarrow> \<exists>g. c_decompress c = Some g \<and> jffs2_codec f g limit)"

definition buf_ok :: "bool \<Rightarrow> jffs2_compressor \<Rightarrow> bool" where
  "buf_ok check c \<longleftrightarrow> (case c_buf c of None \<Rightarrow> True | Some b \<Rightarrow> c_buf_size c + (if check then 1 else 0) \<le> length b)"

text \<open>Compressing changes only buffers and statistics.\<close>

definition same_codec :: "jffs2_compressor \<Rightarrow> jffs2_compressor \<Rightarrow> bool" where
  "same_codec c c' \<longleftrightarrow> c_compr c' = c_compr c \<and> c_compress c' = c_compress c \<and> c_decompress c' = c_decompress c \<and>
     c_disabled c' = c_disabled c \<and> c_name c' = c_name c \<and> c_priority c' = c_priority c \<and> c_usecount c' = c_usecount c"

text \<open>A block and what it expands to.\<close>

definition expands :: "jffs2_compressor \<Rightarrow> bytes \<Rightarrow> nat \<Rightarrow> nat \<Rightarrow> bytes \<Rightarrow> bool" where
  "expands c buf m n d \<longleftrightarrow> (case c_decompress c of None \<Rightarrow> False | Some g \<Rightarrow> g (take m buf) n = Ret (take n d))"

lemma call_compressor_cases:
  assumes c: "codec_ok limit c" "active c" and n: "slen \<le> length d" "slen \<le> limit" "slen \<le> page_size"
    and buf: "dlen \<le> sz" "sz + (if check then 1 else 0) \<le> length buf"
  obtains (failed) "the (c_compress c) d slen dlen = Err ()" "call_compressor check page_size c d slen dlen buf sz = Ret None"
    | (ok) buf' n' m where "call_compressor check page_size c d slen dlen buf sz = Ret (Some (buf', n', m, 0))"
        "0 < m" "m \<le> dlen" "n' \<le> slen" "length buf' = length buf" "expands c buf' m n' d"
        "the (c_compress c) d slen dlen = Ret (take m buf', n')"
proof -
  obtain f g where fg: "c_compress c = Some f" "c_decompress c = Some g" and codec: "jffs2_codec f g limit"
    using c by (auto simp: codec_ok_def active_def)
  obtain buf1 where b1: "(if check then jffs2_decompression_test_prepare buf sz else Some buf) = Some buf1"
      and len: "length buf1 = length buf" and fill: "check \<longrightarrow> (\<forall>i \<le> sz. buf1 ! i = JFFS2_BUFFER_FILL)"
  proof (cases check)
    case True
    define b where "b = replicate (sz + 1) JFFS2_BUFFER_FILL @ drop (sz + 1) buf"
    have "length b = length buf" "\<forall>i \<le> sz. b ! i = JFFS2_BUFFER_FILL"
      using True buf(2) by (auto simp: b_def nth_append simp del: replicate_Suc)
    then show ?thesis using that [of b] True buf(2) by (simp add: jffs2_decompression_test_prepare_def b_def)
  qed simp
  show ?thesis
  proof (cases "f d slen dlen")
    case Undef
    then show ?thesis using jffs2_codec.defined [OF codec n(1,2)] by simp
  next
    case (Err e)
    then show ?thesis using failed b1 fg by (simp add: call_compressor_def)
  next
    case (Ret r)
    obtain out n' where r: "r = (out, n')" by fastforce
    note law = jffs2_codec.lossless [OF codec n(1,2) Ret [unfolded r]]
    define buf2 where "buf2 = overwrite 0 out buf1"
    have fit: "length out \<le> length buf1" using law buf len by linarith
    have b2: "length buf2 = length buf" "take (length out) buf2 = out"
      "\<And>i. length out \<le> i \<Longrightarrow> i < length buf1 \<Longrightarrow> buf2 ! i = buf1 ! i"
      using fit len by (auto simp: buf2_def overwrite_def nth_append)
    have "check \<longrightarrow> jffs2_decompression_test page_size c d buf2 (length out) n' sz = Ret 0"
    proof
      assume check
      then have "\<not> list_ex (\<lambda>i. buf2 ! i \<noteq> JFFS2_BUFFER_FILL) [length out + 1 ..< sz + 1]"
        using fill b2(3) buf(2) len by (auto simp: list_ex_iff)
      then show "jffs2_decompression_test page_size c d buf2 (length out) n' sz = Ret 0"
        using law fg n buf(2) b2 \<open>check\<close> by (auto simp: jffs2_decompression_test_def)
    qed
    then have "call_compressor check page_size c d slen dlen buf sz = Ret (Some (buf2, n', length out, 0))"
      using Ret r b1 fg fit by (auto simp: call_compressor_def buf2_def [symmetric] Let_def)
    then show ?thesis
      by (rule ok) (use law b2 fg Ret r in \<open>auto simp: expands_def\<close>)
  qed
qed

lemma same_codec_refl: "same_codec c c" by (simp add: same_codec_def)

lemma same_codec_active: "same_codec c c' \<Longrightarrow> active c' = active c"
  by (simp add: same_codec_def active_def)

lemma same_codec_count: "same_codec c (count_block n m c)"
  by (simp add: same_codec_def count_block_def)

lemma buf_ok_count: "buf_ok check (count_block n m c) = buf_ok check c"
  by (simp add: buf_ok_def count_block_def split: option.split)

lemma priority_loop_correct:
  assumes "list_all (codec_ok limit) cs" and n: "slen \<le> length d" "slen \<le> limit" "slen \<le> page_size"
    and buf: "dlen + (if check then 1 else 0) \<le> length buf" and bufs: "list_all (buf_ok check) cs"
  shows "\<exists>cs' r. priority_loop check page_size d slen dlen buf cs = Ret (cs', r) \<and> list_all2 same_codec cs cs' \<and>
    list_all (buf_ok check) cs' \<and>
    (case r of None \<Rightarrow> True | Some (ret, buf', n', m, errs) \<Rightarrow> errs = 0 \<and> m \<le> dlen \<and> n' \<le> slen \<and>
       (\<exists>c \<in> set cs. active c \<and> ret = c_compr c \<and> expands c buf' m n' d))"
  using assms(1) bufs
proof (induction cs)
  case (Cons c cs)
  obtain cs' r where ih: "priority_loop check page_size d slen dlen buf cs = Ret (cs', r)" "list_all2 same_codec cs cs'"
      "list_all (buf_ok check) cs'"
      "case r of None \<Rightarrow> True | Some (ret, buf', n', m, errs) \<Rightarrow> errs = 0 \<and> m \<le> dlen \<and> n' \<le> slen \<and>
         (\<exists>c \<in> set cs. active c \<and> ret = c_compr c \<and> expands c buf' m n' d)"
    using Cons by auto
  have skip: ?case if "\<not> active c \<or> call_compressor check page_size c d slen dlen buf dlen = Ret None"
    using that ih Cons.prems same_codec_refl [of c] by (auto simp: Let_def split: option.split)
  show ?case
  proof (cases "active c")
    case True
    have "codec_ok limit c" using Cons.prems by simp
    from this True n le_refl [of dlen] buf show ?thesis
    proof (cases rule: call_compressor_cases)
      case (ok buf' n' m)
      have "list_all2 same_codec cs cs" by (simp add: list_all2_same same_codec_refl)
      then show ?thesis using True ok Cons.prems by (auto simp: same_codec_count buf_ok_count Let_def)
    qed (use skip in simp)
  qed (use skip in simp)
qed simp

lemma prepare_buf_ok:
  assumes "buf_ok check c" and "dlen + (if check then 1 else 0) \<le> needed"
  shows "same_codec c (prepare_buf junk needed dlen c)"
    and "\<exists>b. c_buf (prepare_buf junk needed dlen c) = Some b \<and> dlen \<le> c_buf_size (prepare_buf junk needed dlen c) \<and>
      c_buf_size (prepare_buf junk needed dlen c) + (if check then 1 else 0) \<le> length b"
  using assms
  by (cases "c_buf c"; auto simp: prepare_buf_def buf_ok_def same_codec_def Let_def)+

definition best_ok :: "bytes \<Rightarrow> nat \<Rightarrow> nat \<Rightarrow> jffs2_compressor list \<Rightarrow> size_state \<Rightarrow> bool" where
  "best_ok d slen dlen ps z \<longleftrightarrow> z_dlen z = 0 \<or>
     z_best z < length ps \<and> active (ps ! z_best z) \<and> z_dlen z \<le> dlen \<and> z_slen z \<le> slen \<and>
     (\<exists>b. c_buf (z_seen z ! z_best z) = Some b \<and> expands (ps ! z_best z) b (z_dlen z) (z_slen z) d)"

text \<open>In the size mode nothing tried so far was shorter.\<close>

definition smallest :: "compr_mode \<Rightarrow> bytes \<Rightarrow> nat \<Rightarrow> nat \<Rightarrow> jffs2_compressor list \<Rightarrow> nat \<Rightarrow> bool" where
  "smallest mode d slen dlen ps m \<longleftrightarrow> (mode = MODE_SIZE \<longrightarrow> (\<forall>c \<in> set ps. active c \<longrightarrow>
     (\<forall>out n. the (c_compress c) d slen dlen = Ret (out, n) \<longrightarrow> length out < n \<longrightarrow> m \<noteq> 0 \<and> m \<le> length out)))"

definition size_inv :: "compr_mode \<Rightarrow> bool \<Rightarrow> bytes \<Rightarrow> nat \<Rightarrow> nat \<Rightarrow> jffs2_compressor list \<Rightarrow> size_state \<Rightarrow> bool" where
  "size_inv mode check d slen dlen ps z \<longleftrightarrow>
     list_all2 same_codec ps (z_seen z) \<and> list_all (buf_ok check) (z_seen z) \<and> z_errors z = 0 \<and> z_cd z \<le> dlen \<and>
     best_ok d slen dlen ps z \<and> smallest mode d slen dlen ps (z_dlen z)"

lemma smallest_snoc:
  "smallest mode d slen dlen (ps @ [c]) m' \<longleftrightarrow> smallest mode d slen dlen ps m' \<and> smallest mode d slen dlen [c] m'"
  by (auto simp: smallest_def)

lemma best_ok_snoc:
  assumes "best_ok d slen dlen ps z" and "length (z_seen z) = length ps"
    and "z_dlen z' = z_dlen z" "z_slen z' = z_slen z" "z_best z' = z_best z" "z_seen z' = z_seen z @ [c']"
  shows "best_ok d slen dlen (ps @ [c]) z'"
  using assms by (auto simp: best_ok_def nth_append)

lemma size_step_inv:
  assumes inv: "size_inv mode check d slen dlen ps z" and c: "codec_ok limit c" "buf_ok check c"
    and n: "slen \<le> length d" "slen \<le> limit" "slen \<le> page_size" and dlen: "dlen \<le> slen"
  shows "\<exists>z'. size_step mode check page_size junk d slen dlen c z = Ret z' \<and> size_inv mode check d slen dlen (ps @ [c]) z'"
proof (cases "active c")
  case False
  have len: "length (z_seen z) = length ps" using inv by (auto simp: size_inv_def dest: list_all2_lengthD)
  show ?thesis using False inv c(2) best_ok_snoc [of d slen dlen ps z _ c c] len
    by (auto simp: size_step_def size_inv_def list_all2_appendI same_codec_refl smallest_snoc)
      (simp add: smallest_def)
next
  case True
  have len: "length (z_seen z) = length ps" using inv by (auto simp: size_inv_def dest: list_all2_lengthD)
  define needed where "needed = (if mode = MODE_FAVOURLZO then slen else dlen) + (if check then 1 else 0)"
  have need: "dlen + (if check then 1 else 0) \<le> needed" using dlen by (simp add: needed_def)
  define c' where "c' = prepare_buf junk needed dlen c"
  obtain b where same: "same_codec c c'" and b: "c_buf c' = Some b" "dlen \<le> c_buf_size c'"
      "c_buf_size c' + (if check then 1 else 0) \<le> length b"
    using prepare_buf_ok [OF c(2) need, of junk] unfolding c'_def by blast
  have c': "codec_ok limit c'" "active c'" using same c(1) True by (auto simp: same_codec_def codec_ok_def active_def)
  have step: "size_step mode check page_size junk d slen dlen c z =
      (case call_compressor check page_size c' d slen dlen b (c_buf_size c') of
         Undef \<Rightarrow> Undef
       | Err e \<Rightarrow> Err e
       | Ret None \<Rightarrow> Ret (z\<lparr>z_seen := z_seen z @ [c'], z_cd := dlen\<rparr>)
       | Ret (Some (buf, n, m, errs)) \<Rightarrow>
           (let z = z\<lparr>z_seen := z_seen z @ [c'\<lparr>c_buf := Some buf\<rparr>], z_cd := m, z_errors := z_errors z + errs\<rparr> in
            if (z_dlen z = 0 \<or> jffs2_is_best_compression mode c' (z_seen z ! z_best z) m (z_dlen z)) \<and> m < n
            then Ret (z\<lparr>z_dlen := m, z_slen := n, z_best := length (z_seen z) - 1\<rparr>)
            else Ret z))"
    using True b(1) unfolding size_step_def Let_def needed_def [symmetric] c'_def [symmetric] by simp
  from c' n b(2,3) show ?thesis
  proof (cases rule: call_compressor_cases)
    case failed
    then have "smallest mode d slen dlen [c] (z_dlen z)" using same by (simp add: smallest_def same_codec_def)
    moreover have "buf_ok check c'" using b by (simp add: buf_ok_def)
    ultimately show ?thesis using failed inv same best_ok_snoc [of d slen dlen ps z _ c' c] len
      by (auto simp: step size_inv_def list_all2_appendI smallest_snoc)
  next
    case (ok buf' n' m)
    define z1 where "z1 = z\<lparr>z_seen := z_seen z @ [c'\<lparr>c_buf := Some buf'\<rparr>], z_cd := m, z_errors := z_errors z + 0\<rparr>"
    have base: "list_all2 same_codec (ps @ [c]) (z_seen z1)" "list_all (buf_ok check) (z_seen z1)" "z_errors z1 = 0" "z_cd z1 \<le> dlen"
      using inv same b ok by (auto simp: z1_def size_inv_def list_all2_appendI same_codec_def buf_ok_def)
    have old: "best_ok d slen dlen (ps @ [c]) z1"
      by (rule best_ok_snoc [of d slen dlen ps z]) (use inv len in \<open>auto simp: z1_def size_inv_def\<close>)
    have sm: "smallest mode d slen dlen ps (z_dlen z)" using inv by (simp add: size_inv_def)
    have out: "the (c_compress c) d slen dlen = Ret (take m buf', n')" "length (take m buf') = m"
      using ok(3,5,7) b same by (auto simp: same_codec_def)
    show ?thesis
    proof (cases "(z_dlen z1 = 0 \<or> jffs2_is_best_compression mode c' (z_seen z1 ! z_best z1) m (z_dlen z1)) \<and> m < n'")
      case True
      define z2 where "z2 = z1\<lparr>z_dlen := m, z_slen := n', z_best := length (z_seen z1) - 1\<rparr>"
      have "best_ok d slen dlen (ps @ [c]) z2"
        using ok same \<open>active c\<close> len
        by (auto simp: best_ok_def z2_def z1_def nth_append expands_def same_codec_def)
      moreover have "smallest mode d slen dlen (ps @ [c]) m"
        using sm True ok(2) out
        by (auto simp: smallest_def jffs2_is_best_compression_def z1_def)
      moreover have "size_step mode check page_size junk d slen dlen c z = Ret z2"
        using True ok(1) unfolding step z2_def z1_def by (simp only: outcome.case option.case prod.case Let_def if_True simp_thms)
      ultimately show ?thesis using base by (auto simp: size_inv_def z2_def)
    next
      case False
      have "smallest mode d slen dlen [c] (z_dlen z)"
        using False out by (auto simp: smallest_def jffs2_is_best_compression_def z1_def)
      moreover have "size_step mode check page_size junk d slen dlen c z = Ret z1"
        using False ok(1) unfolding step z1_def by (simp only: outcome.case option.case prod.case Let_def if_False simp_thms)
      moreover have "z_dlen z1 = z_dlen z" by (simp add: z1_def)
      ultimately show ?thesis using base old sm by (auto simp: size_inv_def smallest_snoc)
    qed
  qed
qed

lemma size_loop_inv:
  assumes "size_inv mode check d slen dlen ps z" and "list_all (codec_ok limit) cs" and "list_all (buf_ok check) cs"
    and "slen \<le> length d" "slen \<le> limit" "slen \<le> page_size" "dlen \<le> slen"
  shows "\<exists>z'. size_loop mode check page_size junk d slen dlen cs z = Ret z' \<and> size_inv mode check d slen dlen (ps @ cs) z'"
  using assms
proof (induction cs arbitrary: ps z)
  case (Cons c cs)
  then obtain z1 where "size_step mode check page_size junk d slen dlen c z = Ret z1"
      "size_inv mode check d slen dlen (ps @ [c]) z1"
    using size_step_inv [of mode check d slen dlen ps z limit c page_size junk] by auto
  then show ?case using Cons.IH [of "ps @ [c]" z1] Cons.prems by simp
qed simp

definition lossless_result :: "jffs2_compressor list \<Rightarrow> bytes \<Rightarrow> nat \<Rightarrow> nat \<Rightarrow> compressed \<Rightarrow> bool" where
  "lossless_result cs d slen dlen r \<longleftrightarrow> r_cdatalen r \<le> dlen \<and> r_datalen r \<le> slen \<and>
     (if r_compr r = JFFS2_COMPR_NONE then r_page r = d \<and> r_datalen r = r_cdatalen r
      else \<exists>c \<in> set cs. active c \<and> c_compr c = r_compr r \<and> expands c (r_page r) (r_cdatalen r) (r_datalen r) d)"

definition registry_kept :: "compr_state \<Rightarrow> compr_state \<Rightarrow> bool" where
  "registry_kept st st' \<longleftrightarrow> list_all2 same_codec (js_list st) (js_list st') \<and>
     list_all (buf_ok (js_check st)) (js_list st') \<and> js_errors st' = js_errors st \<and> js_check st' = js_check st"

lemma finish_state: "js_list (snd (finish ret d buf n m st)) = js_list st" "js_errors (snd (finish ret d buf n m st)) = js_errors st"
  "js_check (snd (finish ret d buf n m st)) = js_check st"
  by (simp_all add: finish_def)

lemma finish_none: "m \<le> dlen \<Longrightarrow> dlen \<le> slen \<Longrightarrow> lossless_result cs d slen dlen (fst (finish JFFS2_COMPR_NONE d buf n m st))"
  by (simp add: finish_def lossless_result_def)

lemma finish_some:
  assumes "c \<in> set cs" "active c" "codec_ok limit c" "expands c buf m n d" "m \<le> dlen" "n \<le> slen"
  shows "lossless_result cs d slen dlen (fst (finish (c_compr c) d buf n m st))"
  using assms by (auto simp: finish_def lossless_result_def codec_ok_def)

lemma compress_priority_lossless:
  assumes "list_all (codec_ok limit) (js_list st)" and "list_all (buf_ok (js_check st)) (js_list st)"
    and "slen \<le> length d" "slen \<le> limit" "slen \<le> page_size" "dlen \<le> slen"
  shows "\<exists>r st'. compress_priority page_size junk d slen dlen st = Ret (r, st') \<and> registry_kept st st' \<and>
    lossless_result (js_list st) d slen dlen r"
proof -
  define buf where "buf = replicate (dlen + (if js_check st then 1 else 0)) junk"
  obtain cs r where loop: "priority_loop (js_check st) page_size d slen dlen buf (js_list st) = Ret (cs, r)"
      "list_all2 same_codec (js_list st) cs" "list_all (buf_ok (js_check st)) cs"
      and r: "case r of None \<Rightarrow> True | Some (ret, buf', n', m, errs) \<Rightarrow> errs = 0 \<and> m \<le> dlen \<and> n' \<le> slen \<and>
         (\<exists>c \<in> set (js_list st). active c \<and> ret = c_compr c \<and> expands c buf' m n' d)"
    using priority_loop_correct [OF assms(1,3-5) _ assms(2), of dlen buf] by (auto simp: buf_def)
  show ?thesis
  proof (cases r)
    case None
    define x where "x = finish JFFS2_COMPR_NONE d [] slen dlen (st\<lparr>js_list := cs\<rparr>)"
    have "compress_priority page_size junk d slen dlen st = Ret (fst x, snd x)"
      using loop None by (simp add: compress_priority_def buf_def [symmetric] x_def)
    moreover have "registry_kept st (snd x)" using loop by (simp add: registry_kept_def x_def finish_state)
    moreover have "lossless_result (js_list st) d slen dlen (fst x)"
      unfolding x_def using assms(6) by (intro finish_none) simp_all
    ultimately show ?thesis by blast
  next
    case (Some p)
    obtain ret buf' n m errs where p: "p = (ret, buf', n, m, errs)" by (cases p) auto
    define x where "x = finish ret d buf' n m (st\<lparr>js_list := cs, js_errors := js_errors st + errs\<rparr>)"
    have "compress_priority page_size junk d slen dlen st = Ret (fst x, snd x)"
      using loop Some p by (simp add: compress_priority_def buf_def [symmetric] x_def)
    moreover have "lossless_result (js_list st) d slen dlen (fst x)"
      using r Some p assms(1) finish_some [of _ "js_list st" limit buf' m n d dlen slen]
      by (auto simp: x_def list_all_iff)
    moreover have "registry_kept st (snd x)"
      using loop r Some p by (simp add: registry_kept_def x_def finish_state)
    ultimately show ?thesis by blast
  qed
qed

lemma compress_size_lossless:
  assumes "list_all (codec_ok limit) (js_list st)" and "list_all (buf_ok (js_check st)) (js_list st)"
    and "slen \<le> length d" "slen \<le> limit" "slen \<le> page_size" "dlen \<le> slen"
  shows "\<exists>r st'. compress_size page_size junk d slen dlen st = Ret (r, st') \<and> registry_kept st st' \<and>
    lossless_result (js_list st) d slen dlen r \<and>
    smallest (js_mode st) d slen dlen (js_list st) (if r_compr r = JFFS2_COMPR_NONE then 0 else r_cdatalen r)"
proof -
  define z0 where "z0 = \<lparr>z_seen = [], z_best = 0, z_slen = 0, z_dlen = 0, z_cd = dlen, z_errors = 0\<rparr>"
  have "size_inv (js_mode st) (js_check st) d slen dlen [] z0"
    by (simp add: size_inv_def z0_def best_ok_def smallest_def)
  then obtain z where loop: "size_loop (js_mode st) (js_check st) page_size junk d slen dlen (js_list st) z0 = Ret z"
      and inv: "size_inv (js_mode st) (js_check st) d slen dlen (js_list st) z"
    using size_loop_inv [of "js_mode st" "js_check st" d slen dlen "[]" z0 limit "js_list st"] assms by auto
  define st1 where "st1 = st\<lparr>js_list := z_seen z, js_errors := js_errors st + z_errors z\<rparr>"
  have seen: "list_all2 same_codec (js_list st) (z_seen z)" "list_all (buf_ok (js_check st)) (z_seen z)" "z_errors z = 0"
      "z_cd z \<le> dlen" "smallest (js_mode st) d slen dlen (js_list st) (z_dlen z)"
    using inv by (simp_all add: size_inv_def)
  show ?thesis
  proof (cases "z_dlen z = 0")
    case True
    define x where "x = finish JFFS2_COMPR_NONE d [] slen (z_cd z) st1"
    have "compress_size page_size junk d slen dlen st = Ret (fst x, snd x)"
      using loop True by (simp add: compress_size_def z0_def [symmetric] st1_def x_def Let_def)
    moreover have "r_compr (fst x) = JFFS2_COMPR_NONE" by (simp add: x_def finish_def)
    moreover have "registry_kept st (snd x)"
      using seen by (simp add: registry_kept_def x_def finish_state st1_def)
    moreover have "lossless_result (js_list st) d slen dlen (fst x)"
      unfolding x_def using assms(6) seen(4) by (intro finish_none) simp_all
    moreover have "smallest (js_mode st) d slen dlen (js_list st) 0" using seen(5) True by simp
    ultimately show ?thesis by (intro exI [of _ "fst x"] exI [of _ "snd x"]) (simp only: if_True simp_thms)
  next
    case False
    define best where "best = z_seen z ! z_best z"
    define best' where "best' = count_block (z_slen z) (z_dlen z) (best\<lparr>c_buf := None, c_buf_size := 0\<rparr>)"
    obtain b where b: "z_best z < length (js_list st)" "active (js_list st ! z_best z)" "z_dlen z \<le> dlen" "z_slen z \<le> slen"
        "c_buf best = Some b" "expands (js_list st ! z_best z) b (z_dlen z) (z_slen z) d"
      using inv False by (auto simp: size_inv_def best_ok_def best_def)
    have same: "same_codec (js_list st ! z_best z) best"
      using seen(1) b(1) by (simp add: best_def list_all2_conv_all_nth)
    have in_list: "js_list st ! z_best z \<in> set (js_list st)" using b(1) by simp
    then have ok: "codec_ok limit (js_list st ! z_best z)" using assms(1) by (simp add: list_all_iff)
    define x where "x = finish (c_compr best) d b (z_slen z) (z_dlen z) (st1\<lparr>js_list := (z_seen z)[z_best z := best']\<rparr>)"
    have run: "compress_size page_size junk d slen dlen st = Ret (fst x, snd x)"
      using loop False b(5)
      by (simp add: compress_size_def z0_def [symmetric] st1_def x_def Let_def best_def [symmetric] best'_def)
    have "same_codec (js_list st ! z_best z) best'"
      using same by (simp add: best'_def same_codec_def count_block_def)
    then have "list_all2 same_codec (js_list st) ((z_seen z)[z_best z := best'])"
      using seen(1) b(1) by (auto simp: list_all2_conv_all_nth nth_list_update)
    moreover have "buf_ok (js_check st) best'" by (simp add: buf_ok_def best'_def count_block_def)
    then have "list_all (buf_ok (js_check st)) ((z_seen z)[z_best z := best'])"
      using seen(2) set_update_subset_insert [of "z_seen z" "z_best z" best'] by (auto simp: list_all_iff)
    ultimately have "registry_kept st (snd x)" using seen by (simp add: registry_kept_def x_def finish_state st1_def)
    moreover have "lossless_result (js_list st) d slen dlen (fst x)"
      using finish_some [OF in_list b(2) ok b(6,3,4)] same by (simp add: x_def same_codec_def)
    moreover have "r_compr (fst x) \<noteq> JFFS2_COMPR_NONE" "r_cdatalen (fst x) = z_dlen z"
      using ok same by (auto simp: x_def finish_def codec_ok_def same_codec_def)
    ultimately show ?thesis using run seen(5)
      by (intro exI [of _ "fst x"] exI [of _ "snd x"]) (simp only: if_False simp_thms)
  qed
qed

section \<open>Properties\<close>

text \<open>C9. Whatever the mode and the registered compressors, as long as each meets the interface
  \<open>jffs2_codec\<close>, \<open>jffs2_compress\<close> returns without leaving a buffer, and the page it returns is either the
  data itself, marked as not compressed, or expands with the registered compressor of the returned
  type to exactly the part of the data it covers. The check mode reports no error, and the list of
  compressors keeps its order and settings.\<close>

theorem jffs2_compress_lossless:
  assumes "list_all (codec_ok limit) (js_list st)" and "list_all (buf_ok (js_check st)) (js_list st)"
    and "slen \<le> length d" "slen \<le> limit" "slen \<le> page_size" "dlen \<le> slen"
  shows "\<exists>r st'. jffs2_compress page_size junk d slen dlen st = Ret (r, st') \<and> registry_kept st st' \<and>
    lossless_result (js_list st) d slen dlen r"
proof (cases "js_mode st = MODE_PRIORITY \<or> js_mode st = MODE_SIZE \<or> js_mode st = MODE_FAVOURLZO")
  case True
  then show ?thesis using compress_priority_lossless [OF assms] compress_size_lossless [OF assms]
    by (auto simp: jffs2_compress_def) blast+
next
  case False
  define x where "x = finish JFFS2_COMPR_NONE d [] slen dlen st"
  have "list_all2 same_codec (js_list st) (js_list st)" by (simp add: list_all2_same same_codec_refl)
  moreover have "jffs2_compress page_size junk d slen dlen st = Ret (fst x, snd x)"
    using False by (cases "js_mode st") (auto simp: jffs2_compress_def x_def)
  moreover have "lossless_result (js_list st) d slen dlen (fst x)"
    unfolding x_def using assms(6) by (intro finish_none) simp_all
  ultimately show ?thesis using assms(2) finish_state [of _ _ _ _ _ st]
    by (intro exI [of _ "fst x"] exI [of _ "snd x"]) (simp add: registry_kept_def x_def)
qed

text \<open>C18. In the size mode no active compressor beats the result: if some active compressor makes the data
  shorter, a compressed page is returned, and it is at most as long as that compressor's output.\<close>

theorem jffs2_compress_size_smallest:
  assumes "list_all (codec_ok limit) (js_list st)" and "list_all (buf_ok (js_check st)) (js_list st)"
    and "slen \<le> length d" "slen \<le> limit" "slen \<le> page_size" "dlen \<le> slen" and "js_mode st = MODE_SIZE"
    and "c \<in> set (js_list st)" "active c" "the (c_compress c) d slen dlen = Ret (out, n)" "length out < n"
  shows "\<exists>r st'. jffs2_compress page_size junk d slen dlen st = Ret (r, st') \<and>
    r_compr r \<noteq> JFFS2_COMPR_NONE \<and> r_cdatalen r \<le> length out"
  using compress_size_lossless [OF assms(1-6), of junk] assms(7-)
  by (fastforce simp: jffs2_compress_def smallest_def split: if_splits)

lemma rtime_codec_ok: "codec_ok 32767 jffs2_rtime_comp"
  using rtime.jffs2_codec_axioms by (simp add: codec_ok_def jffs2_rtime_comp_def JFFS2_COMPR_RTIME_def JFFS2_COMPR_NONE_def)

definition demo_compr :: "compr_mode \<Rightarrow> compr_state" where
  "demo_compr m = jffs2_set_compression_mode m (jffs2_compression_check_set True (snd (jffs2_rtime_init jffs2_start)))"

lemma demo_compr_ok:
  "list_all (codec_ok 32767) (js_list (demo_compr m))" "list_all (buf_ok (js_check (demo_compr m))) (js_list (demo_compr m))"
  "js_list (demo_compr m) = [jffs2_rtime_comp]"
proof -
  show "js_list (demo_compr m) = [jffs2_rtime_comp]"
    by (simp add: demo_compr_def jffs2_rtime_init_def jffs2_register_compressor_def jffs2_start_def
        jffs2_set_compression_mode_def jffs2_compression_check_set_def reset_compressor_def jffs2_rtime_comp_def)
  then show "list_all (codec_ok 32767) (js_list (demo_compr m))" "list_all (buf_ok (js_check (demo_compr m))) (js_list (demo_compr m))"
    using rtime_codec_ok by (simp_all add: buf_ok_def jffs2_rtime_comp_def)
qed

theorem jffs2_compress_lossless_witness:
  "\<exists>r st'. jffs2_compress 4096 0 (replicate 20 7) 20 20 (demo_compr MODE_PRIORITY) = Ret (r, st') \<and>
    js_errors st' = js_errors (demo_compr MODE_PRIORITY) \<and> lossless_result [jffs2_rtime_comp] (replicate 20 7) 20 20 r"
  using jffs2_compress_lossless [OF demo_compr_ok(1,2), of 20 "replicate 20 7" 4096 20 0 MODE_PRIORITY]
  by (auto simp: demo_compr_ok(3) registry_kept_def)

theorem jffs2_compress_size_smallest_witness:
  "\<exists>r st'. jffs2_compress 4096 0 (replicate 8 7) 8 8 (demo_compr MODE_SIZE) = Ret (r, st') \<and>
    r_compr r \<noteq> JFFS2_COMPR_NONE \<and> r_cdatalen r \<le> 2"
proof -
  have "jffs2_rtime_compress (replicate 8 7) 8 8 = Ret ([7, 7], 8)" by code_simp
  then have "the (c_compress jffs2_rtime_comp) (replicate 8 7) 8 8 = Ret ([7, 7], 8)" "active jffs2_rtime_comp"
    by (simp_all add: jffs2_rtime_comp_def active_def)
  moreover have "js_mode (demo_compr MODE_SIZE) = MODE_SIZE"
    by (simp add: demo_compr_def jffs2_set_compression_mode_def)
  ultimately show ?thesis
    using jffs2_compress_size_smallest [OF demo_compr_ok(1,2), of 8 "replicate 8 7" 4096 8 MODE_SIZE jffs2_rtime_comp "[7, 7]" 8 0]
    by (simp add: demo_compr_ok(3) numeral_2_eq_2)
qed

text \<open>C35. The list of compressors stays ordered by priority, highest first. Registering a compressor puts it, with its counters
  cleared, behind those of the same priority and keeps the others in their order; one without a name is refused. Changing a
  priority moves only the compressor of that name, and an unknown name changes nothing. Unregistering refuses a compressor
  that is in use and otherwise removes that one and keeps all others in their order.\<close>

theorem compressor_list_sorted:
  assumes "by_priority (js_list st)"
  shows "by_priority (js_list (snd (jffs2_register_compressor c st)))
    \<and> (if c_name c = None then jffs2_register_compressor c st = (- 1, st)
       else \<exists>us vs. js_list st = us @ vs \<and> jffs2_register_compressor c st = (0, st\<lparr>js_list := us @ reset_compressor c # vs\<rparr>)
         \<and> (\<forall>x\<in>set us. c_priority x \<ge> c_priority c) \<and> (\<forall>x\<in>set vs. c_priority x < c_priority c))
    \<and> by_priority (js_list (snd (jffs2_set_compressor_priority name p st)))
    \<and> (case find_name name (js_list st) of
         None \<Rightarrow> jffs2_set_compressor_priority name p st = (1, st)
       | Some i \<Rightarrow> \<exists>us vs. c_name (js_list st ! i) = Some name \<and> take i (js_list st) @ drop (i + 1) (js_list st) = us @ vs
           \<and> jffs2_set_compressor_priority name p st = (0, st\<lparr>js_list := us @ (js_list st ! i)\<lparr>c_priority := p\<rparr> # vs\<rparr>))
    \<and> by_priority (js_list (snd (jffs2_unregister_compressor k st)))
    \<and> (k < length (js_list st) \<longrightarrow>
         (if c_usecount (js_list st ! k) \<noteq> 0 then jffs2_unregister_compressor k st = (- 1, st)
          else \<exists>us vs. js_list st = us @ js_list st ! k # vs \<and> length us = k \<and> jffs2_unregister_compressor k st = (0, st\<lparr>js_list := us @ vs\<rparr>)))"
proof (intro conjI)
  show "by_priority (js_list (snd (jffs2_register_compressor c st)))"
    using assms by (auto simp: jffs2_register_compressor_def insert_by_priority_sorted)
  show "if c_name c = None then jffs2_register_compressor c st = (- 1, st)
       else \<exists>us vs. js_list st = us @ vs \<and> jffs2_register_compressor c st = (0, st\<lparr>js_list := us @ reset_compressor c # vs\<rparr>)
         \<and> (\<forall>x\<in>set us. c_priority x \<ge> c_priority c) \<and> (\<forall>x\<in>set vs. c_priority x < c_priority c)"
  proof (cases "c_name c")
    case (Some y)
    obtain us vs where "js_list st = us @ vs" "insert_by_priority (reset_compressor c) (js_list st) = us @ reset_compressor c # vs"
      "\<forall>x\<in>set us. c_priority x \<ge> c_priority (reset_compressor c)" "\<forall>x\<in>set vs. c_priority x < c_priority (reset_compressor c)"
      using insert_by_priority_place [OF assms] by blast
    then show ?thesis
      using Some by (simp add: jffs2_register_compressor_def) (rule exI [of _ us], rule exI [of _ vs], simp add: reset_compressor_def)
  qed (simp add: jffs2_register_compressor_def)
  show "by_priority (js_list (snd (jffs2_set_compressor_priority name p st)))"
    using assms sorted_remove [OF assms]
    by (auto simp: jffs2_set_compressor_priority_def insert_by_priority_sorted split: option.split)
  show "case find_name name (js_list st) of
         None \<Rightarrow> jffs2_set_compressor_priority name p st = (1, st)
       | Some i \<Rightarrow> \<exists>us vs. c_name (js_list st ! i) = Some name \<and> take i (js_list st) @ drop (i + 1) (js_list st) = us @ vs
           \<and> jffs2_set_compressor_priority name p st = (0, st\<lparr>js_list := us @ (js_list st ! i)\<lparr>c_priority := p\<rparr> # vs\<rparr>)"
  proof (cases "find_name name (js_list st)")
    case (Some i)
    obtain us vs where uv: "insert_by_priority ((js_list st ! i)\<lparr>c_priority := p\<rparr>) (take i (js_list st) @ drop (i + 1) (js_list st)) = us @ (js_list st ! i)\<lparr>c_priority := p\<rparr> # vs"
      "take i (js_list st) @ drop (i + 1) (js_list st) = us @ vs" using insert_by_priority_split by blast
    show ?thesis using Some find_name_spec [OF Some] uv
      by (simp add: jffs2_set_compressor_priority_def) (rule exI [of _ us], rule exI [of _ vs], simp)
  qed (simp add: jffs2_set_compressor_priority_def)
  show "by_priority (js_list (snd (jffs2_unregister_compressor k st)))"
    using assms sorted_remove [OF assms, of k] by (simp add: jffs2_unregister_compressor_def)
  show "k < length (js_list st) \<longrightarrow>
         (if c_usecount (js_list st ! k) \<noteq> 0 then jffs2_unregister_compressor k st = (- 1, st)
          else \<exists>us vs. js_list st = us @ js_list st ! k # vs \<and> length us = k \<and> jffs2_unregister_compressor k st = (0, st\<lparr>js_list := us @ vs\<rparr>))"
    by (intro impI, use id_take_nth_drop [of k "js_list st"] in \<open>auto simp: jffs2_unregister_compressor_def\<close>)
      (rule exI [of _ "take k (js_list st)"], rule exI [of _ "drop (Suc k) (js_list st)"], simp)
qed

theorem compressor_list_sorted_witness:
  "map c_priority (js_list (snd (jffs2_register_compressor (jffs2_rtime_comp\<lparr>c_priority := 60\<rparr>) (demo_compr MODE_SIZE)))) = [60, 50] \<and>
   (\<exists>us vs. js_list (demo_compr MODE_SIZE) = us @ js_list (demo_compr MODE_SIZE) ! 0 # vs \<and> us = []
      \<and> jffs2_unregister_compressor 0 (demo_compr MODE_SIZE) = (0, (demo_compr MODE_SIZE)\<lparr>js_list := us @ vs\<rparr>))"
proof -
  have l: "length (js_list (demo_compr MODE_SIZE)) = 1" "c_usecount (js_list (demo_compr MODE_SIZE) ! 0) = 0"
    by (simp_all add: demo_compr_ok(3) jffs2_rtime_comp_def)
  show ?thesis
    using compressor_list_sorted [of "demo_compr MODE_SIZE" "jffs2_rtime_comp\<lparr>c_priority := 60\<rparr>" _ _ 0] l
    by (simp add: demo_compr_ok(3)) (simp add: jffs2_register_compressor_def demo_compr_ok(3) jffs2_rtime_comp_def reset_compressor_def JFFS2_RTIME_PRIORITY_def)
qed

end
