(* ===== verification/Dictionary.thy ===== *)
theory Dictionary
  imports Prelude
begin

text \<open>
  The string dictionary of the UBI tools (\<open>ubi-utils/dictionary.c\<close>): three parallel arrays of keys,
  values and cached hashes with NULL holes, searched linearly, doubled when full. The component's
  contract is the interface \<open>string_dict\<close>: under the invariant, the arrays behave as a finite map
  from keys to optional values. The model assumes that single-string allocations succeed; whether
  the doubling of the arrays succeeds is an argument of \<open>dictionary_set\<close>.
\<close>

unbundle bit_operations_syntax

section \<open>The code\<close>

record dictionary =
  d_n :: int
  d_size :: nat
  d_val :: "string option list"
  d_key :: "string option list"
  d_hash :: "u32 list"

text \<open>A \<open>char\<close> is signed on the hosts of the tools: the conversion to \<open>unsigned\<close> sign-extends.\<close>

definition hash_char :: "u32 \<Rightarrow> char \<Rightarrow> u32" where
  "hash_char h c =
     (let h1 = h + scast (of_char c :: u8);
          h2 = h1 + push_bit 10 h1
      in h2 XOR drop_bit 6 h2)"

definition dictionary_hash :: "string \<Rightarrow> u32" where
  "dictionary_hash k =
     (let h = foldl hash_char 0 k;
          h1 = h + push_bit 3 h;
          h2 = h1 XOR drop_bit 11 h1
      in h2 + push_bit 15 h2)"

definition DICTMINSZ :: nat where "DICTMINSZ = 128"

definition dictionary_new :: "int \<Rightarrow> dictionary" where
  "dictionary_new sz =
     (let s = (if sz < int DICTMINSZ then DICTMINSZ else nat sz)
      in \<lparr>d_n = 0, d_size = s, d_val = replicate s None, d_key = replicate s None, d_hash = replicate s 0\<rparr>)"

text \<open>The search loop shared by the operations: the first index whose key is present, has the same
  cached hash and compares equal.\<close>

fun find_slot :: "u32 \<Rightarrow> string \<Rightarrow> string option list \<Rightarrow> u32 list \<Rightarrow> nat \<Rightarrow> nat option" where
  "find_slot h k (x # ks) (hh # hs) i =
     (case x of
        None \<Rightarrow> find_slot h k ks hs (Suc i)
      | Some s \<Rightarrow> if h = hh \<and> k = s then Some i else find_slot h k ks hs (Suc i))"
| "find_slot h k _ _ i = None"

fun find_empty :: "string option list \<Rightarrow> nat \<Rightarrow> nat option" where
  "find_empty [] i = None"
| "find_empty (x # ks) i = (if x = None then Some i else find_empty ks (Suc i))"

definition dictionary_get :: "dictionary \<Rightarrow> string \<Rightarrow> string option \<Rightarrow> string option" where
  "dictionary_get d k def =
     (case find_slot (dictionary_hash k) k (d_key d) (d_hash d) 0 of
        Some i \<Rightarrow> d_val d ! i
      | None \<Rightarrow> def)"

text \<open>The size is an \<open>int\<close> in the code; doubling it stays in range as long as the dictionary has fewer than \<open>2 ^ 30\<close> slots, more of
  which are taken for memory that cannot be had.\<close>

definition mem_double :: "'a \<Rightarrow> 'a list \<Rightarrow> 'a list" where
  "mem_double zero xs = xs @ replicate (length xs) zero"

definition grow_arrays :: "dictionary \<Rightarrow> dictionary" where
  "grow_arrays d =
     d\<lparr>d_val := mem_double None (d_val d), d_key := mem_double None (d_key d),
       d_hash := mem_double 0 (d_hash d), d_size := 2 * d_size d\<rparr>"

datatype dict_error = Bad_argument | Cannot_grow

text \<open>Adding a new pair: grow when full, then take the first empty slot. A dictionary without an
  empty slot would be written out of bounds.\<close>

definition dictionary_add :: "bool \<Rightarrow> dictionary \<Rightarrow> string \<Rightarrow> string option \<Rightarrow> u32 \<Rightarrow>
    (dict_error, dictionary) outcome" where
  "dictionary_add mem_ok d k v h =
     (if d_n d = int (d_size d) \<and> \<not> mem_ok then Err Cannot_grow
      else let d = (if d_n d = int (d_size d) then grow_arrays d else d)
           in case find_empty (d_key d) 0 of
                None \<Rightarrow> Undef
              | Some i \<Rightarrow> Ret (d\<lparr>d_key := (d_key d)[i := Some k], d_val := (d_val d)[i := v],
                                  d_hash := (d_hash d)[i := h], d_n := d_n d + 1\<rparr>))"

definition dictionary_set :: "bool \<Rightarrow> dictionary option \<Rightarrow> string option \<Rightarrow> string option \<Rightarrow>
    (dict_error, dictionary) outcome" where
  "dictionary_set mem_ok dp kp v =
     (case (dp, kp) of
        (Some d, Some k) \<Rightarrow>
          (let h = dictionary_hash k
           in case (if d_n d > 0 then find_slot h k (d_key d) (d_hash d) 0 else None) of
                Some i \<Rightarrow> Ret (d\<lparr>d_val := (d_val d)[i := v]\<rparr>)
              | None \<Rightarrow> dictionary_add mem_ok d k v h)
      | _ \<Rightarrow> Err Bad_argument)"

definition dictionary_unset :: "dictionary \<Rightarrow> string option \<Rightarrow> dictionary" where
  "dictionary_unset d kp =
     (case kp of
        None \<Rightarrow> d
      | Some k \<Rightarrow>
          (case find_slot (dictionary_hash k) k (d_key d) (d_hash d) 0 of
             None \<Rightarrow> d
           | Some i \<Rightarrow> d\<lparr>d_key := (d_key d)[i := None], d_val := (d_val d)[i := None],
                         d_hash := (d_hash d)[i := 0], d_n := d_n d - 1\<rparr>))"

text \<open>\<open>fprintf (out, "%20s\t[%s]\n", ...)\<close>: the key right-justified in twenty columns.\<close>

definition pad20 :: "string \<Rightarrow> string" where
  "pad20 s = replicate (20 - length s) CHR '' '' @ s"

fun dump_slots :: "string option list \<Rightarrow> string option list \<Rightarrow> string" where
  "dump_slots (Some k # ks) (v # vs) =
     pad20 k @ [CHR 0x09, CHR ''[''] @ (case v of Some s \<Rightarrow> s | None \<Rightarrow> ''UNDEF'')
       @ [CHR '']'', CHR 0x0A] @ dump_slots ks vs"
| "dump_slots (None # ks) (v # vs) = dump_slots ks vs"
| "dump_slots _ _ = []"

definition dictionary_dump :: "dictionary \<Rightarrow> string" where
  "dictionary_dump d =
     (if d_n d < 1 then ''empty dictionary'' @ [CHR 0x0A] else dump_slots (d_key d) (d_val d))"

section \<open>Invariant and abstraction\<close>

definition present :: "string option list \<Rightarrow> nat \<Rightarrow> string \<Rightarrow> bool" where
  "present ks i k \<longleftrightarrow> i < length ks \<and> ks ! i = Some k"

definition dict_inv :: "dictionary \<Rightarrow> bool" where
  "dict_inv d \<longleftrightarrow>
     0 < d_size d \<and> length (d_key d) = d_size d \<and> length (d_val d) = d_size d \<and> length (d_hash d) = d_size d
     \<and> d_n d = int (length (filter (\<lambda>x. x \<noteq> None) (d_key d)))
     \<and> (\<forall>i k. present (d_key d) i k \<longrightarrow> d_hash d ! i = dictionary_hash k)
     \<and> (\<forall>i j k. present (d_key d) i k \<and> present (d_key d) j k \<longrightarrow> i = j)"

text \<open>The map a dictionary stands for: \<open>Some v\<close> for a present key, whose value \<open>v\<close> may be NULL.\<close>

definition dict_map :: "dictionary \<Rightarrow> string \<rightharpoonup> string option" where
  "dict_map d k =
     (case find_slot (dictionary_hash k) k (d_key d) (d_hash d) 0 of
        Some i \<Rightarrow> Some (d_val d ! i) | None \<Rightarrow> None)"

lemma find_slot_Some:
  "find_slot h k ks hs i = Some j \<Longrightarrow>
   i \<le> j \<and> present ks (j - i) k \<and> j - i < length hs \<and> hs ! (j - i) = h"
proof (induction h k ks hs i rule: find_slot.induct)
  case (1 h k x ks hh hs i)
  show ?case
  proof (cases "x = Some k \<and> h = hh")
    case True
    with "1.prems" show ?thesis by (auto simp: present_def)
  next
    case False
    with "1.prems" have "find_slot h k ks hs (Suc i) = Some j"
      by (auto split: option.splits if_splits)
    with False "1.IH" have "Suc i \<le> j \<and> present ks (j - Suc i) k
        \<and> j - Suc i < length hs \<and> hs ! (j - Suc i) = h"
      by (cases x) auto
    then show ?thesis by (auto simp: present_def Suc_diff_Suc nth_Cons')
  qed
qed auto

lemma find_slot_None:
  "find_slot h k ks hs i = None \<Longrightarrow> present ks j k \<Longrightarrow> j < length hs \<Longrightarrow> hs ! j \<noteq> h"
proof (induction h k ks hs i arbitrary: j rule: find_slot.induct)
  case (1 h k x ks hh hs i)
  then show ?case
    by (cases j; cases x) (auto simp: present_def split: if_splits)
qed (auto simp: present_def)

lemma find_empty_Some: "find_empty ks i = Some j \<Longrightarrow> i \<le> j \<and> j - i < length ks \<and> ks ! (j - i) = None"
  by (induction ks arbitrary: i) (force simp: nth_Cons' split: if_splits)+

lemma find_empty_None: "find_empty ks i = None \<Longrightarrow> None \<notin> set ks"
  by (induction ks arbitrary: i) (auto split: if_splits)

lemma present_update [simp]:
  "i < length ks \<Longrightarrow> present (ks[i := x]) j k \<longleftrightarrow> (if j = i then x = Some k else present ks j k)"
  by (auto simp: present_def nth_list_update)

lemma length_mem_double [simp]: "length (mem_double z xs) = 2 * length xs"
  by (simp add: mem_double_def)

lemma present_mem_double [simp]: "present (mem_double None ks) i k \<longleftrightarrow> present ks i k"
  by (auto simp: present_def mem_double_def nth_append)

lemma dict_invD:
  assumes "dict_inv d"
  shows "0 < d_size d" "length (d_key d) = d_size d" "length (d_val d) = d_size d" "length (d_hash d) = d_size d"
    and "d_n d = int (length (filter (\<lambda>x. x \<noteq> None) (d_key d)))"
    and "present (d_key d) i k \<Longrightarrow> d_hash d ! i = dictionary_hash k"
    and "present (d_key d) i k \<Longrightarrow> present (d_key d) j k \<Longrightarrow> i = j"
  using assms unfolding dict_inv_def by blast+

lemma find_slot_present:
  assumes "dict_inv d"
  shows "find_slot (dictionary_hash k) k (d_key d) (d_hash d) 0 = Some i \<longleftrightarrow> present (d_key d) i k"
proof
  assume "find_slot (dictionary_hash k) k (d_key d) (d_hash d) 0 = Some i"
  then show "present (d_key d) i k" by (auto dest: find_slot_Some)
next
  assume p: "present (d_key d) i k"
  then have "i < length (d_hash d)" "d_hash d ! i = dictionary_hash k"
    using dict_invD [OF assms] by (auto simp: present_def)
  with p find_slot_None obtain j where j: "find_slot (dictionary_hash k) k (d_key d) (d_hash d) 0 = Some j"
    by (cases "find_slot (dictionary_hash k) k (d_key d) (d_hash d) 0") blast+
  then have "present (d_key d) j k" by (auto dest: find_slot_Some)
  with p j show "find_slot (dictionary_hash k) k (d_key d) (d_hash d) 0 = Some i"
    using dict_invD(7) [OF assms] by blast
qed

lemma dict_map_iff:
  assumes "dict_inv d"
  shows "dict_map d k = Some v \<longleftrightarrow> (\<exists>i. present (d_key d) i k \<and> d_val d ! i = v)"
proof -
  have "dict_map d k = Some v \<longleftrightarrow>
      (\<exists>i. find_slot (dictionary_hash k) k (d_key d) (d_hash d) 0 = Some i \<and> d_val d ! i = v)"
    by (auto simp: dict_map_def split: option.splits)
  then show ?thesis by (simp only: find_slot_present [OF assms])
qed

lemma dict_map_eqI:
  assumes "dict_inv d" and "\<And>k v. (\<exists>i. present (d_key d) i k \<and> d_val d ! i = v) \<longleftrightarrow> m k = Some v"
  shows "dict_map d = m"
proof
  fix k
  have "dict_map d k = Some v \<longleftrightarrow> m k = Some v" for v
    using assms by (simp add: dict_map_iff)
  then show "dict_map d k = m k" by (metis option.exhaust)
qed

lemma dict_map_present:
  assumes "dict_inv d" and "present (d_key d) i k"
  shows "dict_map d k = Some (d_val d ! i)"
  using assms dict_map_iff by blast

lemma dict_map_absent:
  assumes "dict_inv d" and "\<And>i. \<not> present (d_key d) i k"
  shows "dict_map d k = None"
  using assms dict_map_iff by (metis option.exhaust)

lemma dictionary_get_map:
  "dictionary_get d k def = (case dict_map d k of Some v \<Rightarrow> v | None \<Rightarrow> def)"
  by (simp add: dictionary_get_def dict_map_def split: option.split)

section \<open>Each operation keeps the invariant and acts on the map\<close>

lemma dict_inv_new: "dict_inv (dictionary_new sz)"
  by (auto simp: dictionary_new_def dict_inv_def present_def DICTMINSZ_def Let_def)

lemma dict_map_new: "dict_map (dictionary_new sz) = Map.empty"
  by (rule dict_map_eqI [OF dict_inv_new])
     (auto simp: dictionary_new_def present_def Let_def split: if_splits)

lemma grow_arrays_correct:
  assumes "dict_inv d"
  shows "dict_inv (grow_arrays d)" and "dict_map (grow_arrays d) = dict_map d"
    and "d_n (grow_arrays d) < int (d_size (grow_arrays d))"
proof -
  note inv = dict_invD [OF assms]
  have "present (d_key d) i k \<Longrightarrow> mem_double 0 (d_hash d) ! i = dictionary_hash k" for i k
    using inv by (simp add: present_def mem_double_def nth_append)
  moreover have "filter (\<lambda>x. x \<noteq> None) (mem_double None (d_key d)) = filter (\<lambda>x. x \<noteq> None) (d_key d)"
    by (simp add: mem_double_def)
  ultimately show g: "dict_inv (grow_arrays d)"
    unfolding dict_inv_def grow_arrays_def using inv by simp blast
  show "dict_map (grow_arrays d) = dict_map d"
  proof (rule dict_map_eqI [OF g])
    fix k v
    have "present (d_key d) i k \<Longrightarrow> mem_double None (d_val d) ! i = d_val d ! i" for i
      using inv(2,3) by (simp add: present_def mem_double_def nth_append)
    then show "(\<exists>i. present (d_key (grow_arrays d)) i k \<and> d_val (grow_arrays d) ! i = v)
        \<longleftrightarrow> dict_map d k = Some v"
      by (auto simp: dict_map_iff [OF assms] grow_arrays_def)
  qed
  have "d_n d \<le> int (length (d_key d))" using inv(5) by simp
  then show "d_n (grow_arrays d) < int (d_size (grow_arrays d))"
    using inv(1,2) by (simp add: grow_arrays_def)
qed

text \<open>Writing a pair into an empty slot, and writing a value into an occupied one.\<close>

lemma fill_slot_correct:
  fixes v :: "string option"
  assumes inv: "dict_inv d" and i: "i < d_size d" "d_key d ! i = None"
    and fresh: "\<And>j. \<not> present (d_key d) j k"
  defines "d' \<equiv> d\<lparr>d_key := (d_key d)[i := Some k], d_val := (d_val d)[i := v],
                  d_hash := (d_hash d)[i := dictionary_hash k], d_n := d_n d + 1\<rparr>"
  shows "dict_inv d'" and "dict_map d' = (dict_map d)(k \<mapsto> v)"
proof -
  note D = dict_invD [OF inv]
  have p: "present (d_key d') j s \<longleftrightarrow> (if j = i then s = k else present (d_key d) j s)" for j s
    using D(2) i by (auto simp: d'_def)
  have np: "\<not> present (d_key d) i s" for s using i by (simp add: present_def)
  have "d_n d' = int (length (filter (\<lambda>x. x \<noteq> None) (d_key d')))"
    using D(2,5) i length_filter_update [of i "d_key d" "\<lambda>x. x \<noteq> None" "Some k"] by (simp add: d'_def)
  moreover have "present (d_key d') j s \<Longrightarrow> d_hash d' ! j = dictionary_hash s" for j s
    using D i by (auto simp: p d'_def nth_list_update split: if_splits)
  moreover have "present (d_key d') j s \<Longrightarrow> present (d_key d') l s \<Longrightarrow> j = l" for j l s
    using D(7) fresh by (auto simp: p split: if_splits)
  ultimately show inv': "dict_inv d'"
    unfolding dict_inv_def using D(1,2,3,4) by (simp add: d'_def) blast
  show "dict_map d' = (dict_map d)(k \<mapsto> v)"
  proof (rule dict_map_eqI [OF inv'])
    fix s w
    have "d_val d' ! j = (if j = i then v else d_val d ! j)" if "present (d_key d') j s" for j
      using that D(3) i by (simp add: d'_def nth_list_update)
    then show "(\<exists>j. present (d_key d') j s \<and> d_val d' ! j = w) \<longleftrightarrow> ((dict_map d)(k \<mapsto> v)) s = Some w"
      using fresh np dict_map_iff [OF inv, of s w] by (cases "s = k") (auto simp: p, metis+)
  qed
qed

lemma set_value_correct:
  assumes inv: "dict_inv d" and i: "present (d_key d) i k"
  shows "dict_inv (d\<lparr>d_val := (d_val d)[i := v]\<rparr>)"
    and "dict_map (d\<lparr>d_val := (d_val d)[i := v]\<rparr>) = (dict_map d)(k \<mapsto> v)"
proof -
  note D = dict_invD [OF inv]
  show inv': "dict_inv (d\<lparr>d_val := (d_val d)[i := v]\<rparr>)"
    using inv by (simp add: dict_inv_def)
  show "dict_map (d\<lparr>d_val := (d_val d)[i := v]\<rparr>) = (dict_map d)(k \<mapsto> v)"
  proof (rule dict_map_eqI [OF inv'])
    fix s w
    have "i < length (d_val d)" using D(2,3) i by (simp add: present_def)
    moreover have "present (d_key d) j s \<Longrightarrow> j = i \<longleftrightarrow> s = k" for j
      using D(7) i by (auto simp: present_def)
    ultimately show "(\<exists>j. present (d_key (d\<lparr>d_val := (d_val d)[i := v]\<rparr>)) j s
          \<and> d_val (d\<lparr>d_val := (d_val d)[i := v]\<rparr>) ! j = w) \<longleftrightarrow> ((dict_map d)(k \<mapsto> v)) s = Some w"
      using i by (auto simp: dict_map_iff [OF inv] nth_list_update)
  qed
qed

lemma dictionary_add_correct:
  assumes inv: "dict_inv d" and fresh: "\<And>j. \<not> present (d_key d) j k"
    and ok: "d_n d = int (d_size d) \<longrightarrow> mem_ok"
  obtains d' where "dictionary_add mem_ok d k v (dictionary_hash k) = Ret d'"
    and "dict_inv d'" and "dict_map d' = (dict_map d)(k \<mapsto> v)"
proof -
  define e where "e = (if d_n d = int (d_size d) then grow_arrays d else d)"
  have le: "d_n d \<le> int (d_size d)"
    using dict_invD(2,5) [OF inv] length_filter_le [of "\<lambda>x. x \<noteq> None" "d_key d"] by simp
  have e: "dict_inv e" "dict_map e = dict_map d" "d_n e < int (d_size e)" "\<And>j. \<not> present (d_key e) j k"
    using grow_arrays_correct [OF inv] inv fresh le
    by (auto simp: e_def) (auto simp: grow_arrays_def)
  have "None \<in> set (d_key e)"
  proof (rule ccontr)
    assume "None \<notin> set (d_key e)"
    then have "filter (\<lambda>x. x \<noteq> None) (d_key e) = d_key e" by (intro filter_True) metis
    then show False using e(3) dict_invD(2,5) [OF e(1)] by simp
  qed
  then obtain i where i: "find_empty (d_key e) 0 = Some i"
    using find_empty_None by (cases "find_empty (d_key e) 0") blast+
  then have slot: "i < d_size e" "d_key e ! i = None"
    using find_empty_Some [OF i] dict_invD(2) [OF e(1)] by auto
  show thesis
    using fill_slot_correct [OF e(1) slot e(4)] that ok i e(2)
    by (auto simp: dictionary_add_def Let_def simp flip: e_def)
qed

lemma dictionary_set_correct:
  assumes inv: "dict_inv d" and ok: "d_n d = int (d_size d) \<longrightarrow> mem_ok"
  obtains d' where "dictionary_set mem_ok (Some d) (Some k) v = Ret d'"
    and "dict_inv d'" and "dict_map d' = (dict_map d)(k \<mapsto> v)"
proof (cases "\<exists>i. present (d_key d) i k")
  case True
  then obtain i where i: "present (d_key d) i k" by blast
  then have "Some k \<in> set (filter (\<lambda>x. x \<noteq> None) (d_key d))"
    by (auto simp: present_def) (metis nth_mem)
  then have "0 < length (filter (\<lambda>x. x \<noteq> None) (d_key d))" by (rule length_pos_if_in_set)
  then have "d_n d > 0" using dict_invD(5) [OF inv] by simp
  then show thesis
    using that set_value_correct [OF inv i] i find_slot_present [OF inv, of k i]
    by (simp add: dictionary_set_def Let_def)
next
  case False
  then have "find_slot (dictionary_hash k) k (d_key d) (d_hash d) 0 = None"
    using find_slot_present [OF inv, of k] by (metis option.exhaust)
  then have "dictionary_set mem_ok (Some d) (Some k) v = dictionary_add mem_ok d k v (dictionary_hash k)"
    by (simp add: dictionary_set_def Let_def)
  with False show thesis
    using dictionary_add_correct [OF inv _ ok, of k v] that by metis
qed

lemma dictionary_unset_correct:
  assumes inv: "dict_inv d"
  shows "dict_inv (dictionary_unset d (Some k))"
    and "dict_map (dictionary_unset d (Some k)) = (dict_map d)(k := None)"
proof -
  note D = dict_invD [OF inv]
  let ?d = "dictionary_unset d (Some k)"
  have "dict_inv ?d \<and> dict_map ?d = (dict_map d)(k := None)"
  proof (cases "find_slot (dictionary_hash k) k (d_key d) (d_hash d) 0")
    case None
    then show ?thesis using inv by (auto simp: dictionary_unset_def dict_map_def)
  next
    case (Some i)
    then have i: "present (d_key d) i k" using find_slot_present [OF inv] by simp
    then have il: "i < d_size d" "d_key d ! i = Some k" using D(2) by (auto simp: present_def)
    have p: "present (d_key ?d) j s \<longleftrightarrow> j \<noteq> i \<and> present (d_key d) j s" for j s
      using il D(2) by (simp add: dictionary_unset_def Some)
    have "d_n ?d = int (length (filter (\<lambda>x. x \<noteq> None) (d_key ?d)))"
      using D(2,5) il length_filter_update [of i "d_key d" "\<lambda>x. x \<noteq> None" None]
      by (simp add: dictionary_unset_def Some)
    moreover have "present (d_key ?d) j s \<Longrightarrow> d_hash ?d ! j = dictionary_hash s" for j s
      using D(6) by (simp add: p) (simp add: dictionary_unset_def Some)
    moreover have "present (d_key ?d) j s \<Longrightarrow> present (d_key ?d) l s \<Longrightarrow> j = l" for j l s
      using D(7) by (simp add: p) blast
    ultimately have inv': "dict_inv ?d"
      unfolding dict_inv_def using D(1,2,3,4)
      by (simp add: dictionary_unset_def Some) blast
    have "dict_map ?d = (dict_map d)(k := None)"
    proof (rule dict_map_eqI [OF inv'])
      fix s w
      have "d_val ?d ! j = d_val d ! j" if "j \<noteq> i" for j
        using that by (simp add: dictionary_unset_def Some)
      moreover have "present (d_key d) j s \<Longrightarrow> j = i \<longleftrightarrow> s = k" for j
        using D(7) i by (auto simp: present_def)
      ultimately show "(\<exists>j. present (d_key ?d) j s \<and> d_val ?d ! j = w)
          \<longleftrightarrow> ((dict_map d)(k := None)) s = Some w"
        unfolding p by (auto simp: dict_map_iff [OF inv])
    qed
    with inv' show ?thesis by blast
  qed
  then show "dict_inv ?d" and "dict_map ?d = (dict_map d)(k := None)" by blast+
qed

section \<open>The interface of a string dictionary\<close>

text \<open>A sequence of insertions, stopping at the first that does not succeed.\<close>

fun put_all :: "('d \<Rightarrow> string \<Rightarrow> string option \<Rightarrow> ('e, 'd) outcome) \<Rightarrow> 'd \<Rightarrow>
    (string \<times> string option) list \<Rightarrow> ('e, 'd) outcome" where
  "put_all put d [] = Ret d"
| "put_all put d ((k, v) # kvs) =
     (case put d k v of Ret d' \<Rightarrow> put_all put d' kvs | Err e \<Rightarrow> Err e | Undef \<Rightarrow> Undef)"

locale string_dict =
  fixes abs :: "'d \<Rightarrow> string \<rightharpoonup> string option"
    and inv :: "'d \<Rightarrow> bool"
    and get :: "'d \<Rightarrow> string \<Rightarrow> string option \<Rightarrow> string option"
    and put :: "'d \<Rightarrow> string \<Rightarrow> string option \<Rightarrow> ('e, 'd) outcome"
    and del :: "'d \<Rightarrow> string \<Rightarrow> 'd"
  assumes get_abs: "inv d \<Longrightarrow> get d k def = (case abs d k of Some v \<Rightarrow> v | None \<Rightarrow> def)"
    and put_abs: "inv d \<Longrightarrow> \<exists>d'. put d k v = Ret d' \<and> inv d' \<and> abs d' = (abs d)(k \<mapsto> v)"
    and del_abs: "inv d \<Longrightarrow> inv (del d k) \<and> abs (del d k) = (abs d)(k := None)"
begin

lemma put_get:
  "inv d \<Longrightarrow> \<exists>d'. put d k v = Ret d' \<and> inv d' \<and>
     (\<forall>k' def. get d' k' def = (if k' = k then v else get d k' def))"
  using put_abs [of d k v] by (fastforce simp: get_abs)

lemma del_get: "inv d \<Longrightarrow> get (del d k) k' def = (if k' = k then def else get d k' def)"
  using del_abs [of d k] by (simp add: get_abs)

lemma put_all_abs:
  "inv d \<Longrightarrow> \<exists>d'. put_all put d kvs = Ret d' \<and> inv d' \<and> abs d' = abs d ++ map_of (rev kvs)"
proof (induction kvs arbitrary: d)
  case Nil
  then show ?case by simp
next
  case (Cons kv kvs)
  obtain k v where kv: "kv = (k, v)" by fastforce
  obtain d1 where d1: "put d k v = Ret d1" "inv d1" "abs d1 = (abs d)(k \<mapsto> v)"
    using put_abs [OF Cons.prems] by blast
  obtain d2 where "put_all put d1 kvs = Ret d2" "inv d2" "abs d2 = abs d1 ++ map_of (rev kvs)"
    using Cons.IH [OF d1(2)] by blast
  with d1 kv show ?case by (simp add: map_add_assoc [symmetric])
qed

lemma put_all_get:
  assumes "inv d"
  shows "\<exists>d'. put_all put d kvs = Ret d' \<and> inv d' \<and>
     (\<forall>k def. get d' k def = (case map_of (rev kvs) k of Some v \<Rightarrow> v | None \<Rightarrow> get d k def))"
  using put_all_abs [OF assms, of kvs] assms
  by (auto simp: get_abs map_add_def split: option.splits)

end

interpretation dict: string_dict dict_map dict_inv dictionary_get
  "\<lambda>d k. dictionary_set True (Some d) (Some k)" "\<lambda>d k. dictionary_unset d (Some k)"
proof unfold_locales
  show "\<exists>d'. dictionary_set True (Some d) (Some k) v = Ret d' \<and> dict_inv d'
      \<and> dict_map d' = (dict_map d)(k \<mapsto> v)" if "dict_inv d" for d k v
    using dictionary_set_correct [OF that, of True k v] by auto
qed (simp_all add: dictionary_get_map dictionary_unset_correct)

section \<open>Properties\<close>

text \<open>C15. The dictionary is a finite map. In any state that satisfies the invariant, whatever its holes,
  its collisions and its need to grow, \<open>dictionary_set\<close> of a key (with memory to grow) succeeds, keeps
  the invariant, and changes what \<open>dictionary_get\<close> answers for exactly that key.\<close>

theorem dictionary_set_get:
  assumes "dict_inv d"
  shows "\<exists>d'. dictionary_set True (Some d) (Some k) v = Ret d' \<and> dict_inv d' \<and>
     (\<forall>k' def. dictionary_get d' k' def = (if k' = k then v else dictionary_get d k' def))"
  using assms by (rule dict.put_get)

theorem dictionary_set_get_witness:
  "\<exists>d'. dictionary_set True (Some (dictionary_new 0)) (Some ''mode'') (Some ''ubi'') = Ret d' \<and> dict_inv d' \<and>
     (\<forall>k' def. dictionary_get d' k' def =
        (if k' = ''mode'' then Some ''ubi'' else dictionary_get (dictionary_new 0) k' def))"
  by (rule dictionary_set_get) (rule dict_inv_new)

text \<open>Any sequence of \<open>dictionary_set\<close> calls on a fresh dictionary, of any length (the arrays double
  as often as needed), succeeds, and afterwards a key is answered with the value it was last given,
  or with the caller's default when it was never set.\<close>

lemma dictionary_fill:
  "\<exists>d. put_all (\<lambda>d k. dictionary_set True (Some d) (Some k)) (dictionary_new sz) kvs = Ret d
     \<and> (\<forall>k def. dictionary_get d k def = (case map_of (rev kvs) k of Some v \<Rightarrow> v | None \<Rightarrow> def))"
proof -
  have "dictionary_get (dictionary_new sz) k def = def" for k def
    by (simp add: dictionary_get_map dict_map_new)
  then show ?thesis using dict.put_all_get [OF dict_inv_new, of sz kvs]
    by (auto split: option.split)
qed

text \<open>\<open>dictionary_unset\<close> removes exactly one key: afterwards that key is answered with the default
  and every other key as before, and the invariant (in particular the entry count) is kept.\<close>

lemma dictionary_unset_get:
  assumes "dict_inv d"
  shows "dict_inv (dictionary_unset d (Some k)) \<and>
     dictionary_get (dictionary_unset d (Some k)) k' def =
       (if k' = k then def else dictionary_get d k' def)"
  using assms dict.del_get [OF assms] dictionary_unset_correct(1) by simp

text \<open>Setting a key to NULL does not delete it: the key stays present, the lookup answers NULL and
  not the default, and the entry count does not go down, contrary to what the comment above
  \<open>dictionary_set\<close> says.\<close>

lemma dictionary_set_null_keeps_key:
  assumes "dict_inv d"
  shows "\<exists>d'. dictionary_set True (Some d) (Some k) None = Ret d'
     \<and> dictionary_get d' k (Some def) = None \<and> dict_map d' k = Some None \<and> d_n d \<le> d_n d'"
proof -
  obtain d' where d': "dictionary_set True (Some d) (Some k) None = Ret d'"
      "dict_inv d'" "dict_map d' = (dict_map d)(k \<mapsto> None)"
    using dict.put_abs [OF assms, of k None] by blast
  have "d_n d \<le> d_n d'"
    using d'(1) by (auto simp: dictionary_set_def dictionary_add_def grow_arrays_def Let_def
        split: option.splits if_splits)
  with d' show ?thesis by (simp add: dictionary_get_map)
qed

end
