(* ===== verification/IniParser.thy ===== *)
theory IniParser
  imports Dictionary CText
begin

text \<open>
  The ini file parser of \<open>ubinize\<close> (\<open>ubi-utils/libiniparser.c\<close>) on top of the dictionary. A section is a key
  with a NULL value, an entry a key \<open>section:key\<close>. The formats of \<open>sscanf\<close> the parser uses are written out.
  The byte in front of the line buffer, which the parser reads for every blank line, is an argument.
  \<open>iniparser_getdouble\<close> (floating point) and \<open>iniparser_freedict\<close> (memory only) are not modelled.
\<close>

section \<open>Strings\<close>

definition ASCIILINESZ :: nat where "ASCIILINESZ = 1024"

definition strlwc :: "string \<Rightarrow> string" where
  "strlwc s = map tolower (take ASCIILINESZ s)"

definition strstrip :: "string \<Rightarrow> string" where
  "strstrip s = rev (dropWhile isspace (rev (dropWhile isspace s)))"

section \<open>Queries\<close>

definition dict_entries :: "dictionary \<Rightarrow> (string \<times> string option) list" where
  "dict_entries d = concat (map (\<lambda>(k, v). case k of None \<Rightarrow> [] | Some s \<Rightarrow> [(s, v)]) (zip (d_key d) (d_val d)))"

definition section_names :: "dictionary \<Rightarrow> string list" where
  "section_names d = filter (\<lambda>k. CHR '':'' \<notin> set k) (map fst (dict_entries d))"

definition iniparser_getnsec :: "dictionary \<Rightarrow> int" where
  "iniparser_getnsec d = int (length (section_names d))"

definition iniparser_getsecname :: "dictionary \<Rightarrow> int \<Rightarrow> string option" where
  "iniparser_getsecname d n =
     (if n < 0 \<or> int (length (section_names d)) \<le> n then None else Some (section_names d ! nat n))"

definition newline :: string where "newline = [CHR 0x0A]"

definition iniparser_dump :: "dictionary \<Rightarrow> string" where
  "iniparser_dump d =
     concat (map (\<lambda>(k, v). ''['' @ k @ '']='' @ (case v of Some s \<Rightarrow> ''['' @ s @ '']'' | None \<Rightarrow> ''UNDEF'') @ newline)
       (dict_entries d))"

text \<open>The key left-justified in thirty columns, as \<open>%-30s\<close> prints it.\<close>

definition pad30 :: "string \<Rightarrow> string" where
  "pad30 s = s @ replicate (30 - length s) CHR '' ''"

text \<open>\<open>keym\<close> has room for a section name of 1023 characters; names that the parser read from a line are shorter.\<close>

definition dump_key :: "string \<Rightarrow> string \<times> string option \<Rightarrow> string" where
  "dump_key sec kv =
     (let (k, v) = kv; keym = sec @ '':'' in
      if take (length sec + 1) k = keym
      then pad30 (drop (length sec + 1) k) @ '' = '' @ (case v of Some s \<Rightarrow> s | None \<Rightarrow> []) @ newline
      else [])"

definition dump_section :: "dictionary \<Rightarrow> string \<Rightarrow> string" where
  "dump_section d sec = newline @ ''['' @ sec @ '']'' @ newline @ concat (map (dump_key sec) (dict_entries d))"

text \<open>A NULL value is printed as \<open>(null)\<close> by the C library where the code passes it to \<open>%s\<close>.\<close>

definition iniparser_dump_ini :: "dictionary \<Rightarrow> string" where
  "iniparser_dump_ini d =
     (if iniparser_getnsec d < 1
      then concat (map (\<lambda>(k, v). k @ '' = '' @ (case v of Some s \<Rightarrow> s | None \<Rightarrow> ''(null)'') @ newline) (dict_entries d))
      else concat (map (\<lambda>i. dump_section d (the (iniparser_getsecname d i))) [0 .. iniparser_getnsec d - 1]) @ newline)"

definition iniparser_getstring :: "dictionary \<Rightarrow> string \<Rightarrow> string option \<Rightarrow> string option" where
  "iniparser_getstring d key def = dictionary_get d (strlwc key) def"

text \<open>The same with the invalid pointer as the default: \<open>None\<close> for a missing key, \<open>Some None\<close> for NULL.\<close>

definition getstring_or_invalid :: "dictionary \<Rightarrow> string \<Rightarrow> string option option" where
  "getstring_or_invalid d key =
     (case find_slot (dictionary_hash (strlwc key)) (strlwc key) (d_key d) (d_hash d) 0 of
        Some i \<Rightarrow> Some (d_val d ! i) | None \<Rightarrow> None)"

definition iniparser_getint :: "dictionary \<Rightarrow> string \<Rightarrow> int \<Rightarrow> (unit, int) outcome" where
  "iniparser_getint d key notfound =
     (case getstring_or_invalid d key of
        None \<Rightarrow> Ret notfound
      | Some None \<Rightarrow> Undef
      | Some (Some s) \<Rightarrow> Ret (case strtol 0 s of Some (v, _) \<Rightarrow> to_int32 v | None \<Rightarrow> 0))"

definition iniparser_getboolean :: "dictionary \<Rightarrow> string \<Rightarrow> int \<Rightarrow> (unit, int) outcome" where
  "iniparser_getboolean d key notfound =
     (case getstring_or_invalid d key of
        None \<Rightarrow> Ret notfound
      | Some None \<Rightarrow> Undef
      | Some (Some c) \<Rightarrow>
          Ret (if c \<noteq> [] \<and> hd c \<in> set ''yY1tT'' then 1 else if c \<noteq> [] \<and> hd c \<in> set ''nN0fF'' then 0 else notfound))"

definition iniparser_find_entry :: "dictionary \<Rightarrow> string \<Rightarrow> bool" where
  "iniparser_find_entry d entry = (getstring_or_invalid d entry \<noteq> None)"

definition iniparser_set :: "bool \<Rightarrow> dictionary \<Rightarrow> string \<Rightarrow> string option \<Rightarrow> (dict_error, dictionary) outcome" where
  "iniparser_set mem_ok d entry v = dictionary_set mem_ok (Some d) (Some (strlwc entry)) v"

definition iniparser_unset :: "dictionary \<Rightarrow> string \<Rightarrow> dictionary" where
  "iniparser_unset d entry = dictionary_unset d (Some (strlwc entry))"

section \<open>A line\<close>

datatype line_status = LINE_ERROR | LINE_EMPTY | LINE_COMMENT | LINE_SECTION string | LINE_VALUE string string

text \<open>\<open>[%[^]]\<close>: an empty name leaves the buffer with the previous section.\<close>

definition scan_section :: "string \<Rightarrow> string \<Rightarrow> string" where
  "scan_section line old =
     (let name = takeWhile (\<lambda>c. c \<noteq> CHR '']'') (tl line) in if name = [] then old else name)"

text \<open>A quoted value: \<open>%[^=] = "%[^"]"\<close> and the same with single quotes, from the text behind the equals sign.\<close>

definition scan_quoted :: "char \<Rightarrow> string \<Rightarrow> string option" where
  "scan_quoted q r =
     (let r = dropWhile isspace r in
      if r = [] \<or> hd r \<noteq> q then None
      else let v = takeWhile (\<lambda>c. c \<noteq> q) (tl r) in if v = [] then None else Some v)"

text \<open>\<open>%[^=] = %[^;#]\<close>.\<close>

definition scan_plain :: "string \<Rightarrow> string option" where
  "scan_plain r =
     (let v = takeWhile (\<lambda>c. c \<noteq> CHR '';'' \<and> c \<noteq> CHR ''#'') (dropWhile isspace r) in if v = [] then None else Some v)"

definition first_some :: "'a option \<Rightarrow> 'a option \<Rightarrow> 'a option" where
  "first_some a b = (case a of Some x \<Rightarrow> Some x | None \<Rightarrow> b)"

text \<open>With a key and an equals sign one of the formats always matches: the last two cover an empty value
  and a comment in its place.\<close>

definition iniparser_line :: "string \<Rightarrow> string \<Rightarrow> line_status" where
  "iniparser_line input_line old_section =
     (let line = strstrip input_line in
      if line = [] then LINE_EMPTY
      else if hd line = CHR ''#'' then LINE_COMMENT
      else if hd line = CHR ''['' \<and> last line = CHR '']'' then
        LINE_SECTION (strlwc (strstrip (scan_section line old_section)))
      else
        (let key = takeWhile (\<lambda>c. c \<noteq> CHR ''='') line; r = dropWhile (\<lambda>c. c \<noteq> CHR ''='') line in
         if key = [] \<or> r = [] then LINE_ERROR
         else
           (let k = strlwc (strstrip key) in
            case first_some (scan_quoted CHR 0x22 (tl r)) (first_some (scan_quoted CHR 0x27 (tl r)) (scan_plain (tl r))) of
              Some v \<Rightarrow>
                (let v = strstrip v in
                 LINE_VALUE k (if v = [CHR 0x22, CHR 0x22] \<or> v = [CHR 0x27, CHR 0x27] then [] else v))
            | None \<Rightarrow> LINE_VALUE k [])))"

section \<open>A file\<close>

datatype ini_error = Cannot_open | Line_too_long | Syntax_error | No_memory

record ini_state =
  is_dict :: dictionary
  is_section :: string
  is_errs :: int

definition ini_set :: "bool \<Rightarrow> string \<Rightarrow> string option \<Rightarrow> ini_state \<Rightarrow> (ini_error, ini_state) outcome" where
  "ini_set mem_ok k v st =
     (case dictionary_set mem_ok (Some (is_dict st)) (Some k) v of
        Ret d \<Rightarrow> Ret (st\<lparr>is_dict := d, is_errs := 0\<rparr>)
      | Err _ \<Rightarrow> Ret (st\<lparr>is_errs := - 1\<rparr>)
      | Undef \<Rightarrow> Undef)"

text \<open>The buffer \<open>tmp\<close> has 1025 bytes.\<close>

definition load_line :: "bool \<Rightarrow> string \<Rightarrow> ini_state \<Rightarrow> (ini_error, ini_state) outcome" where
  "load_line mem_ok line st =
     (case iniparser_line line (is_section st) of
        LINE_EMPTY \<Rightarrow> Ret st
      | LINE_COMMENT \<Rightarrow> Ret st
      | LINE_SECTION sec \<Rightarrow> ini_set mem_ok sec None (st\<lparr>is_section := sec\<rparr>)
      | LINE_VALUE k v \<Rightarrow>
          if length (is_section st) + 1 + length k > ASCIILINESZ then Undef
          else ini_set mem_ok (is_section st @ '':'' @ k) (Some v) st
      | LINE_ERROR \<Rightarrow> Ret (st\<lparr>is_errs := is_errs st + 1\<rparr>))"

text \<open>\<open>pre\<close> is what a continued line has collected. The character at the end of an empty line is \<open>before\<close>, the
  one in front of the buffer. A full buffer makes \<open>fgets\<close> deliver nothing, and the line is too long.\<close>

definition end_char :: "char \<Rightarrow> string \<Rightarrow> char" where
  "end_char before s = (if s = [] then before else last s)"

definition trim_end :: "string \<Rightarrow> string" where
  "trim_end s = rev (dropWhile isspace (rev s))"

function load_lines :: "bool \<Rightarrow> char \<Rightarrow> string \<Rightarrow> string \<Rightarrow> ini_state \<Rightarrow> (ini_error, ini_state) outcome" where
  "load_lines mem_ok before pre f st =
     (if f = [] then Ret st
      else if ASCIILINESZ - 1 \<le> length pre then Err Line_too_long
      else
        (let (chunk, rest) = fgets (ASCIILINESZ - 1 - length pre) f;
             line = takeWhile (\<lambda>c. c \<noteq> CHR 0x00) (pre @ chunk)
         in if end_char before line \<noteq> CHR 0x0A then Err Line_too_long
            else
              (let line = trim_end line in
               if end_char before line = CHR 0x5C then
                 (if line = [] then Undef else load_lines mem_ok before (butlast line) rest st)
               else
                 (case load_line mem_ok line st of
                    Ret st' \<Rightarrow> if is_errs st' < 0 then Ret st' else load_lines mem_ok before [] rest st'
                  | Err e \<Rightarrow> Err e
                  | Undef \<Rightarrow> Undef))))"
  by pat_completeness auto
termination
  by (relation "measure (\<lambda>(m, b, p, f, st). length f)") (auto simp: fgets_def ASCIILINESZ_def Let_def)

declare load_lines.simps [simp del]

definition iniparser_load :: "bool \<Rightarrow> char \<Rightarrow> string option \<Rightarrow> (ini_error, dictionary) outcome" where
  "iniparser_load mem_ok before file =
     (case file of
        None \<Rightarrow> Err Cannot_open
      | Some f \<Rightarrow>
          (case load_lines mem_ok before [] f \<lparr>is_dict = dictionary_new 0, is_section = [], is_errs = 0\<rparr> of
             Ret st \<Rightarrow> if is_errs st < 0 then Err No_memory else if is_errs st \<noteq> 0 then Err Syntax_error else Ret (is_dict st)
           | Err e \<Rightarrow> Err e
           | Undef \<Rightarrow> Undef))"

section \<open>Saving and loading\<close>

definition ini_word :: "string \<Rightarrow> string \<Rightarrow> bool" where
  "ini_word bad s \<longleftrightarrow> s \<noteq> [] \<and> \<not> isspace (hd s) \<and> \<not> isspace (last s) \<and>
     list_all (\<lambda>c. c \<noteq> CHR 0x00 \<and> c \<noteq> CHR 0x0A \<and> c \<notin> set bad) s"

definition lower :: "string \<Rightarrow> bool" where "lower s \<longleftrightarrow> list_all (\<lambda>c. tolower c = c) s"

definition sec_ok :: "string \<Rightarrow> bool" where
  "sec_ok s \<longleftrightarrow> ini_word '':]'' s \<and> lower s \<and> length s \<le> 1020"

definition key_ok :: "string \<Rightarrow> bool" where
  "key_ok s \<longleftrightarrow> ini_word ''='' s \<and> lower s \<and> hd s \<noteq> CHR ''#'' \<and> hd s \<noteq> CHR ''['' \<and> length s \<le> 1019"

definition val_ok :: "string \<Rightarrow> bool" where
  "val_ok v \<longleftrightarrow> v = [] \<or> ini_word '';#'' v \<and> hd v \<noteq> CHR 0x22 \<and> hd v \<noteq> CHR 0x27 \<and> last v \<noteq> CHR 0x5C"

text \<open>An entry the text form can hold: a section, or a key of a section of the dictionary whose line fits.\<close>

definition ini_entry_ok :: "dictionary \<Rightarrow> string \<times> string option \<Rightarrow> bool" where
  "ini_entry_ok d kv =
     (let (k, v) = kv; s = takeWhile (\<lambda>c. c \<noteq> CHR '':'') k; key = drop (length s + 1) k in
      case v of
        None \<Rightarrow> sec_ok k
      | Some t \<Rightarrow> CHR '':'' \<in> set k \<and> (s, None) \<in> set (dict_entries d) \<and> key_ok key \<and> val_ok t \<and>
          length (pad30 key) + 3 + length t \<le> 1022 \<and> length k \<le> 1024)"

definition ini_ok :: "dictionary \<Rightarrow> bool" where
  "ini_ok d \<longleftrightarrow> dict_inv d \<and> list_all (ini_entry_ok d) (dict_entries d)"

lemma isspace_literals: "isspace CHR 0x0A" "isspace CHR '' ''" "\<not> isspace CHR ''[''" "\<not> isspace CHR '']''" "\<not> isspace CHR ''=''"
  "\<not> isspace CHR 0x5C"
  by (simp_all add: isspace_def)

lemma dropWhile_hd: "s = [] \<or> \<not> P (hd s) \<Longrightarrow> dropWhile P s = s"
  by (cases s) auto

lemma trim_end_id: "s = [] \<or> \<not> isspace (last s) \<Longrightarrow> trim_end s = s"
  by (cases s rule: rev_cases) (auto simp: trim_end_def)

lemma trim_end_spaces: "list_all isspace t \<Longrightarrow> trim_end (s @ t) = trim_end s"
  unfolding trim_end_def rev_append by (subst dropWhile_append2) (auto simp: list_all_iff)

lemma strstrip_trim: "s = [] \<or> \<not> isspace (hd s) \<Longrightarrow> strstrip s = trim_end s"
  by (simp add: strstrip_def trim_end_def dropWhile_hd)

lemma strstrip_pad:
  assumes "ini_word bad k"
  shows "strstrip (pad30 k) = k" and "strstrip k = k"
proof -
  have "trim_end (pad30 k) = trim_end k"
    unfolding pad30_def by (rule trim_end_spaces) (simp add: list_all_iff isspace_literals)
  then show "strstrip (pad30 k) = k" "strstrip k = k"
    using assms by (simp_all add: strstrip_trim ini_word_def pad30_def trim_end_id)
qed

lemma strlwc_lower: "lower s \<Longrightarrow> length s \<le> 1024 \<Longrightarrow> strlwc s = s"
  by (simp add: strlwc_def lower_def list_all_iff ASCIILINESZ_def map_idI)

lemma takeWhile_until: "list_all P s \<Longrightarrow> r = [] \<or> \<not> P (hd r) \<Longrightarrow> takeWhile P (s @ r) = s \<and> dropWhile P (s @ r) = r"
  by (induction s) (auto simp: dropWhile_hd takeWhile_eq_Nil_iff)

lemma section_line:
  assumes "sec_ok s"
  shows "iniparser_line (''['' @ s @ '']'') old = LINE_SECTION s"
proof -
  define line where "line = ''['' @ s @ '']''"
  have s: "ini_word '':]'' s" "lower s" "length s \<le> 1020" using assms by (simp_all add: sec_ok_def)
  have strip: "strstrip line = line"
    by (simp add: line_def strstrip_trim trim_end_id isspace_literals)
  have "list_all (\<lambda>c. c \<noteq> CHR '']'') s" using s(1) by (simp add: ini_word_def list_all_iff)
  then have "takeWhile (\<lambda>c. c \<noteq> CHR '']'') (s @ '']'') = s" using takeWhile_until [of _ s "'']''"] by simp
  then have scan: "scan_section line old = s" using s(1) by (simp add: scan_section_def ini_word_def line_def)
  have "line \<noteq> []" "hd line = CHR ''[''" "last line = CHR '']''" by (simp_all add: line_def)
  then have "iniparser_line line old = LINE_SECTION s" using strstrip_pad(2) [OF s(1)] strlwc_lower [OF s(2)] s(3)
    unfolding iniparser_line_def Let_def strip scan by simp
  then show ?thesis by (simp add: line_def)
qed

lemma value_line:
  assumes "key_ok k" and "val_ok v"
  shows "iniparser_line (trim_end (pad30 k @ '' = '' @ v)) old = LINE_VALUE k v"
    and "trim_end (pad30 k @ '' = '' @ v) \<noteq> []" and "last (trim_end (pad30 k @ '' = '' @ v)) \<noteq> CHR 0x5C"
proof -
  have k: "ini_word ''='' k" "lower k" "length k \<le> 1019" "hd k \<noteq> CHR ''#''" "hd k \<noteq> CHR ''[''" using assms by (auto simp: key_ok_def)
  define line where "line = trim_end (pad30 k @ '' = '' @ v)"
  define r where "r = (if v = [] then [] else '' '' @ v)"
  have line: "line = (pad30 k @ '' '') @ ''='' @ r"
  proof (cases "v = []")
    case True
    have "trim_end ((pad30 k @ '' ='') @ '' '') = trim_end (pad30 k @ '' ='')"
      by (rule trim_end_spaces) (simp add: isspace_literals)
    then show ?thesis using True by (simp add: line_def r_def trim_end_id isspace_literals)
  next
    case False
    then show ?thesis using assms(2) by (simp add: line_def r_def trim_end_id val_ok_def ini_word_def)
  qed
  have pad: "list_all (\<lambda>c. c \<noteq> CHR ''='') (pad30 k @ '' '')"
  proof -
    have "list_all (\<lambda>c. c \<noteq> CHR ''='') k" using k(1) by (simp add: ini_word_def list_all_iff)
    moreover have "list_all (\<lambda>c. c \<noteq> CHR ''='') (replicate n CHR '' '')" for n by (simp add: list_all_iff)
    ultimately show ?thesis by (simp add: pad30_def)
  qed
  note split = takeWhile_until [OF pad, of "''='' @ r"]
  have hd: "hd line = hd k" "line \<noteq> []" using k(1) by (auto simp: line pad30_def ini_word_def)
  have last: "\<not> isspace (last line)" "last line \<noteq> CHR 0x5C"
    using assms(2) by (cases "v = []"; simp add: line r_def val_ok_def ini_word_def isspace_literals)+
  have strip: "strstrip line = line" using hd last k(1) by (simp add: strstrip_trim trim_end_id ini_word_def)
  have "trim_end ((pad30 k) @ '' '') = trim_end (pad30 k)" by (rule trim_end_spaces) (simp add: isspace_literals)
  then have key: "strstrip (pad30 k @ '' '') = k"
    using strstrip_pad(1) [OF k(1)] k(1) by (simp add: strstrip_trim pad30_def ini_word_def)
  have val: "first_some (scan_quoted CHR 0x22 r) (first_some (scan_quoted CHR 0x27 r) (scan_plain r)) =
      (if v = [] then None else Some v)"
  proof (cases "v = []")
    case True
    then show ?thesis by (simp add: r_def first_some_def scan_quoted_def scan_plain_def)
  next
    case False
    then have v: "ini_word '';#'' v" "hd v \<noteq> CHR 0x22" "hd v \<noteq> CHR 0x27" using assms(2) by (simp_all add: val_ok_def)
    have "dropWhile isspace r = v" using False v(1) by (simp add: r_def isspace_literals dropWhile_hd ini_word_def)
    moreover have "list_all (\<lambda>c. c \<noteq> CHR '';'' \<and> c \<noteq> CHR ''#'') v" using v(1) by (simp add: ini_word_def list_all_iff)
    then have "takeWhile (\<lambda>c. c \<noteq> CHR '';'' \<and> c \<noteq> CHR ''#'') v = v" by (simp add: list_all_iff takeWhile_eq_all_conv)
    ultimately show ?thesis using False v
      unfolding first_some_def scan_quoted_def scan_plain_def Let_def by (simp only: if_True if_False simp_thms option.case)
  qed
  have vstrip: "v \<noteq> [] \<Longrightarrow> strstrip v = v" using strstrip_pad(2) assms(2) by (auto simp: val_ok_def)
  have nq: "v \<noteq> [CHR 0x22, CHR 0x22]" "v \<noteq> [CHR 0x27, CHR 0x27]" using assms(2) by (fastforce simp: val_ok_def)+
  have tw: "takeWhile (\<lambda>c. c \<noteq> CHR ''='') line = pad30 k @ '' ''" "dropWhile (\<lambda>c. c \<noteq> CHR ''='') line = ''='' @ r"
    using split unfolding line by simp_all
  have h: "hd line \<noteq> CHR ''#''" "\<not> (hd line = CHR ''['' \<and> last line = CHR '']'')" using k hd by simp_all
  have lw: "strlwc k = k" using strlwc_lower [OF k(2)] k(3) by simp
  have "iniparser_line line old = LINE_VALUE k v"
    using h hd(2) nq vstrip
    unfolding iniparser_line_def Let_def strip tw key lw list.sel append.simps val by simp
  then show "iniparser_line (trim_end (pad30 k @ '' = '' @ v)) old = LINE_VALUE k v" by (simp add: line_def)
  show "trim_end (pad30 k @ '' = '' @ v) \<noteq> []" "last (trim_end (pad30 k @ '' = '' @ v)) \<noteq> CHR 0x5C"
    using hd last by (simp_all add: line_def)
qed

subsection \<open>Lines of the file\<close>

lemma load_lines_line:
  assumes "CHR 0x0A \<notin> set l" and "CHR 0x00 \<notin> set l" and "length l \<le> 1022"
    and "end_char before (trim_end l) \<noteq> CHR 0x5C"
  shows "load_lines mem_ok before [] (l @ CHR 0x0A # rest) st =
    (case load_line mem_ok (trim_end l) st of
       Ret st' \<Rightarrow> if is_errs st' < 0 then Ret st' else load_lines mem_ok before [] rest st'
     | Err e \<Rightarrow> Err e
     | Undef \<Rightarrow> Undef)"
proof -
  have "takeWhile (\<lambda>c. c \<noteq> CHR 0x0A) (l @ CHR 0x0A # rest) = l"
    using assms(1) by (induction l) auto
  then have fg: "fgets (ASCIILINESZ - 1 - length ([] :: string)) (l @ CHR 0x0A # rest) = (l @ [CHR 0x0A], rest)"
    using assms(3) by (simp add: fgets_def ASCIILINESZ_def Let_def)
  have nul: "takeWhile (\<lambda>c. c \<noteq> CHR 0x00) ([] @ l @ [CHR 0x0A]) = l @ [CHR 0x0A]"
    using assms(2) by (simp add: takeWhile_eq_all_conv) metis
  have ends: "end_char before (l @ [CHR 0x0A]) = CHR 0x0A" by (simp add: end_char_def)
  have trim: "trim_end (l @ [CHR 0x0A]) = trim_end l" by (rule trim_end_spaces) (simp add: isspace_literals)
  have ne: "l @ CHR 0x0A # rest \<noteq> []" "\<not> ASCIILINESZ - 1 \<le> length ([] :: string)" by (simp_all add: ASCIILINESZ_def)
  show ?thesis
    by (subst load_lines.simps)
      (use assms(4) ne in \<open>simp only: fg prod.case Let_def nul ends trim if_False simp_thms\<close>)
qed

text \<open>What loading has built so far.\<close>

definition ini_rel :: "(string \<rightharpoonup> string option) \<Rightarrow> string \<Rightarrow> ini_state \<Rightarrow> bool" where
  "ini_rel m sec st \<longleftrightarrow> dict_inv (is_dict st) \<and> dict_map (is_dict st) = m \<and> is_section st = sec \<and> is_errs st = 0"

lemma ini_set_rel:
  assumes "dict_inv (is_dict st)" and "dict_map (is_dict st) = m" and "is_section st = sec"
  shows "\<exists>st'. ini_set True k v st = Ret st' \<and> ini_rel (m(k \<mapsto> v)) sec st'"
proof -
  obtain d where d: "dictionary_set True (Some (is_dict st)) (Some k) v = Ret d" "dict_inv d"
      "dict_map d = (dict_map (is_dict st))(k \<mapsto> v)"
    using dict.put_abs [OF assms(1)] by blast
  then show ?thesis using assms by (simp add: ini_set_def ini_rel_def)
qed

lemma load_section_line:
  assumes "ini_rel m old st" and "sec_ok sec"
  shows "\<exists>st'. ini_rel (m(sec \<mapsto> None)) sec st' \<and>
    load_lines True before [] ((''['' @ sec @ '']'') @ CHR 0x0A # rest) st = load_lines True before [] rest st'"
proof -
  define l where "l = ''['' @ sec @ '']''"
  have chars: "CHR 0x0A \<notin> set l" "CHR 0x00 \<notin> set l" "length l \<le> 1022"
    using assms(2) by (auto simp: l_def sec_ok_def ini_word_def list_all_iff)
  have trim: "trim_end l = l" by (rule trim_end_id) (simp add: l_def isspace_literals)
  have ends: "end_char before (trim_end l) \<noteq> CHR 0x5C" unfolding trim by (simp add: end_char_def l_def)
  obtain st' where st': "ini_set True sec None (st\<lparr>is_section := sec\<rparr>) = Ret st'" "ini_rel (m(sec \<mapsto> None)) sec st'"
    using ini_set_rel [of "st\<lparr>is_section := sec\<rparr>" m sec sec None] assms(1) by (auto simp: ini_rel_def)
  have "load_line True l st = Ret st'"
    using st'(1) section_line [OF assms(2)] by (simp add: load_line_def l_def)
  then have "load_lines True before [] (l @ CHR 0x0A # rest) st = load_lines True before [] rest st'"
    using load_lines_line [OF chars ends, of True rest st] st'(2) by (simp add: trim ini_rel_def)
  then show ?thesis using st'(2) by (auto simp: l_def)
qed

lemma load_value_line:
  assumes "ini_rel m sec st" and "key_ok k" and "val_ok v"
    and "length (pad30 k) + 3 + length v \<le> 1022" and "length sec + 1 + length k \<le> 1024"
  shows "\<exists>st'. ini_rel (m(sec @ '':'' @ k \<mapsto> Some v)) sec st' \<and>
    load_lines True before [] ((pad30 k @ '' = '' @ v) @ CHR 0x0A # rest) st = load_lines True before [] rest st'"
proof -
  define l where "l = pad30 k @ '' = '' @ v"
  have "list_all (\<lambda>c. c \<noteq> CHR 0x00 \<and> c \<noteq> CHR 0x0A) k" using assms(2) by (simp add: key_ok_def ini_word_def list_all_iff)
  moreover have "list_all (\<lambda>c. c \<noteq> CHR 0x00 \<and> c \<noteq> CHR 0x0A) v"
    using assms(3) by (cases "v = []") (simp_all add: val_ok_def ini_word_def list_all_iff)
  moreover have "list_all (\<lambda>c. c \<noteq> CHR 0x00 \<and> c \<noteq> CHR 0x0A) (replicate n CHR '' '')" for n by (simp add: list_all_iff)
  ultimately have "list_all (\<lambda>c. c \<noteq> CHR 0x00 \<and> c \<noteq> CHR 0x0A) l" by (simp add: l_def pad30_def)
  then have chars: "CHR 0x0A \<notin> set l" "CHR 0x00 \<notin> set l" unfolding list_all_iff by blast+
  have len: "length l \<le> 1022" using assms(4) by (simp add: l_def)
  note vl = value_line [OF assms(2,3), folded l_def]
  have ends: "end_char before (trim_end l) \<noteq> CHR 0x5C" using vl(2,3) by (simp add: end_char_def)
  have sec: "is_section st = sec" using assms(1) by (simp add: ini_rel_def)
  obtain st' where st': "ini_set True (sec @ '':'' @ k) (Some v) st = Ret st'" "ini_rel (m(sec @ '':'' @ k \<mapsto> Some v)) sec st'"
    using ini_set_rel [of st m sec "sec @ '':'' @ k" "Some v"] assms(1) by (auto simp: ini_rel_def)
  have "load_line True (trim_end l) st = Ret st'"
    using st'(1) vl(1) assms(5) sec by (simp add: load_line_def ASCIILINESZ_def)
  then have "load_lines True before [] (l @ CHR 0x0A # rest) st = load_lines True before [] rest st'"
    using load_lines_line [OF chars len ends, of True rest st] st'(2) by (simp add: ini_rel_def)
  then show ?thesis using st'(2) by (auto simp: l_def)
qed

lemma load_blank_line:
  assumes "before \<noteq> CHR 0x5C" and "is_errs st = 0"
  shows "load_lines True before [] (CHR 0x0A # rest) st = load_lines True before [] rest st"
proof -
  have "end_char before (trim_end []) \<noteq> CHR 0x5C" using assms(1) by (simp add: trim_end_def end_char_def)
  then show ?thesis using load_lines_line [of "[]" before True rest st] assms(2)
    by (simp add: trim_end_def load_line_def iniparser_line_def strstrip_def)
qed

subsection \<open>The whole dictionary\<close>

lemma dict_entries_iff:
  assumes "dict_inv d"
  shows "(k, v) \<in> set (dict_entries d) \<longleftrightarrow> dict_map d k = Some v"
proof -
  have len: "length (d_key d) = length (d_val d)" using dict_invD [OF assms] by simp
  have "(k, v) \<in> set (dict_entries d) \<longleftrightarrow> (Some k, v) \<in> set (zip (d_key d) (d_val d))"
    by (force simp: dict_entries_def split: option.splits)
  also have "\<dots> \<longleftrightarrow> (\<exists>i. present (d_key d) i k \<and> d_val d ! i = v)"
    using len by (auto simp: in_set_zip present_def)
  also have "\<dots> \<longleftrightarrow> dict_map d k = Some v" using dict_map_iff [OF assms] by simp
  finally show ?thesis .
qed

definition in_section :: "string \<Rightarrow> string \<times> string option \<Rightarrow> bool" where
  "in_section sec kv \<longleftrightarrow> take (length sec + 1) (fst kv) = sec @ '':''"

lemma in_section_split:
  assumes "ini_entry_ok d (k, v)" and "in_section sec (k, v)" and "sec_ok sec"
  shows "\<exists>key t. v = Some t \<and> k = sec @ '':'' @ key \<and> key_ok key \<and> val_ok t \<and>
    length (pad30 key) + 3 + length t \<le> 1022 \<and> length k \<le> 1024"
proof -
  have k: "k = sec @ '':'' @ drop (length sec + 1) k"
    using assms(2) append_take_drop_id [of "length sec + 1" k] by (simp add: in_section_def)
  have sec: "list_all (\<lambda>c. c \<noteq> CHR '':'') sec" using assms(3) by (simp add: sec_ok_def ini_word_def list_all_iff)
  have pre: "takeWhile (\<lambda>c. c \<noteq> CHR '':'') k = sec"
    by (subst k) (use takeWhile_until [OF sec, of "'':'' @ drop (length sec + 1) k"] in simp)
  have colon: "CHR '':'' \<in> set k" by (subst k) simp
  obtain t where "v = Some t"
  proof (cases v)
    case None
    then have "CHR '':'' \<notin> set k" using assms(1) by (auto simp: ini_entry_ok_def sec_ok_def ini_word_def list_all_iff)
    then show ?thesis using colon by simp
  qed
  then show ?thesis using assms(1) pre k by (auto simp: ini_entry_ok_def Let_def)
qed

lemma load_keys:
  assumes "ini_rel m sec st" and "sec_ok sec" and "list_all (ini_entry_ok d) es"
  shows "\<exists>st'. ini_rel (m ++ map_of (rev (filter (in_section sec) es))) sec st' \<and>
    load_lines True before [] (concat (map (dump_key sec) es) @ rest) st = load_lines True before [] rest st'"
  using assms
proof (induction es arbitrary: m st)
  case Nil
  then show ?case by auto
next
  case (Cons e es)
  obtain k v where e: "e = (k, v)" by fastforce
  show ?case
  proof (cases "in_section sec (k, v)")
    case True
    have "ini_entry_ok d (k, v)" using Cons.prems(3) e by simp
    then obtain key t where kt: "v = Some t" "k = sec @ '':'' @ key" "key_ok key" "val_ok t"
        "length (pad30 key) + 3 + length t \<le> 1022" "length k \<le> 1024"
      using in_section_split [OF _ True Cons.prems(2)] by blast
    have line: "dump_key sec e = (pad30 key @ '' = '' @ t) @ [CHR 0x0A]"
      using kt(1,2) by (simp add: dump_key_def e newline_def)
    have es: "list_all (ini_entry_ok d) es" using Cons.prems(3) by simp
    obtain st1 where st1: "ini_rel (m(k \<mapsto> v)) sec st1"
        "load_lines True before [] (dump_key sec e @ concat (map (dump_key sec) es) @ rest) st =
         load_lines True before [] (concat (map (dump_key sec) es) @ rest) st1"
      using load_value_line [OF Cons.prems(1) kt(3,4,5), of before "concat (map (dump_key sec) es) @ rest"] kt
      by (auto simp: line)
    obtain st' where "ini_rel (m(k \<mapsto> v) ++ map_of (rev (filter (in_section sec) es))) sec st'"
        "load_lines True before [] (concat (map (dump_key sec) es) @ rest) st1 = load_lines True before [] rest st'"
      using Cons.IH [OF st1(1) Cons.prems(2) es] by blast
    then show ?thesis using st1(2) True e by (auto simp: map_add_assoc [symmetric])
  next
    case False
    then have "dump_key sec e = []" by (simp add: dump_key_def e in_section_def)
    then show ?thesis using Cons.IH [OF Cons.prems(1,2)] Cons.prems(3) False e by simp
  qed
qed

definition section_entries :: "dictionary \<Rightarrow> string \<Rightarrow> (string \<times> string option) list" where
  "section_entries d sec = (sec, None) # filter (in_section sec) (dict_entries d)"

lemma load_section:
  assumes "ini_rel m old st" and "sec_ok sec" and "list_all (ini_entry_ok d) (dict_entries d)" and "before \<noteq> CHR 0x5C"
  shows "\<exists>st'. ini_rel (m ++ map_of (rev (section_entries d sec))) sec st' \<and>
    load_lines True before [] (dump_section d sec @ rest) st = load_lines True before [] rest st'"
proof -
  let ?body = "concat (map (dump_key sec) (dict_entries d)) @ rest"
  have "load_lines True before [] (dump_section d sec @ rest) st =
      load_lines True before [] ((''['' @ sec @ '']'') @ CHR 0x0A # ?body) st"
    using load_blank_line [OF assms(4)] assms(1) by (simp add: dump_section_def newline_def ini_rel_def)
  moreover obtain st1 where "ini_rel (m(sec \<mapsto> None)) sec st1"
      "load_lines True before [] ((''['' @ sec @ '']'') @ CHR 0x0A # ?body) st = load_lines True before [] ?body st1"
    using load_section_line [OF assms(1,2)] by blast
  moreover obtain st' where "ini_rel (m(sec \<mapsto> None) ++ map_of (rev (filter (in_section sec) (dict_entries d)))) sec st'"
      "load_lines True before [] ?body st1 = load_lines True before [] rest st'"
    using load_keys [OF calculation(2) assms(2,3)] by blast
  ultimately show ?thesis by (auto simp: section_entries_def map_add_assoc [symmetric])
qed

lemma load_sections:
  assumes "ini_rel m old st" and "list_all sec_ok ss" and "list_all (ini_entry_ok d) (dict_entries d)" and "before \<noteq> CHR 0x5C"
  shows "\<exists>sec st'. ini_rel (m ++ map_of (rev (concat (map (section_entries d) ss)))) sec st' \<and>
    load_lines True before [] (concat (map (dump_section d) ss) @ rest) st = load_lines True before [] rest st'"
  using assms(1,2)
proof (induction ss arbitrary: m old st)
  case Nil
  then show ?case by auto
next
  case (Cons s ss)
  then obtain st1 where st1: "ini_rel (m ++ map_of (rev (section_entries d s))) s st1"
      "load_lines True before [] (dump_section d s @ concat (map (dump_section d) ss) @ rest) st =
       load_lines True before [] (concat (map (dump_section d) ss) @ rest) st1"
    using load_section [OF Cons.prems(1) _ assms(3,4), of s "concat (map (dump_section d) ss) @ rest"] by auto
  obtain sec st' where "ini_rel ((m ++ map_of (rev (section_entries d s))) ++ map_of (rev (concat (map (section_entries d) ss)))) sec st'"
      "load_lines True before [] (concat (map (dump_section d) ss) @ rest) st1 = load_lines True before [] rest st'"
    using Cons.IH [OF st1(1)] Cons.prems(2) by fastforce
  then show ?case using st1(2) by (intro exI [of _ sec] exI [of _ st']) simp
qed

lemma dump_ini_sections:
  assumes "section_names d \<noteq> []"
  shows "iniparser_dump_ini d = concat (map (dump_section d) (section_names d)) @ newline"
proof -
  have "map (\<lambda>i. dump_section d (the (iniparser_getsecname d i))) [0 .. iniparser_getnsec d - 1] =
      map (dump_section d) (section_names d)"
    by (rule nth_equalityI) (auto simp: iniparser_getnsec_def iniparser_getsecname_def nth_upto)
  then show ?thesis using assms by (simp add: iniparser_dump_ini_def iniparser_getnsec_def)
qed

lemma map_of_covering:
  assumes "\<And>k v. (k, v) \<in> set xs \<Longrightarrow> m k = Some v" and "\<And>k v. m k = Some v \<Longrightarrow> (k, v) \<in> set xs"
  shows "map_of xs = m"
proof
  fix k
  show "map_of xs k = m k"
  proof (cases "map_of xs k")
    case None
    then show ?thesis using assms(2) by (metis map_of_eq_None_iff fst_conv image_eqI not_None_eq)
  next
    case (Some v)
    have "m k = Some v" by (rule assms(1)) (rule map_of_SomeD [OF Some])
    then show ?thesis using Some by simp
  qed
qed

lemma section_entries_map:
  assumes "ini_ok d"
  shows "map_of (rev (concat (map (section_entries d) (section_names d)))) = dict_map d"
proof (rule map_of_covering)
  have inv: "dict_inv d" and ok: "\<And>k v. (k, v) \<in> set (dict_entries d) \<Longrightarrow> ini_entry_ok d (k, v)"
    using assms by (auto simp: ini_ok_def list_all_iff)
  have sec: "(k, None) \<in> set (dict_entries d)" if sn: "k \<in> set (section_names d)" for k
  proof -
    obtain v where v: "(k, v) \<in> set (dict_entries d)" "CHR '':'' \<notin> set k"
      using sn by (auto simp: section_names_def)
    then show ?thesis using ok [OF v(1)] by (cases v) (auto simp: ini_entry_ok_def)
  qed
  show "dict_map d k = Some v" if "(k, v) \<in> set (rev (concat (map (section_entries d) (section_names d))))" for k v
    using that sec dict_entries_iff [OF inv] by (auto simp: section_entries_def)
  show "(k, v) \<in> set (rev (concat (map (section_entries d) (section_names d))))" if "dict_map d k = Some v" for k v
  proof -
    have e: "(k, v) \<in> set (dict_entries d)" using that dict_entries_iff [OF inv] by simp
    show ?thesis
    proof (cases v)
      case None
      then have "CHR '':'' \<notin> set k" using ok [OF e] by (auto simp: ini_entry_ok_def sec_ok_def ini_word_def list_all_iff)
      then have "k \<in> set (section_names d)" using e by (force simp: section_names_def)
      then show ?thesis using None by (auto simp: section_entries_def)
    next
      case (Some t)
      define s where "s = takeWhile (\<lambda>c. c \<noteq> CHR '':'') k"
      have "(s, None) \<in> set (dict_entries d)" "CHR '':'' \<in> set k"
        using ok [OF e] Some by (auto simp: ini_entry_ok_def Let_def s_def)
      moreover have "CHR '':'' \<notin> set s" unfolding s_def by (auto dest: set_takeWhileD)
      ultimately have "s \<in> set (section_names d)" by (force simp: section_names_def)
      moreover have "in_section s (k, v)"
      proof -
        have "k = s @ dropWhile (\<lambda>c. c \<noteq> CHR '':'') k" by (simp add: s_def)
        moreover have "dropWhile (\<lambda>c. c \<noteq> CHR '':'') k \<noteq> []" using \<open>CHR '':'' \<in> set k\<close> by (auto simp: dropWhile_eq_Nil_conv)
        then have "hd (dropWhile (\<lambda>c. c \<noteq> CHR '':'') k) = CHR '':''" using hd_dropWhile by blast
        ultimately obtain r where "k = s @ CHR '':'' # r"
          by (metis \<open>dropWhile (\<lambda>c. c \<noteq> CHR '':'') k \<noteq> []\<close> list.collapse)
        then show ?thesis by (simp add: in_section_def)
      qed
      ultimately show ?thesis using e by (auto simp: section_entries_def)
    qed
  qed
qed

section \<open>Properties\<close>

text \<open>C36. A saved dictionary loads back: what \<open>iniparser_dump_ini\<close> writes, \<open>iniparser_load\<close> reads as a dictionary
  with the same sections, keys and values. This holds for every dictionary whose sections and keys are in
  lower case without the separators of the format, whose values need no quoting, and whose lines fit the line
  buffer, provided the byte in front of that buffer is not a backslash.\<close>

theorem ini_dump_load:
  assumes "ini_ok d" and "before \<noteq> CHR 0x5C"
  shows "\<exists>d'. iniparser_load True before (Some (iniparser_dump_ini d)) = Ret d' \<and> dict_inv d' \<and> dict_map d' = dict_map d"
proof -
  define st0 where "st0 = \<lparr>is_dict = dictionary_new 0, is_section = [], is_errs = 0\<rparr>"
  have start: "ini_rel Map.empty [] st0" by (simp add: ini_rel_def st0_def dict_inv_new dict_map_new)
  have inv: "dict_inv d" and entries: "list_all (ini_entry_ok d) (dict_entries d)" using assms(1) by (simp_all add: ini_ok_def)
  have "\<exists>sec st. ini_rel (dict_map d) sec st \<and> load_lines True before [] (iniparser_dump_ini d) st0 = Ret st"
  proof (cases "section_names d = []")
    case True
    then have none: "dict_map d = Map.empty" using section_entries_map [OF assms(1)] by simp
    then have "dict_entries d = []" using dict_entries_iff [OF inv] by (metis all_not_in_conv option.distinct(1) set_empty surj_pair)
    then have "iniparser_dump_ini d = []" using True by (simp add: iniparser_dump_ini_def iniparser_getnsec_def)
    then show ?thesis using start none by (auto simp: load_lines.simps)
  next
    case False
    have "list_all sec_ok (section_names d)"
      using entries by (force simp: section_names_def list_all_iff ini_entry_ok_def split: option.splits)
    then obtain sec st where st: "ini_rel (dict_map d) sec st"
        "load_lines True before [] (concat (map (dump_section d) (section_names d)) @ newline) st0 =
         load_lines True before [] newline st"
      using load_sections [OF start _ entries assms(2), of "section_names d" newline] section_entries_map [OF assms(1)] by auto
    moreover have "load_lines True before [] newline st = Ret st"
      using load_blank_line [OF assms(2), of st "[]"] st(1) by (simp add: newline_def ini_rel_def load_lines.simps)
    ultimately show ?thesis using dump_ini_sections [OF False] by auto
  qed
  then show ?thesis by (auto simp: iniparser_load_def st0_def ini_rel_def)
qed

definition demo_dict :: dictionary where
  "demo_dict = \<lparr>d_n = 2, d_size = 3, d_val = [None, None, Some ''64 KiB''], d_key = [Some ''vol'', None, Some ''vol:size''],
     d_hash = [dictionary_hash ''vol'', 0, dictionary_hash ''vol:size'']\<rparr>"

lemma demo_dict_inv: "dict_inv demo_dict"
  by (auto simp: demo_dict_def dict_inv_def present_def less_Suc_eq numeral_3_eq_3)

lemma demo_dict_entries: "dict_entries demo_dict = [(''vol'', None), (''vol:size'', Some ''64 KiB'')]"
  by (simp add: dict_entries_def demo_dict_def)

theorem ini_dump_load_witness:
  "\<exists>d'. iniparser_load True CHR ''x'' (Some (iniparser_dump_ini demo_dict)) = Ret d' \<and> dict_inv d' \<and>
     dict_map d' = dict_map demo_dict"
proof (rule ini_dump_load)
  show "ini_ok demo_dict"
    by (simp add: ini_ok_def demo_dict_inv demo_dict_entries ini_entry_ok_def sec_ok_def key_ok_def val_ok_def ini_word_def
        lower_def isspace_def tolower_def in_range_def pad30_def)
qed simp

text \<open>A syntax error is forgotten when a later line is accepted, so the file loads.\<close>

lemma syntax_error_forgotten:
  "case iniparser_load True CHR ''x'' (Some (''junk'' @ newline @ ''[a]'' @ newline)) of Ret d \<Rightarrow> True | _ \<Rightarrow> False"
  by code_simp

lemma syntax_error_reported:
  "iniparser_load True CHR ''x'' (Some (''[a]'' @ newline @ ''junk'' @ newline)) = Err Syntax_error"
  by code_simp

end
