(* ===== verification/Crc.thy ===== *)
theory Crc
  imports Prelude
begin

text \<open>
  The two checksums of the flash tools. \<open>mtd_crc32\<close> (\<open>lib/libcrc32.c\<close>) protects every UBI header
  and volume table record and every UBIFS and JFFS2 node; \<open>crc16\<close> (\<open>mkfs.ubifs/crc16.c\<close>) protects
  the nodes of the UBIFS LEB properties tree. Both are table-driven. The reference is the bit-serial
  feedback shift register with the polynomial the comments name; the tables are checked entry by
  entry against eight shifts of it. The interface \<open>crc_register\<close> collects what follows for any
  byte step that equals eight shifts: linearity, injectivity in the register, and detection of every
  burst of errors no longer than the register.
\<close>

unbundle bit_operations_syntax

section \<open>The code\<close>

definition crc32_table :: "u32 list" where
  "crc32_table =
    [0x00000000, 0x77073096, 0xee0e612c, 0x990951ba, 0x076dc419, 0x706af48f, 0xe963a535, 0x9e6495a3,
     0x0edb8832, 0x79dcb8a4, 0xe0d5e91e, 0x97d2d988, 0x09b64c2b, 0x7eb17cbd, 0xe7b82d07, 0x90bf1d91,
     0x1db71064, 0x6ab020f2, 0xf3b97148, 0x84be41de, 0x1adad47d, 0x6ddde4eb, 0xf4d4b551, 0x83d385c7,
     0x136c9856, 0x646ba8c0, 0xfd62f97a, 0x8a65c9ec, 0x14015c4f, 0x63066cd9, 0xfa0f3d63, 0x8d080df5,
     0x3b6e20c8, 0x4c69105e, 0xd56041e4, 0xa2677172, 0x3c03e4d1, 0x4b04d447, 0xd20d85fd, 0xa50ab56b,
     0x35b5a8fa, 0x42b2986c, 0xdbbbc9d6, 0xacbcf940, 0x32d86ce3, 0x45df5c75, 0xdcd60dcf, 0xabd13d59,
     0x26d930ac, 0x51de003a, 0xc8d75180, 0xbfd06116, 0x21b4f4b5, 0x56b3c423, 0xcfba9599, 0xb8bda50f,
     0x2802b89e, 0x5f058808, 0xc60cd9b2, 0xb10be924, 0x2f6f7c87, 0x58684c11, 0xc1611dab, 0xb6662d3d,
     0x76dc4190, 0x01db7106, 0x98d220bc, 0xefd5102a, 0x71b18589, 0x06b6b51f, 0x9fbfe4a5, 0xe8b8d433,
     0x7807c9a2, 0x0f00f934, 0x9609a88e, 0xe10e9818, 0x7f6a0dbb, 0x086d3d2d, 0x91646c97, 0xe6635c01,
     0x6b6b51f4, 0x1c6c6162, 0x856530d8, 0xf262004e, 0x6c0695ed, 0x1b01a57b, 0x8208f4c1, 0xf50fc457,
     0x65b0d9c6, 0x12b7e950, 0x8bbeb8ea, 0xfcb9887c, 0x62dd1ddf, 0x15da2d49, 0x8cd37cf3, 0xfbd44c65,
     0x4db26158, 0x3ab551ce, 0xa3bc0074, 0xd4bb30e2, 0x4adfa541, 0x3dd895d7, 0xa4d1c46d, 0xd3d6f4fb,
     0x4369e96a, 0x346ed9fc, 0xad678846, 0xda60b8d0, 0x44042d73, 0x33031de5, 0xaa0a4c5f, 0xdd0d7cc9,
     0x5005713c, 0x270241aa, 0xbe0b1010, 0xc90c2086, 0x5768b525, 0x206f85b3, 0xb966d409, 0xce61e49f,
     0x5edef90e, 0x29d9c998, 0xb0d09822, 0xc7d7a8b4, 0x59b33d17, 0x2eb40d81, 0xb7bd5c3b, 0xc0ba6cad,
     0xedb88320, 0x9abfb3b6, 0x03b6e20c, 0x74b1d29a, 0xead54739, 0x9dd277af, 0x04db2615, 0x73dc1683,
     0xe3630b12, 0x94643b84, 0x0d6d6a3e, 0x7a6a5aa8, 0xe40ecf0b, 0x9309ff9d, 0x0a00ae27, 0x7d079eb1,
     0xf00f9344, 0x8708a3d2, 0x1e01f268, 0x6906c2fe, 0xf762575d, 0x806567cb, 0x196c3671, 0x6e6b06e7,
     0xfed41b76, 0x89d32be0, 0x10da7a5a, 0x67dd4acc, 0xf9b9df6f, 0x8ebeeff9, 0x17b7be43, 0x60b08ed5,
     0xd6d6a3e8, 0xa1d1937e, 0x38d8c2c4, 0x4fdff252, 0xd1bb67f1, 0xa6bc5767, 0x3fb506dd, 0x48b2364b,
     0xd80d2bda, 0xaf0a1b4c, 0x36034af6, 0x41047a60, 0xdf60efc3, 0xa867df55, 0x316e8eef, 0x4669be79,
     0xcb61b38c, 0xbc66831a, 0x256fd2a0, 0x5268e236, 0xcc0c7795, 0xbb0b4703, 0x220216b9, 0x5505262f,
     0xc5ba3bbe, 0xb2bd0b28, 0x2bb45a92, 0x5cb36a04, 0xc2d7ffa7, 0xb5d0cf31, 0x2cd99e8b, 0x5bdeae1d,
     0x9b64c2b0, 0xec63f226, 0x756aa39c, 0x026d930a, 0x9c0906a9, 0xeb0e363f, 0x72076785, 0x05005713,
     0x95bf4a82, 0xe2b87a14, 0x7bb12bae, 0x0cb61b38, 0x92d28e9b, 0xe5d5be0d, 0x7cdcefb7, 0x0bdbdf21,
     0x86d3d2d4, 0xf1d4e242, 0x68ddb3f8, 0x1fda836e, 0x81be16cd, 0xf6b9265b, 0x6fb077e1, 0x18b74777,
     0x88085ae6, 0xff0f6a70, 0x66063bca, 0x11010b5c, 0x8f659eff, 0xf862ae69, 0x616bffd3, 0x166ccf45,
     0xa00ae278, 0xd70dd2ee, 0x4e048354, 0x3903b3c2, 0xa7672661, 0xd06016f7, 0x4969474d, 0x3e6e77db,
     0xaed16a4a, 0xd9d65adc, 0x40df0b66, 0x37d83bf0, 0xa9bcae53, 0xdebb9ec5, 0x47b2cf7f, 0x30b5ffe9,
     0xbdbdf21c, 0xcabac28a, 0x53b39330, 0x24b4a3a6, 0xbad03605, 0xcdd70693, 0x54de5729, 0x23d967bf,
     0xb3667a2e, 0xc4614ab8, 0x5d681b02, 0x2a6f2b94, 0xb40bbe37, 0xc30c8ea1, 0x5a05df1b, 0x2d02ef8d]"

definition crc32_byte :: "u32 \<Rightarrow> u8 \<Rightarrow> u32" where
  "crc32_byte val b = crc32_table ! unat ((val XOR ucast b) AND 0xff) XOR drop_bit 8 val"

text \<open>The buffer is what \<open>ss\<close> points to; \<open>len\<close> counts the bytes read (none when it is negative).\<close>

definition mtd_crc32 :: "u32 \<Rightarrow> bytes \<Rightarrow> int \<Rightarrow> u32" where
  "mtd_crc32 val ss len = foldl crc32_byte val (take (nat len) ss)"

definition crc16_table :: "u16 list" where
  "crc16_table =
    [0x0000, 0xC0C1, 0xC181, 0x0140, 0xC301, 0x03C0, 0x0280, 0xC241,
     0xC601, 0x06C0, 0x0780, 0xC741, 0x0500, 0xC5C1, 0xC481, 0x0440,
     0xCC01, 0x0CC0, 0x0D80, 0xCD41, 0x0F00, 0xCFC1, 0xCE81, 0x0E40,
     0x0A00, 0xCAC1, 0xCB81, 0x0B40, 0xC901, 0x09C0, 0x0880, 0xC841,
     0xD801, 0x18C0, 0x1980, 0xD941, 0x1B00, 0xDBC1, 0xDA81, 0x1A40,
     0x1E00, 0xDEC1, 0xDF81, 0x1F40, 0xDD01, 0x1DC0, 0x1C80, 0xDC41,
     0x1400, 0xD4C1, 0xD581, 0x1540, 0xD701, 0x17C0, 0x1680, 0xD641,
     0xD201, 0x12C0, 0x1380, 0xD341, 0x1100, 0xD1C1, 0xD081, 0x1040,
     0xF001, 0x30C0, 0x3180, 0xF141, 0x3300, 0xF3C1, 0xF281, 0x3240,
     0x3600, 0xF6C1, 0xF781, 0x3740, 0xF501, 0x35C0, 0x3480, 0xF441,
     0x3C00, 0xFCC1, 0xFD81, 0x3D40, 0xFF01, 0x3FC0, 0x3E80, 0xFE41,
     0xFA01, 0x3AC0, 0x3B80, 0xFB41, 0x3900, 0xF9C1, 0xF881, 0x3840,
     0x2800, 0xE8C1, 0xE981, 0x2940, 0xEB01, 0x2BC0, 0x2A80, 0xEA41,
     0xEE01, 0x2EC0, 0x2F80, 0xEF41, 0x2D00, 0xEDC1, 0xEC81, 0x2C40,
     0xE401, 0x24C0, 0x2580, 0xE541, 0x2700, 0xE7C1, 0xE681, 0x2640,
     0x2200, 0xE2C1, 0xE381, 0x2340, 0xE101, 0x21C0, 0x2080, 0xE041,
     0xA001, 0x60C0, 0x6180, 0xA141, 0x6300, 0xA3C1, 0xA281, 0x6240,
     0x6600, 0xA6C1, 0xA781, 0x6740, 0xA501, 0x65C0, 0x6480, 0xA441,
     0x6C00, 0xACC1, 0xAD81, 0x6D40, 0xAF01, 0x6FC0, 0x6E80, 0xAE41,
     0xAA01, 0x6AC0, 0x6B80, 0xAB41, 0x6900, 0xA9C1, 0xA881, 0x6840,
     0x7800, 0xB8C1, 0xB981, 0x7940, 0xBB01, 0x7BC0, 0x7A80, 0xBA41,
     0xBE01, 0x7EC0, 0x7F80, 0xBF41, 0x7D00, 0xBDC1, 0xBC81, 0x7C40,
     0xB401, 0x74C0, 0x7580, 0xB541, 0x7700, 0xB7C1, 0xB681, 0x7640,
     0x7200, 0xB2C1, 0xB381, 0x7340, 0xB101, 0x71C0, 0x7080, 0xB041,
     0x5000, 0x90C1, 0x9181, 0x5140, 0x9301, 0x53C0, 0x5280, 0x9241,
     0x9601, 0x56C0, 0x5780, 0x9741, 0x5500, 0x95C1, 0x9481, 0x5440,
     0x9C01, 0x5CC0, 0x5D80, 0x9D41, 0x5F00, 0x9FC1, 0x9E81, 0x5E40,
     0x5A00, 0x9AC1, 0x9B81, 0x5B40, 0x9901, 0x59C0, 0x5880, 0x9841,
     0x8801, 0x48C0, 0x4980, 0x8941, 0x4B00, 0x8BC1, 0x8A81, 0x4A40,
     0x4E00, 0x8EC1, 0x8F81, 0x4F40, 0x8D01, 0x4DC0, 0x4C80, 0x8C41,
     0x4400, 0x84C1, 0x8581, 0x4540, 0x8701, 0x47C0, 0x4680, 0x8641,
     0x8201, 0x42C0, 0x4380, 0x8341, 0x4100, 0x81C1, 0x8081, 0x4040]"

definition crc16_byte :: "u16 \<Rightarrow> u8 \<Rightarrow> u16" where
  "crc16_byte crc data = drop_bit 8 crc XOR crc16_table ! unat ((crc XOR ucast data) AND 0xff)"

definition crc16 :: "u16 \<Rightarrow> bytes \<Rightarrow> nat \<Rightarrow> u16" where
  "crc16 crc buffer len = foldl crc16_byte crc (take len buffer)"

section \<open>The reference: a feedback shift register\<close>

definition lfsr_shift :: "'a::len word \<Rightarrow> 'a word \<Rightarrow> 'a word" where
  "lfsr_shift poly v = drop_bit 1 v XOR (if bit v 0 then poly else 0)"

definition lfsr_byte :: "'a::len word \<Rightarrow> 'a word \<Rightarrow> u8 \<Rightarrow> 'a word" where
  "lfsr_byte poly v b = (lfsr_shift poly ^^ 8) (v XOR ucast b)"

abbreviation crc32_poly :: u32 where "crc32_poly \<equiv> 0xedb88320"
abbreviation crc16_poly :: u16 where "crc16_poly \<equiv> 0xa001"

lemma word_xor_eq_0: "x XOR y = 0 \<longleftrightarrow> x = (y :: 'a::len word)"
  by (auto simp: bit_eq_iff bit_simps)

lemma lfsr_shift_0 [simp, crc_simps]: "lfsr_shift p 0 = 0"
  by (simp add: lfsr_shift_def)

lemma lfsr_shift_xor [crc_simps]: "lfsr_shift p (x XOR y) = lfsr_shift p x XOR lfsr_shift p y"
  by (auto simp: lfsr_shift_def bit_simps xor.assoc xor.left_commute drop_bit_xor)

lemma lfsr_shifts_0 [simp, crc_simps]: "(lfsr_shift p ^^ n) 0 = 0"
  by (induction n) simp_all

lemma lfsr_shifts_xor [crc_simps]:
  "(lfsr_shift p ^^ n) (x XOR y) = (lfsr_shift p ^^ n) x XOR (lfsr_shift p ^^ n) y"
  by (induction n) (simp_all add: lfsr_shift_xor)

text \<open>Shifting zeros out of the register applies no feedback.\<close>

lemma lfsr_shifts_push_bit:
  "(lfsr_shift p ^^ n) (push_bit n v) = drop_bit n (push_bit n v)"
proof (induction n arbitrary: v)
  case 0
  then show ?case by simp
next
  case (Suc n)
  have "\<not> bit (drop_bit n (push_bit (Suc n) v)) 0"
    by (simp add: bit_drop_bit_eq bit_push_bit_iff del: push_bit_Suc)
  moreover have "(lfsr_shift p ^^ n) (push_bit (Suc n) v) = drop_bit n (push_bit (Suc n) v)"
    using Suc.IH [of "push_bit 1 v"] by (simp add: push_bit_push_bit)
  ultimately have "(lfsr_shift p ^^ Suc n) (push_bit (Suc n) v)
      = drop_bit 1 (drop_bit n (push_bit (Suc n) v))"
    by (simp only: funpow.simps o_apply lfsr_shift_def if_False xor.right_neutral)
  then show ?case by (simp only: drop_bit_drop_bit plus_1_eq_Suc)
qed

lemma lfsr_shift_inj_0:
  assumes "bit p (LENGTH('a) - 1)" and "lfsr_shift p (z :: 'a::len word) = 0"
  shows "z = 0"
proof -
  have no_fb: "\<not> bit z 0"
  proof
    assume "bit z 0"
    then have "drop_bit 1 z = p" using assms(2) by (simp add: lfsr_shift_def word_xor_eq_0)
    then show False using assms(1) by (auto simp: bit_simps dest: bit_imp_le_length)
  qed
  then have "drop_bit 1 z = 0" using assms(2) by (simp add: lfsr_shift_def)
  then have "\<not> bit (drop_bit 1 z) k" for k by simp
  then have "\<not> bit z (Suc k)" for k
    by (simp only: bit_drop_bit_eq o_apply plus_1_eq_Suc not_False_eq_True)
  with no_fb have "\<not> bit z k" for k by (cases k) simp_all
  then show ?thesis by (simp add: bit_eq_iff)
qed

text \<open>One byte of a table-driven CRC: look the low byte up, shift the rest down.\<close>

lemma byte_mask: "(0xff :: 'a::len word) = mask 8"
  by (simp add: mask_eq_exp_minus_1)

lemma word_split_low_byte:
  fixes w :: "'a::len word"
  shows "w = (w AND 0xff) XOR push_bit 8 (drop_bit 8 w)"
  unfolding byte_mask by (rule bit_word_eqI) (auto simp: bit_simps)

lemma table_step_lfsr:
  fixes v :: "'a::len word"
  assumes "8 \<le> LENGTH('a)"
    and tbl: "\<forall>i < 256. tbl ! i = (lfsr_shift p ^^ 8) (of_nat i)"
  shows "tbl ! unat ((v XOR ucast b) AND 0xff) XOR drop_bit 8 v = lfsr_byte p v b"
proof -
  define w where "w = v XOR ucast b"
  have "drop_bit 8 w = drop_bit 8 v"
    unfolding w_def by (rule bit_word_eqI) (auto simp: bit_simps dest: bit_imp_le_length)
  moreover have "(lfsr_shift p ^^ 8) (push_bit 8 (drop_bit 8 w)) = drop_bit 8 w"
    unfolding lfsr_shifts_push_bit by (rule bit_word_eqI) (auto simp: bit_simps dest: bit_imp_le_length)
  moreover have "unat (w AND 0xff) < 256"
    unfolding byte_mask take_bit_eq_mask [symmetric] unsigned_take_bit_eq
    using take_bit_nat_less_exp [of 8 "unat w"] by simp
  then have "tbl ! unat (w AND 0xff) = (lfsr_shift p ^^ 8) (w AND 0xff)"
    using tbl by simp
  ultimately show ?thesis
    unfolding lfsr_byte_def w_def [symmetric]
    by (metis word_split_low_byte lfsr_shifts_xor)
qed

lemma bit_le_word_at:
  "8 * length bs \<le> LENGTH('a) \<Longrightarrow> i < length bs \<Longrightarrow> k < 8 \<Longrightarrow>
   bit (le_word bs :: 'a::len word) (8 * i + k) \<longleftrightarrow> bit (bs ! i) k"
  by (simp add: bit_le_word)

section \<open>The interface of a CRC register\<close>

locale crc_register =
  fixes poly :: "'a::len word" and step :: "'a word \<Rightarrow> u8 \<Rightarrow> 'a word"
  assumes top_bit: "bit poly (LENGTH('a) - 1)"
    and wide: "8 \<le> LENGTH('a)"
    and step_lfsr: "step v b = lfsr_byte poly v b"
begin

lemma shifts_inject: "(lfsr_shift poly ^^ n) x = (lfsr_shift poly ^^ n) y \<longleftrightarrow> x = y"
proof
  assume eq: "(lfsr_shift poly ^^ n) x = (lfsr_shift poly ^^ n) y"
  have "(lfsr_shift poly ^^ n) z = 0 \<Longrightarrow> z = 0" for z
    by (induction n arbitrary: z) (auto dest: lfsr_shift_inj_0 [OF top_bit])
  then show "x = y" using eq by (metis lfsr_shifts_xor word_xor_eq_0)
qed simp

lemma step_xor: "step (v XOR w) (b XOR c) = step v b XOR step w c"
proof -
  have "(v XOR w) XOR ucast (b XOR c) = (v XOR ucast b) XOR (w XOR ucast c)"
    by (simp add: unsigned_xor_eq xor.assoc xor.left_commute)
  then show ?thesis by (simp only: step_lfsr lfsr_byte_def lfsr_shifts_xor [symmetric])
qed

lemma step_inject: "step v b = step w b \<longleftrightarrow> v = w"
proof -
  have "v XOR ucast b = w XOR ucast b \<longleftrightarrow> v = w"
    by (metis xor.assoc xor_self_eq xor.right_neutral)
  then show ?thesis by (simp add: step_lfsr lfsr_byte_def shifts_inject)
qed

lemma run_xor:
  "length xs = length ys \<Longrightarrow>
   foldl step (v XOR w) (xor_bytes xs ys) = foldl step v xs XOR foldl step w ys"
  by (induction xs ys arbitrary: v w rule: list_induct2) (simp_all add: step_xor)

lemma run_inject: "foldl step v xs = foldl step w xs \<longleftrightarrow> v = w"
  by (induction xs arbitrary: v w) (simp_all add: step_inject)

text \<open>A run over at most as many bits as the register holds is one multi-bit shift.\<close>

lemma run_short:
  "8 * length xs \<le> LENGTH('a) \<Longrightarrow>
   foldl step v xs = (lfsr_shift poly ^^ (8 * length xs)) (v XOR le_word xs)"
proof (induction xs arbitrary: v)
  case Nil
  then show ?case by simp
next
  case (Cons x xs)
  let ?y = "le_word xs :: 'a word"
  let ?s = "\<lambda>n. lfsr_shift poly ^^ n"
  have bits: "bit ?y k \<Longrightarrow> k + 8 < LENGTH('a)" for k
    using Cons.prems by (auto simp: bit_le_word)
  have "drop_bit 8 (push_bit 8 ?y) = ?y"
    by (rule bit_word_eqI) (auto simp: bit_simps dest: bits)
  then have shift: "?s 8 (push_bit 8 ?y) = ?y" by (simp add: lfsr_shifts_push_bit)
  have split: "le_word (x # xs) = ucast x XOR push_bit 8 ?y"
    by (rule bit_word_eqI) (auto simp: bit_simps dest: bit_imp_le_length)
  have "foldl step v (x # xs) = ?s (8 * length xs) (step v x XOR ?y)"
    using Cons.IH Cons.prems by simp
  also have "step v x XOR ?y = ?s 8 (v XOR le_word (x # xs))"
    by (simp only: step_lfsr lfsr_byte_def split lfsr_shifts_xor shift xor.assoc)
  also have "?s (8 * length xs) (?s 8 z) = ?s (8 * length xs + 8) z" for z
    by (simp only: funpow_add o_apply)
  also have "8 * length xs + 8 = 8 * length (x # xs)" by simp
  finally show ?case .
qed

theorem burst_detected:
  assumes "length e = length e'" and "8 * length e \<le> LENGTH('a)" and "e \<noteq> e'"
  shows "foldl step v (pre @ e @ post) \<noteq> foldl step v (pre @ e' @ post)"
proof
  assume "foldl step v (pre @ e @ post) = foldl step v (pre @ e' @ post)"
  then have "foldl step (foldl step v pre) e = foldl step (foldl step v pre) e'"
    by (simp add: run_inject)
  then have "(le_word e :: 'a word) = le_word e'"
    using assms by (simp add: run_short shifts_inject) (metis xor.assoc xor_self_eq xor.left_neutral)
  then have "e ! i = e' ! i" if "i < length e" for i
    using that assms(1,2) bit_le_word_at [where ?'a = 'a, of e i]
      bit_le_word_at [where ?'a = 'a, of e' i]
    by (intro bit_word_eqI) simp
  with assms show False by (metis nth_equalityI)
qed

end

section \<open>The two registers of the tools\<close>

text \<open>
  The table by doubling: the entries for \<open>2 ^ k \<le> i < 2 ^ (k + 1)\<close> are the ones below \<open>2 ^ k\<close>,
  each exclusive-ored with the entry for \<open>2 ^ k\<close>.
\<close>

definition lfsr_table :: "'a::len word \<Rightarrow> nat \<Rightarrow> 'a word list" where
  "lfsr_table p k = map (\<lambda>i. (lfsr_shift p ^^ 8) (of_nat i)) [0..<2 ^ k]"

fun double_table :: "'a::len word \<Rightarrow> 'a word list \<Rightarrow> 'a word list" where
  "double_table c t = t @ map (\<lambda>x. x XOR c) t"

lemma of_nat_plus_exp:
  assumes "i < 2 ^ k"
  shows "(of_nat (2 ^ k + i) :: 'a::len word) = of_nat i XOR 2 ^ k"
proof -
  have "\<not> bit i k" using assms by (simp add: bit_iff_odd)
  then have "i AND 2 ^ k = 0" by (simp add: and_exp_eq_0_iff_not_bit)
  then have "2 ^ k + i = i XOR 2 ^ k" by (simp add: disjunctive_add_eq_xor add.commute)
  then show ?thesis
    by (simp add: of_nat_xor_eq)
qed

lemma lfsr_table_Suc:
  "lfsr_table p (Suc k) = double_table ((lfsr_shift p ^^ 8) (2 ^ k)) (lfsr_table p k)"
proof -
  have "[0..<2 ^ Suc k] = [0..<2 ^ k] @ map (\<lambda>i. 2 ^ k + i) [0..<2 ^ k]"
    using map_add_upt [of "2 ^ k" "2 ^ k"] upt_add_eq_append [of 0 "2 ^ k" "2 ^ k"]
    by (simp add: add.commute mult_2)
  then show ?thesis
    by (simp add: lfsr_table_def of_nat_plus_exp lfsr_shifts_xor del: of_nat_add)
qed

lemma lfsr_shift_twice: "(lfsr_shift p ^^ 2) v = lfsr_shift p (lfsr_shift p v)"
  by (simp add: numeral_2_eq_2)

lemma lfsr_shifts_8: "(lfsr_shift p ^^ 8) v = (lfsr_shift p ^^ 2) ((lfsr_shift p ^^ 2)
    ((lfsr_shift p ^^ 2) ((lfsr_shift p ^^ 2) v)))"
  by (simp add: eval_nat_numeral)

lemma crc32_basis:
  "(lfsr_shift crc32_poly ^^ 8) 1 = 0x77073096"
  "(lfsr_shift crc32_poly ^^ 8) 2 = 0xee0e612c"
  "(lfsr_shift crc32_poly ^^ 8) 4 = 0x076dc419"
  "(lfsr_shift crc32_poly ^^ 8) 8 = 0x0edb8832"
  "(lfsr_shift crc32_poly ^^ 8) 16 = 0x1db71064"
  "(lfsr_shift crc32_poly ^^ 8) 32 = 0x3b6e20c8"
  "(lfsr_shift crc32_poly ^^ 8) 64 = 0x76dc4190"
  "(lfsr_shift crc32_poly ^^ 8) 128 = 0xedb88320"
  by (simp_all add: lfsr_shifts_8 lfsr_shift_twice lfsr_shift_def)

lemma crc32_table_lfsr: "crc32_table = lfsr_table crc32_poly 8"
proof -
  have "lfsr_table crc32_poly 8 = lfsr_table crc32_poly (Suc (Suc (Suc (Suc (Suc (Suc (Suc (Suc 0))))))))"
    by (simp add: eval_nat_numeral)
  also have "\<dots> = crc32_table"
    by (simp add: lfsr_table_Suc crc32_basis lfsr_table_def [of _ 0] crc32_table_def)
  finally show ?thesis by (rule sym)
qed

lemma crc16_basis:
  "(lfsr_shift crc16_poly ^^ 8) 1 = 0xC0C1"
  "(lfsr_shift crc16_poly ^^ 8) 2 = 0xC181"
  "(lfsr_shift crc16_poly ^^ 8) 4 = 0xC301"
  "(lfsr_shift crc16_poly ^^ 8) 8 = 0xC601"
  "(lfsr_shift crc16_poly ^^ 8) 16 = 0xCC01"
  "(lfsr_shift crc16_poly ^^ 8) 32 = 0xD801"
  "(lfsr_shift crc16_poly ^^ 8) 64 = 0xF001"
  "(lfsr_shift crc16_poly ^^ 8) 128 = 0xA001"
  by (simp_all add: lfsr_shifts_8 lfsr_shift_twice lfsr_shift_def)

lemma crc16_table_lfsr: "crc16_table = lfsr_table crc16_poly 8"
proof -
  have "lfsr_table crc16_poly 8 = lfsr_table crc16_poly (Suc (Suc (Suc (Suc (Suc (Suc (Suc (Suc 0))))))))"
    by (simp add: eval_nat_numeral)
  also have "\<dots> = crc16_table"
    by (simp add: lfsr_table_Suc crc16_basis lfsr_table_def [of _ 0] crc16_table_def)
  finally show ?thesis by (rule sym)
qed

lemma lfsr_table_nth: "\<forall>i < 256. lfsr_table p 8 ! i = (lfsr_shift p ^^ 8) (of_nat i)"
  by (simp add: lfsr_table_def)

interpretation crc32: crc_register crc32_poly crc32_byte
proof unfold_locales
  show "crc32_byte v b = lfsr_byte crc32_poly v b" for v b
    unfolding crc32_byte_def crc32_table_lfsr by (rule table_step_lfsr [OF _ lfsr_table_nth]) simp
qed simp_all

interpretation crc16: crc_register crc16_poly crc16_byte
proof unfold_locales
  show "crc16_byte v b = lfsr_byte crc16_poly v b" for v b
    unfolding crc16_byte_def crc16_table_lfsr xor.commute [of "drop_bit 8 v"]
    by (rule table_step_lfsr [OF _ lfsr_table_nth]) simp
qed simp_all

section \<open>Properties\<close>

text \<open>C16. The table-driven \<open>mtd_crc32\<close> computes, for every start value, buffer and length, what the
  bit-serial feedback register with the reversed polynomial \<open>0xedb88320\<close> computes over the bytes
  read: the 256 table entries are right, and so is their combination with the shifted register.\<close>

theorem mtd_crc32_bit_serial:
  "mtd_crc32 val ss len = foldl (lfsr_byte crc32_poly) val (take (nat len) ss)"
proof -
  have "crc32_byte = lfsr_byte crc32_poly" by (intro ext) (rule crc32.step_lfsr)
  then show ?thesis by (simp add: mtd_crc32_def)
qed

text \<open>\<open>mtd_crc32\<close> detects every corruption confined to four consecutive bytes: two buffers of
  the same length that differ only inside one window of at most four bytes have different
  checksums, whatever the start value and wherever the window lies.\<close>

lemma mtd_crc32_detects_burst:
  assumes "length e = length e'" and "length e \<le> 4" and "e \<noteq> e'"
  shows "mtd_crc32 val (pre @ e @ post) (int (length (pre @ e @ post)))
       \<noteq> mtd_crc32 val (pre @ e' @ post) (int (length (pre @ e' @ post)))"
  using crc32.burst_detected [of e e' val pre post] assms by (simp add: mtd_crc32_def)

text \<open>C23. \<open>crc16\<close> is the bit-serial register with the reversed polynomial \<open>0xa001\<close>, and it detects
  every corruption confined to two consecutive bytes.\<close>

theorem crc16_correct:
  "crc16 crc buf len = foldl (lfsr_byte crc16_poly) crc (take len buf)
   \<and> (length e = length e' \<and> length e \<le> 2 \<and> e \<noteq> e' \<longrightarrow>
        crc16 crc (pre @ e @ post) (length (pre @ e @ post))
          \<noteq> crc16 crc (pre @ e' @ post) (length (pre @ e' @ post)))"
proof -
  have "crc16_byte = lfsr_byte crc16_poly" by (intro ext) (rule crc16.step_lfsr)
  then have "crc16 crc buf len = foldl (lfsr_byte crc16_poly) crc (take len buf)"
    by (simp add: crc16_def)
  moreover have "crc16 crc (pre @ e @ post) (length (pre @ e @ post))
      \<noteq> crc16 crc (pre @ e' @ post) (length (pre @ e' @ post))"
    if "length e = length e'" "length e \<le> 2" "e \<noteq> e'"
    using crc16.burst_detected [of e e' crc pre post] that by (simp add: crc16_def)
  ultimately show ?thesis by blast
qed

theorem crc16_correct_witness:
  "crc16 0 ([] @ [1, 2] @ [9]) 3 \<noteq> crc16 0 ([] @ [1, 3] @ [9]) 3"
  using crc16_correct [of 0 "[]" 0 "[1, 2]" "[1, 3]" "[]" "[9]"] by (simp add: numeral_3_eq_3)

end
