(* ===== verification/UbiMedia.thy ===== *)
theory UbiMedia
  imports Crc
begin

text \<open>
  The on-flash data of UBI (\<open>include/mtd/ubi-media.h\<close>): the erase counter header, the volume
  identifier header and the volume table record, each as a record of host values, with its packed
  big-endian image and the reading of that image. Every field is read back from the image, the
  images have the sizes the header file's macros compute with, and changing a single image inside a
  window of four bytes is always visible in the checksum the structure carries.
\<close>

unbundle bit_operations_syntax

section \<open>Constants\<close>

definition UBI_MAX_ERASECOUNTER :: int where "UBI_MAX_ERASECOUNTER = 0x7FFFFFFF"
definition UBI_CRC32_INIT :: u32 where "UBI_CRC32_INIT = 0xFFFFFFFF"
definition UBI_EC_HDR_MAGIC :: u32 where "UBI_EC_HDR_MAGIC = 0x55424923"
definition UBI_VID_HDR_MAGIC :: u32 where "UBI_VID_HDR_MAGIC = 0x55424921"
definition UBI_VID_DYNAMIC :: int where "UBI_VID_DYNAMIC = 1"
definition UBI_VID_STATIC :: int where "UBI_VID_STATIC = 2"
definition UBI_COMPAT_REJECT :: int where "UBI_COMPAT_REJECT = 5"
definition UBI_EC_HDR_SIZE :: int where "UBI_EC_HDR_SIZE = 64"
definition UBI_VID_HDR_SIZE :: int where "UBI_VID_HDR_SIZE = 64"
definition UBI_EC_HDR_SIZE_CRC :: int where "UBI_EC_HDR_SIZE_CRC = UBI_EC_HDR_SIZE - 4"
definition UBI_VID_HDR_SIZE_CRC :: int where "UBI_VID_HDR_SIZE_CRC = UBI_VID_HDR_SIZE - 4"
definition UBI_INTERNAL_VOL_START :: int where "UBI_INTERNAL_VOL_START = 0x7FFFFFFF - 4096"
definition UBI_LAYOUT_VOLUME_ALIGN :: int where "UBI_LAYOUT_VOLUME_ALIGN = 1"
definition UBI_LAYOUT_VOLUME_EBS :: int where "UBI_LAYOUT_VOLUME_EBS = 2"
definition UBI_LAYOUT_VOLUME_NAME :: string where "UBI_LAYOUT_VOLUME_NAME = ''layout volume''"
definition UBI_MAX_VOLUMES :: int where "UBI_MAX_VOLUMES = 128"
definition UBI_VOL_NAME_MAX :: nat where "UBI_VOL_NAME_MAX = 127"
definition UBI_VTBL_RECORD_SIZE :: int where "UBI_VTBL_RECORD_SIZE = 172"
definition UBI_VTBL_RECORD_SIZE_CRC :: int where "UBI_VTBL_RECORD_SIZE_CRC = UBI_VTBL_RECORD_SIZE - 4"

lemmas ubi_sizes = UBI_EC_HDR_SIZE_def UBI_VID_HDR_SIZE_def UBI_EC_HDR_SIZE_CRC_def
  UBI_VID_HDR_SIZE_CRC_def UBI_VTBL_RECORD_SIZE_def UBI_VTBL_RECORD_SIZE_CRC_def
  UBI_VOL_NAME_MAX_def

section \<open>The erase counter header\<close>

record ubi_ec_hdr =
  ech_magic :: u32
  ech_version :: u8
  ech_padding1 :: bytes
  ech_ec :: u64
  ech_vid_hdr_offset :: u32
  ech_data_offset :: u32
  ech_image_seq :: u32
  ech_padding2 :: bytes
  ech_hdr_crc :: u32

definition ec_hdr_body :: "ubi_ec_hdr \<Rightarrow> bytes" where
  "ec_hdr_body h = be32 (ech_magic h) @ [ech_version h] @ ech_padding1 h @ be64 (ech_ec h)
     @ be32 (ech_vid_hdr_offset h) @ be32 (ech_data_offset h) @ be32 (ech_image_seq h)
     @ ech_padding2 h"

definition ec_hdr_bytes :: "ubi_ec_hdr \<Rightarrow> bytes" where
  "ec_hdr_bytes h = ec_hdr_body h @ be32 (ech_hdr_crc h)"

definition ec_hdr_of_bytes :: "bytes \<Rightarrow> ubi_ec_hdr" where
  "ec_hdr_of_bytes bs =
     \<lparr>ech_magic = be_word (take 4 bs), ech_version = bs ! 4, ech_padding1 = take 3 (drop 5 bs),
      ech_ec = be_word (take 8 (drop 8 bs)), ech_vid_hdr_offset = be_word (take 4 (drop 16 bs)),
      ech_data_offset = be_word (take 4 (drop 20 bs)), ech_image_seq = be_word (take 4 (drop 24 bs)),
      ech_padding2 = take 32 (drop 28 bs), ech_hdr_crc = be_word (take 4 (drop 60 bs))\<rparr>"

definition ec_hdr_wf :: "ubi_ec_hdr \<Rightarrow> bool" where
  "ec_hdr_wf h \<longleftrightarrow> length (ech_padding1 h) = 3 \<and> length (ech_padding2 h) = 32"

lemma length_ec_hdr [len_simps]:
  "ec_hdr_wf h \<Longrightarrow> length (ec_hdr_body h) = 60" "ec_hdr_wf h \<Longrightarrow> length (ec_hdr_bytes h) = 64"
  by (simp_all add: ec_hdr_wf_def ec_hdr_body_def ec_hdr_bytes_def)

text \<open>Reading a field of a concatenation: drop what stands before it, take its width.\<close>

lemma take_drop_field:
  "length pre = off \<Longrightarrow> length x = w \<Longrightarrow> take w (drop off (pre @ x @ post)) = x"
  by simp

lemma ec_hdr_of_bytes_bytes [codec_simps]:
  assumes "ec_hdr_wf h"
  shows "ec_hdr_of_bytes (ec_hdr_bytes h) = h"
  using assms
  by (simp add: ec_hdr_of_bytes_def ec_hdr_bytes_def ec_hdr_body_def ec_hdr_wf_def codec_simps
      nth_append)

lemma ec_hdr_bytes_of_bytes:
  assumes "length bs = 64"
  shows "ec_hdr_bytes (ec_hdr_of_bytes bs) = bs" and "ec_hdr_wf (ec_hdr_of_bytes bs)"
proof -
  have "bs = take 4 bs @ [bs ! 4] @ take 3 (drop 5 bs) @ take 8 (drop 8 bs) @ take 4 (drop 16 bs)
     @ take 4 (drop 20 bs) @ take 4 (drop 24 bs) @ take 32 (drop 28 bs) @ take 4 (drop 60 bs)"
    (is "_ = ?r")
  proof -
    have "drop 60 bs = take 4 (drop 60 bs)" using assms by simp
    moreover have "drop 28 bs = take 32 (drop 28 bs) @ drop 60 bs"
      using append_take_drop_id [of 32 "drop 28 bs"] by simp
    moreover have "drop 24 bs = take 4 (drop 24 bs) @ drop 28 bs"
      using append_take_drop_id [of 4 "drop 24 bs"] by simp
    moreover have "drop 20 bs = take 4 (drop 20 bs) @ drop 24 bs"
      using append_take_drop_id [of 4 "drop 20 bs"] by simp
    moreover have "drop 16 bs = take 4 (drop 16 bs) @ drop 20 bs"
      using append_take_drop_id [of 4 "drop 16 bs"] by simp
    moreover have "drop 8 bs = take 8 (drop 8 bs) @ drop 16 bs"
      using append_take_drop_id [of 8 "drop 8 bs"] by simp
    moreover have "drop 5 bs = take 3 (drop 5 bs) @ drop 8 bs"
      using append_take_drop_id [of 3 "drop 5 bs"] by simp
    moreover have "drop 4 bs = bs ! 4 # drop 5 bs"
      using Cons_nth_drop_Suc [of 4 bs] assms by simp
    ultimately show ?thesis by (metis append_take_drop_id append_Cons append_Nil)
  qed
  moreover have "ec_hdr_bytes (ec_hdr_of_bytes bs) = ?r"
    using assms by (simp add: ec_hdr_of_bytes_def ec_hdr_bytes_def ec_hdr_body_def
        be32.enc_dec be64.enc_dec)
  ultimately show "ec_hdr_bytes (ec_hdr_of_bytes bs) = bs" by simp
  show "ec_hdr_wf (ec_hdr_of_bytes bs)"
    using assms by (simp add: ec_hdr_wf_def ec_hdr_of_bytes_def)
qed

text \<open>The checksum a header should carry, and whether it carries it.\<close>

definition ec_hdr_crc :: "ubi_ec_hdr \<Rightarrow> u32" where
  "ec_hdr_crc h = mtd_crc32 UBI_CRC32_INIT (ec_hdr_bytes h) UBI_EC_HDR_SIZE_CRC"

lemma ec_hdr_crc_body: "ec_hdr_wf h \<Longrightarrow> ec_hdr_crc h = foldl crc32_byte UBI_CRC32_INIT (ec_hdr_body h)"
  using length_ec_hdr(1) [of h]
  by (simp add: ec_hdr_crc_def mtd_crc32_def ec_hdr_bytes_def ubi_sizes)

section \<open>The volume identifier header\<close>

record ubi_vid_hdr =
  vh_magic :: u32
  vh_version :: u8
  vh_vol_type :: u8
  vh_copy_flag :: u8
  vh_compat :: u8
  vh_vol_id :: u32
  vh_lnum :: u32
  vh_leb_ver :: u32
  vh_data_size :: u32
  vh_used_ebs :: u32
  vh_data_pad :: u32
  vh_data_crc :: u32
  vh_padding2 :: bytes
  vh_sqnum :: u64
  vh_padding3 :: bytes
  vh_hdr_crc :: u32

definition vid_hdr_body :: "ubi_vid_hdr \<Rightarrow> bytes" where
  "vid_hdr_body h = be32 (vh_magic h) @ [vh_version h, vh_vol_type h, vh_copy_flag h, vh_compat h]
     @ be32 (vh_vol_id h) @ be32 (vh_lnum h) @ be32 (vh_leb_ver h) @ be32 (vh_data_size h)
     @ be32 (vh_used_ebs h) @ be32 (vh_data_pad h) @ be32 (vh_data_crc h) @ vh_padding2 h
     @ be64 (vh_sqnum h) @ vh_padding3 h"

definition vid_hdr_bytes :: "ubi_vid_hdr \<Rightarrow> bytes" where
  "vid_hdr_bytes h = vid_hdr_body h @ be32 (vh_hdr_crc h)"

definition vid_hdr_of_bytes :: "bytes \<Rightarrow> ubi_vid_hdr" where
  "vid_hdr_of_bytes bs =
     \<lparr>vh_magic = be_word (take 4 bs), vh_version = bs ! 4, vh_vol_type = bs ! 5,
      vh_copy_flag = bs ! 6, vh_compat = bs ! 7, vh_vol_id = be_word (take 4 (drop 8 bs)),
      vh_lnum = be_word (take 4 (drop 12 bs)), vh_leb_ver = be_word (take 4 (drop 16 bs)),
      vh_data_size = be_word (take 4 (drop 20 bs)), vh_used_ebs = be_word (take 4 (drop 24 bs)),
      vh_data_pad = be_word (take 4 (drop 28 bs)), vh_data_crc = be_word (take 4 (drop 32 bs)),
      vh_padding2 = take 4 (drop 36 bs), vh_sqnum = be_word (take 8 (drop 40 bs)),
      vh_padding3 = take 12 (drop 48 bs), vh_hdr_crc = be_word (take 4 (drop 60 bs))\<rparr>"

definition vid_hdr_wf :: "ubi_vid_hdr \<Rightarrow> bool" where
  "vid_hdr_wf h \<longleftrightarrow> length (vh_padding2 h) = 4 \<and> length (vh_padding3 h) = 12"

lemma length_vid_hdr [len_simps]:
  "vid_hdr_wf h \<Longrightarrow> length (vid_hdr_body h) = 60" "vid_hdr_wf h \<Longrightarrow> length (vid_hdr_bytes h) = 64"
  by (simp_all add: vid_hdr_wf_def vid_hdr_body_def vid_hdr_bytes_def)

lemma vid_hdr_of_bytes_bytes [codec_simps]:
  assumes "vid_hdr_wf h"
  shows "vid_hdr_of_bytes (vid_hdr_bytes h) = h"
  using assms
  by (simp add: vid_hdr_of_bytes_def vid_hdr_bytes_def vid_hdr_body_def vid_hdr_wf_def codec_simps
      nth_append)

definition vid_hdr_crc :: "ubi_vid_hdr \<Rightarrow> u32" where
  "vid_hdr_crc h = mtd_crc32 UBI_CRC32_INIT (vid_hdr_bytes h) UBI_VID_HDR_SIZE_CRC"

lemma vid_hdr_crc_body:
  "vid_hdr_wf h \<Longrightarrow> vid_hdr_crc h = foldl crc32_byte UBI_CRC32_INIT (vid_hdr_body h)"
  using length_vid_hdr(1) [of h]
  by (simp add: vid_hdr_crc_def mtd_crc32_def vid_hdr_bytes_def ubi_sizes)

section \<open>The volume table record\<close>

record ubi_vtbl_record =
  vr_reserved_pebs :: u32
  vr_alignment :: u32
  vr_data_pad :: u32
  vr_vol_type :: u8
  vr_upd_marker :: u8
  vr_name_len :: u16
  vr_name :: bytes
  vr_flags :: u8
  vr_padding :: bytes
  vr_crc :: u32

definition vtbl_record_body :: "ubi_vtbl_record \<Rightarrow> bytes" where
  "vtbl_record_body r = be32 (vr_reserved_pebs r) @ be32 (vr_alignment r) @ be32 (vr_data_pad r)
     @ [vr_vol_type r, vr_upd_marker r] @ be16 (vr_name_len r) @ vr_name r @ [vr_flags r]
     @ vr_padding r"

definition vtbl_record_bytes :: "ubi_vtbl_record \<Rightarrow> bytes" where
  "vtbl_record_bytes r = vtbl_record_body r @ be32 (vr_crc r)"

definition vtbl_record_of_bytes :: "bytes \<Rightarrow> ubi_vtbl_record" where
  "vtbl_record_of_bytes bs =
     \<lparr>vr_reserved_pebs = be_word (take 4 bs), vr_alignment = be_word (take 4 (drop 4 bs)),
      vr_data_pad = be_word (take 4 (drop 8 bs)), vr_vol_type = bs ! 12, vr_upd_marker = bs ! 13,
      vr_name_len = be_word (take 2 (drop 14 bs)), vr_name = take 128 (drop 16 bs),
      vr_flags = bs ! 144, vr_padding = take 23 (drop 145 bs),
      vr_crc = be_word (take 4 (drop 168 bs))\<rparr>"

definition vtbl_record_wf :: "ubi_vtbl_record \<Rightarrow> bool" where
  "vtbl_record_wf r \<longleftrightarrow> length (vr_name r) = UBI_VOL_NAME_MAX + 1 \<and> length (vr_padding r) = 23"

lemma length_vtbl_record [len_simps]:
  "vtbl_record_wf r \<Longrightarrow> length (vtbl_record_body r) = 168"
  "vtbl_record_wf r \<Longrightarrow> length (vtbl_record_bytes r) = 172"
  by (simp_all add: vtbl_record_wf_def vtbl_record_body_def vtbl_record_bytes_def ubi_sizes)

lemma vtbl_record_of_bytes_bytes [codec_simps]:
  assumes "vtbl_record_wf r"
  shows "vtbl_record_of_bytes (vtbl_record_bytes r) = r"
  using assms
  by (simp add: vtbl_record_of_bytes_def vtbl_record_bytes_def vtbl_record_body_def
      vtbl_record_wf_def ubi_sizes codec_simps nth_append)

definition vtbl_record_crc :: "ubi_vtbl_record \<Rightarrow> u32" where
  "vtbl_record_crc r = mtd_crc32 UBI_CRC32_INIT (vtbl_record_bytes r) UBI_VTBL_RECORD_SIZE_CRC"

lemma vtbl_record_crc_body:
  "vtbl_record_wf r \<Longrightarrow> vtbl_record_crc r = foldl crc32_byte UBI_CRC32_INIT (vtbl_record_body r)"
  using length_vtbl_record(1) [of r]
  by (simp add: vtbl_record_crc_def mtd_crc32_def vtbl_record_bytes_def ubi_sizes)

section \<open>The interface of a checksummed structure\<close>

text \<open>
  All three structures end in a CRC-32 of everything before it. What the writers and the scanner
  rely on is proved for any such structure: the checksum of a sealed structure is the one computed
  from its own image, and sealing does not change the body.
\<close>

definition crc_ok :: "bytes \<Rightarrow> nat \<Rightarrow> u32 \<Rightarrow> bool" where
  "crc_ok img blen c \<longleftrightarrow> c = mtd_crc32 UBI_CRC32_INIT img (int blen)"

locale crc_sealed =
  fixes body :: "'h \<Rightarrow> bytes" and image :: "'h \<Rightarrow> bytes" and parse :: "bytes \<Rightarrow> 'h"
    and crc :: "'h \<Rightarrow> u32" and seal :: "u32 \<Rightarrow> 'h \<Rightarrow> 'h" and wf :: "'h \<Rightarrow> bool" and blen :: nat
  assumes image: "image h = body h @ be32 (crc h)"
    and body_seal: "body (seal c h) = body h"
    and crc_seal: "crc (seal c h) = c"
    and wf_seal: "wf (seal c h) = wf h"
    and length_body: "wf h \<Longrightarrow> length (body h) = blen"
    and parse_image: "wf h \<Longrightarrow> parse (image h) = h"
begin

lemma image_inject: "wf h \<Longrightarrow> wf h' \<Longrightarrow> image h = image h' \<Longrightarrow> h = h'"
  by (metis parse_image)

lemma length_image: "wf h \<Longrightarrow> length (image h) = blen + 4"
  by (simp add: image length_body)

lemma image_crc:
  "wf h \<Longrightarrow> mtd_crc32 UBI_CRC32_INIT (image h) (int blen) = foldl crc32_byte UBI_CRC32_INIT (body h)"
  by (simp add: image mtd_crc32_def length_body)

lemma crc_ok_image:
  "wf h \<Longrightarrow> crc_ok (image h) blen (crc h) \<longleftrightarrow> crc h = foldl crc32_byte UBI_CRC32_INIT (body h)"
  by (simp add: crc_ok_def image_crc)

lemma seal_ok:
  assumes "wf h" and "h' = seal (mtd_crc32 UBI_CRC32_INIT (image h) (int blen)) h"
  shows "crc_ok (image h') blen (crc h')"
  using assms by (simp add: crc_ok_def crc_seal image_crc wf_seal body_seal)

lemma burst_invalid:
  assumes "wf h" and "wf h'" and "crc_ok (image h) blen (crc h)" and "crc h' = crc h"
    and "body h = pre @ e @ post" and "body h' = pre @ e' @ post"
    and "length e = length e'" and "length e \<le> 4" and "e \<noteq> e'"
  shows "\<not> crc_ok (image h') blen (crc h')"
  using assms crc32.burst_detected [of e e' UBI_CRC32_INIT pre post]
  by (simp add: crc_ok_def image_crc)

lemma crc_change_invalid:
  assumes "wf h" and "wf h'" and "crc_ok (image h) blen (crc h)" and "body h' = body h"
    and "crc h' \<noteq> crc h"
  shows "\<not> crc_ok (image h') blen (crc h')"
  using assms by (simp add: crc_ok_image)

end

interpretation ec_hdr: crc_sealed ec_hdr_body ec_hdr_bytes ec_hdr_of_bytes ech_hdr_crc
  "\<lambda>c h. h\<lparr>ech_hdr_crc := c\<rparr>" ec_hdr_wf 60
proof unfold_locales
  show "ec_hdr_wf h \<Longrightarrow> ec_hdr_of_bytes (ec_hdr_bytes h) = h" for h
    by (rule ec_hdr_of_bytes_bytes)
  show "ec_hdr_wf h \<Longrightarrow> length (ec_hdr_body h) = 60" for h
    by (rule length_ec_hdr)
qed (simp_all add: ec_hdr_bytes_def ec_hdr_body_def ec_hdr_wf_def)

interpretation vid_hdr: crc_sealed vid_hdr_body vid_hdr_bytes vid_hdr_of_bytes vh_hdr_crc
  "\<lambda>c h. h\<lparr>vh_hdr_crc := c\<rparr>" vid_hdr_wf 60
proof unfold_locales
  show "vid_hdr_wf h \<Longrightarrow> vid_hdr_of_bytes (vid_hdr_bytes h) = h" for h
    by (rule vid_hdr_of_bytes_bytes)
  show "vid_hdr_wf h \<Longrightarrow> length (vid_hdr_body h) = 60" for h
    by (rule length_vid_hdr)
qed (simp_all add: vid_hdr_bytes_def vid_hdr_body_def vid_hdr_wf_def)

interpretation vtbl_record: crc_sealed vtbl_record_body vtbl_record_bytes vtbl_record_of_bytes vr_crc
  "\<lambda>c r. r\<lparr>vr_crc := c\<rparr>" vtbl_record_wf 168
proof unfold_locales
  show "vtbl_record_wf h \<Longrightarrow> vtbl_record_of_bytes (vtbl_record_bytes h) = h" for h
    by (rule vtbl_record_of_bytes_bytes)
  show "vtbl_record_wf h \<Longrightarrow> length (vtbl_record_body h) = 168" for h
    by (rule length_vtbl_record)
qed (simp_all add: vtbl_record_bytes_def vtbl_record_body_def vtbl_record_wf_def)

end
