(* ===== verification/UbiGen.thy ===== *)
theory UbiGen
  imports UbiMedia
begin

text \<open>
  The UBI image generator (\<open>ubi-utils/libubigen.c\<close>), which \<open>ubinize\<close> drives: the geometry of an
  image, the volume table, the two headers, and the writing of a volume and of the layout volume as
  physical eraseblocks. The input of \<open>ubigen_write_volume\<close> is the list of bytes the input descriptor
  still holds; whether the write of eraseblock \<open>k\<close> transfers it completely is the argument \<open>wr\<close>; the
  bytes of a freshly allocated buffer are the argument \<open>junk\<close>, and the theorems hold for every one.
\<close>

section \<open>The code\<close>

record ubigen_info =
  ui_leb_size :: int
  ui_peb_size :: int
  ui_min_io_size :: int
  ui_vid_hdr_offs :: int
  ui_data_offs :: int
  ui_ubi_ver :: int
  ui_vtbl_size :: int
  ui_max_volumes :: int
  ui_image_seq :: u32

record ubigen_vol_info =
  vi_id :: int
  vi_type :: int
  vi_alignment :: int
  vi_data_pad :: int
  vi_usable_leb_size :: int
  vi_name :: bytes
  vi_name_len :: int
  vi_compat :: int
  vi_used_ebs :: int
  vi_bytes :: int
  vi_flags :: u8

text \<open>The header sizes are \<open>size_t\<close> constants: a sum with one of them is computed modulo \<open>2 ^ 64\<close> and
  converted back to \<open>int\<close>; the division of \<open>leb_size\<close> by one of them is unsigned.\<close>

definition ubigen_info_init ::
    "int \<Rightarrow> int \<Rightarrow> int \<Rightarrow> int \<Rightarrow> int \<Rightarrow> u32 \<Rightarrow> (unit, ubigen_info) outcome" where
  "ubigen_info_init peb_size min_io_size subpage_size vid_hdr_offs ubi_ver image_seq =
     (if min_io_size = 0 \<or> (vid_hdr_offs = 0 \<and> subpage_size = 0) then Undef
      else
        let vid = (if vid_hdr_offs = 0
                   then (to_int32 (UBI_EC_HDR_SIZE + subpage_size - 1) sdiv subpage_size) * subpage_size
                   else vid_hdr_offs);
            dat = (to_int32 (vid + UBI_VID_HDR_SIZE + min_io_size - 1) sdiv min_io_size) * min_io_size;
            leb = peb_size - dat;
            maxv = to_int32 ((leb mod 2 ^ 64) div UBI_VTBL_RECORD_SIZE);
            maxv = (if maxv > UBI_MAX_VOLUMES then UBI_MAX_VOLUMES else maxv)
        in Ret \<lparr>ui_leb_size = leb, ui_peb_size = peb_size, ui_min_io_size = min_io_size,
                ui_vid_hdr_offs = vid, ui_data_offs = dat, ui_ubi_ver = ubi_ver,
                ui_vtbl_size = to_int32 (maxv * UBI_VTBL_RECORD_SIZE), ui_max_volumes = maxv,
                ui_image_seq = image_seq\<rparr>)"

definition zero_record :: ubi_vtbl_record where
  "zero_record = \<lparr>vr_reserved_pebs = 0, vr_alignment = 0, vr_data_pad = 0, vr_vol_type = 0,
     vr_upd_marker = 0, vr_name_len = 0, vr_name = replicate (UBI_VOL_NAME_MAX + 1) 0, vr_flags = 0,
     vr_padding = replicate 23 0, vr_crc = 0\<rparr>"

definition seal_record :: "ubi_vtbl_record \<Rightarrow> ubi_vtbl_record" where
  "seal_record r = r\<lparr>vr_crc := mtd_crc32 UBI_CRC32_INIT (vtbl_record_bytes r) UBI_VTBL_RECORD_SIZE_CRC\<rparr>"

definition ubigen_create_empty_vtbl :: "ubigen_info \<Rightarrow> ubi_vtbl_record list" where
  "ubigen_create_empty_vtbl ui = replicate (nat (ui_max_volumes ui)) (seal_record zero_record)"

datatype ubigen_error = Too_high_volume_id | Too_large_alignment | Cannot_read | Cannot_write | Cannot_seek

definition ubigen_add_volume :: "ubigen_info \<Rightarrow> ubigen_vol_info \<Rightarrow> ubi_vtbl_record list \<Rightarrow>
    (ubigen_error, ubi_vtbl_record list) outcome" where
  "ubigen_add_volume ui vi vtbl =
     (if vi_id vi \<ge> ui_max_volumes ui then Err Too_high_volume_id
      else if vi_alignment vi \<ge> ui_leb_size ui then Err Too_large_alignment
      else if vi_id vi < 0 \<or> nat (vi_id vi) \<ge> length vtbl \<or> ui_leb_size ui = 0 \<or> vi_alignment vi = 0
         \<or> vi_name_len vi < 0 \<or> vi_name_len vi > int (length (vi_name vi))
         \<or> vi_name_len vi > int UBI_VOL_NAME_MAX \<or> vi_bytes vi + ui_leb_size ui \<ge> 2 ^ 63 then Undef
      else
        let len = nat (vi_name_len vi);
            r = zero_record\<lparr>
              vr_reserved_pebs := word_of_int ((vi_bytes vi + ui_leb_size ui - 1) sdiv ui_leb_size ui),
              vr_alignment := word_of_int (vi_alignment vi),
              vr_vol_type := word_of_int (vi_type vi),
              vr_data_pad := word_of_int (ui_leb_size ui smod vi_alignment vi),
              vr_flags := vi_flags vi,
              vr_name := (overwrite 0 (take len (vi_name vi)) (vr_name zero_record)) [len := 0],
              vr_name_len := word_of_int (vi_name_len vi)\<rparr>
        in Ret (vtbl [nat (vi_id vi) := seal_record r]))"

definition ubigen_init_ec_hdr :: "ubigen_info \<Rightarrow> int \<Rightarrow> ubi_ec_hdr" where
  "ubigen_init_ec_hdr ui ec =
     (let hdr = \<lparr>ech_magic = UBI_EC_HDR_MAGIC, ech_version = word_of_int (ui_ubi_ver ui),
                 ech_padding1 = replicate 3 0, ech_ec = word_of_int ec,
                 ech_vid_hdr_offset = word_of_int (ui_vid_hdr_offs ui),
                 ech_data_offset = word_of_int (ui_data_offs ui),
                 ech_image_seq = ui_image_seq ui, ech_padding2 = replicate 32 0, ech_hdr_crc = 0\<rparr>
      in hdr\<lparr>ech_hdr_crc := mtd_crc32 UBI_CRC32_INIT (ec_hdr_bytes hdr) UBI_EC_HDR_SIZE_CRC\<rparr>)"

definition ubigen_init_vid_hdr ::
    "ubigen_info \<Rightarrow> ubigen_vol_info \<Rightarrow> int \<Rightarrow> bytes \<Rightarrow> int \<Rightarrow> ubi_vid_hdr" where
  "ubigen_init_vid_hdr ui vi lnum data data_size =
     (let static = (vi_type vi = UBI_VID_STATIC);
          hdr = \<lparr>vh_magic = UBI_VID_HDR_MAGIC, vh_version = word_of_int (ui_ubi_ver ui),
                 vh_vol_type = word_of_int (vi_type vi), vh_copy_flag = 0,
                 vh_compat = word_of_int (vi_compat vi), vh_vol_id = word_of_int (vi_id vi),
                 vh_lnum = word_of_int lnum, vh_leb_ver = 0,
                 vh_data_size = (if static then word_of_int data_size else 0),
                 vh_used_ebs = (if static then word_of_int (vi_used_ebs vi) else 0),
                 vh_data_pad = word_of_int (vi_data_pad vi),
                 vh_data_crc = (if static then mtd_crc32 UBI_CRC32_INIT data data_size else 0),
                 vh_padding2 = replicate 4 0, vh_sqnum = 0, vh_padding3 = replicate 12 0,
                 vh_hdr_crc = 0\<rparr>
      in hdr\<lparr>vh_hdr_crc := mtd_crc32 UBI_CRC32_INIT (vid_hdr_bytes hdr) UBI_VID_HDR_SIZE_CRC\<rparr>)"

text \<open>One turn of the writing loop fills the output buffer: the volume identifier header, then the
  data, then \<open>0xFF\<close> up to the end of the eraseblock.\<close>

definition fill_peb :: "ubigen_info \<Rightarrow> ubigen_vol_info \<Rightarrow> int \<Rightarrow> bytes \<Rightarrow> bytes \<Rightarrow> bytes" where
  "fill_peb ui vi lnum inbuf outbuf =
     (let len = length inbuf;
          off = nat (ui_data_offs ui);
          b1 = overwrite (nat (ui_vid_hdr_offs ui))
                 (vid_hdr_bytes (ubigen_init_vid_hdr ui vi lnum inbuf (int len))) outbuf;
          b2 = overwrite off inbuf b1
      in overwrite (off + len) (memset 0xFF (nat (ui_peb_size ui) - off - len)) b2)"

text \<open>The buffer accesses of the loop stay inside the two allocations.\<close>

definition bufs_ok :: "ubigen_info \<Rightarrow> nat \<Rightarrow> bool" where
  "bufs_ok ui len \<longleftrightarrow>
     0 \<le> ui_vid_hdr_offs ui \<and> ui_vid_hdr_offs ui + UBI_VID_HDR_SIZE \<le> ui_peb_size ui
     \<and> 0 \<le> ui_data_offs ui \<and> ui_data_offs ui + int len \<le> ui_peb_size ui \<and> int len \<le> ui_leb_size ui"

text \<open>The loop reads a full logical eraseblock, or what is left, and writes one physical eraseblock.
  With a length of zero it would go round forever. \<open>read\<close> returns the number of bytes asked for as long as the input has
  them; a call that fails or returns fewer bytes behaves as input that ends there: both are refused with the same error, after
  the same eraseblocks were written.\<close>

function write_pebs :: "(nat \<Rightarrow> bool) \<Rightarrow> ubigen_info \<Rightarrow> ubigen_vol_info \<Rightarrow> bytes \<Rightarrow> nat \<Rightarrow> nat \<Rightarrow> nat \<Rightarrow>
    bytes \<Rightarrow> (ubigen_error, bytes list) outcome" where
  "write_pebs wr ui vi outbuf len lnum todo inp =
     (if todo = 0 then Ret []
      else if len = 0 then Undef
      else let l = (if todo < len then todo else len) in
        if \<not> bufs_ok ui l then Undef
        else if length inp < l then Err Cannot_read
        else let peb = fill_peb ui vi (int lnum) (take l inp) outbuf in
          if \<not> wr lnum then Err Cannot_write
          else case write_pebs wr ui vi peb l (Suc lnum) (todo - l) (drop l inp) of
                 Ret ps \<Rightarrow> Ret (peb # ps) | Err e \<Rightarrow> Err e | Undef \<Rightarrow> Undef)"
  by pat_completeness auto
termination
  by (relation "measure (\<lambda>(wr, ui, vi, outbuf, len, lnum, todo, inp). todo)") auto

definition first_outbuf :: "ubigen_info \<Rightarrow> int \<Rightarrow> bytes \<Rightarrow> bytes" where
  "first_outbuf ui ec junk =
     overwrite 0 (ec_hdr_bytes (ubigen_init_ec_hdr ui ec))
       (overwrite 0 (memset 0xFF (nat (ui_data_offs ui))) junk)"

definition ubigen_write_volume :: "bytes \<Rightarrow> (nat \<Rightarrow> bool) \<Rightarrow> ubigen_info \<Rightarrow> ubigen_vol_info \<Rightarrow> int \<Rightarrow>
    int \<Rightarrow> bytes \<Rightarrow> (ubigen_error, bytes list) outcome" where
  "ubigen_write_volume junk wr ui vi ec bytes inp =
     (if vi_id vi \<ge> ui_max_volumes ui then Err Too_high_volume_id
      else if vi_alignment vi \<ge> ui_leb_size ui then Err Too_large_alignment
      else if ui_data_offs ui < 0 \<or> ui_data_offs ui > ui_peb_size ui \<or> ui_peb_size ui < UBI_EC_HDR_SIZE
         \<or> bytes < 0 \<or> vi_usable_leb_size vi < 0 then Undef
      else write_pebs wr ui vi (first_outbuf ui ec junk) (nat (vi_usable_leb_size vi)) 0 (nat bytes) inp)"

declare write_pebs.simps [simp del]

section \<open>The layout volume\<close>

definition layout_vol :: "ubigen_info \<Rightarrow> ubigen_vol_info" where
  "layout_vol ui =
     (let pad = ui_leb_size ui smod UBI_LAYOUT_VOLUME_ALIGN;
          usable = ui_leb_size ui - pad
      in \<lparr>vi_id = UBI_INTERNAL_VOL_START, vi_type = UBI_VID_DYNAMIC,
          vi_alignment = UBI_LAYOUT_VOLUME_ALIGN, vi_data_pad = ui_leb_size ui - usable,
          vi_usable_leb_size = usable,
          vi_name = map of_char UBI_LAYOUT_VOLUME_NAME,
          vi_name_len = int (length UBI_LAYOUT_VOLUME_NAME), vi_compat = UBI_COMPAT_REJECT,
          vi_used_ebs = 0, vi_bytes = ui_leb_size ui * UBI_LAYOUT_VOLUME_EBS, vi_flags = 0\<rparr>)"

text \<open>A write at an offset of a regular file: the file is extended with zeros as needed.\<close>

definition file_write :: "nat \<Rightarrow> bytes \<Rightarrow> bytes \<Rightarrow> bytes" where
  "file_write off buf f = overwrite off buf (f @ replicate (off + length buf - length f) 0)"

text \<open>The two headers of one copy, written into the output buffer.\<close>

definition layout_headers :: "ubigen_info \<Rightarrow> int \<Rightarrow> int \<Rightarrow> bytes \<Rightarrow> bytes" where
  "layout_headers ui ec lnum outbuf =
     overwrite (nat (ui_vid_hdr_offs ui))
       (vid_hdr_bytes (ubigen_init_vid_hdr ui (layout_vol ui) lnum [] 0))
       (overwrite 0 (ec_hdr_bytes (ubigen_init_ec_hdr ui ec)) outbuf)"

definition layout_outbuf :: "ubigen_info \<Rightarrow> bytes \<Rightarrow> bytes \<Rightarrow> bytes" where
  "layout_outbuf ui vtbl junk =
     (let off = nat (ui_data_offs ui); sz = nat (ui_vtbl_size ui)
      in overwrite (off + sz) (memset 0xFF (nat (ui_peb_size ui) - off - sz))
           (overwrite off (take sz vtbl) (overwrite 0 (memset 0xFF off) junk)))"

text \<open>\<open>io k\<close> says whether the \<open>k\<close>-th of the four seek and write calls succeeds.\<close>

definition ubigen_write_layout_vol :: "bytes \<Rightarrow> (nat \<Rightarrow> bool) \<Rightarrow> ubigen_info \<Rightarrow> nat \<Rightarrow> nat \<Rightarrow> int \<Rightarrow> int \<Rightarrow>
    bytes \<Rightarrow> bytes \<Rightarrow> (ubigen_error, unit) outcome \<times> bytes" where
  "ubigen_write_layout_vol junk io ui peb1 peb2 ec1 ec2 vtbl fd =
     (if ui_data_offs ui < 0 \<or> ui_vtbl_size ui < 0 \<or> ui_data_offs ui + ui_vtbl_size ui > ui_peb_size ui
        \<or> ui_vid_hdr_offs ui < 0 \<or> ui_vid_hdr_offs ui + UBI_VID_HDR_SIZE > ui_peb_size ui
        \<or> ui_peb_size ui < UBI_EC_HDR_SIZE \<or> int (length vtbl) < ui_vtbl_size ui then (Undef, fd)
      else
        let outbuf = layout_outbuf ui vtbl junk;
            sz = nat (ui_peb_size ui)
        in if \<not> io 0 then (Err Cannot_seek, fd)
           else
             let outbuf = layout_headers ui ec1 0 outbuf
             in if \<not> io 1 then (Err Cannot_write, fd)
                else
                  let fd = file_write (peb1 * sz) outbuf fd
                  in if \<not> io 2 then (Err Cannot_seek, fd)
                     else
                       let outbuf = layout_headers ui ec2 1 outbuf
                       in if \<not> io 3 then (Err Cannot_write, fd)
                          else (Ret (), file_write (peb2 * sz) outbuf fd))"

section \<open>The headers the generator makes\<close>

lemma ubigen_init_ec_hdr_wf [simp]: "ec_hdr_wf (ubigen_init_ec_hdr ui ec)"
  by (simp add: ubigen_init_ec_hdr_def ec_hdr_wf_def)

lemma ubigen_init_vid_hdr_wf [simp]: "vid_hdr_wf (ubigen_init_vid_hdr ui vi lnum data sz)"
  by (simp add: ubigen_init_vid_hdr_def vid_hdr_wf_def Let_def)

lemma ubigen_init_ec_hdr_fields [simp]:
  "ech_magic (ubigen_init_ec_hdr ui ec) = UBI_EC_HDR_MAGIC"
  "ech_ec (ubigen_init_ec_hdr ui ec) = word_of_int ec"
  "ech_vid_hdr_offset (ubigen_init_ec_hdr ui ec) = word_of_int (ui_vid_hdr_offs ui)"
  "ech_data_offset (ubigen_init_ec_hdr ui ec) = word_of_int (ui_data_offs ui)"
  by (simp_all add: ubigen_init_ec_hdr_def Let_def)

lemma ubigen_init_ec_hdr_crc:
  "crc_ok (ec_hdr_bytes (ubigen_init_ec_hdr ui ec)) 60 (ech_hdr_crc (ubigen_init_ec_hdr ui ec))"
proof (rule ec_hdr.seal_ok)
  let ?h = "(ubigen_init_ec_hdr ui ec)\<lparr>ech_hdr_crc := 0\<rparr>"
  show "ec_hdr_wf ?h" by (simp add: ec_hdr_wf_def ubigen_init_ec_hdr_def Let_def)
  show "ubigen_init_ec_hdr ui ec =
      ?h\<lparr>ech_hdr_crc := mtd_crc32 UBI_CRC32_INIT (ec_hdr_bytes ?h) (int 60)\<rparr>"
    by (simp add: ubigen_init_ec_hdr_def Let_def ubi_sizes)
qed

lemma ubigen_init_vid_hdr_crc:
  "crc_ok (vid_hdr_bytes (ubigen_init_vid_hdr ui vi lnum data sz)) 60
     (vh_hdr_crc (ubigen_init_vid_hdr ui vi lnum data sz))"
proof (rule vid_hdr.seal_ok)
  let ?h = "(ubigen_init_vid_hdr ui vi lnum data sz)\<lparr>vh_hdr_crc := 0\<rparr>"
  show "vid_hdr_wf ?h" by (simp add: vid_hdr_wf_def ubigen_init_vid_hdr_def Let_def)
  show "ubigen_init_vid_hdr ui vi lnum data sz =
      ?h\<lparr>vh_hdr_crc := mtd_crc32 UBI_CRC32_INIT (vid_hdr_bytes ?h) (int 60)\<rparr>"
    by (simp add: ubigen_init_vid_hdr_def Let_def ubi_sizes)
qed

section \<open>The eraseblocks the generator writes\<close>

text \<open>The geometry the writing functions rely on.\<close>

definition geometry :: "ubigen_info \<Rightarrow> bool" where
  "geometry ui \<longleftrightarrow>
     UBI_EC_HDR_SIZE \<le> ui_vid_hdr_offs ui
     \<and> ui_vid_hdr_offs ui + UBI_VID_HDR_SIZE \<le> ui_data_offs ui
     \<and> ui_data_offs ui + ui_leb_size ui = ui_peb_size ui \<and> 0 < ui_leb_size ui
     \<and> ui_peb_size ui < 2 ^ 31"

lemma geometryD:
  assumes "geometry ui"
  shows "64 \<le> nat (ui_vid_hdr_offs ui)" "nat (ui_vid_hdr_offs ui) + 64 \<le> nat (ui_data_offs ui)"
    and "nat (ui_peb_size ui) = nat (ui_data_offs ui) + nat (ui_leb_size ui)" "0 < nat (ui_leb_size ui)"
  using assms by (auto simp: geometry_def ubi_sizes nat_add_distrib [symmetric])

text \<open>What an eraseblock of a volume looks like.\<close>

definition peb_image :: "ubigen_info \<Rightarrow> int \<Rightarrow> bytes \<Rightarrow> bytes \<Rightarrow> bytes" where
  "peb_image ui ec vid data =
     ec_hdr_bytes (ubigen_init_ec_hdr ui ec) @ memset 0xFF (nat (ui_vid_hdr_offs ui) - 64)
     @ vid @ memset 0xFF (nat (ui_data_offs ui) - nat (ui_vid_hdr_offs ui) - 64)
     @ data @ memset 0xFF (nat (ui_leb_size ui) - length data)"

definition volume_peb :: "ubigen_info \<Rightarrow> ubigen_vol_info \<Rightarrow> int \<Rightarrow> nat \<times> bytes \<Rightarrow> bytes" where
  "volume_peb ui vi ec = (\<lambda>(lnum, data). peb_image ui ec
     (vid_hdr_bytes (ubigen_init_vid_hdr ui vi (int lnum) data (int (length data)))) data)"

definition outbuf_shape :: "ubigen_info \<Rightarrow> int \<Rightarrow> bytes \<Rightarrow> bool" where
  "outbuf_shape ui ec b \<longleftrightarrow> (\<exists>vid rest. length vid = 64 \<and> length rest = nat (ui_leb_size ui) \<and>
     b = ec_hdr_bytes (ubigen_init_ec_hdr ui ec) @ memset 0xFF (nat (ui_vid_hdr_offs ui) - 64)
         @ vid @ memset 0xFF (nat (ui_data_offs ui) - nat (ui_vid_hdr_offs ui) - 64) @ rest)"

lemma fill_peb_image:
  assumes g: "geometry ui" and b: "outbuf_shape ui ec b" and len: "length data \<le> nat (ui_leb_size ui)"
  shows "fill_peb ui vi (int lnum) data b = volume_peb ui vi ec (lnum, data)"
proof -
  obtain vid rest where r: "length vid = 64" "length rest = nat (ui_leb_size ui)"
      "b = ec_hdr_bytes (ubigen_init_ec_hdr ui ec) @ memset 0xFF (nat (ui_vid_hdr_offs ui) - 64)
         @ vid @ memset 0xFF (nat (ui_data_offs ui) - nat (ui_vid_hdr_offs ui) - 64) @ rest"
    using b unfolding outbuf_shape_def by blast
  define E where "E = ec_hdr_bytes (ubigen_init_ec_hdr ui ec) @ memset 0xFF (nat (ui_vid_hdr_offs ui) - 64)"
  define V where "V = vid_hdr_bytes (ubigen_init_vid_hdr ui vi (int lnum) data (int (length data)))"
  define F where "F = memset 0xFF (nat (ui_data_offs ui) - nat (ui_vid_hdr_offs ui) - 64)"
  have E: "length E = nat (ui_vid_hdr_offs ui)"
    using geometryD [OF g] by (simp add: E_def length_ec_hdr)
  have V: "length V = 64" by (simp add: V_def length_vid_hdr)
  have EVF: "length (E @ V @ F) = nat (ui_data_offs ui)"
    using geometryD [OF g] E V by (simp add: F_def)
  let ?n = "length data"
  have b1: "overwrite (nat (ui_vid_hdr_offs ui)) V b = E @ V @ F @ rest"
    using overwrite_append [OF E, of vid V "F @ rest"] r V by (simp add: E_def F_def)
  have b2: "overwrite (nat (ui_data_offs ui)) data ((E @ V @ F) @ take ?n rest @ drop ?n rest)
      = (E @ V @ F) @ data @ drop ?n rest"
    by (rule overwrite_append [OF EVF]) (use len r in simp)
  have b3: "overwrite (nat (ui_data_offs ui) + ?n) (memset 0xFF (nat (ui_leb_size ui) - ?n))
        ((E @ V @ F @ data) @ drop ?n rest @ [])
      = (E @ V @ F @ data) @ memset 0xFF (nat (ui_leb_size ui) - ?n) @ []"
    by (rule overwrite_append) (use EVF r in simp_all)
  have "nat (ui_peb_size ui) - (nat (ui_data_offs ui) + ?n) = nat (ui_leb_size ui) - ?n"
    using geometryD [OF g] by simp
  then show ?thesis
    using b1 b2 b3
    by (simp add: fill_peb_def Let_def volume_peb_def peb_image_def V_def [symmetric] E_def F_def)
qed

lemma volume_peb_shape:
  assumes "length data \<le> nat (ui_leb_size ui)"
  shows "outbuf_shape ui ec (volume_peb ui vi ec (lnum, data))"
  unfolding outbuf_shape_def volume_peb_def peb_image_def case_prod_conv
  by (rule exI [of _ "vid_hdr_bytes (ubigen_init_vid_hdr ui vi (int lnum) data (int (length data)))"],
      rule exI [of _ "data @ memset 0xFF (nat (ui_leb_size ui) - length data)"])
     (use assms in \<open>simp add: length_vid_hdr\<close>)

lemma first_outbuf_shape:
  assumes g: "geometry ui" and junk: "length junk = nat (ui_peb_size ui)"
  shows "outbuf_shape ui ec (first_outbuf ui ec junk)"
proof -
  note G = geometryD [OF g]
  let ?v = "nat (ui_vid_hdr_offs ui)" and ?d = "nat (ui_data_offs ui)"
  have split: "memset 0xFF ?d = memset 0xFF 64 @ memset 0xFF (?v - 64) @ memset 0xFF 64
      @ memset 0xFF (?d - ?v - 64)"
    using G by (simp add: memset_def replicate_add [symmetric])
  have "overwrite 0 (memset 0xFF ?d) junk = memset 0xFF ?d @ drop ?d junk"
    by (simp add: overwrite_def)
  then have "first_outbuf ui ec junk = ec_hdr_bytes (ubigen_init_ec_hdr ui ec)
      @ memset 0xFF (?v - 64) @ memset 0xFF 64 @ memset 0xFF (?d - ?v - 64) @ drop ?d junk"
    unfolding first_outbuf_def using split
    by (simp add: overwrite_0 length_ec_hdr)
  then show ?thesis unfolding outbuf_shape_def
    using G junk by (intro exI [of _ "memset 0xFF 64"] exI [of _ "drop ?d junk"]) simp
qed

lemma bufs_ok_geometry: "geometry ui \<Longrightarrow> l \<le> nat (ui_leb_size ui) \<Longrightarrow> bufs_ok ui l"
  by (auto simp: bufs_ok_def geometry_def ubi_sizes)

lemma write_pebs_image:
  assumes g: "geometry ui" and wr: "\<forall>k. wr k"
    and "outbuf_shape ui ec b" and "todo \<le> length inp" and "0 < len" and "len \<le> nat (ui_leb_size ui)"
  shows "write_pebs wr ui vi b len lnum todo inp
       = Ret (map (volume_peb ui vi ec) (enumerate lnum (chunks len (take todo inp))))"
  using assms(3-)
proof (induction todo arbitrary: b len lnum inp rule: less_induct)
  case (less todo)
  show ?case
  proof (cases "todo = 0")
    case True
    then show ?thesis by (simp add: write_pebs.simps [of wr ui vi b])
  next
    case False
    define l where "l = (if todo < len then todo else len)"
    have l: "0 < l" "l \<le> nat (ui_leb_size ui)" "l \<le> length inp" "l \<le> todo"
      using less.prems False by (auto simp: l_def)
    have peb: "fill_peb ui vi (int lnum) (take l inp) b = volume_peb ui vi ec (lnum, take l inp)"
      by (rule fill_peb_image [OF g less.prems(1)]) (use l in simp)
    have shape: "outbuf_shape ui ec (volume_peb ui vi ec (lnum, take l inp))"
      by (rule volume_peb_shape) (use l in simp)
    have rec: "write_pebs wr ui vi (volume_peb ui vi ec (lnum, take l inp)) l (Suc lnum) (todo - l) (drop l inp)
        = Ret (map (volume_peb ui vi ec) (enumerate (Suc lnum) (chunks l (take (todo - l) (drop l inp)))))"
      by (rule less.IH [OF _ shape]) (use l less.prems in auto)
    have step: "write_pebs wr ui vi b len lnum todo inp
        = Ret (volume_peb ui vi ec (lnum, take l inp) #
            map (volume_peb ui vi ec) (enumerate (Suc lnum) (chunks l (take (todo - l) (drop l inp)))))"
      using rec peb l less.prems False bufs_ok_geometry [OF g l(2)] wr
      by (simp add: write_pebs.simps [of wr ui vi b len lnum todo inp] l_def [symmetric] Let_def)
    have "take todo inp \<noteq> []" using False less.prems(2) by auto
    then have "chunks len (take todo inp) = take l inp # chunks l (take (todo - l) (drop l inp))"
      using less.prems(3) False
      by (simp add: chunks.simps [of len] l_def drop_take min_def)
    with step show ?thesis by simp
  qed
qed

text \<open>Reading an eraseblock.\<close>

definition peb_ec_hdr :: "bytes \<Rightarrow> ubi_ec_hdr" where
  "peb_ec_hdr p = ec_hdr_of_bytes (take 64 p)"

definition peb_vid_hdr :: "ubigen_info \<Rightarrow> bytes \<Rightarrow> ubi_vid_hdr" where
  "peb_vid_hdr ui p = vid_hdr_of_bytes (take 64 (drop (nat (ui_vid_hdr_offs ui)) p))"

definition peb_data :: "ubigen_info \<Rightarrow> nat \<Rightarrow> bytes \<Rightarrow> bytes" where
  "peb_data ui k p = take k (drop (nat (ui_data_offs ui)) p)"

lemma peb_image_reads:
  assumes g: "geometry ui" and h: "vid_hdr_wf h" and len: "length data \<le> nat (ui_leb_size ui)"
  shows "length (peb_image ui ec (vid_hdr_bytes h) data) = nat (ui_peb_size ui)"
    and "take 64 (peb_image ui ec (vid_hdr_bytes h) data) = ec_hdr_bytes (ubigen_init_ec_hdr ui ec)"
    and "peb_ec_hdr (peb_image ui ec (vid_hdr_bytes h) data) = ubigen_init_ec_hdr ui ec"
    and "peb_vid_hdr ui (peb_image ui ec (vid_hdr_bytes h) data) = h"
    and "peb_data ui (length data) (peb_image ui ec (vid_hdr_bytes h) data) = data"
    and "take 64 (drop (nat (ui_vid_hdr_offs ui)) (peb_image ui ec (vid_hdr_bytes h) data)) = vid_hdr_bytes h"
proof -
  note G = geometryD [OF g]
  let ?E = "ec_hdr_bytes (ubigen_init_ec_hdr ui ec)" and ?V = "vid_hdr_bytes h"
  let ?a = "memset 0xFF (nat (ui_vid_hdr_offs ui) - 64)"
  let ?b = "memset 0xFF (nat (ui_data_offs ui) - nat (ui_vid_hdr_offs ui) - 64)"
  let ?c = "memset 0xFF (nat (ui_leb_size ui) - length data)"
  have E: "length ?E = 64" and V: "length ?V = 64" using h by (simp_all add: length_ec_hdr length_vid_hdr)
  have img: "peb_image ui ec ?V data = ?E @ ?a @ ?V @ ?b @ data @ ?c" by (simp add: peb_image_def)
  show "length (peb_image ui ec ?V data) = nat (ui_peb_size ui)"
    using G E V len by (simp add: img)
  show t: "take 64 (peb_image ui ec ?V data) = ?E" using E by (simp add: img)
  show "peb_ec_hdr (peb_image ui ec ?V data) = ubigen_init_ec_hdr ui ec"
    unfolding peb_ec_hdr_def t by (simp add: ec_hdr_of_bytes_bytes)
  have "take 64 (drop (nat (ui_vid_hdr_offs ui)) ((?E @ ?a) @ ?V @ ?b @ data @ ?c)) = ?V"
    by (rule take_drop_field) (use G E V in simp_all)
  then show "take 64 (drop (nat (ui_vid_hdr_offs ui)) (peb_image ui ec ?V data)) = ?V" by (simp add: img)
  then show "peb_vid_hdr ui (peb_image ui ec ?V data) = h"
    using h by (simp add: peb_vid_hdr_def vid_hdr_of_bytes_bytes)
  have "take (length data) (drop (nat (ui_data_offs ui)) ((?E @ ?a @ ?V @ ?b) @ data @ ?c)) = data"
    by (rule take_drop_field) (use G E V in simp_all)
  then show "peb_data ui (length data) (peb_image ui ec ?V data) = data"
    by (simp add: peb_data_def img)
qed

text \<open>What a reader of the image expects of the two headers of an eraseblock: the checksum over the first 60 bytes, the
  magic number and the fields. A static volume records the size and the checksum of its data.\<close>

definition valid_ec_hdr :: "ubigen_info \<Rightarrow> int \<Rightarrow> bytes \<Rightarrow> bool" where
  "valid_ec_hdr ui ec p \<longleftrightarrow> (let h = peb_ec_hdr p in
     crc_ok (take 64 p) 60 (ech_hdr_crc h) \<and> ech_magic h = UBI_EC_HDR_MAGIC \<and> ech_version h = word_of_int (ui_ubi_ver ui)
     \<and> ech_ec h = word_of_int ec \<and> ech_vid_hdr_offset h = word_of_int (ui_vid_hdr_offs ui)
     \<and> ech_data_offset h = word_of_int (ui_data_offs ui) \<and> ech_image_seq h = ui_image_seq ui)"

definition valid_vid_hdr :: "ubigen_info \<Rightarrow> ubigen_vol_info \<Rightarrow> int \<Rightarrow> bytes \<Rightarrow> bytes \<Rightarrow> bool" where
  "valid_vid_hdr ui vi lnum data p \<longleftrightarrow> (let h = peb_vid_hdr ui p; static = (vi_type vi = UBI_VID_STATIC) in
     crc_ok (take 64 (drop (nat (ui_vid_hdr_offs ui)) p)) 60 (vh_hdr_crc h) \<and> vh_magic h = UBI_VID_HDR_MAGIC
     \<and> vh_version h = word_of_int (ui_ubi_ver ui) \<and> vh_vol_type h = word_of_int (vi_type vi) \<and> vh_copy_flag h = 0
     \<and> vh_compat h = word_of_int (vi_compat vi) \<and> vh_vol_id h = word_of_int (vi_id vi) \<and> vh_lnum h = word_of_int lnum
     \<and> vh_data_pad h = word_of_int (vi_data_pad vi) \<and> vh_sqnum h = 0
     \<and> vh_data_size h = (if static then word_of_int (int (length data)) else 0)
     \<and> vh_used_ebs h = (if static then word_of_int (vi_used_ebs vi) else 0)
     \<and> vh_data_crc h = (if static then mtd_crc32 UBI_CRC32_INIT data (int (length data)) else 0))"

lemma ubigen_init_vid_hdr_fields:
  "vh_magic (ubigen_init_vid_hdr ui vi lnum data n) = UBI_VID_HDR_MAGIC" "vh_version (ubigen_init_vid_hdr ui vi lnum data n) = word_of_int (ui_ubi_ver ui)"
  "vh_vol_type (ubigen_init_vid_hdr ui vi lnum data n) = word_of_int (vi_type vi)" "vh_copy_flag (ubigen_init_vid_hdr ui vi lnum data n) = 0"
  "vh_compat (ubigen_init_vid_hdr ui vi lnum data n) = word_of_int (vi_compat vi)" "vh_vol_id (ubigen_init_vid_hdr ui vi lnum data n) = word_of_int (vi_id vi)"
  "vh_lnum (ubigen_init_vid_hdr ui vi lnum data n) = word_of_int lnum" "vh_data_pad (ubigen_init_vid_hdr ui vi lnum data n) = word_of_int (vi_data_pad vi)"
  "vh_sqnum (ubigen_init_vid_hdr ui vi lnum data n) = 0"
  "vh_data_size (ubigen_init_vid_hdr ui vi lnum data n) = (if vi_type vi = UBI_VID_STATIC then word_of_int n else 0)"
  "vh_used_ebs (ubigen_init_vid_hdr ui vi lnum data n) = (if vi_type vi = UBI_VID_STATIC then word_of_int (vi_used_ebs vi) else 0)"
  "vh_data_crc (ubigen_init_vid_hdr ui vi lnum data n) = (if vi_type vi = UBI_VID_STATIC then mtd_crc32 UBI_CRC32_INIT data n else 0)"
  by (simp_all add: ubigen_init_vid_hdr_def Let_def)

lemma peb_image_headers:
  assumes "geometry ui" "length data \<le> nat (ui_leb_size ui)"
  shows "valid_ec_hdr ui ec (peb_image ui ec (vid_hdr_bytes (ubigen_init_vid_hdr ui vi lnum d (int (length d)))) data)"
    and "valid_vid_hdr ui vi lnum d (peb_image ui ec (vid_hdr_bytes (ubigen_init_vid_hdr ui vi lnum d (int (length d)))) data)"
proof -
  note r = peb_image_reads [OF assms(1) ubigen_init_vid_hdr_wf assms(2)]
  show "valid_ec_hdr ui ec (peb_image ui ec (vid_hdr_bytes (ubigen_init_vid_hdr ui vi lnum d (int (length d)))) data)"
    unfolding valid_ec_hdr_def Let_def r(2,3) ubigen_init_ec_hdr_fields by (simp add: ubigen_init_ec_hdr_crc) (simp add: ubigen_init_ec_hdr_def Let_def)
  show "valid_vid_hdr ui vi lnum d (peb_image ui ec (vid_hdr_bytes (ubigen_init_vid_hdr ui vi lnum d (int (length d)))) data)"
    unfolding valid_vid_hdr_def Let_def r(4,6) ubigen_init_vid_hdr_fields by (simp add: ubigen_init_vid_hdr_crc)
qed

lemma write_volume_image:
  assumes "geometry ui" and "length junk = nat (ui_peb_size ui)" and "\<forall>k. wr k"
    and "vi_id vi < ui_max_volumes ui" and "vi_alignment vi < ui_leb_size ui"
    and "0 < vi_usable_leb_size vi" and "vi_usable_leb_size vi \<le> ui_leb_size ui"
    and "0 \<le> n" and "nat n \<le> length inp"
  shows "ubigen_write_volume junk wr ui vi ec n inp
    = Ret (map (volume_peb ui vi ec) (enumerate 0 (chunks (nat (vi_usable_leb_size vi)) (take (nat n) inp))))"
proof -
  have "ubigen_write_volume junk wr ui vi ec n inp
      = write_pebs wr ui vi (first_outbuf ui ec junk) (nat (vi_usable_leb_size vi)) 0 (nat n) inp"
    using assms by (simp add: ubigen_write_volume_def geometry_def ubi_sizes)
  also have "\<dots> = Ret (map (volume_peb ui vi ec)
      (enumerate 0 (chunks (nat (vi_usable_leb_size vi)) (take (nat n) inp))))"
    by (rule write_pebs_image) (use assms in \<open>simp_all add: first_outbuf_shape\<close>)
  finally show ?thesis .
qed

text \<open>The offsets \<open>ubigen_info_init\<close> computes, whatever the size of the eraseblock.\<close>

lemma round_up:
  assumes "0 < (q::int)"
  shows "x \<le> (x + q - 1) div q * q" and "(x + q - 1) div q * q < x + q"
  using assms div_mult_mod_eq [of "x + q - 1" q] pos_mod_bound [of q "x + q - 1"]
    pos_mod_sign [of q "x + q - 1"] by linarith+

definition volumes_fitting :: "int \<Rightarrow> int" where
  "volumes_fitting leb = (let m = to_int32 ((leb mod 2 ^ 64) div 172) in if m > 128 then 128 else m)"

lemma info_init_offsets:
  assumes "0 < min_io" "min_io \<le> 2 ^ 24" "0 < sub" "sub \<le> min_io"
    and "vid = 0 \<or> (64 \<le> vid \<and> vid \<le> 2 ^ 24)"
  obtains v d where "64 \<le> v" "v + 64 \<le> d" "d < v + 64 + min_io" "min_io dvd d"
    and "if vid = 0 then sub dvd v \<and> v < 64 + sub else v = vid"
    and "ubigen_info_init peb min_io sub vid ver seq =
      Ret \<lparr>ui_leb_size = peb - d, ui_peb_size = peb, ui_min_io_size = min_io, ui_vid_hdr_offs = v,
           ui_data_offs = d, ui_ubi_ver = ver, ui_vtbl_size = to_int32 (volumes_fitting (peb - d) * 172),
           ui_max_volumes = volumes_fitting (peb - d), ui_image_seq = seq\<rparr>"
proof -
  define v where "v = (if vid = 0 then (63 + sub) div sub * sub else vid)"
  define d where "d = (v + 63 + min_io) div min_io * min_io"
  have v: "64 \<le> v" "v \<le> 2 ^ 25" "vid = 0 \<Longrightarrow> v < 64 + sub"
    using round_up [of sub 64] assms by (auto simp: v_def)
  have d: "v + 64 \<le> d" "d < v + 64 + min_io"
    using round_up [of min_io "v + 64"] assms by (auto simp: d_def algebra_simps)
  have sd: "to_int32 (64 + sub - 1) sdiv sub = (63 + sub) div sub"
    "to_int32 (v + 64 + min_io - 1) sdiv min_io = (v + 63 + min_io) div min_io"
    using assms(1-4) v by (simp_all add: sdiv_nonneg to_int32_id algebra_simps)
  have e1: "(if vid = 0 then (to_int32 (64 + sub - 1) sdiv sub) * sub else vid) = v"
    by (simp only: sd(1) v_def)
  have e2: "(to_int32 (v + 64 + min_io - 1) sdiv min_io) * min_io = d"
    by (simp only: sd(2) d_def)
  have c: "\<not> (min_io = 0 \<or> (vid = 0 \<and> sub = 0))" using assms(1,3) by simp
  show thesis
  proof (rule that [OF v(1) d])
    show "ubigen_info_init peb min_io sub vid ver seq =
      Ret \<lparr>ui_leb_size = peb - d, ui_peb_size = peb, ui_min_io_size = min_io, ui_vid_hdr_offs = v,
           ui_data_offs = d, ui_ubi_ver = ver, ui_vtbl_size = to_int32 (volumes_fitting (peb - d) * 172),
           ui_max_volumes = volumes_fitting (peb - d), ui_image_seq = seq\<rparr>"
      unfolding ubigen_info_init_def Let_def ubi_sizes UBI_MAX_VOLUMES_def volumes_fitting_def
      by (simp only: c e1 e2 if_False)
  qed (use v in \<open>auto simp: v_def d_def\<close>)
qed

lemma volumes_fitting_bounds:
  assumes "0 \<le> leb" "leb < 2 ^ 31"
  shows "0 \<le> volumes_fitting leb" "volumes_fitting leb \<le> 128" "172 * volumes_fitting leb \<le> leb"
    and "to_int32 (volumes_fitting leb * 172) = 172 * volumes_fitting leb"
proof -
  have "to_int32 (leb mod 2 ^ 64 div 172) = leb div 172" using assms by (simp add: to_int32_id)
  then have v: "volumes_fitting leb = min 128 (leb div 172)" by (simp add: volumes_fitting_def Let_def)
  show b: "0 \<le> volumes_fitting leb" "volumes_fitting leb \<le> 128" "172 * volumes_fitting leb \<le> leb"
    using assms by (auto simp: v min_def)
  then show "to_int32 (volumes_fitting leb * 172) = 172 * volumes_fitting leb" by (simp add: to_int32_id)
qed

section \<open>Properties\<close>

text \<open>C22. The geometry \<open>ubigen_info_init\<close> computes: for a page size, a sub-page size and an optional
  VID header offset in the range of real flash, it returns (no division by zero, no overflow) offsets
  such that the erase counter header, the VID header and the data do not overlap; the data offset is
  the least multiple of the page size that leaves room for the headers, a computed VID header offset
  the least sufficient multiple of the sub-page size; logical and physical sizes add up; and the
  volume table fits in one logical eraseblock.\<close>

theorem ubigen_info_init_geometry:
  assumes "0 < min_io" "min_io \<le> 2 ^ 24" "0 < sub" "sub \<le> min_io"
    and "vid = 0 \<or> (64 \<le> vid \<and> vid \<le> 2 ^ 24)"
    and "(if vid = 0 then 64 + sub else vid) + 64 + min_io \<le> peb" "peb < 2 ^ 31"
  shows "\<exists>ui. ubigen_info_init peb min_io sub vid ver seq = Ret ui \<and> geometry ui
     \<and> min_io dvd ui_data_offs ui \<and> ui_data_offs ui < ui_vid_hdr_offs ui + 64 + min_io
     \<and> (if vid = 0 then sub dvd ui_vid_hdr_offs ui \<and> ui_vid_hdr_offs ui < 64 + sub
        else ui_vid_hdr_offs ui = vid)
     \<and> 0 \<le> ui_max_volumes ui \<and> ui_max_volumes ui \<le> 128
     \<and> ui_vtbl_size ui = 172 * ui_max_volumes ui \<and> ui_vtbl_size ui \<le> ui_leb_size ui"
proof -
  obtain v d where vd: "64 \<le> v" "v + 64 \<le> d" "d < v + 64 + min_io" "min_io dvd d"
      "if vid = 0 then sub dvd v \<and> v < 64 + sub else v = vid"
      "ubigen_info_init peb min_io sub vid ver seq =
        Ret \<lparr>ui_leb_size = peb - d, ui_peb_size = peb, ui_min_io_size = min_io, ui_vid_hdr_offs = v,
             ui_data_offs = d, ui_ubi_ver = ver, ui_vtbl_size = to_int32 (volumes_fitting (peb - d) * 172),
             ui_max_volumes = volumes_fitting (peb - d), ui_image_seq = seq\<rparr>"
    by (rule info_init_offsets [OF assms(1-5)])
  have "d < peb" using vd(3,5) assms(6) by (auto split: if_splits)
  then have leb: "0 \<le> peb - d" "peb - d < 2 ^ 31" "0 < peb - d" using vd assms(7) by simp_all
  note fit = volumes_fitting_bounds [OF leb(1,2)]
  show ?thesis
    unfolding vd(6) using vd(1-5) fit leb assms(7) by (auto simp: geometry_def ubi_sizes)
qed

theorem ubigen_info_init_geometry_witness:
  "\<exists>ui. ubigen_info_init 4194304 16384 16384 0 1 7 = Ret ui \<and> geometry ui
     \<and> 16384 dvd ui_data_offs ui \<and> ui_data_offs ui < ui_vid_hdr_offs ui + 64 + 16384
     \<and> (if (0::int) = 0 then 16384 dvd ui_vid_hdr_offs ui \<and> ui_vid_hdr_offs ui < 64 + 16384
        else ui_vid_hdr_offs ui = 0)
     \<and> 0 \<le> ui_max_volumes ui \<and> ui_max_volumes ui \<le> 128
     \<and> ui_vtbl_size ui = 172 * ui_max_volumes ui \<and> ui_vtbl_size ui \<le> ui_leb_size ui"
  by (rule ubigen_info_init_geometry) simp_all

text \<open>C8. What \<open>ubigen_write_volume\<close> writes can be read back: on a consistent geometry, with enough input
  and successful writes, and whatever the allocated buffer held before, it returns exactly as many
  physical eraseblocks as the data needs, each of the physical size; eraseblock \<open>i\<close> carries an
  erase counter header with a valid checksum, the given counter and the image's offsets, a VID header with a valid
  checksum, the magic number, the volume's id, type and flags, the logical number \<open>i\<close> and for a static volume the size and
  checksum of its data, and at the data offset the \<open>i\<close>-th piece of the input.\<close>

theorem ubigen_write_volume_reads_back:
  assumes "geometry ui" and "length junk = nat (ui_peb_size ui)" and "\<forall>k. wr k"
    and "vi_id vi < ui_max_volumes ui" and "vi_alignment vi < ui_leb_size ui"
    and "0 < vi_usable_leb_size vi" and "vi_usable_leb_size vi \<le> ui_leb_size ui"
    and "0 \<le> n" and "nat n \<le> length inp"
  defines "u \<equiv> nat (vi_usable_leb_size vi)"
  shows "\<exists>pebs. ubigen_write_volume junk wr ui vi ec n inp = Ret pebs
     \<and> length pebs = (nat n + u - 1) div u
     \<and> (\<forall>i < length pebs. let p = pebs ! i; piece = take u (drop (i * u) (take (nat n) inp)) in
          length p = nat (ui_peb_size ui) \<and> valid_ec_hdr ui ec p \<and> valid_vid_hdr ui vi (int i) piece p
          \<and> peb_data ui (length piece) p = piece)
     \<and> concat (map (\<lambda>i. take u (drop (i * u) (take (nat n) inp))) [0..<length pebs]) = take (nat n) inp"
proof -
  let ?ch = "chunks u (take (nat n) inp)"
  let ?pebs = "map (volume_peb ui vi ec) (enumerate 0 ?ch)"
  have u: "0 < u" "u \<le> nat (ui_leb_size ui)" using assms by (simp_all add: u_def)
  have img: "ubigen_write_volume junk wr ui vi ec n inp = Ret ?pebs"
    unfolding u_def by (rule write_volume_image) (use assms in simp_all)
  have len: "length ?pebs = length ?ch" by simp
  have "length ?pebs = (nat n + u - 1) div u"
    using length_chunks [OF u(1), of "take (nat n) inp"] assms(9) by simp
  moreover have "concat (map (\<lambda>i. take u (drop (i * u) (take (nat n) inp))) [0..<length ?pebs]) = take (nat n) inp"
  proof -
    have "map (\<lambda>i. take u (drop (i * u) (take (nat n) inp))) [0..<length ?ch] = ?ch"
      by (rule nth_equalityI) (simp_all add: nth_chunks)
    then show ?thesis using concat_chunks [OF u(1)] by simp
  qed
  moreover have "let p = ?pebs ! i; piece = take u (drop (i * u) (take (nat n) inp)) in
          length p = nat (ui_peb_size ui) \<and> valid_ec_hdr ui ec p \<and> valid_vid_hdr ui vi (int i) piece p
          \<and> peb_data ui (length piece) p = piece" if i: "i < length ?pebs" for i
  proof -
    define piece where "piece = take u (drop (i * u) (take (nat n) inp))"
    have pc: "?ch ! i = piece" using i nth_chunks [of i u "take (nat n) inp"] by (simp add: piece_def)
    then have pl: "length piece \<le> nat (ui_leb_size ui)"
      using chunks_bounds [of piece u "take (nat n) inp"] i u(2) nth_mem [of i ?ch] by force
    have p: "?pebs ! i = peb_image ui ec (vid_hdr_bytes (ubigen_init_vid_hdr ui vi (int i) piece
        (int (length piece)))) piece"
      using i pc by (simp add: nth_enumerate_eq volume_peb_def)
    show ?thesis
      unfolding p Let_def piece_def [symmetric]
      by (simp only: peb_image_reads [OF assms(1) ubigen_init_vid_hdr_wf pl] peb_image_headers [OF assms(1) pl] simp_thms)
  qed
  ultimately show ?thesis using img by blast
qed

text \<open>A small geometry for the witnesses: 144-byte eraseblocks of 16 bytes of data.\<close>

definition demo_ui :: ubigen_info where
  "demo_ui = \<lparr>ui_leb_size = 16, ui_peb_size = 144, ui_min_io_size = 16, ui_vid_hdr_offs = 64,
     ui_data_offs = 128, ui_ubi_ver = 1, ui_vtbl_size = 0, ui_max_volumes = 1, ui_image_seq = 9\<rparr>"

definition demo_vi :: ubigen_vol_info where
  "demo_vi = \<lparr>vi_id = 0, vi_type = 1, vi_alignment = 1, vi_data_pad = 0, vi_usable_leb_size = 16,
     vi_name = [0x61, 0x62], vi_name_len = 2, vi_compat = 0, vi_used_ebs = 0, vi_bytes = 20,
     vi_flags = 0\<rparr>"

theorem ubigen_write_volume_reads_back_witness:
  "\<exists>pebs. ubigen_write_volume (replicate 144 0) (\<lambda>_. True) demo_ui demo_vi 5 20 (replicate 20 3) = Ret pebs
     \<and> length pebs = 2 \<and> valid_ec_hdr demo_ui 5 (pebs ! 1) \<and> vh_lnum (peb_vid_hdr demo_ui (pebs ! 1)) = 1
     \<and> peb_data demo_ui 4 (pebs ! 1) = [3, 3, 3, 3]"
proof -
  have "geometry demo_ui" by (simp add: geometry_def demo_ui_def ubi_sizes)
  then obtain pebs where p: "ubigen_write_volume (replicate 144 0) (\<lambda>_. True) demo_ui demo_vi 5 20 (replicate 20 3) = Ret pebs"
      "length pebs = 2"
      "\<forall>i < length pebs. let p = pebs ! i; piece = take 16 (drop (i * 16) (take 20 (replicate 20 3))) in
          valid_ec_hdr demo_ui 5 p \<and> vh_lnum (peb_vid_hdr demo_ui p) = word_of_int (int i) \<and> peb_data demo_ui (length piece) p = piece"
    using ubigen_write_volume_reads_back [of demo_ui "replicate 144 0" "\<lambda>_. True" demo_vi 20 "replicate 20 3" 5]
    by (auto simp: demo_ui_def demo_vi_def Let_def valid_vid_hdr_def)
  have "replicate 4 (3::u8) = [3, 3, 3, 3]" by (simp add: eval_nat_numeral)
  with p(1,2) p(3) [THEN spec, of 1] show ?thesis by (auto simp: Let_def eval_nat_numeral)
qed

lemma zero_record_wf [simp]: "vtbl_record_wf zero_record"
  by (simp add: zero_record_def vtbl_record_wf_def)

lemma seal_record_wf [simp]: "vtbl_record_wf (seal_record r) = vtbl_record_wf r"
  by (simp add: seal_record_def vtbl_record_wf_def)

lemma seal_record_crc:
  assumes "vtbl_record_wf r"
  shows "crc_ok (vtbl_record_bytes (seal_record r)) 168 (vr_crc (seal_record r))"
  by (rule vtbl_record.seal_ok [OF assms]) (simp add: seal_record_def ubi_sizes)

lemma seal_record_fields:
  "vr_reserved_pebs (seal_record r) = vr_reserved_pebs r" "vr_data_pad (seal_record r) = vr_data_pad r"
  "vr_name (seal_record r) = vr_name r" "vr_name_len (seal_record r) = vr_name_len r"
  "vr_flags (seal_record r) = vr_flags r" "vr_vol_type (seal_record r) = vr_vol_type r"
  by (simp_all add: seal_record_def)

lemma padded_name:
  assumes "length xs \<le> len" and "len < m"
  shows "(overwrite 0 xs (replicate m 0)) [len := 0] = xs @ replicate (m - length xs) (0::u8)"
  using assms by (intro nth_equalityI) (auto simp: nth_list_update overwrite_def nth_append)

text \<open>The record \<open>ubigen_add_volume\<close> stores, before its checksum is set.\<close>

definition volume_record :: "ubigen_info \<Rightarrow> ubigen_vol_info \<Rightarrow> ubi_vtbl_record" where
  "volume_record ui vi = zero_record\<lparr>
     vr_reserved_pebs := word_of_int ((vi_bytes vi + ui_leb_size ui - 1) sdiv ui_leb_size ui),
     vr_alignment := word_of_int (vi_alignment vi), vr_vol_type := word_of_int (vi_type vi),
     vr_data_pad := word_of_int (ui_leb_size ui smod vi_alignment vi), vr_flags := vi_flags vi,
     vr_name := vi_name vi @ replicate (128 - length (vi_name vi)) 0,
     vr_name_len := word_of_int (vi_name_len vi)\<rparr>"

lemma volume_record_wf: "length (vi_name vi) \<le> UBI_VOL_NAME_MAX \<Longrightarrow> vtbl_record_wf (volume_record ui vi)"
  by (simp add: volume_record_def vtbl_record_wf_def zero_record_def ubi_sizes)

lemma add_volume_record:
  assumes "ubigen_add_volume ui vi vtbl \<noteq> Undef" "vi_id vi < ui_max_volumes ui" "vi_alignment vi < ui_leb_size ui"
    and "vi_name_len vi = int (length (vi_name vi))"
  shows "ubigen_add_volume ui vi vtbl = Ret (vtbl [nat (vi_id vi) := seal_record (volume_record ui vi)])"
    and "length (vi_name vi) \<le> UBI_VOL_NAME_MAX" "0 \<le> vi_id vi" "nat (vi_id vi) < length vtbl"
proof -
  have ok: "\<not> (vi_id vi < 0 \<or> nat (vi_id vi) \<ge> length vtbl \<or> ui_leb_size ui = 0 \<or> vi_alignment vi = 0
         \<or> vi_name_len vi < 0 \<or> vi_name_len vi > int (length (vi_name vi))
         \<or> vi_name_len vi > int UBI_VOL_NAME_MAX \<or> vi_bytes vi + ui_leb_size ui \<ge> 2 ^ 63)"
    using assms by (simp add: ubigen_add_volume_def split: if_splits)
  then show len: "length (vi_name vi) \<le> UBI_VOL_NAME_MAX" "0 \<le> vi_id vi" "nat (vi_id vi) < length vtbl"
    using assms(4) by auto
  have "(overwrite 0 (take (length (vi_name vi)) (vi_name vi)) (replicate 128 0)) [length (vi_name vi) := 0]
      = vi_name vi @ replicate (128 - length (vi_name vi)) 0"
    using padded_name [of "vi_name vi" "length (vi_name vi)" 128] len(1) by (simp add: ubi_sizes)
  then show "ubigen_add_volume ui vi vtbl = Ret (vtbl [nat (vi_id vi) := seal_record (volume_record ui vi)])"
    using ok assms(2-4) by (simp add: ubigen_add_volume_def Let_def volume_record_def) (simp add: zero_record_def ubi_sizes)
qed



section \<open>The layout volume is written twice\<close>

lemma layout_headers_image:
  assumes g: "geometry ui" and X: "length x = 64" and Y: "length y = 64"
  shows "layout_headers ui ec lnum (x @ memset 0xFF (nat (ui_vid_hdr_offs ui) - 64) @ y
      @ memset 0xFF (nat (ui_data_offs ui) - nat (ui_vid_hdr_offs ui) - 64) @ data
      @ memset 0xFF (nat (ui_leb_size ui) - length data))
    = peb_image ui ec (vid_hdr_bytes (ubigen_init_vid_hdr ui (layout_vol ui) lnum [] 0)) data"
proof -
  let ?E = "ec_hdr_bytes (ubigen_init_ec_hdr ui ec)"
  let ?V = "vid_hdr_bytes (ubigen_init_vid_hdr ui (layout_vol ui) lnum [] 0)"
  let ?a = "memset 0xFF (nat (ui_vid_hdr_offs ui) - 64)"
  have E: "length ?E = 64" and V: "length ?V = 64" by (simp_all add: length_ec_hdr length_vid_hdr)
  have "overwrite (nat (ui_vid_hdr_offs ui)) ?V ((?E @ ?a) @ y @ post) = (?E @ ?a) @ ?V @ post" for post
    by (rule overwrite_append) (use geometryD [OF g] E V Y in simp_all)
  then show ?thesis
    by (simp add: layout_headers_def overwrite_0 X E peb_image_def)
qed

lemma layout_outbuf_image:
  assumes g: "geometry ui" and junk: "length junk = nat (ui_peb_size ui)"
    and sz: "0 \<le> ui_vtbl_size ui" "ui_vtbl_size ui \<le> ui_leb_size ui" "nat (ui_vtbl_size ui) \<le> length vtbl"
  shows "layout_outbuf ui vtbl junk = memset 0xFF 64 @ memset 0xFF (nat (ui_vid_hdr_offs ui) - 64)
      @ memset 0xFF 64 @ memset 0xFF (nat (ui_data_offs ui) - nat (ui_vid_hdr_offs ui) - 64)
      @ take (nat (ui_vtbl_size ui)) vtbl
      @ memset 0xFF (nat (ui_leb_size ui) - length (take (nat (ui_vtbl_size ui)) vtbl))"
proof -
  note G = geometryD [OF g]
  let ?d = "nat (ui_data_offs ui)" and ?s = "nat (ui_vtbl_size ui)" and ?t = "take (nat (ui_vtbl_size ui)) vtbl"
  have s: "length ?t = ?s" "?s \<le> nat (ui_leb_size ui)" using sz by auto
  have ff: "memset 0xFF ?d = memset 0xFF 64 @ memset 0xFF (nat (ui_vid_hdr_offs ui) - 64)
      @ memset 0xFF 64 @ memset 0xFF (?d - nat (ui_vid_hdr_offs ui) - 64)"
    using G by (simp add: memset_def replicate_add [symmetric])
  have b1: "overwrite 0 (memset 0xFF ?d) junk = memset 0xFF ?d @ take ?s (drop ?d junk) @ drop (?d + ?s) junk"
    by (simp add: overwrite_def) (metis append_take_drop_id drop_drop add.commute)
  have b2: "overwrite ?d ?t (memset 0xFF ?d @ take ?s (drop ?d junk) @ drop (?d + ?s) junk)
      = memset 0xFF ?d @ ?t @ drop (?d + ?s) junk"
    by (rule overwrite_append) (use G junk s in simp_all)
  have b3: "overwrite (?d + ?s) (memset 0xFF (nat (ui_peb_size ui) - ?d - ?s))
        ((memset 0xFF ?d @ ?t) @ drop (?d + ?s) junk @ [])
      = (memset 0xFF ?d @ ?t) @ memset 0xFF (nat (ui_peb_size ui) - ?d - ?s) @ []"
    by (rule overwrite_append) (use G junk s in simp_all)
  have "nat (ui_peb_size ui) - ?d - ?s = nat (ui_leb_size ui) - length ?t" using G s by simp
  then show ?thesis using b1 b2 b3 by (simp add: layout_outbuf_def Let_def ff)
qed

lemma length_file_write: "length (file_write off buf f) = max (length f) (off + length buf)"
  by (simp add: file_write_def)

lemma file_write_read: "take (length buf) (drop off (file_write off buf f)) = buf"
  by (simp add: file_write_def take_drop_overwrite)

lemma file_write_other:
  assumes "pos + k \<le> length f" and "pos + k \<le> off \<or> off + length buf \<le> pos"
  shows "take k (drop pos (file_write off buf f)) = take k (drop pos f)"
  unfolding file_write_def using assms by (subst overwrite_other) auto

definition layout_copy :: "ubigen_info \<Rightarrow> int \<Rightarrow> int \<Rightarrow> bytes \<Rightarrow> bytes" where
  "layout_copy ui ec lnum vtbl =
     peb_image ui ec (vid_hdr_bytes (ubigen_init_vid_hdr ui (layout_vol ui) lnum [] 0))
       (take (nat (ui_vtbl_size ui)) vtbl)"

lemma length_layout_copy:
  assumes "geometry ui" "ui_vtbl_size ui \<le> ui_leb_size ui"
  shows "length (layout_copy ui ec lnum vtbl) = nat (ui_peb_size ui)"
  unfolding layout_copy_def by (rule peb_image_reads) (use assms in simp_all)

lemma write_layout_vol_file:
  assumes g: "geometry ui" and junk: "length junk = nat (ui_peb_size ui)" and io: "\<forall>k. io k"
    and sz: "0 \<le> ui_vtbl_size ui" "ui_vtbl_size ui \<le> ui_leb_size ui" "nat (ui_vtbl_size ui) \<le> length vtbl"
  shows "ubigen_write_layout_vol junk io ui peb1 peb2 ec1 ec2 vtbl fd =
     (Ret (), file_write (peb2 * nat (ui_peb_size ui)) (layout_copy ui ec2 1 vtbl)
        (file_write (peb1 * nat (ui_peb_size ui)) (layout_copy ui ec1 0 vtbl) fd))"
proof -
  have c1: "layout_headers ui ec1 0 (layout_outbuf ui vtbl junk) = layout_copy ui ec1 0 vtbl"
    unfolding layout_outbuf_image [OF g junk sz] layout_copy_def
    by (rule layout_headers_image [OF g]) simp_all
  have c2: "layout_headers ui ec2 1 (layout_copy ui ec1 0 vtbl) = layout_copy ui ec2 1 vtbl"
    unfolding layout_copy_def peb_image_def [of ui ec1]
    by (rule layout_headers_image [OF g]) (simp_all add: length_ec_hdr length_vid_hdr)
  have "\<not> (ui_data_offs ui < 0 \<or> ui_vtbl_size ui < 0 \<or> ui_data_offs ui + ui_vtbl_size ui > ui_peb_size ui
        \<or> ui_vid_hdr_offs ui < 0 \<or> ui_vid_hdr_offs ui + UBI_VID_HDR_SIZE > ui_peb_size ui
        \<or> ui_peb_size ui < UBI_EC_HDR_SIZE \<or> int (length vtbl) < ui_vtbl_size ui)"
    using g sz by (auto simp: geometry_def ubi_sizes)
  then show ?thesis
    unfolding ubigen_write_layout_vol_def Let_def using io by (simp only: c1 c2 if_False simp_thms)
qed

text \<open>C20. The volume table is stored twice: after a successful \<open>ubigen_write_layout_vol\<close> with two
  different eraseblock numbers, each of the two eraseblocks of the file holds a valid erase counter
  header with its own counter, a VID header with a valid checksum that names the layout volume (its reserved number, dynamic,
  to be rejected by an implementation that does not know it) with logical number 0 and 1, and the same volume table at the
  data offset, and every other eraseblock of the file is unchanged.\<close>

theorem ubigen_write_layout_vol_two_copies:
  assumes g: "geometry ui" and "length junk = nat (ui_peb_size ui)" and "\<forall>k. io k"
    and sz: "0 \<le> ui_vtbl_size ui" "ui_vtbl_size ui \<le> ui_leb_size ui" "nat (ui_vtbl_size ui) \<le> length vtbl"
    and "peb1 \<noteq> peb2"
  defines "block \<equiv> \<lambda>f k. take (nat (ui_peb_size ui)) (drop (k * nat (ui_peb_size ui)) f)"
  shows "\<exists>fd'. ubigen_write_layout_vol junk io ui peb1 peb2 ec1 ec2 vtbl fd = (Ret (), fd')
     \<and> (\<forall>(k, ec, lnum) \<in> {(peb1, ec1, 0), (peb2, ec2, 1)}.
          valid_ec_hdr ui ec (block fd' k) \<and> valid_vid_hdr ui (layout_vol ui) lnum [] (block fd' k)
          \<and> vh_vol_id (peb_vid_hdr ui (block fd' k)) = 0x7FFFEFFF \<and> vh_vol_type (peb_vid_hdr ui (block fd' k)) = 1
          \<and> vh_compat (peb_vid_hdr ui (block fd' k)) = 5
          \<and> peb_data ui (nat (ui_vtbl_size ui)) (block fd' k) = take (nat (ui_vtbl_size ui)) vtbl)
     \<and> (\<forall>k. k \<noteq> peb1 \<and> k \<noteq> peb2 \<and> (k + 1) * nat (ui_peb_size ui) \<le> length fd \<longrightarrow> block fd' k = block fd k)"
proof -
  let ?P = "nat (ui_peb_size ui)"
  let ?f1 = "file_write (peb1 * ?P) (layout_copy ui ec1 0 vtbl) fd"
  let ?f2 = "file_write (peb2 * ?P) (layout_copy ui ec2 1 vtbl) ?f1"
  have len: "length (layout_copy ui ec lnum vtbl) = ?P" for ec lnum
    by (rule length_layout_copy [OF g sz(2)])
  have apart: "k * ?P + ?P \<le> j * ?P \<or> j * ?P + ?P \<le> k * ?P" if "k \<noteq> j" for k j
    using that mult_le_mono1 [of "Suc k" j ?P] mult_le_mono1 [of "Suc j" k ?P]
    by (cases "k < j") auto
  have b2: "block ?f2 peb2 = layout_copy ui ec2 1 vtbl"
    using file_write_read [of "layout_copy ui ec2 1 vtbl"] by (simp add: block_def len)
  have "block ?f2 peb1 = block ?f1 peb1"
    unfolding block_def using apart [OF assms(7)]
    by (intro file_write_other) (auto simp: length_file_write len)
  then have b1: "block ?f2 peb1 = layout_copy ui ec1 0 vtbl"
    using file_write_read [of "layout_copy ui ec1 0 vtbl"] by (simp add: block_def len)
  have other: "block ?f2 k = block fd k" if "k \<noteq> peb1" "k \<noteq> peb2" "(k + 1) * ?P \<le> length fd" for k
  proof -
    have "block ?f2 k = block ?f1 k"
      unfolding block_def using apart [OF that(2)] that(3)
      by (intro file_write_other) (auto simp: length_file_write len)
    also have "\<dots> = block fd k"
      unfolding block_def using apart [OF that(1)] that(3)
      by (intro file_write_other) (auto simp: len)
    finally show ?thesis .
  qed
  have l: "length (take (nat (ui_vtbl_size ui)) vtbl) = nat (ui_vtbl_size ui)" using sz(3) by simp
  have fits: "length (take (nat (ui_vtbl_size ui)) vtbl) \<le> nat (ui_leb_size ui)" using sz l by simp
  have hdrs: "valid_ec_hdr ui ec (layout_copy ui ec lnum vtbl)" "valid_vid_hdr ui (layout_vol ui) lnum [] (layout_copy ui ec lnum vtbl)" for ec lnum
    unfolding layout_copy_def using peb_image_headers [where ec = ec and vi = "layout_vol ui" and lnum = lnum and d = "[]", OF g fits] by simp_all
  have reads: "valid_ec_hdr ui ec (layout_copy ui ec lnum vtbl) \<and> valid_vid_hdr ui (layout_vol ui) lnum [] (layout_copy ui ec lnum vtbl)
      \<and> vh_vol_id (peb_vid_hdr ui (layout_copy ui ec lnum vtbl)) = 0x7FFFEFFF \<and> vh_vol_type (peb_vid_hdr ui (layout_copy ui ec lnum vtbl)) = 1
      \<and> vh_compat (peb_vid_hdr ui (layout_copy ui ec lnum vtbl)) = 5
      \<and> peb_data ui (nat (ui_vtbl_size ui)) (layout_copy ui ec lnum vtbl) = take (nat (ui_vtbl_size ui)) vtbl"
    for ec lnum
  proof -
    have v: "vi_id (layout_vol ui) = 0x7FFFEFFF" "vi_type (layout_vol ui) = 1" "vi_compat (layout_vol ui) = 5"
      by (simp_all add: layout_vol_def Let_def UBI_INTERNAL_VOL_START_def UBI_VID_DYNAMIC_def UBI_COMPAT_REJECT_def)
    have "peb_data ui (nat (ui_vtbl_size ui)) (layout_copy ui ec lnum vtbl) = take (nat (ui_vtbl_size ui)) vtbl"
      using peb_image_reads(5) [OF g ubigen_init_vid_hdr_wf [of ui "layout_vol ui" lnum "[]" 0] fits, of ec] l by (simp add: layout_copy_def)
    moreover have "vh_vol_id (peb_vid_hdr ui (layout_copy ui ec lnum vtbl)) = 0x7FFFEFFF \<and> vh_vol_type (peb_vid_hdr ui (layout_copy ui ec lnum vtbl)) = 1
        \<and> vh_compat (peb_vid_hdr ui (layout_copy ui ec lnum vtbl)) = 5"
      using hdrs(2) [of lnum ec] unfolding valid_vid_hdr_def Let_def v by simp
    ultimately show ?thesis using hdrs by blast
  qed
  show ?thesis
    using write_layout_vol_file [OF assms(1-6), of peb1 peb2 ec1 ec2 fd] reads b1 b2 other by auto
qed

theorem ubigen_write_layout_vol_two_copies_witness:
  "\<exists>fd'. ubigen_write_layout_vol (replicate 144 0) (\<lambda>_. True) demo_ui 0 1 3 4 [] [] = (Ret (), fd')
     \<and> valid_ec_hdr demo_ui 4 (take 144 (drop 144 fd')) \<and> vh_vol_id (peb_vid_hdr demo_ui (take 144 (drop 144 fd'))) = 0x7FFFEFFF"
proof -
  have "geometry demo_ui" by (simp add: geometry_def demo_ui_def ubi_sizes)
  from ubigen_write_layout_vol_two_copies [OF this, of "replicate 144 0" "\<lambda>_. True" "[]" 0 1 3 4 "[]"]
  show ?thesis by (auto simp: demo_ui_def)
qed

end
