(* ===== verification/UbiScan.thy ===== *)
theory UbiScan
  imports UbiGen
begin

text \<open>
  The UBI scanner (\<open>ubi-utils/libscan.c\<close>), which \<open>ubiformat\<close> uses to learn the erase counters and the
  state of a flash device before it rewrites it. The flash access of \<open>libmtd\<close> is a pair of arguments:
  \<open>is_bad eb\<close> is what \<open>mtd_is_bad\<close> returns for an eraseblock and \<open>rd eb\<close> the 64 header bytes
  \<open>mtd_read\<close> delivers, or \<open>None\<close> for a read error. Messages are not modelled.
\<close>

section \<open>The code\<close>

definition EB_EMPTY :: u32 where "EB_EMPTY = 0xFFFFFFFF"
definition EB_CORRUPTED :: u32 where "EB_CORRUPTED = 0xFFFFFFFE"
definition EB_ALIEN :: u32 where "EB_ALIEN = 0xFFFFFFFD"
definition EB_BAD :: u32 where "EB_BAD = 0xFFFFFFFC"
definition EC_MAX :: u32 where "EC_MAX = 0x7FFFFFFF"

lemmas eb_codes = EB_EMPTY_def EB_CORRUPTED_def EB_ALIEN_def EB_BAD_def EC_MAX_def

record ubi_scan_info =
  si_ec :: "u32 list"
  si_mean_ec :: int
  si_ok_cnt :: int
  si_empty_cnt :: int
  si_corrupted_cnt :: int
  si_alien_cnt :: int
  si_bad_cnt :: int
  si_good_cnt :: int
  si_vid_hdr_offs :: int
  si_data_offs :: int

definition all_ff :: "bytes \<Rightarrow> bool" where
  "all_ff buf = list_all (\<lambda>b. b = 0xFF) buf"

datatype scan_error = Is_bad_failed | Read_failed | Ec_too_large

definition mark_corrupted :: "nat \<Rightarrow> ubi_scan_info \<Rightarrow> ubi_scan_info" where
  "mark_corrupted eb si =
     si\<lparr>si_corrupted_cnt := si_corrupted_cnt si + 1, si_ec := (si_ec si)[eb := EB_CORRUPTED]\<rparr>"

definition mark_ok :: "nat \<Rightarrow> u64 \<Rightarrow> ubi_scan_info \<Rightarrow> ubi_scan_info" where
  "mark_ok eb ec si = si\<lparr>si_ok_cnt := si_ok_cnt si + 1, si_ec := (si_ec si)[eb := ucast ec]\<rparr>"

text \<open>The tail of the loop body, for a header whose checksum and erase counter were accepted: the first
  such header fixes the offsets, every later one has to agree with them.\<close>

definition accept_eb :: "int \<Rightarrow> ubi_ec_hdr \<Rightarrow> ubi_scan_info \<Rightarrow> nat \<Rightarrow>
    (scan_error, ubi_scan_info) outcome" where
  "accept_eb min_io ech si eb =
     (if si_vid_hdr_offs si = -1 then
        (let si = si\<lparr>si_vid_hdr_offs := sint (ech_vid_hdr_offset ech),
                     si_data_offs := sint (ech_data_offset ech)\<rparr>
         in if min_io = 0 then Undef
            else if si_data_offs si smod min_io \<noteq> 0 then Ret (mark_corrupted eb si)
            else Ret (mark_ok eb (ech_ec ech) si))
      else if sint (ech_vid_hdr_offset ech) \<noteq> si_vid_hdr_offs si then Ret (mark_corrupted eb si)
      else if sint (ech_data_offset ech) \<noteq> si_data_offs si then Ret (mark_corrupted eb si)
      else Ret (mark_ok eb (ech_ec ech) si))"

text \<open>The body of the scanning loop for one eraseblock.\<close>

definition scan_eb :: "int \<Rightarrow> (nat \<Rightarrow> int) \<Rightarrow> (nat \<Rightarrow> bytes option) \<Rightarrow> ubi_scan_info \<Rightarrow> nat \<Rightarrow>
    (scan_error, ubi_scan_info) outcome" where
  "scan_eb min_io is_bad rd si eb =
     (if is_bad eb = -1 then Err Is_bad_failed
      else if is_bad eb \<noteq> 0
      then Ret (si\<lparr>si_bad_cnt := si_bad_cnt si + 1, si_ec := (si_ec si)[eb := EB_BAD]\<rparr>)
      else case rd eb of
        None \<Rightarrow> Err Read_failed
      | Some buf \<Rightarrow>
          let ech = ec_hdr_of_bytes buf in
          if ech_magic ech \<noteq> UBI_EC_HDR_MAGIC then
            (if all_ff buf
             then Ret (si\<lparr>si_empty_cnt := si_empty_cnt si + 1, si_ec := (si_ec si)[eb := EB_EMPTY]\<rparr>)
             else Ret (si\<lparr>si_alien_cnt := si_alien_cnt si + 1, si_ec := (si_ec si)[eb := EB_ALIEN]\<rparr>))
          else if ech_hdr_crc ech \<noteq> mtd_crc32 UBI_CRC32_INIT buf UBI_EC_HDR_SIZE_CRC
          then Ret (mark_corrupted eb si)
          else if ech_ec ech > ucast EC_MAX then Err Ec_too_large
          else accept_eb min_io ech si eb)"

fun scan_loop :: "int \<Rightarrow> (nat \<Rightarrow> int) \<Rightarrow> (nat \<Rightarrow> bytes option) \<Rightarrow> ubi_scan_info \<Rightarrow> nat list \<Rightarrow>
    (scan_error, ubi_scan_info) outcome" where
  "scan_loop min_io is_bad rd si [] = Ret si"
| "scan_loop min_io is_bad rd si (eb # ebs) =
     (case scan_eb min_io is_bad rd si eb of
        Ret si' \<Rightarrow> scan_loop min_io is_bad rd si' ebs | Err e \<Rightarrow> Err e | Undef \<Rightarrow> Undef)"

definition ec_sum :: "u32 list \<Rightarrow> int" where
  "ec_sum ecs = (\<Sum>c \<leftarrow> filter (\<lambda>c. \<not> c > EC_MAX) ecs. uint c)"

definition finish_scan :: "nat \<Rightarrow> ubi_scan_info \<Rightarrow> ubi_scan_info" where
  "finish_scan eb_cnt si =
     (let si = (if si_ok_cnt si \<noteq> 0
                then si\<lparr>si_mean_ec := (ec_sum (si_ec si) mod 2 ^ 64) div si_ok_cnt si\<rparr> else si)
      in si\<lparr>si_good_cnt := int eb_cnt - si_bad_cnt si\<rparr>)"

definition start_scan :: "nat \<Rightarrow> ubi_scan_info" where
  "start_scan eb_cnt = \<lparr>si_ec = replicate eb_cnt 0, si_mean_ec = 0, si_ok_cnt = 0, si_empty_cnt = 0,
     si_corrupted_cnt = 0, si_alien_cnt = 0, si_bad_cnt = 0, si_good_cnt = 0,
     si_vid_hdr_offs = -1, si_data_offs = -1\<rparr>"

definition ubi_scan :: "nat \<Rightarrow> int \<Rightarrow> (nat \<Rightarrow> int) \<Rightarrow> (nat \<Rightarrow> bytes option) \<Rightarrow>
    (scan_error, ubi_scan_info) outcome" where
  "ubi_scan eb_cnt min_io is_bad rd =
     (case scan_loop min_io is_bad rd (start_scan eb_cnt) [0..<eb_cnt] of
        Ret si \<Rightarrow> Ret (finish_scan eb_cnt si) | Err e \<Rightarrow> Err e | Undef \<Rightarrow> Undef)"

section \<open>The invariant of the loop\<close>

text \<open>After \<open>k\<close> eraseblocks the counters count the states recorded for the first \<open>k\<close>.\<close>

definition cnt :: "u32 \<Rightarrow> nat \<Rightarrow> ubi_scan_info \<Rightarrow> int" where
  "cnt code k si = int (count_list (take k (si_ec si)) code)"

definition ok_count :: "nat \<Rightarrow> ubi_scan_info \<Rightarrow> int" where
  "ok_count k si = int (length (filter (\<lambda>c. \<not> c > EC_MAX) (take k (si_ec si))))"

text \<open>What the entry of an eraseblock says about the device: an erase counter is recorded only for a
  header with the right magic number and checksum.\<close>

definition entry_ok :: "(nat \<Rightarrow> int) \<Rightarrow> (nat \<Rightarrow> bytes option) \<Rightarrow> nat \<Rightarrow> u32 \<Rightarrow> bool" where
  "entry_ok is_bad rd eb c \<longleftrightarrow> (c > EC_MAX \<longrightarrow> c \<in> {EB_EMPTY, EB_CORRUPTED, EB_ALIEN, EB_BAD})
     \<and> (c = EB_BAD \<longleftrightarrow> is_bad eb \<noteq> 0)
     \<and> (c = EB_EMPTY \<longrightarrow> (case rd eb of None \<Rightarrow> False | Some buf \<Rightarrow> all_ff buf))
     \<and> (\<not> c > EC_MAX \<longrightarrow> (case rd eb of None \<Rightarrow> False | Some buf \<Rightarrow>
          ech_magic (ec_hdr_of_bytes buf) = UBI_EC_HDR_MAGIC
          \<and> crc_ok buf 60 (ech_hdr_crc (ec_hdr_of_bytes buf)) \<and> uint c = uint (ech_ec (ec_hdr_of_bytes buf))))"

definition scan_inv :: "(nat \<Rightarrow> int) \<Rightarrow> (nat \<Rightarrow> bytes option) \<Rightarrow> nat \<Rightarrow> nat \<Rightarrow> ubi_scan_info \<Rightarrow> bool" where
  "scan_inv is_bad rd eb_cnt k si \<longleftrightarrow> length (si_ec si) = eb_cnt \<and> k \<le> eb_cnt
     \<and> si_ok_cnt si = ok_count k si \<and> si_empty_cnt si = cnt EB_EMPTY k si
     \<and> si_corrupted_cnt si = cnt EB_CORRUPTED k si \<and> si_alien_cnt si = cnt EB_ALIEN k si
     \<and> si_bad_cnt si = cnt EB_BAD k si
     \<and> (\<forall>j < k. entry_ok is_bad rd j (si_ec si ! j))"

lemma take_Suc_update: "k < length xs \<Longrightarrow> take (Suc k) (xs[k := x]) = take k xs @ [x]"
  by (simp add: take_Suc_conv_app_nth)

text \<open>What one turn does to the table of states: it writes entry \<open>eb\<close> and no other, and the entry is an
  erase counter only when the header was accepted.\<close>

lemma ucast_ec_small:
  assumes "\<not> e > ucast EC_MAX"
  shows "\<not> (ucast (e :: u64) :: u32) > EC_MAX" and "uint (ucast e :: u32) = uint e"
proof -
  have le: "uint e \<le> 0x7FFFFFFF" using assms by (simp add: EC_MAX_def word_le_def not_less)
  then show u: "uint (ucast e :: u32) = uint e" by (simp add: unsigned_ucast_eq take_bit_int_eq_self)
  with le show "\<not> (ucast e :: u32) > EC_MAX" by (simp add: word_less_def EC_MAX_def)
qed

lemma accept_eb_cases:
  assumes "accept_eb min_io ech si eb = Ret si'"
  obtains (corrupted) v d where "si' = mark_corrupted eb (si\<lparr>si_vid_hdr_offs := v, si_data_offs := d\<rparr>)"
  | (ok) v d where "si' = mark_ok eb (ech_ec ech) (si\<lparr>si_vid_hdr_offs := v, si_data_offs := d\<rparr>)"
proof (cases "si_vid_hdr_offs si = -1")
  case True
  then show thesis using assms that by (auto simp: accept_eb_def Let_def split: if_splits)
next
  case False
  have same: "si\<lparr>si_vid_hdr_offs := si_vid_hdr_offs si, si_data_offs := si_data_offs si\<rparr> = si" by simp
  have "si' = mark_corrupted eb si \<or> si' = mark_ok eb (ech_ec ech) si"
    using assms False by (auto simp: accept_eb_def split: if_splits)
  then show thesis
    using corrupted [of "si_data_offs si" "si_vid_hdr_offs si"] ok [of "si_data_offs si" "si_vid_hdr_offs si"]
    unfolding same by blast
qed

lemma scan_eb_cases:
  assumes "scan_eb min_io is_bad rd si eb = Ret si'"
  obtains (bad) "is_bad eb \<noteq> 0" "si' = si\<lparr>si_bad_cnt := si_bad_cnt si + 1, si_ec := (si_ec si)[eb := EB_BAD]\<rparr>"
  | (empty) buf where "is_bad eb = 0" "rd eb = Some buf" "all_ff buf"
      "si' = si\<lparr>si_empty_cnt := si_empty_cnt si + 1, si_ec := (si_ec si)[eb := EB_EMPTY]\<rparr>"
  | (alien) "is_bad eb = 0" "si' = si\<lparr>si_alien_cnt := si_alien_cnt si + 1, si_ec := (si_ec si)[eb := EB_ALIEN]\<rparr>"
  | (corrupted) v d where "is_bad eb = 0"
      "si' = mark_corrupted eb (si\<lparr>si_vid_hdr_offs := v, si_data_offs := d\<rparr>)"
  | (ok) v d buf where "is_bad eb = 0" "rd eb = Some buf"
      "ech_magic (ec_hdr_of_bytes buf) = UBI_EC_HDR_MAGIC"
      "ech_hdr_crc (ec_hdr_of_bytes buf) = mtd_crc32 UBI_CRC32_INIT buf UBI_EC_HDR_SIZE_CRC"
      "\<not> ech_ec (ec_hdr_of_bytes buf) > ucast EC_MAX"
      "si' = mark_ok eb (ech_ec (ec_hdr_of_bytes buf)) (si\<lparr>si_vid_hdr_offs := v, si_data_offs := d\<rparr>)"
proof (cases "is_bad eb \<noteq> 0")
  case True
  then show thesis using assms bad by (auto simp: scan_eb_def split: if_splits)
next
  case False
  then obtain buf where buf: "rd eb = Some buf"
    using assms by (auto simp: scan_eb_def split: option.splits)
  show thesis
  proof (cases "ech_magic (ec_hdr_of_bytes buf) = UBI_EC_HDR_MAGIC
      \<and> ech_hdr_crc (ec_hdr_of_bytes buf) = mtd_crc32 UBI_CRC32_INIT buf UBI_EC_HDR_SIZE_CRC
      \<and> \<not> ech_ec (ec_hdr_of_bytes buf) > ucast EC_MAX")
    case True
    then have "accept_eb min_io (ec_hdr_of_bytes buf) si eb = Ret si'"
      using assms False buf by (simp add: scan_eb_def Let_def)
    then show thesis
    proof (cases rule: accept_eb_cases)
      case (corrupted v d)
      show thesis by (rule that(4)) (use False corrupted in simp_all)
    next
      case (ok v d)
      show thesis by (rule that(5)) (use True False buf ok in simp_all)
    qed
  next
    case no: False
    have same: "si = si\<lparr>si_vid_hdr_offs := si_vid_hdr_offs si, si_data_offs := si_data_offs si\<rparr>" by simp
    show thesis
      using no assms False buf empty alien corrupted [of "si_data_offs si" "si_vid_hdr_offs si"]
      unfolding same [symmetric] by (auto simp: scan_eb_def Let_def split: if_splits)
  qed
qed

lemma codes_above [simp]:
  "EB_EMPTY > EC_MAX" "EB_CORRUPTED > EC_MAX" "EB_ALIEN > EC_MAX" "EB_BAD > EC_MAX"
  "EB_EMPTY \<noteq> EB_CORRUPTED" "EB_EMPTY \<noteq> EB_ALIEN" "EB_EMPTY \<noteq> EB_BAD" "EB_CORRUPTED \<noteq> EB_ALIEN"
  "EB_CORRUPTED \<noteq> EB_BAD" "EB_ALIEN \<noteq> EB_BAD" "EB_CORRUPTED \<noteq> EB_EMPTY" "EB_ALIEN \<noteq> EB_EMPTY"
  "EB_BAD \<noteq> EB_EMPTY" "EB_ALIEN \<noteq> EB_CORRUPTED" "EB_BAD \<noteq> EB_CORRUPTED" "EB_BAD \<noteq> EB_ALIEN"
  by (simp_all add: eb_codes)

lemma scan_eb_effect:
  assumes "scan_eb min_io is_bad rd si eb = Ret si'"
  obtains c where "si_ec si' = (si_ec si)[eb := c]" and "entry_ok is_bad rd eb c"
    and "si_ok_cnt si' = si_ok_cnt si + of_bool (\<not> c > EC_MAX)"
    and "si_empty_cnt si' = si_empty_cnt si + of_bool (c = EB_EMPTY)"
    and "si_corrupted_cnt si' = si_corrupted_cnt si + of_bool (c = EB_CORRUPTED)"
    and "si_alien_cnt si' = si_alien_cnt si + of_bool (c = EB_ALIEN)"
    and "si_bad_cnt si' = si_bad_cnt si + of_bool (c = EB_BAD)"
proof -
  from assms show thesis
  proof (cases rule: scan_eb_cases)
    case bad
    then show ?thesis by (intro that [of EB_BAD]) (auto simp: entry_ok_def)
  next
    case (empty buf)
    then show ?thesis by (intro that [of EB_EMPTY]) (auto simp: entry_ok_def)
  next
    case alien
    then show ?thesis by (intro that [of EB_ALIEN]) (auto simp: entry_ok_def)
  next
    case corrupted
    then show ?thesis by (intro that [of EB_CORRUPTED]) (auto simp: mark_corrupted_def entry_ok_def)
  next
    case (ok v d buf)
    note small = ucast_ec_small [OF ok(5)]
    have "ech_hdr_crc (ec_hdr_of_bytes buf) = mtd_crc32 UBI_CRC32_INIT buf (int 60)"
      using ok(4) by (simp add: ubi_sizes)
    moreover have "(ucast (ech_ec (ec_hdr_of_bytes buf)) :: u32) \<noteq> c" if "c > EC_MAX" for c
      using small(1) that by auto
    ultimately show ?thesis
      using ok small by (intro that [of "ucast (ech_ec (ec_hdr_of_bytes buf))"])
        (simp_all add: mark_ok_def crc_ok_def entry_ok_def)
  qed
qed

lemma scan_eb_inv:
  assumes "scan_eb min_io is_bad rd si k = Ret si'" and "scan_inv is_bad rd n k si" and "k < n"
  shows "scan_inv is_bad rd n (Suc k) si'"
proof -
  obtain c where c: "si_ec si' = (si_ec si)[k := c]" "entry_ok is_bad rd k c"
    "si_ok_cnt si' = si_ok_cnt si + of_bool (\<not> c > EC_MAX)"
    "si_empty_cnt si' = si_empty_cnt si + of_bool (c = EB_EMPTY)"
    "si_corrupted_cnt si' = si_corrupted_cnt si + of_bool (c = EB_CORRUPTED)"
    "si_alien_cnt si' = si_alien_cnt si + of_bool (c = EB_ALIEN)"
    "si_bad_cnt si' = si_bad_cnt si + of_bool (c = EB_BAD)"
    using assms(1) by (rule scan_eb_effect)
  have l: "length (si_ec si) = n" using assms(2) by (simp add: scan_inv_def)
  have t: "take (Suc k) (si_ec si') = take k (si_ec si) @ [c]"
    using l assms(3) unfolding c(1) by (intro take_Suc_update) simp
  have "cnt code (Suc k) si' = cnt code k si + of_bool (c = code)" for code
    by (simp add: cnt_def t)
  moreover have "ok_count (Suc k) si' = ok_count k si + of_bool (\<not> c > EC_MAX)"
    by (simp add: ok_count_def t)
  moreover have "\<forall>j < Suc k. entry_ok is_bad rd j (si_ec si' ! j)"
    using assms(2,3) c(2) l by (auto simp: c(1) scan_inv_def less_Suc_eq nth_list_update)
  ultimately show ?thesis
    using assms(2,3) l c(3-) by (simp add: scan_inv_def c(1))
qed

lemma scan_loop_inv:
  assumes "scan_loop min_io is_bad rd si [k..<n] = Ret si'" and "scan_inv is_bad rd n k si"
  shows "scan_inv is_bad rd n n si'"
  using assms
proof (induction "n - k" arbitrary: k si)
  case 0
  then show ?case by (auto simp: scan_inv_def)
next
  case (Suc m)
  then have "k < n" by simp
  with Suc.prems(1) obtain si1 where one: "scan_eb min_io is_bad rd si k = Ret si1"
    and rest: "scan_loop min_io is_bad rd si1 [Suc k..<n] = Ret si'"
    by (auto simp: upt_conv_Cons split: outcome.splits)
  show ?case
    by (rule Suc.hyps(1) [OF _ rest scan_eb_inv [OF one Suc.prems(2) \<open>k < n\<close>]]) (use Suc.hyps(2) in simp)
qed

lemma ubi_scan_inv:
  assumes "ubi_scan n min_io is_bad rd = Ret si"
  obtains si0 where "scan_inv is_bad rd n n si0" and "si = finish_scan n si0"
proof -
  obtain si0 where loop: "scan_loop min_io is_bad rd (start_scan n) [0..<n] = Ret si0"
    and fin: "si = finish_scan n si0"
    using assms by (auto simp: ubi_scan_def split: outcome.splits)
  have "scan_inv is_bad rd n 0 (start_scan n)"
    by (simp add: scan_inv_def start_scan_def cnt_def ok_count_def)
  with loop have "scan_inv is_bad rd n n si0" by (rule scan_loop_inv)
  with that fin show thesis by blast
qed

section \<open>What a scan reports\<close>

lemma states_partition:
  assumes "\<forall>c \<in> set xs. c > EC_MAX \<longrightarrow> c \<in> {EB_EMPTY, EB_CORRUPTED, EB_ALIEN, EB_BAD}"
  shows "length xs = length (filter (\<lambda>c. \<not> c > EC_MAX) xs) + count_list xs EB_EMPTY
     + count_list xs EB_CORRUPTED + count_list xs EB_ALIEN + count_list xs EB_BAD"
  using assms by (induction xs) auto

lemma uint_EC_MAX: "uint EC_MAX = 0x7FFFFFFF"
  by (simp add: EC_MAX_def)

lemma ec_sum_bounds:
  "0 \<le> ec_sum xs" "ec_sum xs \<le> 0x7FFFFFFF * int (length (filter (\<lambda>c. \<not> c > EC_MAX) xs))"
  by (induction xs) (auto simp: ec_sum_def uint_EC_MAX word_less_def algebra_simps)

text \<open>The exact mean over the valid counters: the modular sum of the code does not wrap for a device of
  fewer than \<open>2\<^sup>31\<close> eraseblocks.\<close>

lemma finish_scan_mean:
  assumes "scan_inv is_bad rd n n si" and "n < 2 ^ 31" and "si_ok_cnt si \<noteq> 0"
  shows "si_mean_ec (finish_scan n si) = ec_sum (si_ec si) div si_ok_cnt si"
    and "0 \<le> ec_sum (si_ec si) div si_ok_cnt si" and "ec_sum (si_ec si) div si_ok_cnt si \<le> 0x7FFFFFFF"
proof -
  have ok: "si_ok_cnt si = int (length (filter (\<lambda>c. \<not> c > EC_MAX) (si_ec si)))"
    and len: "length (si_ec si) = n"
    using assms(1) by (simp_all add: scan_inv_def ok_count_def)
  have "si_ok_cnt si \<le> int n" using ok len length_filter_le [of _ "si_ec si"] by simp
  with assms(2) ok ec_sum_bounds [of "si_ec si"] have "ec_sum (si_ec si) < 2 ^ 64" by simp
  with ec_sum_bounds(1) show "si_mean_ec (finish_scan n si) = ec_sum (si_ec si) div si_ok_cnt si"
    using assms(3) by (simp add: finish_scan_def Let_def)
  have pos: "0 < si_ok_cnt si" using assms(3) ok by simp
  then show "0 \<le> ec_sum (si_ec si) div si_ok_cnt si"
    using ec_sum_bounds(1) by (simp add: pos_imp_zdiv_nonneg_iff)
  have "ec_sum (si_ec si) div si_ok_cnt si \<le> (0x7FFFFFFF * si_ok_cnt si) div si_ok_cnt si"
    using ec_sum_bounds(2) [of "si_ec si"] ok pos by (intro zdiv_mono1) simp_all
  with pos show "ec_sum (si_ec si) div si_ok_cnt si \<le> 0x7FFFFFFF" by simp
qed

lemma finish_scan_fields [simp]:
  "si_ec (finish_scan n si) = si_ec si" "si_ok_cnt (finish_scan n si) = si_ok_cnt si"
  "si_empty_cnt (finish_scan n si) = si_empty_cnt si" "si_alien_cnt (finish_scan n si) = si_alien_cnt si"
  "si_corrupted_cnt (finish_scan n si) = si_corrupted_cnt si" "si_bad_cnt (finish_scan n si) = si_bad_cnt si"
  "si_good_cnt (finish_scan n si) = int n - si_bad_cnt si"
  "si_vid_hdr_offs (finish_scan n si) = si_vid_hdr_offs si" "si_data_offs (finish_scan n si) = si_data_offs si"
  by (simp_all add: finish_scan_def Let_def)

text \<open>C19. A scan that succeeds accounts for every eraseblock exactly once: the five counters are the
  numbers of entries with each state, they add up to the number of eraseblocks, the good count is what is
  not bad, an entry is bad exactly when the device said so, and the mean erase counter is the mean of the
  recorded counters, which lie in the range of valid erase counters.\<close>

theorem ubi_scan_counts:
  assumes "ubi_scan n min_io is_bad rd = Ret si" and "n < 2 ^ 31"
  shows "length (si_ec si) = n
    \<and> si_empty_cnt si = int (count_list (si_ec si) EB_EMPTY)
    \<and> si_corrupted_cnt si = int (count_list (si_ec si) EB_CORRUPTED)
    \<and> si_alien_cnt si = int (count_list (si_ec si) EB_ALIEN)
    \<and> si_bad_cnt si = int (count_list (si_ec si) EB_BAD)
    \<and> si_ok_cnt si = int (length (filter (\<lambda>c. c \<le> EC_MAX) (si_ec si)))
    \<and> si_ok_cnt si + si_empty_cnt si + si_corrupted_cnt si + si_alien_cnt si + si_bad_cnt si = int n
    \<and> si_good_cnt si = int n - si_bad_cnt si
    \<and> (\<forall>eb < n. si_ec si ! eb = EB_BAD \<longleftrightarrow> is_bad eb \<noteq> 0)
    \<and> (si_ok_cnt si \<noteq> 0 \<longrightarrow> 0 \<le> si_mean_ec si \<and> si_mean_ec si \<le> uint EC_MAX
         \<and> si_mean_ec si = (\<Sum>c \<leftarrow> filter (\<lambda>c. c \<le> EC_MAX) (si_ec si). uint c) div si_ok_cnt si)"
proof -
  obtain s0 where inv: "scan_inv is_bad rd n n s0" and si: "si = finish_scan n s0"
    using assms(1) by (rule ubi_scan_inv)
  have len: "length (si_ec s0) = n" using inv by (simp add: scan_inv_def)
  have "\<forall>c \<in> set (si_ec s0). c > EC_MAX \<longrightarrow> c \<in> {EB_EMPTY, EB_CORRUPTED, EB_ALIEN, EB_BAD}"
    using inv by (auto simp: scan_inv_def entry_ok_def in_set_conv_nth)
  note part = states_partition [OF this, unfolded not_less]
  have bad: "\<forall>eb < n. si_ec s0 ! eb = EB_BAD \<longleftrightarrow> is_bad eb \<noteq> 0"
    using inv by (simp add: scan_inv_def entry_ok_def)
  have cnts: "si_empty_cnt s0 = int (count_list (si_ec s0) EB_EMPTY)"
    "si_corrupted_cnt s0 = int (count_list (si_ec s0) EB_CORRUPTED)"
    "si_alien_cnt s0 = int (count_list (si_ec s0) EB_ALIEN)"
    "si_bad_cnt s0 = int (count_list (si_ec s0) EB_BAD)"
    "si_ok_cnt s0 = int (length (filter (\<lambda>c. c \<le> EC_MAX) (si_ec s0)))"
    using inv by (simp_all add: scan_inv_def cnt_def ok_count_def not_less)
  have mean: "si_ok_cnt s0 \<noteq> 0 \<longrightarrow> 0 \<le> si_mean_ec si \<and> si_mean_ec si \<le> uint EC_MAX
      \<and> si_mean_ec si = (\<Sum>c \<leftarrow> filter (\<lambda>c. c \<le> EC_MAX) (si_ec s0). uint c) div si_ok_cnt s0"
    using finish_scan_mean [OF inv assms(2)] by (simp add: si uint_EC_MAX ec_sum_def not_less)
  have "si_ok_cnt s0 + si_empty_cnt s0 + si_corrupted_cnt s0 + si_alien_cnt s0 + si_bad_cnt s0 = int n"
    using part len cnts by simp
  with len bad cnts mean show ?thesis unfolding si finish_scan_fields by blast
qed

text \<open>A device of three eraseblocks: one bad, one erased, one with foreign contents.\<close>

definition demo_bad :: "nat \<Rightarrow> int" where "demo_bad eb = (if eb = 0 then 1 else 0)"
definition demo_rd :: "nat \<Rightarrow> bytes option" where
  "demo_rd eb = Some (replicate 64 (if eb = 1 then 0xFF else 0))"

lemma demo_scan: "\<exists>si. ubi_scan 3 16 demo_bad demo_rd = Ret si \<and> si_ec si = [EB_BAD, EB_EMPTY, EB_ALIEN]"
proof -
  have m: "ech_magic (ec_hdr_of_bytes (replicate 64 0xFF)) \<noteq> UBI_EC_HDR_MAGIC"
    "ech_magic (ec_hdr_of_bytes (replicate 64 0)) \<noteq> UBI_EC_HDR_MAGIC"
    by code_simp+
  have f: "all_ff (replicate 64 0xFF)" "\<not> all_ff (replicate 64 0)" by code_simp+
  have u: "[0..<3] = [0, 1, 2::nat]" "replicate 3 (0::u32) = [0, 0, 0]" by (simp_all add: eval_nat_numeral upt_rec)
  show ?thesis
    using m f by (simp add: ubi_scan_def u scan_eb_def demo_bad_def demo_rd_def start_scan_def)
qed

theorem ubi_scan_counts_witness:
  "\<exists>si. ubi_scan 3 16 demo_bad demo_rd = Ret si \<and> si_good_cnt si = 2 \<and> si_ok_cnt si = 0
     \<and> si_empty_cnt si = 1 \<and> si_alien_cnt si = 1"
proof -
  obtain si where si: "ubi_scan 3 16 demo_bad demo_rd = Ret si" "si_ec si = [EB_BAD, EB_EMPTY, EB_ALIEN]"
    using demo_scan by blast
  with ubi_scan_counts [OF si(1)] show ?thesis by (auto simp: not_le)
qed

text \<open>C10. The scanner never takes a damaged erase counter header for a good one: if the header that was
  written had a valid checksum and what is read back differs from it inside one window of at most four
  of the 60 checksummed bytes, or only in the stored checksum, then the eraseblock is not recorded with an
  erase counter.\<close>

theorem ubi_scan_rejects_damage:
  assumes "ubi_scan n min_io is_bad rd = Ret si" and "eb < n" and "rd eb = Some (ec_hdr_bytes h')"
    and "ec_hdr_wf h" and "ec_hdr_wf h'" and "crc_ok (ec_hdr_bytes h) 60 (ech_hdr_crc h)"
    and "(\<exists>pre e e' post. ec_hdr_body h = pre @ e @ post \<and> ec_hdr_body h' = pre @ e' @ post
            \<and> length e = length e' \<and> length e \<le> 4 \<and> e \<noteq> e' \<and> ech_hdr_crc h' = ech_hdr_crc h)
         \<or> (ec_hdr_body h' = ec_hdr_body h \<and> ech_hdr_crc h' \<noteq> ech_hdr_crc h)"
  shows "si_ec si ! eb > EC_MAX"
proof -
  obtain s0 where inv: "scan_inv is_bad rd n n s0" and si: "si = finish_scan n s0"
    using assms(1) by (rule ubi_scan_inv)
  have "\<not> crc_ok (ec_hdr_bytes h') 60 (ech_hdr_crc h')"
    using assms(7) ec_hdr.burst_invalid [OF assms(4,5,6)] ec_hdr.crc_change_invalid [OF assms(4,5,6)]
    by blast
  moreover have "entry_ok is_bad rd eb (si_ec s0 ! eb)" using inv assms(2) by (simp add: scan_inv_def)
  ultimately show ?thesis
    using assms(3,5) by (auto simp: entry_ok_def si ec_hdr_of_bytes_bytes)
qed

text \<open>A header whose stored checksum changed after it was sealed.\<close>

definition demo_damaged :: ubi_ec_hdr where
  "demo_damaged = (ubigen_init_ec_hdr demo_ui 5)\<lparr>ech_hdr_crc := ech_hdr_crc (ubigen_init_ec_hdr demo_ui 5) + 1\<rparr>"

theorem ubi_scan_rejects_damage_witness:
  "\<exists>si. ubi_scan 1 16 (\<lambda>_. 0) (\<lambda>_. Some (ec_hdr_bytes demo_damaged)) = Ret si \<and> si_ec si ! 0 > EC_MAX"
proof -
  let ?h = "ubigen_init_ec_hdr demo_ui 5"
  have wf: "ec_hdr_wf ?h" "ec_hdr_wf demo_damaged"
    using ubigen_init_ec_hdr_wf [of demo_ui 5] by (simp_all add: demo_damaged_def ec_hdr_wf_def)
  have ok: "crc_ok (ec_hdr_bytes ?h) 60 (ech_hdr_crc ?h)" by (rule ubigen_init_ec_hdr_crc)
  have diff: "ec_hdr_body demo_damaged = ec_hdr_body ?h" "ech_hdr_crc demo_damaged \<noteq> ech_hdr_crc ?h"
    by (simp_all add: demo_damaged_def ec_hdr_body_def)
  have "\<not> crc_ok (ec_hdr_bytes demo_damaged) 60 (ech_hdr_crc demo_damaged)"
    by (rule ec_hdr.crc_change_invalid [OF wf ok diff])
  then have "\<exists>si. ubi_scan 1 16 (\<lambda>_. 0) (\<lambda>_. Some (ec_hdr_bytes demo_damaged)) = Ret si"
    by (simp add: ubi_scan_def scan_eb_def Let_def ec_hdr_of_bytes_bytes [OF wf(2)] crc_ok_def ubi_sizes)
  then obtain si where "ubi_scan 1 16 (\<lambda>_. 0) (\<lambda>_. Some (ec_hdr_bytes demo_damaged)) = Ret si" by blast
  with ubi_scan_rejects_damage [OF this _ _ wf ok] diff show ?thesis by auto
qed

section \<open>Scanning what the generator wrote\<close>

text \<open>The state after \<open>k\<close> good headers of one image.\<close>

definition scanned :: "ubigen_info \<Rightarrow> u32 \<Rightarrow> nat \<Rightarrow> nat \<Rightarrow> ubi_scan_info" where
  "scanned ui c n k = (start_scan n)\<lparr>si_ec := replicate k c @ replicate (n - k) 0, si_ok_cnt := int k,
     si_vid_hdr_offs := (if k = 0 then -1 else ui_vid_hdr_offs ui),
     si_data_offs := (if k = 0 then -1 else ui_data_offs ui)\<rparr>"

lemma sint_offset:
  assumes "0 \<le> x" and "x < 2 ^ 31"
  shows "sint (word_of_int x :: u32) = x"
  using assms by (simp add: sint_uint uint_word_of_int signed_take_bit_int_eq_self)

lemma scan_eb_good:
  assumes g: "geometry ui" and ec: "0 \<le> ec" "ec \<le> uint EC_MAX"
    and io: "0 < min_io" "ui_data_offs ui smod min_io = 0"
    and ok: "is_bad k = 0" "rd k = Some (ec_hdr_bytes (ubigen_init_ec_hdr ui ec))" and k: "k < n"
  shows "scan_eb min_io is_bad rd (scanned ui (word_of_int ec) n k) k = Ret (scanned ui (word_of_int ec) n (Suc k))"
proof -
  let ?h = "ubigen_init_ec_hdr ui ec"
  have offs: "sint (word_of_int (ui_vid_hdr_offs ui) :: u32) = ui_vid_hdr_offs ui"
    "sint (word_of_int (ui_data_offs ui) :: u32) = ui_data_offs ui" "ui_vid_hdr_offs ui \<noteq> -1"
    using g by (auto intro!: sint_offset simp: geometry_def ubi_sizes)
  have e: "\<not> (word_of_int ec :: u64) > ucast EC_MAX" "ucast (word_of_int ec :: u64) = (word_of_int ec :: u32)"
    using ec by (simp_all add: word_less_def uint_EC_MAX unsigned_ucast_eq take_bit_int_eq_self
        word_uint_eq_iff uint_word_of_int)
  have upd: "(replicate k c @ replicate (n - k) 0)[k := c] = replicate (Suc k) c @ replicate (n - Suc k) (0::u32)" for c
    using k by (simp add: list_update_append replicate_app_Cons_same
        flip: Cons_replicate_eq [THEN iffD2] add: Suc_diff_Suc [symmetric])
  have crc: "ech_hdr_crc ?h = mtd_crc32 UBI_CRC32_INIT (ec_hdr_bytes ?h) UBI_EC_HDR_SIZE_CRC"
    using ubigen_init_ec_hdr_crc [of ui ec] by (simp add: crc_ok_def ubi_sizes)
  have acc: "accept_eb min_io ?h (scanned ui (word_of_int ec) n k) k = Ret (scanned ui (word_of_int ec) n (Suc k))"
    using offs e io k upd [of "word_of_int ec"]
    by (cases "k = 0") (simp_all add: accept_eb_def Let_def scanned_def mark_ok_def start_scan_def)
  show ?thesis
    using ok e(1) by (simp add: scan_eb_def Let_def ec_hdr_of_bytes_bytes acc crc [symmetric])
qed

lemma scan_loop_good:
  assumes "geometry ui" and "0 \<le> ec" "ec \<le> uint EC_MAX" and "0 < min_io" "ui_data_offs ui smod min_io = 0"
    and ok: "\<forall>k < n. is_bad k = 0 \<and> rd k = Some (ec_hdr_bytes (ubigen_init_ec_hdr ui ec))"
  shows "scan_loop min_io is_bad rd (scanned ui (word_of_int ec) n k) [k..<n] = Ret (scanned ui (word_of_int ec) n (max k n))"
proof (induction "n - k" arbitrary: k)
  case 0
  then show ?case by (simp add: max_def)
next
  case (Suc m)
  then have k: "k < n" by simp
  have one: "scan_eb min_io is_bad rd (scanned ui (word_of_int ec) n k) k = Ret (scanned ui (word_of_int ec) n (Suc k))"
    by (rule scan_eb_good [OF assms(1-5)]) (use ok k in simp_all)
  show ?case using Suc.hyps(1) [of "Suc k"] Suc.hyps(2) k by (simp add: upt_conv_Cons one max_def)
qed

lemma ec_sum_replicate:
  assumes "0 \<le> ec" "ec \<le> uint EC_MAX"
  shows "ec_sum (replicate n (word_of_int ec)) = int n * ec"
proof -
  have "uint (word_of_int ec :: u32) = ec" using assms by (simp add: uint_word_of_int uint_EC_MAX)
  moreover from this have "\<not> EC_MAX < word_of_int ec" using assms by (simp add: word_less_def)
  ultimately show ?thesis by (simp add: ec_sum_def sum_list_replicate)
qed

lemma scan_good_headers:
  assumes "geometry ui" and "0 \<le> ec" "ec \<le> uint EC_MAX" and "0 < min_io" "ui_data_offs ui smod min_io = 0"
    and n: "0 < n" "n < 2 ^ 31" and ok: "\<forall>k < n. is_bad k = 0 \<and> rd k = Some (ec_hdr_bytes (ubigen_init_ec_hdr ui ec))"
  shows "\<exists>si. ubi_scan n min_io is_bad rd = Ret si
     \<and> si_ec si = replicate n (word_of_int ec) \<and> si_ok_cnt si = int n \<and> si_good_cnt si = int n
     \<and> si_corrupted_cnt si = 0 \<and> si_mean_ec si = ec
     \<and> si_vid_hdr_offs si = ui_vid_hdr_offs ui \<and> si_data_offs si = ui_data_offs ui"
proof -
  let ?s = "scanned ui (word_of_int ec) n n"
  have "scanned ui (word_of_int ec) n 0 = start_scan n" by (simp add: scanned_def start_scan_def)
  with scan_loop_good [OF assms(1-5) ok, of 0]
  have scan: "ubi_scan n min_io is_bad rd = Ret (finish_scan n ?s)" by (simp add: ubi_scan_def)
  have "int n * ec \<le> int n * uint EC_MAX" by (rule mult_left_mono [OF assms(3)]) simp
  also have "\<dots> < 2 ^ 64" using n(2) by (simp add: uint_EC_MAX)
  finally have "si_mean_ec (finish_scan n ?s) = ec"
    using assms(2) n ec_sum_replicate [OF assms(2,3), of n]
    by (simp add: finish_scan_def Let_def scanned_def start_scan_def)
  then show ?thesis
    unfolding scan using n by (simp add: finish_scan_def Let_def scanned_def start_scan_def)
qed

text \<open>C11. The scanner understands what the generator writes: on a device without bad eraseblocks that
  holds the eraseblocks \<open>ubigen_write_volume\<close> produced, the scan succeeds, takes every eraseblock as good
  with the erase counter that was written, reports that counter as the mean, and finds the VID header
  and data offsets of the image.\<close>

theorem ubi_scan_of_written_volume:
  assumes "geometry ui" and "length junk = nat (ui_peb_size ui)" and "\<forall>k. wr k"
    and "vi_id vi < ui_max_volumes ui" and "vi_alignment vi < ui_leb_size ui"
    and "0 < vi_usable_leb_size vi" and "vi_usable_leb_size vi \<le> ui_leb_size ui"
    and "0 \<le> sz" and "nat sz \<le> length inp"
    and "ubigen_write_volume junk wr ui vi ec sz inp = Ret pebs"
    and "0 \<le> ec" "ec \<le> uint EC_MAX" and "0 < min_io" "ui_data_offs ui smod min_io = 0"
    and "0 < length pebs" "length pebs < 2 ^ 31"
    and "\<forall>eb < length pebs. is_bad eb = 0 \<and> rd eb = Some (take 64 (pebs ! eb))"
  shows "\<exists>si. ubi_scan (length pebs) min_io is_bad rd = Ret si
     \<and> si_ec si = replicate (length pebs) (word_of_int ec) \<and> si_ok_cnt si = int (length pebs)
     \<and> si_good_cnt si = int (length pebs) \<and> si_corrupted_cnt si = 0 \<and> si_mean_ec si = ec
     \<and> si_vid_hdr_offs si = ui_vid_hdr_offs ui \<and> si_data_offs si = ui_data_offs ui"
proof -
  let ?n = "length pebs" and ?ch = "chunks (nat (vi_usable_leb_size vi)) (take (nat sz) inp)"
  have pebs: "pebs = map (volume_peb ui vi ec) (enumerate 0 ?ch)"
    using write_volume_image [OF assms(1-9), of ec] assms(10) by simp
  have "take 64 (pebs ! k) = ec_hdr_bytes (ubigen_init_ec_hdr ui ec)" if k: "k < ?n" for k
  proof -
    have kc: "k < length ?ch" using k by (simp add: pebs)
    have "length (?ch ! k) \<le> nat (ui_leb_size ui)"
      using chunks_bounds [OF nth_mem [OF kc]] assms(6,7) by linarith
    then show ?thesis
      using kc by (simp add: pebs nth_enumerate_eq volume_peb_def peb_image_reads(2) [OF assms(1)])
  qed
  then have "\<forall>k < ?n. is_bad k = 0 \<and> rd k = Some (ec_hdr_bytes (ubigen_init_ec_hdr ui ec))"
    using assms(17) by simp
  with scan_good_headers [OF assms(1,11-16)] show ?thesis by blast
qed

theorem ubi_scan_of_written_volume_witness:
  "\<exists>pebs si. ubigen_write_volume (replicate 144 0) (\<lambda>_. True) demo_ui demo_vi 5 20 (replicate 20 3) = Ret pebs
     \<and> ubi_scan 2 16 (\<lambda>_. 0) (\<lambda>eb. Some (take 64 (pebs ! eb))) = Ret si \<and> si_ec si = [5, 5] \<and> si_mean_ec si = 5"
proof -
  let ?pebs = "map (volume_peb demo_ui demo_vi 5) (enumerate 0 (chunks 16 (replicate 20 3)))"
  have g: "geometry demo_ui" by (simp add: geometry_def demo_ui_def ubi_sizes)
  have w: "ubigen_write_volume (replicate 144 0) (\<lambda>_. True) demo_ui demo_vi 5 20 (replicate 20 3) = Ret ?pebs"
    using write_volume_image [OF g, of "replicate 144 0" "\<lambda>_. True" demo_vi 20 "replicate 20 3" 5]
    by (simp add: demo_ui_def demo_vi_def)
  have len: "length ?pebs = 2" using length_chunks [of 16 "replicate 20 (3::u8)"] by simp
  then have ne: "chunks 16 (replicate 20 (3::u8)) \<noteq> []" by auto
  have "ui_data_offs demo_ui smod 16 = 0" by (simp add: demo_ui_def)
  then obtain si where "ubi_scan (length ?pebs) 16 (\<lambda>_. 0) (\<lambda>eb. Some (take 64 (?pebs ! eb))) = Ret si"
      "si_ec si = replicate (length ?pebs) 5" "si_mean_ec si = 5"
    using ubi_scan_of_written_volume [OF g _ _ _ _ _ _ _ _ w, of 16 "\<lambda>_. 0" "\<lambda>eb. Some (take 64 (?pebs ! eb))"] len ne
    by (auto simp: demo_ui_def demo_vi_def uint_EC_MAX)
  then show ?thesis using w len by (metis replicate_0 replicate_Suc numeral_2_eq_2)
qed

end
