(* ===== verification/Ubinize.thy ===== *)
theory Ubinize
  imports IniParser UbiScan
begin

text \<open>
  The command \<open>ubinize\<close> (\<open>ubi-utils/ubinize.c\<close>) with the size parser of \<open>ubi-utils/ubiutils-common.c\<close>: it
  reads an ini file, adds one volume per section to the volume table, writes the eraseblocks of every
  volume with an image, and at the end the layout volume in front of them. The file system is a map from
  names to contents; the options are those \<open>getopt_long\<close> delivers, with the arguments behind them. What
  memory and the system allow is the record \<open>ubinize_env\<close>. A \<open>long\<close> has 64 bits. Messages are not modelled.
\<close>

section \<open>Numbers\<close>

definition to_int64 :: "int \<Rightarrow> int" where
  "to_int64 x = (x + 2 ^ 63) mod 2 ^ 64 - 2 ^ 63"

text \<open>\<open>strtoull\<close> with base 0: the value and the text behind the number, \<open>None\<close> for no conversion.\<close>

definition strtoull :: "string \<Rightarrow> (int \<times> string) option" where
  "strtoull s =
     (let (neg, s1) = split_sign (dropWhile isspace s);
          (b, s2) = split_base 0 s1;
          ds = takeWhile (is_digit b) s2
      in if ds = [] then None
         else let v = int (num_val b ds)
              in Some (if v \<ge> 2 ^ 64 then 2 ^ 64 - 1 else if neg then (- v) mod 2 ^ 64 else v, drop (length ds) s2))"

definition get_multiplier :: "string \<Rightarrow> int" where
  "get_multiplier str =
     (let str = dropWhile (\<lambda>c. c = CHR '' '' \<or> c = CHR 0x09) str in
      if str = ''KiB'' then 1024
      else if str = ''MiB'' then 1024 * 1024
      else if str = ''GiB'' then 1024 * 1024 * 1024
      else - 1)"

text \<open>An error is the value \<open>-1\<close>; the product of a \<open>long long\<close> may overflow.\<close>

definition ubiutils_get_bytes :: "string \<Rightarrow> (unit, int) outcome" where
  "ubiutils_get_bytes str =
     (case strtoull str of
        None \<Rightarrow> Ret (- 1)
      | Some (u, endp) \<Rightarrow>
          let bytes = to_int64 u in
          if bytes < 0 then Ret (- 1)
          else if endp \<noteq> [] then
            (let mult = get_multiplier endp in
             if mult = - 1 then Ret (- 1) else if bytes * mult \<ge> 2 ^ 63 then Undef else Ret (bytes * mult))
          else Ret bytes)"

definition is_power_of_2 :: "u64 \<Rightarrow> bool" where
  "is_power_of_2 n = (n \<noteq> 0 \<and> n AND (n - 1) = 0)"

text \<open>The value and the error flag.\<close>

definition simple_strtoul :: "string \<Rightarrow> int \<times> bool" where
  "simple_strtoul snum =
     (case strtoull snum of None \<Rightarrow> (0, True) | Some (v, endptr) \<Rightarrow> (v, endptr \<noteq> []))"

section \<open>Options\<close>

type_synonym files = "string \<rightharpoonup> bytes"

record ubinize_env =
  ue_creatable :: "string \<Rightarrow> bool"
  ue_readable :: "string \<Rightarrow> bool"
  ue_seek :: bool
  ue_vtbl_mem :: bool
  ue_dict_mem :: bool
  ue_vi_mem :: bool
  ue_before :: char
  ue_rand :: u32
  ue_junk :: "nat \<Rightarrow> bytes"
  ue_write :: "nat \<Rightarrow> nat \<Rightarrow> bool"
  ue_layout_junk :: bytes
  ue_layout_io :: "nat \<Rightarrow> bool"

record args =
  a_f_in :: string
  a_f_out :: "string option"
  a_peb_size :: int
  a_min_io_size :: int
  a_subpage_size :: int
  a_vid_hdr_offs :: int
  a_ec :: int
  a_ubi_ver :: int
  a_image_seq :: u32
  a_verbose :: bool

definition initial_args :: "u32 \<Rightarrow> args" where
  "initial_args r = \<lparr>a_f_in = [], a_f_out = None, a_peb_size = - 1, a_min_io_size = - 1, a_subpage_size = - 1,
     a_vid_hdr_offs = 0, a_ec = 0, a_ubi_ver = 1, a_image_seq = r, a_verbose = False\<rparr>"

datatype opt_exit = Opt_error | Opt_success

definition UBI_MAX_PEB_SZ :: int where "UBI_MAX_PEB_SZ = 2 * 1024 * 1024"

text \<open>A size option: the number of bytes cut to an \<open>int\<close>, which has to be positive.\<close>

definition size_option :: "string \<Rightarrow> (unit, int) outcome" where
  "size_option optarg =
     (case ubiutils_get_bytes optarg of
        Ret b \<Rightarrow> if to_int32 b \<le> 0 then Err () else Ret (to_int32 b)
      | Err e \<Rightarrow> Err e | Undef \<Rightarrow> Undef)"

text \<open>A size that has to be a power of two as well.\<close>

definition power_option :: "string \<Rightarrow> (unit, int) outcome" where
  "power_option optarg =
     (case size_option optarg of
        Ret n \<Rightarrow> if is_power_of_2 (word_of_int n) then Ret n else Err ()
      | Err e \<Rightarrow> Err e | Undef \<Rightarrow> Undef)"

definition int_option :: "string \<Rightarrow> (unit, int) outcome" where
  "int_option optarg =
     (let (v, error) = simple_strtoul optarg in
      if error \<or> to_int32 v < 0 then Err () else Ret (to_int32 v))"

text \<open>One turn of the option loop. The output file is created and truncated when its option is read.\<close>

definition parse_option :: "ubinize_env \<Rightarrow> char \<times> string \<Rightarrow> args \<times> files \<Rightarrow> (opt_exit \<times> files, args \<times> files) outcome" where
  "parse_option env opt st =
     (let (key, optarg) = opt; (a, fs) = st;
          num = (\<lambda>r upd. case r of Ret n \<Rightarrow> Ret (upd n, fs) | Err _ \<Rightarrow> Err (Opt_error, fs) | Undef \<Rightarrow> Undef) in
      if key = CHR ''o'' then
        (if ue_creatable env optarg then Ret (a\<lparr>a_f_out := Some optarg\<rparr>, fs(optarg \<mapsto> []))
         else Err (Opt_error, fs))
      else if key = CHR ''p'' then num (size_option optarg) (\<lambda>n. a\<lparr>a_peb_size := n\<rparr>)
      else if key = CHR ''m'' then num (power_option optarg) (\<lambda>n. a\<lparr>a_min_io_size := n\<rparr>)
      else if key = CHR ''s'' then num (power_option optarg) (\<lambda>n. a\<lparr>a_subpage_size := n\<rparr>)
      else if key = CHR ''O'' then num (int_option optarg) (\<lambda>n. a\<lparr>a_vid_hdr_offs := n\<rparr>)
      else if key = CHR ''e'' then num (int_option optarg) (\<lambda>n. a\<lparr>a_ec := n\<rparr>)
      else if key = CHR ''x'' then num (int_option optarg) (\<lambda>n. a\<lparr>a_ubi_ver := n\<rparr>)
      else if key = CHR ''Q'' then
        (let (v, error) = simple_strtoul optarg in
         if error \<or> v > 0xFFFFFFFF then Err (Opt_error, fs) else Ret (a\<lparr>a_image_seq := word_of_int v\<rparr>, fs))
      else if key = CHR ''v'' then Ret (a\<lparr>a_verbose := True\<rparr>, fs)
      else if key = CHR ''h'' \<or> key = CHR ''V'' then Err (Opt_success, fs)
      else Err (Opt_error, fs))"

fun parse_options :: "ubinize_env \<Rightarrow> (char \<times> string) list \<Rightarrow> args \<times> files \<Rightarrow> (opt_exit \<times> files, args \<times> files) outcome" where
  "parse_options env [] st = Ret st"
| "parse_options env (opt # opts) st =
     (case parse_option env opt st of Ret st' \<Rightarrow> parse_options env opts st' | Err e \<Rightarrow> Err e | Undef \<Rightarrow> Undef)"

text \<open>The checks behind the loop, with the default of the sub-page size.\<close>

definition check_args :: "args \<Rightarrow> (unit, args) outcome" where
  "check_args a =
     (if a_peb_size a < 0 then Err ()
      else if a_peb_size a > UBI_MAX_PEB_SZ then Err ()
      else if a_min_io_size a < 0 then Err ()
      else
        let a = (if a_subpage_size a < 0 then a\<lparr>a_subpage_size := a_min_io_size a\<rparr> else a) in
        if a_subpage_size a > a_min_io_size a then Err ()
        else if a_peb_size a smod a_min_io_size a \<noteq> 0 then Err ()
        else if a_min_io_size a smod a_subpage_size a \<noteq> 0 then Err ()
        else if a_f_out a = None then Err ()
        else if a_vid_hdr_offs a \<noteq> 0 \<and> a_vid_hdr_offs a + UBI_VID_HDR_SIZE \<ge> 2 ^ 31 then Undef
        else if a_vid_hdr_offs a \<noteq> 0 \<and> (a_vid_hdr_offs a + UBI_VID_HDR_SIZE \<ge> a_peb_size a \<or> a_vid_hdr_offs a smod 8 \<noteq> 0)
        then Err ()
        else Ret a)"

definition parse_opt :: "ubinize_env \<Rightarrow> (char \<times> string) list \<Rightarrow> string list \<Rightarrow> files \<Rightarrow>
    (opt_exit \<times> files, args \<times> files) outcome" where
  "parse_opt env opts rest fs =
     (case parse_options env opts (initial_args (ue_rand env), fs) of
        Ret (a, fs) \<Rightarrow>
          (case rest of
             [f_in] \<Rightarrow> (case check_args (a\<lparr>a_f_in := f_in\<rparr>) of Ret a \<Rightarrow> Ret (a, fs) | Err _ \<Rightarrow> Err (Opt_error, fs) | Undef \<Rightarrow> Undef)
           | _ \<Rightarrow> Err (Opt_error, fs))
      | Err e \<Rightarrow> Err e | Undef \<Rightarrow> Undef)"

section \<open>Sections\<close>

definition UBI_VTBL_AUTORESIZE_FLG :: u8 where "UBI_VTBL_AUTORESIZE_FLG = 0x01"

text \<open>The entry of the array of volumes before its section is read: \<open>calloc\<close> clears it.\<close>

definition zero_vol :: ubigen_vol_info where
  "zero_vol = \<lparr>vi_id = 0, vi_type = 0, vi_alignment = 0, vi_data_pad = 0, vi_usable_leb_size = 0, vi_name = [],
     vi_name_len = 0, vi_compat = 0, vi_used_ebs = 0, vi_bytes = 0, vi_flags = 0\<rparr>"

datatype section_error = Long_section_name | No_mode | Bad_vol_type | Cannot_stat | Empty_image | No_image | No_vol_id
  | Negative_vol_id | High_vol_id | Bad_vol_size | Image_too_large | No_vol_size | No_vol_name | Long_vol_name | Bad_vol_flags

text \<open>A section of another mode is skipped; a volume comes with its name and the name of its image file.\<close>

datatype section_result = Skipped | Volume ubigen_vol_info string "string option"

definition section_type :: "dictionary \<Rightarrow> string \<Rightarrow> (section_error, int) outcome" where
  "section_type d sname =
     (case iniparser_getstring d (sname @ '':vol_type'') None of
        None \<Rightarrow> Ret UBI_VID_DYNAMIC
      | Some p \<Rightarrow> if p = ''static'' then Ret UBI_VID_STATIC else if p = ''dynamic'' then Ret UBI_VID_DYNAMIC else Err Bad_vol_type)"

text \<open>The image file and its size.\<close>

definition section_image :: "files \<Rightarrow> dictionary \<Rightarrow> string \<Rightarrow> int \<Rightarrow> (section_error, (string \<times> int) option) outcome" where
  "section_image fs d sname vtype =
     (case iniparser_getstring d (sname @ '':image'') None of
        Some p \<Rightarrow>
          (case fs p of
             None \<Rightarrow> Err Cannot_stat
           | Some f \<Rightarrow> if f = [] then Err Empty_image else Ret (Some (p, int (length f))))
      | None \<Rightarrow> if vtype = UBI_VID_STATIC then Err No_image else Ret None)"

definition section_id :: "dictionary \<Rightarrow> ubigen_info \<Rightarrow> string \<Rightarrow> (section_error, int) outcome" where
  "section_id d ui sname =
     (case iniparser_getint d (sname @ '':vol_id'') (- 1) of
        Ret n \<Rightarrow>
          if n = - 1 then Err No_vol_id
          else if n < 0 then Err Negative_vol_id
          else if n \<ge> ui_max_volumes ui then Err High_vol_id
          else Ret n
      | Err _ \<Rightarrow> Undef | Undef \<Rightarrow> Undef)"

definition section_size :: "dictionary \<Rightarrow> string \<Rightarrow> (string \<times> int) option \<Rightarrow> (section_error, int) outcome" where
  "section_size d sname img =
     (case iniparser_getstring d (sname @ '':vol_size'') None of
        Some p \<Rightarrow>
          (case ubiutils_get_bytes p of
             Ret n \<Rightarrow>
               if n \<le> 0 then Err Bad_vol_size
               else (case img of
                       Some (f, sz) \<Rightarrow> if sz > n then Err Image_too_large else Ret n
                     | None \<Rightarrow> Ret n)
           | Err _ \<Rightarrow> Undef | Undef \<Rightarrow> Undef)
      | None \<Rightarrow> (case img of None \<Rightarrow> Err No_vol_size | Some (f, sz) \<Rightarrow> if sz = 0 then Err Empty_image else Ret sz))"

definition section_name :: "dictionary \<Rightarrow> string \<Rightarrow> (section_error, string) outcome" where
  "section_name d sname =
     (case iniparser_getstring d (sname @ '':vol_name'') None of
        None \<Rightarrow> Err No_vol_name
      | Some p \<Rightarrow> if length p > UBI_VOL_NAME_MAX then Err Long_vol_name else Ret p)"

text \<open>The check behind the alignment tests the identifier again, so a negative alignment is kept.\<close>

definition section_alignment :: "dictionary \<Rightarrow> string \<Rightarrow> (section_error, int) outcome" where
  "section_alignment d sname =
     (case iniparser_getint d (sname @ '':vol_alignment'') (- 1) of
        Ret n \<Rightarrow> Ret (if n = - 1 then 1 else n)
      | Err _ \<Rightarrow> Undef | Undef \<Rightarrow> Undef)"

definition section_flags :: "dictionary \<Rightarrow> string \<Rightarrow> (section_error, u8) outcome" where
  "section_flags d sname =
     (case iniparser_getstring d (sname @ '':vol_flags'') None of
        None \<Rightarrow> Ret 0
      | Some p \<Rightarrow> if p = ''autoresize'' then Ret UBI_VTBL_AUTORESIZE_FLG else Err Bad_vol_flags)"

text \<open>The geometry of the volume; both divisions are by values of the ini file.\<close>

definition finish_vol :: "ubigen_info \<Rightarrow> int \<Rightarrow> int \<Rightarrow> string \<Rightarrow> int \<Rightarrow> int \<Rightarrow> u8 \<Rightarrow> (string \<times> int) option \<Rightarrow>
    (section_error, ubigen_vol_info) outcome" where
  "finish_vol ui n vtype name bytes align flags img =
     (if align = 0 then Undef
      else
        let pad = ui_leb_size ui smod align; usable = ui_leb_size ui - pad;
            sz = (if vtype = UBI_VID_DYNAMIC then bytes else case img of Some (f, sz) \<Rightarrow> sz | None \<Rightarrow> 0)
        in if usable = 0 \<or> sz + usable \<ge> 2 ^ 63 then Undef
           else Ret \<lparr>vi_id = n, vi_type = vtype, vi_alignment = align, vi_data_pad = pad, vi_usable_leb_size = usable,
                     vi_name = map of_char name, vi_name_len = int (length name), vi_compat = 0,
                     vi_used_ebs = to_int32 ((sz + usable - 1) sdiv usable), vi_bytes = bytes, vi_flags = flags\<rparr>)"

definition bind_outcome :: "('e, 'a) outcome \<Rightarrow> ('a \<Rightarrow> ('e, 'b) outcome) \<Rightarrow> ('e, 'b) outcome" where
  "bind_outcome r f = (case r of Ret x \<Rightarrow> f x | Err e \<Rightarrow> Err e | Undef \<Rightarrow> Undef)"

lemma bind_outcome_Ret [simp]: "bind_outcome r f = Ret y \<longleftrightarrow> (\<exists>x. r = Ret x \<and> f x = Ret y)"
  by (cases r) (simp_all add: bind_outcome_def)

definition read_section :: "files \<Rightarrow> dictionary \<Rightarrow> ubigen_info \<Rightarrow> string \<Rightarrow> (section_error, section_result) outcome" where
  "read_section fs d ui sname =
     (if length sname > 128 then Err Long_section_name
      else case iniparser_getstring d (sname @ '':mode'') None of
          None \<Rightarrow> Err No_mode
        | Some p \<Rightarrow>
            if p \<noteq> ''ubi'' then Ret Skipped
            else
              bind_outcome (section_type d sname) (\<lambda>vtype.
              bind_outcome (section_image fs d sname vtype) (\<lambda>img.
              bind_outcome (section_id d ui sname) (\<lambda>n.
              bind_outcome (section_size d sname img) (\<lambda>bytes.
              bind_outcome (section_name d sname) (\<lambda>name.
              bind_outcome (section_alignment d sname) (\<lambda>align.
              bind_outcome (section_flags d sname) (\<lambda>flags.
              bind_outcome (finish_vol ui n vtype name bytes align flags img) (\<lambda>vi.
                Ret (Volume vi name (map_option fst img)))))))))))"

section \<open>The command\<close>

text \<open>A volume with the pointer to its name, which is NULL for a skipped section.\<close>

type_synonym named_vol = "ubigen_vol_info \<times> string option"

fun check_unique :: "named_vol \<Rightarrow> named_vol list \<Rightarrow> (unit, unit) outcome" where
  "check_unique v [] = Ret ()"
| "check_unique v (w # ws) =
     (if vi_id (fst v) = vi_id (fst w) then Err ()
      else case (snd v, snd w) of
          (Some a, Some b) \<Rightarrow> if a = b then Err () else check_unique v ws
        | _ \<Rightarrow> Undef)"

record loop_state =
  l_vis :: "named_vol list"
  l_auto :: bool
  l_vtbl :: "ubi_vtbl_record list"
  l_fs :: files
  l_pos :: nat
  l_err :: int

text \<open>Leaving the loop early: to the clean-up with the value of \<open>err\<close>, or by a direct return.\<close>

datatype loop_exit = Out_free int files | Return_now files

definition write_blocks :: "bytes list \<Rightarrow> bytes \<times> nat \<Rightarrow> bytes \<times> nat" where
  "write_blocks pebs = fold (\<lambda>p (f, pos). (file_write pos p f, pos + length p)) pebs"

text \<open>The image of a volume, if it has one, is copied to the output file.\<close>

definition write_image :: "ubinize_env \<Rightarrow> args \<Rightarrow> ubigen_info \<Rightarrow> string \<Rightarrow> nat \<Rightarrow> ubigen_vol_info \<Rightarrow> string option \<Rightarrow>
    loop_state \<Rightarrow> (loop_exit, loop_state) outcome" where
  "write_image env a ui out i vi img st =
     (case img of
        None \<Rightarrow> Ret st
      | Some f \<Rightarrow>
          (case (if ue_readable env f then l_fs st f else None) of
             None \<Rightarrow> Err (Out_free (l_err st) (l_fs st))
           | Some inp \<Rightarrow>
               (case ubigen_write_volume (ue_junk env i) (ue_write env i) ui vi (a_ec a) (int (length inp)) inp of
                  Ret pebs \<Rightarrow>
                    (let (out_file, pos) = write_blocks pebs (the (l_fs st out), l_pos st)
                     in Ret (st\<lparr>l_fs := (l_fs st)(out \<mapsto> out_file), l_pos := pos, l_err := 0\<rparr>))
                | Err _ \<Rightarrow> Err (Out_free (- 1) (l_fs st))
                | Undef \<Rightarrow> Undef)))"

definition add_section :: "ubinize_env \<Rightarrow> args \<Rightarrow> ubigen_info \<Rightarrow> string \<Rightarrow> nat \<Rightarrow> ubigen_vol_info \<Rightarrow> string option \<Rightarrow>
    string option \<Rightarrow> loop_state \<Rightarrow> (loop_exit, loop_state) outcome" where
  "add_section env a ui out i vi name img st =
     (case check_unique (vi, name) (l_vis st) of
        Err _ \<Rightarrow> Err (Out_free (l_err st) (l_fs st))
      | Undef \<Rightarrow> Undef
      | Ret _ \<Rightarrow>
          let auto = (vi_flags vi AND UBI_VTBL_AUTORESIZE_FLG \<noteq> 0) in
          if auto \<and> l_auto st then Err (Return_now (l_fs st))
          else
            (case ubigen_add_volume ui vi (l_vtbl st) of
               Err _ \<Rightarrow> Err (Out_free (- 1) (l_fs st))
             | Undef \<Rightarrow> Undef
             | Ret vtbl \<Rightarrow>
                 write_image env a ui out i vi img
                   (st\<lparr>l_vis := l_vis st @ [(vi, name)], l_auto := auto \<or> l_auto st, l_vtbl := vtbl, l_err := 0\<rparr>)))"

definition section_step :: "ubinize_env \<Rightarrow> args \<Rightarrow> ubigen_info \<Rightarrow> string \<Rightarrow> dictionary \<Rightarrow> nat \<Rightarrow> loop_state \<Rightarrow>
    (loop_exit, loop_state) outcome" where
  "section_step env a ui out d i st =
     (case iniparser_getsecname d (int i) of
        None \<Rightarrow> Err (Out_free (l_err st) (l_fs st))
      | Some sname \<Rightarrow>
          (case read_section (l_fs st) d ui sname of
             Err _ \<Rightarrow> Err (Out_free (- 1) (l_fs st))
           | Undef \<Rightarrow> Undef
           | Ret Skipped \<Rightarrow> add_section env a ui out i zero_vol None None (st\<lparr>l_err := 1\<rparr>)
           | Ret (Volume vi name img) \<Rightarrow> add_section env a ui out i vi (Some name) img (st\<lparr>l_err := 0\<rparr>)))"

fun section_loop :: "ubinize_env \<Rightarrow> args \<Rightarrow> ubigen_info \<Rightarrow> string \<Rightarrow> dictionary \<Rightarrow> nat list \<Rightarrow> loop_state \<Rightarrow>
    (loop_exit, loop_state) outcome" where
  "section_loop env a ui out d [] st = Ret st"
| "section_loop env a ui out d (i # is) st =
     (case section_step env a ui out d i st of
        Ret st' \<Rightarrow> section_loop env a ui out d is st' | Err e \<Rightarrow> Err e | Undef \<Rightarrow> Undef)"

definition vtbl_image :: "ubi_vtbl_record list \<Rightarrow> bytes" where
  "vtbl_image vtbl = concat (map vtbl_record_bytes vtbl)"

text \<open>The part of \<open>main\<close> behind the options and the ini file.\<close>

definition build_image :: "ubinize_env \<Rightarrow> args \<Rightarrow> ubigen_info \<Rightarrow> string \<Rightarrow> dictionary \<Rightarrow> files \<Rightarrow> (unit, int \<times> files) outcome" where
  "build_image env a ui out d fs =
     (case section_loop env a ui out d [0..<nat (iniparser_getnsec d)]
             \<lparr>l_vis = [], l_auto = False, l_vtbl = ubigen_create_empty_vtbl ui, l_fs = fs,
              l_pos = nat (2 * ui_peb_size ui), l_err = 0\<rparr> of
        Err (Out_free err fs) \<Rightarrow> Ret (err, fs(out := None))
      | Err (Return_now fs) \<Rightarrow> Ret (- 1, fs)
      | Undef \<Rightarrow> Undef
      | Ret st \<Rightarrow>
          (case ubigen_write_layout_vol (ue_layout_junk env) (ue_layout_io env) ui 0 1 (a_ec a) (a_ec a)
                  (vtbl_image (l_vtbl st)) (the (l_fs st out)) of
             (Ret _, f) \<Rightarrow> Ret (0, (l_fs st)(out \<mapsto> f))
           | (Err _, f) \<Rightarrow> Ret (- 1, (l_fs st)(out := None))
           | (Undef, f) \<Rightarrow> Undef))"

text \<open>The text of the ini file, if it can be opened.\<close>

definition ini_text :: "ubinize_env \<Rightarrow> args \<Rightarrow> files \<Rightarrow> string option" where
  "ini_text env a fs =
     (if ue_readable env (a_f_in a) then map_option (map (\<lambda>b. char_of (unat b))) (fs (a_f_in a)) else None)"

text \<open>The value \<open>main\<close> returns, and the files it leaves. After the options \<open>err\<close> is zero, so the failures in
  front of the loop return zero.\<close>

definition ubinize :: "ubinize_env \<Rightarrow> (char \<times> string) list \<Rightarrow> string list \<Rightarrow> files \<Rightarrow> (unit, int \<times> files) outcome" where
  "ubinize env opts rest fs =
     (case parse_opt env opts rest fs of
        Undef \<Rightarrow> Undef
      | Err (Opt_success, fs) \<Rightarrow> Ret (0, fs)
      | Err (Opt_error, fs) \<Rightarrow> Ret (- 1, fs)
      | Ret (a, fs) \<Rightarrow>
          (case ubigen_info_init (a_peb_size a) (a_min_io_size a) (a_subpage_size a) (a_vid_hdr_offs a) (a_ubi_ver a)
                  (a_image_seq a) of
             Err _ \<Rightarrow> Undef
           | Undef \<Rightarrow> Undef
           | Ret ui \<Rightarrow>
               let out = the (a_f_out a) in
               if \<not> ue_vtbl_mem env then Ret (0, fs(out := None))
               else case iniparser_load (ue_dict_mem env) (ue_before env) (ini_text env a fs) of
                   Undef \<Rightarrow> Undef
                 | Err _ \<Rightarrow> Ret (0, fs(out := None))
                 | Ret d \<Rightarrow>
                     if iniparser_getnsec d = 0 \<or> iniparser_getnsec d > ui_max_volumes ui \<or> \<not> ue_vi_mem env \<or> \<not> ue_seek env
                     then Ret (0, fs(out := None))
                     else build_image env a ui out d fs))"

section \<open>What the parts do when they succeed\<close>

lemma write_pebs_ok:
  "write_pebs wr ui vi outbuf len lnum todo inp = Ret ps \<Longrightarrow> write_pebs (\<lambda>_. True) ui vi outbuf len lnum todo inp = Ret ps"
proof (induction wr ui vi outbuf len lnum todo inp arbitrary: ps rule: write_pebs.induct)
  case (1 wr ui vi outbuf len lnum todo inp)
  show ?case
    using 1 by (auto simp: write_pebs.simps [of _ ui vi outbuf len lnum todo inp] Let_def split: if_splits outcome.splits)
qed

lemma write_volume_ok:
  "ubigen_write_volume junk wr ui vi ec n inp = Ret ps \<Longrightarrow> ubigen_write_volume junk (\<lambda>_. True) ui vi ec n inp = Ret ps"
  by (auto simp: ubigen_write_volume_def write_pebs_ok split: if_splits)

lemma write_layout_ok:
  assumes "ubigen_write_layout_vol junk io ui p1 p2 e1 e2 vtbl fd = (Ret u, f)"
  shows "ubigen_write_layout_vol junk (\<lambda>_. True) ui p1 p2 e1 e2 vtbl fd = (Ret u, f)"
    and "ui_data_offs ui + ui_vtbl_size ui \<le> ui_peb_size ui" "ui_vtbl_size ui \<le> int (length vtbl)"
  using assms by (auto simp: ubigen_write_layout_vol_def Let_def split: if_splits)

lemma file_write_end:
  assumes "length f \<le> off"
  shows "file_write off buf f = f @ replicate (off - length f) 0 @ buf"
proof -
  have "off + length buf - length f = (off - length f) + length buf" using assms by simp
  then have "file_write off buf f = overwrite off buf ((f @ replicate (off - length f) 0) @ replicate (length buf) 0 @ [])"
    by (simp add: file_write_def replicate_add)
  also have "\<dots> = (f @ replicate (off - length f) 0) @ buf @ []"
    by (rule overwrite_append) (use assms in simp_all)
  finally show ?thesis by simp
qed

lemma write_blocks_end:
  assumes "length f \<le> off" "pebs \<noteq> []"
  shows "write_blocks pebs (f, off) = (f @ replicate (off - length f) 0 @ concat pebs, off + length (concat pebs))"
  using assms
proof (induction pebs arbitrary: f off)
  case (Cons p ps)
  show ?case
  proof (cases "ps = []")
    case True
    then show ?thesis using Cons.prems by (simp add: write_blocks_def file_write_end)
  next
    case False
    have "write_blocks (p # ps) (f, off) = write_blocks ps (f @ replicate (off - length f) 0 @ p, off + length p)"
      using Cons.prems by (simp add: write_blocks_def file_write_end)
    also have "\<dots> = ((f @ replicate (off - length f) 0 @ p) @ concat ps, off + length p + length (concat ps))"
      using Cons.IH [of "f @ replicate (off - length f) 0 @ p" "off + length p"] Cons.prems(1) False by simp
    finally show ?thesis by simp
  qed
qed simp

lemma smod_pos_bounds: "0 < (a::int) \<Longrightarrow> 0 \<le> a smod b \<and> a smod b \<le> a"
  by (cases "b = 0") (simp_all add: signed_modulo_int_def zmod_le_nonneg_dividend)

lemma read_section_volume:
  assumes "read_section fs d ui sname = Ret (Volume vi name img)" and leb: "0 < ui_leb_size ui"
  shows "0 \<le> vi_id vi" "vi_id vi < ui_max_volumes ui" "vi_name_len vi = int (length (vi_name vi))"
    and "0 < vi_usable_leb_size vi" "vi_usable_leb_size vi \<le> ui_leb_size ui"
    and "img = Some f \<Longrightarrow> iniparser_getstring d (sname @ '':image'') None = Some f \<and> (\<exists>c. fs f = Some c \<and> c \<noteq> [])"
    and "vi_alignment vi \<noteq> 0" "length (vi_name vi) \<le> UBI_VOL_NAME_MAX"
proof -
  obtain vtype im n bytes align flags where r: "section_image fs d sname vtype = Ret im"
      "section_id d ui sname = Ret n" "finish_vol ui n vtype name bytes align flags im = Ret vi" "img = map_option fst im"
      "section_name d sname = Ret name"
    using assms(1) unfolding read_section_def by (auto split: if_splits option.splits)
  note b = smod_pos_bounds [OF leb, of align]
  show "0 \<le> vi_id vi" "vi_id vi < ui_max_volumes ui" "vi_name_len vi = int (length (vi_name vi))"
    using r(2,3) by (auto simp: section_id_def finish_vol_def Let_def split: outcome.splits if_splits)
  show "0 < vi_usable_leb_size vi" "vi_usable_leb_size vi \<le> ui_leb_size ui"
    using r(3) b by (auto simp: finish_vol_def Let_def split: if_splits)
  show "vi_alignment vi \<noteq> 0" "length (vi_name vi) \<le> UBI_VOL_NAME_MAX"
    using r(3,5) by (auto simp: finish_vol_def section_name_def Let_def split: option.splits if_splits)
  show "iniparser_getstring d (sname @ '':image'') None = Some f \<and> (\<exists>c. fs f = Some c \<and> c \<noteq> [])" if "img = Some f"
    using r(1,4) that by (auto simp: section_image_def split: option.splits if_splits)
qed

lemma read_section_cong:
  assumes "\<forall>f. f \<noteq> out \<longrightarrow> fs f = fs' f" and "iniparser_getstring d (sname @ '':image'') None \<noteq> Some out"
  shows "read_section fs d ui sname = read_section fs' d ui sname"
proof -
  have eq: "section_image fs d sname = section_image fs' d sname"
    using assms by (intro ext) (auto simp: section_image_def split: option.splits)
  show ?thesis unfolding read_section_def eq by (rule refl)
qed

lemma skipped_section_stuck:
  assumes "0 < ui_max_volumes ui" "0 < ui_leb_size ui"
  shows "add_section env a ui out i zero_vol name img st \<noteq> Ret st'"
  using assms by (auto simp: add_section_def ubigen_add_volume_def zero_vol_def UBI_VTBL_AUTORESIZE_FLG_def
      split: outcome.splits if_splits)

lemma check_unique_ok:
  "check_unique (vi, Some name) ws = Ret u \<Longrightarrow> vi_id vi \<notin> (vi_id \<circ> fst) ` set ws \<and> Some name \<notin> snd ` set ws"
  by (induction ws) (auto split: if_splits option.splits)

section \<open>Invariant of the loop over the sections\<close>

text \<open>The eraseblocks section \<open>i\<close> asks for.\<close>

definition section_blocks :: "ubigen_info \<Rightarrow> int \<Rightarrow> files \<Rightarrow> dictionary \<Rightarrow> nat \<Rightarrow> bytes list" where
  "section_blocks ui ec fs d i =
     (case read_section fs d ui (section_names d ! i) of
        Ret (Volume vi name (Some f)) \<Rightarrow>
          map (volume_peb ui vi ec) (enumerate 0 (chunks (nat (vi_usable_leb_size vi)) (the (fs f))))
      | _ \<Rightarrow> [])"

text \<open>The volume table that holds the given volumes.\<close>

definition table_of :: "ubigen_info \<Rightarrow> ubigen_vol_info list \<Rightarrow> ubi_vtbl_record list" where
  "table_of ui vis =
     fold (\<lambda>vi t. t[nat (vi_id vi) := seal_record (volume_record ui vi)]) vis (ubigen_create_empty_vtbl ui)"

definition autoresize :: "ubigen_vol_info \<Rightarrow> bool" where
  "autoresize vi \<longleftrightarrow> vi_flags vi AND UBI_VTBL_AUTORESIZE_FLG \<noteq> 0"

text \<open>The volumes collected so far are those of the sections read so far, with unique identifiers and names.\<close>

definition vols_inv :: "ubigen_info \<Rightarrow> files \<Rightarrow> dictionary \<Rightarrow> nat \<Rightarrow> loop_state \<Rightarrow> bool" where
  "vols_inv ui fs d i st \<longleftrightarrow> length (l_vis st) = i
     \<and> (\<forall>j < i. \<exists>vi name img. read_section fs d ui (section_names d ! j) = Ret (Volume vi name img) \<and> l_vis st ! j = (vi, Some name))
     \<and> distinct (map (vi_id \<circ> fst) (l_vis st)) \<and> distinct (map snd (l_vis st))
     \<and> length (filter (autoresize \<circ> fst) (l_vis st)) = of_bool (l_auto st)
     \<and> l_vtbl st = table_of ui (map fst (l_vis st))"

text \<open>The output file holds their eraseblocks behind the space of the layout volume.\<close>

definition file_inv :: "ubigen_info \<Rightarrow> int \<Rightarrow> string \<Rightarrow> files \<Rightarrow> dictionary \<Rightarrow> nat \<Rightarrow> loop_state \<Rightarrow> bool" where
  "file_inv ui ec out fs d i st \<longleftrightarrow> (\<forall>f. f \<noteq> out \<longrightarrow> l_fs st f = fs f)
     \<and> (let bs = concat (map (section_blocks ui ec fs d) [0..<i]); start = nat (2 * ui_peb_size ui) in
         l_pos st = start + length (concat bs)
         \<and> l_fs st out = Some (if bs = [] then [] else replicate start 0 @ concat bs))"

lemma add_section_Ret:
  assumes "add_section env a ui out i vi (Some name) img st = Ret st'"
    and vi: "vi_id vi < ui_max_volumes ui" "vi_name_len vi = int (length (vi_name vi))"
  obtains "vi_id vi \<notin> (vi_id \<circ> fst) ` set (l_vis st)" "Some name \<notin> snd ` set (l_vis st)" "\<not> (autoresize vi \<and> l_auto st)"
    and "vi_alignment vi < ui_leb_size ui"
    and "write_image env a ui out i vi img (st\<lparr>l_vis := l_vis st @ [(vi, Some name)], l_auto := autoresize vi \<or> l_auto st,
        l_vtbl := (l_vtbl st)[nat (vi_id vi) := seal_record (volume_record ui vi)], l_err := 0\<rparr>) = Ret st'"
proof -
  obtain u vtbl where r: "check_unique (vi, Some name) (l_vis st) = Ret u" "ubigen_add_volume ui vi (l_vtbl st) = Ret vtbl"
      "\<not> (autoresize vi \<and> l_auto st)"
      "write_image env a ui out i vi img (st\<lparr>l_vis := l_vis st @ [(vi, Some name)], l_auto := autoresize vi \<or> l_auto st,
        l_vtbl := vtbl, l_err := 0\<rparr>) = Ret st'"
    using assms(1) by (auto simp: add_section_def Let_def autoresize_def split: outcome.splits if_splits)
  have al: "vi_alignment vi < ui_leb_size ui" using r(2) by (simp add: ubigen_add_volume_def split: if_splits)
  have "vtbl = (l_vtbl st)[nat (vi_id vi) := seal_record (volume_record ui vi)]"
    using add_volume_record(1) [OF _ vi(1) al vi(2), of "l_vtbl st"] r(2) by simp
  then show thesis using that check_unique_ok [OF r(1)] r(3,4) al by simp
qed

lemma write_image_vols:
  "write_image env a ui out i vi img st = Ret st' \<Longrightarrow>
     l_vis st' = l_vis st \<and> l_auto st' = l_auto st \<and> l_vtbl st' = l_vtbl st"
  by (auto simp: write_image_def Let_def split: option.splits outcome.splits prod.splits if_splits)

lemma write_image_file:
  assumes g: "geometry ui" and junk: "length (ue_junk env i) = nat (ui_peb_size ui)"
    and vi: "vi_id vi < ui_max_volumes ui" "vi_alignment vi < ui_leb_size ui" "0 < vi_usable_leb_size vi"
      "vi_usable_leb_size vi \<le> ui_leb_size ui"
    and sec: "read_section fs d ui (section_names d ! i) = Ret (Volume vi name img)"
    and img: "\<And>f. img = Some f \<Longrightarrow> f \<noteq> out \<and> (\<exists>c. fs f = Some c \<and> c \<noteq> [])"
    and w: "write_image env a ui out i vi img st = Ret st'" and inv: "file_inv ui (a_ec a) out fs d i st"
  shows "file_inv ui (a_ec a) out fs d (Suc i) st'"
proof (cases img)
  case None
  then have "section_blocks ui (a_ec a) fs d i = []" using sec by (simp add: section_blocks_def)
  then show ?thesis using w inv None by (simp add: write_image_def file_inv_def Let_def)
next
  case (Some f)
  then obtain c where c: "f \<noteq> out" "fs f = Some c" "c \<noteq> []" using img by blast
  define start where "start = nat (2 * ui_peb_size ui)"
  define bs where "bs = concat (map (section_blocks ui (a_ec a) fs d) [0..<i])"
  define ps where "ps = section_blocks ui (a_ec a) fs d i"
  have ps: "ps = map (volume_peb ui vi (a_ec a)) (enumerate 0 (chunks (nat (vi_usable_leb_size vi)) c))"
    using sec Some c(2) by (simp add: ps_def section_blocks_def)
  have I: "\<forall>f. f \<noteq> out \<longrightarrow> l_fs st f = fs f" "l_pos st = start + length (concat bs)"
      "l_fs st out = Some (if bs = [] then [] else replicate start 0 @ concat bs)"
    using inv by (simp_all add: file_inv_def Let_def bs_def start_def)
  have wv: "ubigen_write_volume (ue_junk env i) wr ui vi (a_ec a) (int (length c)) c = Ret qs \<Longrightarrow> qs = ps" for wr qs
    using write_volume_ok write_volume_image [OF g junk _ vi, of "\<lambda>_. True" "int (length c)" c "a_ec a"] by (fastforce simp: ps)
  have "concat (chunks (nat (vi_usable_leb_size vi)) c) = c" using vi(3) by (simp add: concat_chunks)
  then have "chunks (nat (vi_usable_leb_size vi)) c \<noteq> []" using c(3) by auto
  then have "length ps \<noteq> 0" by (simp add: ps)
  then have ne: "ps \<noteq> []" by simp
  have old: "length (the (l_fs st out)) \<le> l_pos st" using I by auto
  have st': "st' = st\<lparr>l_fs := (l_fs st)(out \<mapsto> fst (write_blocks ps (the (l_fs st out), l_pos st))),
      l_pos := snd (write_blocks ps (the (l_fs st out), l_pos st)), l_err := 0\<rparr>"
    using w Some c I(1) wv by (auto simp: write_image_def Let_def split: outcome.splits prod.splits if_splits)
  have "the (l_fs st out) @ replicate (l_pos st - length (the (l_fs st out))) 0 = replicate start 0 @ concat bs"
    using I by auto
  then have "l_fs st' out = Some (replicate start 0 @ concat bs @ concat ps)" "l_pos st' = start + length (concat (bs @ ps))"
    using I(2) unfolding st' write_blocks_end [OF old ne] by simp_all
  moreover have "concat (map (section_blocks ui (a_ec a) fs d) [0..<Suc i]) = bs @ ps" by (simp add: bs_def ps_def)
  moreover have "\<forall>f. f \<noteq> out \<longrightarrow> l_fs st' f = fs f" using I(1) by (simp add: st')
  ultimately show ?thesis using ne by (simp add: file_inv_def Let_def start_def)
qed

lemma section_step_inv:
  assumes g: "geometry ui" and max: "0 < ui_max_volumes ui" and junk: "length (ue_junk env i) = nat (ui_peb_size ui)"
    and noalias: "\<forall>sname. iniparser_getstring d (sname @ '':image'') None \<noteq> Some out"
    and i: "i < length (section_names d)" and s: "section_step env a ui out d i st = Ret st'"
    and inv: "vols_inv ui fs d i st" "file_inv ui (a_ec a) out fs d i st"
  shows "vols_inv ui fs d (Suc i) st'" and "file_inv ui (a_ec a) out fs d (Suc i) st'"
proof -
  let ?sname = "section_names d ! i"
  have leb: "0 < ui_leb_size ui" using g by (simp add: geometry_def)
  have nm: "iniparser_getsecname d (int i) = Some ?sname" using i by (simp add: iniparser_getsecname_def)
  have rs: "read_section (l_fs st) d ui ?sname = read_section fs d ui ?sname"
    using inv(2) noalias by (intro read_section_cong [of out]) (simp_all add: file_inv_def)
  obtain vi name img where v: "read_section fs d ui ?sname = Ret (Volume vi name img)"
      and as: "add_section env a ui out i vi (Some name) img (st\<lparr>l_err := 0\<rparr>) = Ret st'"
    using s skipped_section_stuck [OF max leb]
    by (auto simp: section_step_def nm rs split: outcome.splits section_result.splits)
  note V = read_section_volume [OF v leb]
  obtain n: "vi_id vi \<notin> (vi_id \<circ> fst) ` set (l_vis st)" "Some name \<notin> snd ` set (l_vis st)" "\<not> (autoresize vi \<and> l_auto st)"
      and al: "vi_alignment vi < ui_leb_size ui"
      and w: "write_image env a ui out i vi img (st\<lparr>l_vis := l_vis st @ [(vi, Some name)], l_auto := autoresize vi \<or> l_auto st,
        l_vtbl := (l_vtbl st)[nat (vi_id vi) := seal_record (volume_record ui vi)], l_err := 0\<rparr>) = Ret st'"
    by (rule add_section_Ret [OF as V(2,3)]) simp
  show "vols_inv ui fs d (Suc i) st'"
    using write_image_vols [OF w] n inv(1) v by (auto simp: vols_inv_def nth_append less_Suc_eq table_of_def)
  show "file_inv ui (a_ec a) out fs d (Suc i) st'"
  proof (rule write_image_file [OF g junk V(2) al V(4,5) v _ w])
    show "f \<noteq> out \<and> (\<exists>c. fs f = Some c \<and> c \<noteq> [])" if "img = Some f" for f
      using V(6) [OF that] noalias by auto
  qed (use inv(2) in \<open>simp add: file_inv_def\<close>)
qed

lemma section_loop_inv:
  assumes g: "geometry ui" and max: "0 < ui_max_volumes ui" and junk: "\<forall>i. length (ue_junk env i) = nat (ui_peb_size ui)"
    and noalias: "\<forall>sname. iniparser_getstring d (sname @ '':image'') None \<noteq> Some out"
    and "section_loop env a ui out d [i..<length (section_names d)] st = Ret st'" and "i \<le> length (section_names d)"
    and "vols_inv ui fs d i st" "file_inv ui (a_ec a) out fs d i st"
  shows "vols_inv ui fs d (length (section_names d)) st' \<and> file_inv ui (a_ec a) out fs d (length (section_names d)) st'"
  using assms(5-8)
proof (induction "length (section_names d) - i" arbitrary: i st)
  case 0
  then show ?case by simp
next
  case (Suc n)
  have i: "i < length (section_names d)" using Suc.hyps(2) by simp
  then obtain st1 where st1: "section_step env a ui out d i st = Ret st1"
      "section_loop env a ui out d [Suc i..<length (section_names d)] st1 = Ret st'"
    using Suc.prems(1) by (auto simp: upt_conv_Cons split: outcome.splits)
  show ?case
  proof (rule Suc.hyps(1) [OF _ st1(2)])
    show "vols_inv ui fs d (Suc i) st1" "file_inv ui (a_ec a) out fs d (Suc i) st1"
      using section_step_inv [OF g max _ noalias i st1(1) Suc.prems(3,4)] junk by auto
  qed (use Suc.hyps(2) i in simp_all)
qed

section \<open>Options and geometry\<close>

text \<open>What the option loop keeps of the arguments.\<close>

definition opt_inv :: "args \<times> files \<Rightarrow> bool" where
  "opt_inv st \<longleftrightarrow> (let (a, fs) = st in
     (a_peb_size a = - 1 \<or> 0 < a_peb_size a) \<and> (a_min_io_size a = - 1 \<or> 0 < a_min_io_size a)
     \<and> (a_subpage_size a = - 1 \<or> 0 < a_subpage_size a) \<and> 0 \<le> a_vid_hdr_offs a \<and> 0 \<le> a_ec a \<and> a_ec a < 2 ^ 31
     \<and> (case a_f_out a of None \<Rightarrow> True | Some out \<Rightarrow> fs out = Some []))"

lemma to_int32_less: "to_int32 x < 2 ^ 31"
  by (simp add: to_int32_def)

lemma size_option_pos: "size_option s = Ret n \<Longrightarrow> 0 < n"
  by (auto simp: size_option_def split: outcome.splits if_splits)

lemma power_option_pos: "power_option s = Ret n \<Longrightarrow> 0 < n"
  by (auto simp: power_option_def split: outcome.splits if_splits dest: size_option_pos)

lemma int_option_bounds: "int_option s = Ret n \<Longrightarrow> 0 \<le> n \<and> n < 2 ^ 31"
  using to_int32_less by (auto simp: int_option_def split: prod.splits if_splits)

lemma if_RetE: "(if b then x else y) = Ret s \<Longrightarrow> (x = Ret s \<Longrightarrow> P) \<Longrightarrow> (y = Ret s \<Longrightarrow> P) \<Longrightarrow> P"
  by (cases b) simp_all

lemma num_RetE:
  "(case r of Ret n \<Rightarrow> Ret (upd n) | Err e \<Rightarrow> Err x | Undef \<Rightarrow> Undef) = Ret s \<Longrightarrow> (\<And>n. r = Ret n \<Longrightarrow> s = upd n \<Longrightarrow> P) \<Longrightarrow> P"
  by (cases r) simp_all

lemma opt_inv_update:
  assumes "opt_inv (a, fs)"
  shows "opt_inv (a\<lparr>a_f_out := Some out\<rparr>, fs(out \<mapsto> []))"
    and "0 < n \<Longrightarrow> opt_inv (a\<lparr>a_peb_size := n\<rparr>, fs)" "0 < n \<Longrightarrow> opt_inv (a\<lparr>a_min_io_size := n\<rparr>, fs)"
    and "0 < n \<Longrightarrow> opt_inv (a\<lparr>a_subpage_size := n\<rparr>, fs)" "0 \<le> n \<and> n < 2 ^ 31 \<Longrightarrow> opt_inv (a\<lparr>a_vid_hdr_offs := n\<rparr>, fs)"
    and "0 \<le> n \<and> n < 2 ^ 31 \<Longrightarrow> opt_inv (a\<lparr>a_ec := n\<rparr>, fs)" "opt_inv (a\<lparr>a_ubi_ver := k\<rparr>, fs)"
    and "opt_inv (a\<lparr>a_image_seq := w\<rparr>, fs)" "opt_inv (a\<lparr>a_verbose := b\<rparr>, fs)"
  using assms by (simp_all add: opt_inv_def)

lemma parse_option_inv:
  assumes "parse_option env opt st = Ret st'" and inv: "opt_inv st"
  shows "opt_inv st'"
proof -
  obtain key optarg where opt: "opt = (key, optarg)" by (cases opt)
  obtain a fs where st: "st = (a, fs)" by (cases st)
  note upd = opt_inv_update [OF inv [unfolded st]]
  show ?thesis
    using assms(1) unfolding parse_option_def Let_def opt st prod.case
    by (elim if_RetE num_RetE)
      (auto simp: upd split: prod.splits if_splits
        intro: upd(1-4,7-9) upd(5,6) [OF int_option_bounds] size_option_pos power_option_pos)
qed

lemma parse_options_inv: "parse_options env opts st = Ret st' \<Longrightarrow> opt_inv st \<Longrightarrow> opt_inv st'"
  by (induction opts arbitrary: st) (auto split: outcome.splits intro: parse_option_inv)

lemma parse_opt_args:
  assumes "parse_opt env opts rest fs0 = Ret (a, fs)" and "a_f_out a = Some out"
  shows "0 < a_peb_size a" "a_peb_size a \<le> 2 ^ 21" "0 < a_min_io_size a" "a_min_io_size a \<le> a_peb_size a"
    and "0 < a_subpage_size a" "a_subpage_size a \<le> a_min_io_size a" "0 \<le> a_ec a" "a_ec a < 2 ^ 31"
    and "a_vid_hdr_offs a = 0 \<or> 0 < a_vid_hdr_offs a \<and> a_vid_hdr_offs a + 64 < a_peb_size a" "fs out = Some []"
proof -
  obtain b f_in where b: "parse_options env opts (initial_args (ue_rand env), fs0) = Ret (b, fs)"
      "check_args (b\<lparr>a_f_in := f_in\<rparr>) = Ret a"
    using assms(1) by (auto simp: parse_opt_def split: outcome.splits list.splits option.splits)
  have inv: "opt_inv (b, fs)"
    by (rule parse_options_inv [OF b(1)]) (simp add: opt_inv_def initial_args_def)
  show mm: "0 < a_peb_size a" "a_peb_size a \<le> 2 ^ 21" "0 < a_min_io_size a" "0 < a_subpage_size a"
    "a_subpage_size a \<le> a_min_io_size a" "0 \<le> a_ec a" "a_ec a < 2 ^ 31" "fs out = Some []"
    "a_vid_hdr_offs a = 0 \<or> 0 < a_vid_hdr_offs a \<and> a_vid_hdr_offs a + 64 < a_peb_size a"
    using inv b(2) assms(2)
    by (auto simp: opt_inv_def check_args_def Let_def UBI_MAX_PEB_SZ_def ubi_sizes split: if_splits)
  have "a_peb_size a smod a_min_io_size a = 0"
    using b(2) by (auto simp: check_args_def Let_def split: if_splits)
  then have "a_min_io_size a dvd a_peb_size a"
    using mm(1,3) by (simp add: smod_nonneg dvd_eq_mod_eq_0)
  then show "a_min_io_size a \<le> a_peb_size a" using mm(1) by (rule zdvd_imp_le)
qed

lemma ubinize_geometry:
  assumes po: "parse_opt env opts rest fs0 = Ret (a, fs)" "a_f_out a = Some out"
    and vid: "a_vid_hdr_offs a = 0 \<or> 64 \<le> a_vid_hdr_offs a"
    and ui: "ubigen_info_init (a_peb_size a) (a_min_io_size a) (a_subpage_size a) (a_vid_hdr_offs a) (a_ubi_ver a) (a_image_seq a) = Ret ui"
    and fit: "0 < ui_max_volumes ui" "ui_data_offs ui + ui_vtbl_size ui \<le> ui_peb_size ui"
  shows "geometry ui" "a_min_io_size a dvd ui_data_offs ui" "ui_peb_size ui = a_peb_size a" "ui_max_volumes ui \<le> 128"
    and "ui_vtbl_size ui = 172 * ui_max_volumes ui" "ui_vtbl_size ui \<le> ui_leb_size ui"
proof -
  note A = parse_opt_args [OF po]
  have "a_min_io_size a \<le> 2 ^ 24" "a_vid_hdr_offs a = 0 \<or> (64 \<le> a_vid_hdr_offs a \<and> a_vid_hdr_offs a \<le> 2 ^ 24)"
    using A(2,4,9) vid by auto
  then obtain v d where vd: "64 \<le> v" "v + 64 \<le> d" "d < v + 64 + a_min_io_size a" "a_min_io_size a dvd d"
      and init: "ubigen_info_init (a_peb_size a) (a_min_io_size a) (a_subpage_size a) (a_vid_hdr_offs a) (a_ubi_ver a) (a_image_seq a) =
        Ret \<lparr>ui_leb_size = a_peb_size a - d, ui_peb_size = a_peb_size a, ui_min_io_size = a_min_io_size a, ui_vid_hdr_offs = v,
             ui_data_offs = d, ui_ubi_ver = a_ubi_ver a, ui_vtbl_size = to_int32 (volumes_fitting (a_peb_size a - d) * 172),
             ui_max_volumes = volumes_fitting (a_peb_size a - d), ui_image_seq = a_image_seq a\<rparr>"
    by (rule info_init_offsets [OF A(3) _ A(5,6)])
  let ?m = "volumes_fitting (a_peb_size a - d)"
  have m: "0 < ?m" "?m \<le> 128" using init ui fit(1) by (auto simp: volumes_fitting_def Let_def)
  then have sz: "to_int32 (?m * 172) = 172 * ?m" by (simp add: to_int32_id)
  then have "d + 172 * ?m \<le> a_peb_size a" using init ui fit(2) by auto
  then show "geometry ui" "a_min_io_size a dvd ui_data_offs ui" "ui_peb_size ui = a_peb_size a" "ui_max_volumes ui \<le> 128"
    "ui_vtbl_size ui = 172 * ui_max_volumes ui" "ui_vtbl_size ui \<le> ui_leb_size ui"
    using init ui vd m sz A(2) by (auto simp: geometry_def ubi_sizes)
qed

section \<open>The image\<close>

lemma ubinize_success:
  assumes run: "ubinize env opts rest fs0 = Ret (0, fs')" "fs' out = Some img"
    and po: "parse_opt env opts rest fs0 = Ret (a, fs)" "a_f_out a = Some out"
    and ui: "ubigen_info_init (a_peb_size a) (a_min_io_size a) (a_subpage_size a) (a_vid_hdr_offs a) (a_ubi_ver a) (a_image_seq a) = Ret ui"
    and ini: "iniparser_load (ue_dict_mem env) (ue_before env) (ini_text env a fs) = Ret d"
  obtains st where "0 < ui_max_volumes ui" "ui_data_offs ui + ui_vtbl_size ui \<le> ui_peb_size ui"
    and "ui_vtbl_size ui \<le> int (length (vtbl_image (l_vtbl st)))"
    and "section_loop env a ui out d [0..<length (section_names d)]
        \<lparr>l_vis = [], l_auto = False, l_vtbl = ubigen_create_empty_vtbl ui, l_fs = fs, l_pos = nat (2 * ui_peb_size ui), l_err = 0\<rparr> = Ret st"
    and "ubigen_write_layout_vol (ue_layout_junk env) (\<lambda>_. True) ui 0 1 (a_ec a) (a_ec a) (vtbl_image (l_vtbl st)) (the (l_fs st out)) = (Ret (), img)"
proof -
  have b: "build_image env a ui out d fs = Ret (0, fs')" "iniparser_getnsec d \<noteq> 0" "iniparser_getnsec d \<le> ui_max_volumes ui"
    using run by (auto simp: ubinize_def po ui ini split: if_splits)
  then obtain st f where st: "section_loop env a ui out d [0..<length (section_names d)]
        \<lparr>l_vis = [], l_auto = False, l_vtbl = ubigen_create_empty_vtbl ui, l_fs = fs, l_pos = nat (2 * ui_peb_size ui), l_err = 0\<rparr> = Ret st"
      "ubigen_write_layout_vol (ue_layout_junk env) (ue_layout_io env) ui 0 1 (a_ec a) (a_ec a) (vtbl_image (l_vtbl st)) (the (l_fs st out)) = (Ret (), f)"
      "fs' = (l_fs st)(out \<mapsto> f)"
    using run(2) by (auto simp: build_image_def iniparser_getnsec_def split: outcome.splits prod.splits loop_exit.splits)
  moreover have "f = img" using st(3) run(2) by simp
  moreover have "0 < ui_max_volumes ui" using b(2,3) by (cases "section_names d") (simp_all add: iniparser_getnsec_def)
  ultimately show thesis using that write_layout_ok [OF st(2)] by blast
qed

lemma two_copies_first:
  assumes "length c0 = p" "length c1 = p" and "f = (if bs = [] then [] else replicate (2 * p) 0 @ concat bs)"
  shows "file_write p c1 (file_write 0 c0 f) = c0 @ c1 @ concat bs"
  using assms by (cases "bs = []") (simp_all add: file_write_def overwrite_def)

lemma table_of_append:
  "table_of ui (vis @ [vi]) = (table_of ui vis)[nat (vi_id vi) := seal_record (volume_record ui vi)]"
  by (simp add: table_of_def)

lemma length_table_of [simp]: "length (table_of ui vis) = nat (ui_max_volumes ui)"
  by (induction vis rule: rev_induct) (simp_all add: table_of_append, simp add: table_of_def ubigen_create_empty_vtbl_def)

lemma find_snoc: "find P (xs @ [x]) = (case find P xs of None \<Rightarrow> if P x then Some x else None | Some y \<Rightarrow> Some y)"
  by (induction xs) auto

lemma table_of_nth:
  assumes "distinct (map vi_id vis)" "\<forall>vi \<in> set vis. 0 \<le> vi_id vi \<and> vi_id vi < ui_max_volumes ui" "k < nat (ui_max_volumes ui)"
  shows "table_of ui vis ! k =
    (case find (\<lambda>vi. vi_id vi = int k) vis of Some vi \<Rightarrow> seal_record (volume_record ui vi) | None \<Rightarrow> seal_record zero_record)"
  using assms
proof (induction vis rule: rev_induct)
  case Nil
  then show ?case by (simp add: table_of_def ubigen_create_empty_vtbl_def)
next
  case (snoc vi vis)
  have "nat (vi_id vi) = k \<longleftrightarrow> vi_id vi = int k" using snoc.prems(2) by auto
  moreover have "find (\<lambda>vi. vi_id vi = int k) vis = None" if "vi_id vi = int k"
    using snoc.prems(1) that by (force simp: find_None_iff)
  ultimately show ?case
    using snoc by (cases "vi_id vi = int k") (auto simp: table_of_append nth_list_update find_snoc split: option.splits)
qed

lemma ubinize_image_ex:
  assumes run: "ubinize env opts rest fs0 = Ret (0, fs')" "fs' out = Some img"
    and po: "parse_opt env opts rest fs0 = Ret (a, fs)" "a_f_out a = Some out"
    and vid: "a_vid_hdr_offs a = 0 \<or> 64 \<le> a_vid_hdr_offs a"
    and ui: "ubigen_info_init (a_peb_size a) (a_min_io_size a) (a_subpage_size a) (a_vid_hdr_offs a) (a_ubi_ver a) (a_image_seq a) = Ret ui"
    and ini: "iniparser_load (ue_dict_mem env) (ue_before env) (ini_text env a fs) = Ret d"
    and noalias: "\<forall>sname. iniparser_getstring d (sname @ '':image'') None \<noteq> Some out"
    and junk: "\<forall>i. length (ue_junk env i) = nat (a_peb_size a)" "length (ue_layout_junk env) = nat (a_peb_size a)"
  obtains vis where "geometry ui" "a_min_io_size a dvd ui_data_offs ui" "ui_peb_size ui = a_peb_size a" "ui_vtbl_size ui \<le> ui_leb_size ui"
    and "vols_inv ui fs d (length (section_names d)) vis"
    and "img = layout_copy ui (a_ec a) 0 (vtbl_image (l_vtbl vis)) @ layout_copy ui (a_ec a) 1 (vtbl_image (l_vtbl vis))
      @ concat (concat (map (section_blocks ui (a_ec a) fs d) [0..<length (section_names d)]))"
proof -
  obtain st where st: "0 < ui_max_volumes ui" "ui_data_offs ui + ui_vtbl_size ui \<le> ui_peb_size ui"
      "ui_vtbl_size ui \<le> int (length (vtbl_image (l_vtbl st)))"
      "section_loop env a ui out d [0..<length (section_names d)]
        \<lparr>l_vis = [], l_auto = False, l_vtbl = ubigen_create_empty_vtbl ui, l_fs = fs, l_pos = nat (2 * ui_peb_size ui), l_err = 0\<rparr> = Ret st"
      "ubigen_write_layout_vol (ue_layout_junk env) (\<lambda>_. True) ui 0 1 (a_ec a) (a_ec a) (vtbl_image (l_vtbl st)) (the (l_fs st out)) = (Ret (), img)"
    by (rule ubinize_success [OF run po ui ini])
  note G = ubinize_geometry [OF po vid ui st(1,2)]
  let ?bs = "concat (map (section_blocks ui (a_ec a) fs d) [0..<length (section_names d)])" and ?P = "nat (ui_peb_size ui)"
  have "vols_inv ui fs d (length (section_names d)) st \<and> file_inv ui (a_ec a) out fs d (length (section_names d)) st"
    by (rule section_loop_inv [OF G(1) st(1) _ noalias st(4)])
      (use junk(1) G(3) parse_opt_args(10) [OF po] in \<open>simp_all add: vols_inv_def file_inv_def table_of_def\<close>)
  then have inv: "vols_inv ui fs d (length (section_names d)) st"
      "the (l_fs st out) = (if ?bs = [] then [] else replicate (2 * ?P) 0 @ concat ?bs)"
    using G(1) by (simp_all add: file_inv_def Let_def nat_mult_distrib geometry_def ubi_sizes)
  have "img = file_write (1 * ?P) (layout_copy ui (a_ec a) 1 (vtbl_image (l_vtbl st)))
      (file_write (0 * ?P) (layout_copy ui (a_ec a) 0 (vtbl_image (l_vtbl st))) (the (l_fs st out)))"
    using st(1,3,5) G(1,3,5,6) junk(2) by (subst (asm) write_layout_vol_file) simp_all
  also have "\<dots> = layout_copy ui (a_ec a) 0 (vtbl_image (l_vtbl st)) @ layout_copy ui (a_ec a) 1 (vtbl_image (l_vtbl st)) @ concat ?bs"
    using two_copies_first [OF length_layout_copy [OF G(1,6)] length_layout_copy [OF G(1,6)] inv(2)] by simp
  finally show thesis using that G inv(1) by blast
qed

text \<open>Every eraseblock of the image starts with the same erase counter header.\<close>

lemma layout_copy_block:
  assumes "geometry ui" "ui_vtbl_size ui \<le> ui_leb_size ui"
  shows "length (layout_copy ui ec lnum t) = nat (ui_peb_size ui)
    \<and> take 64 (layout_copy ui ec lnum t) = ec_hdr_bytes (ubigen_init_ec_hdr ui ec)"
  unfolding layout_copy_def using assms by (simp add: peb_image_reads)

lemma section_blocks_block:
  assumes g: "geometry ui" and b: "b \<in> set (section_blocks ui ec fs d i)"
  shows "length b = nat (ui_peb_size ui) \<and> take 64 b = ec_hdr_bytes (ubigen_init_ec_hdr ui ec)"
proof -
  have leb: "0 < ui_leb_size ui" using g by (simp add: geometry_def)
  obtain vi name f where v: "read_section fs d ui (section_names d ! i) = Ret (Volume vi name (Some f))"
      and b': "b \<in> volume_peb ui vi ec ` set (enumerate 0 (chunks (nat (vi_usable_leb_size vi)) (the (fs f))))"
    using b unfolding section_blocks_def
    by (auto split: outcome.splits section_result.splits option.splits) (metis image_eqI)
  then obtain n c where c: "c \<in> set (chunks (nat (vi_usable_leb_size vi)) (the (fs f)))" "b = volume_peb ui vi ec (n, c)"
    by (auto simp: enumerate_eq_zip dest: set_zip_rightD)
  have "length c \<le> nat (ui_leb_size ui)"
    using chunks_bounds [OF c(1)] read_section_volume(4,5) [OF v leb] by linarith
  then show ?thesis by (simp add: c(2) volume_peb_def peb_image_reads [OF g])
qed

lemma length_concat_blocks: "\<forall>b \<in> set bs. length b = p \<and> Q b \<Longrightarrow> length (concat bs) = length bs * p"
  by (induction bs) auto

lemma drop_concat_blocks:
  "\<forall>b \<in> set bs. length b = p \<Longrightarrow> k < length bs \<Longrightarrow> n \<le> p \<Longrightarrow> take n (drop (k * p) (concat bs)) = take n (bs ! k)"
proof (induction bs arbitrary: k)
  case (Cons b bs)
  then show ?case by (cases k) (simp_all add: add.commute [of p] flip: drop_drop)
qed simp

text \<open>A description of volumes the generator can write: what every section has to describe.\<close>

definition section_fits :: "files \<Rightarrow> dictionary \<Rightarrow> ubigen_info \<Rightarrow> ubigen_vol_info list \<Rightarrow> string list \<Rightarrow> nat \<Rightarrow> bool" where
  "section_fits fs d ui vis names i \<longleftrightarrow>
     (\<exists>im. read_section fs d ui (section_names d ! i) = Ret (Volume (vis ! i) (names ! i) im))
     \<and> vi_alignment (vis ! i) < ui_leb_size ui \<and> vi_bytes (vis ! i) + ui_leb_size ui < 2 ^ 63"

definition volumes_fit :: "files \<Rightarrow> dictionary \<Rightarrow> ubigen_info \<Rightarrow> ubigen_vol_info list \<Rightarrow> string list \<Rightarrow> bool" where
  "volumes_fit fs d ui vis names \<longleftrightarrow> length vis = length (section_names d) \<and> length names = length vis
     \<and> (\<forall>i < length vis. section_fits fs d ui vis names i)
     \<and> distinct (map vi_id vis) \<and> distinct names \<and> length (filter autoresize vis) \<le> 1"

text \<open>Nothing the system does fails.\<close>

definition env_ok :: "ubinize_env \<Rightarrow> bool" where
  "env_ok env \<longleftrightarrow> ue_seek env \<and> ue_vtbl_mem env \<and> ue_vi_mem env \<and> (\<forall>f. ue_readable env f) \<and> (\<forall>i k. ue_write env i k)
     \<and> (\<forall>k. ue_layout_io env k)"

lemma check_unique_Ret:
  "vi_id vi \<notin> (vi_id \<circ> fst) ` set ws \<Longrightarrow> \<forall>w \<in> set ws. \<exists>n. snd w = Some n \<and> n \<noteq> name \<Longrightarrow> check_unique (vi, Some name) ws = Ret ()"
  by (induction ws) (auto split: option.splits)

lemma vols_inv_prefix:
  assumes "vols_inv ui fs d i st" "volumes_fit fs d ui vis names" "i \<le> length vis"
  shows "l_vis st = zip (take i vis) (map Some (take i names))"
proof (rule nth_equalityI)
  show "length (l_vis st) = length (zip (take i vis) (map Some (take i names)))"
    using assms by (simp add: vols_inv_def volumes_fit_def)
next
  fix j assume j: "j < length (l_vis st)"
  then have ji: "j < i" using assms(1) by (simp add: vols_inv_def)
  then obtain vi name im where r: "read_section fs d ui (section_names d ! j) = Ret (Volume vi name im)" "l_vis st ! j = (vi, Some name)"
    using assms(1) by (auto simp: vols_inv_def)
  moreover have "section_fits fs d ui vis names j" using assms(2,3) ji by (simp add: volumes_fit_def)
  then obtain im' where "read_section fs d ui (section_names d ! j) = Ret (Volume (vis ! j) (names ! j) im')"
    by (auto simp: section_fits_def)
  ultimately show "l_vis st ! j = zip (take i vis) (map Some (take i names)) ! j"
    using ji assms(2,3) by (simp add: volumes_fit_def)
qed

lemma fresh_volume:
  assumes inv: "vols_inv ui fs d i st" and fit: "volumes_fit fs d ui vis names" and i: "i < length vis"
  shows "vi_id (vis ! i) \<notin> (vi_id \<circ> fst) ` set (l_vis st)" "\<forall>w \<in> set (l_vis st). \<exists>n. snd w = Some n \<and> n \<noteq> names ! i"
    and "\<not> (autoresize (vis ! i) \<and> l_auto st)"
proof -
  have l: "l_vis st = zip (take i vis) (map Some (take i names))" "length names = length vis"
    using vols_inv_prefix [OF inv fit] i fit by (simp_all add: volumes_fit_def)
  have "map vi_id vis = map vi_id (take i vis) @ vi_id (vis ! i) # map vi_id (drop (Suc i) vis)"
    using id_take_nth_drop [OF i] by (metis list.simps(9) map_append)
  then have "vi_id (vis ! i) \<notin> vi_id ` set (take i vis)"
    using fit by (auto simp: volumes_fit_def)
  then show "vi_id (vis ! i) \<notin> (vi_id \<circ> fst) ` set (l_vis st)"
    by (auto simp: l dest: set_zip_leftD)
  have "names = take i names @ names ! i # drop (Suc i) names" using id_take_nth_drop i l(2) by metis
  moreover have "distinct names" using fit by (simp add: volumes_fit_def)
  ultimately have "names ! i \<notin> set (take i names)" by (metis distinct.simps(2) distinct_append not_distinct_conv_prefix)
  then show "\<forall>w \<in> set (l_vis st). \<exists>n. snd w = Some n \<and> n \<noteq> names ! i"
    by (auto simp: l dest!: set_zip_rightD)
  have "filter autoresize vis = filter autoresize (take i vis) @ filter autoresize (vis ! i # drop (Suc i) vis)"
    using id_take_nth_drop [OF i] by (metis filter_append)
  moreover have "map fst (l_vis st) = take i vis" using i by (simp add: l)
  then have "length (filter autoresize (take i vis)) = of_bool (l_auto st)"
    using inv by (simp add: vols_inv_def filter_map o_def flip: \<open>map fst (l_vis st) = take i vis\<close>)
  ultimately show "\<not> (autoresize (vis ! i) \<and> l_auto st)"
    using fit by (auto simp: volumes_fit_def)
qed

lemma section_step_Ret:
  assumes g: "geometry ui" and max: "0 < ui_max_volumes ui" and junk: "length (ue_junk env i) = nat (ui_peb_size ui)"
    and noalias: "\<forall>sname. iniparser_getstring d (sname @ '':image'') None \<noteq> Some out" and env: "env_ok env"
    and fit: "volumes_fit fs d ui vis names" and i: "i < length vis"
    and inv: "vols_inv ui fs d i st" "file_inv ui (a_ec a) out fs d i st"
  shows "\<exists>st'. section_step env a ui out d i st = Ret st'"
proof -
  let ?sname = "section_names d ! i" and ?vi = "vis ! i" and ?name = "names ! i"
  have leb: "0 < ui_leb_size ui" using g by (simp add: geometry_def)
  obtain im where v: "read_section fs d ui ?sname = Ret (Volume ?vi ?name im)"
      and al: "vi_alignment ?vi < ui_leb_size ui" "vi_bytes ?vi + ui_leb_size ui < 2 ^ 63"
    using fit i by (auto simp: volumes_fit_def section_fits_def)
  note V = read_section_volume [OF v leb]
  have nm: "iniparser_getsecname d (int i) = Some ?sname"
    using i fit by (simp add: iniparser_getsecname_def volumes_fit_def)
  have rs: "read_section (l_fs st) d ui ?sname = Ret (Volume ?vi ?name im)"
    using inv(2) noalias v by (subst read_section_cong [of out _ fs]) (simp_all add: file_inv_def)
  note fresh = fresh_volume [OF inv(1) fit i]
  have "check_unique (?vi, Some ?name) (l_vis st) = Ret ()" by (rule check_unique_Ret [OF fresh(1,2)])
  moreover have "ubigen_add_volume ui ?vi (l_vtbl st) \<noteq> Undef"
    using V al inv(1) by (auto simp: ubigen_add_volume_def vols_inv_def Let_def)
  note add_volume_record(1) [OF this V(2) al(1) V(3)]
  moreover have "\<exists>st'. write_image env a ui out i ?vi im s = Ret st'" if s: "l_fs s = l_fs st" for s
  proof (cases im)
    case (Some f)
    then obtain c where "fs f = Some c" "f \<noteq> out" using V(6) noalias by fastforce
    then have "l_fs s f = Some c" using inv(2) s by (simp add: file_inv_def)
    then show ?thesis
      using Some env write_volume_image [OF g junk _ V(2) al(1) V(4,5), of "ue_write env i" "int (length c)" c "a_ec a"]
      by (simp add: write_image_def env_ok_def Let_def split: prod.splits)
  qed (simp add: write_image_def)
  ultimately show ?thesis
    using fresh(3) by (simp add: section_step_def nm rs add_section_def Let_def autoresize_def)
qed

lemma section_loop_Ret:
  assumes g: "geometry ui" and max: "0 < ui_max_volumes ui" and junk: "\<forall>i. length (ue_junk env i) = nat (ui_peb_size ui)"
    and noalias: "\<forall>sname. iniparser_getstring d (sname @ '':image'') None \<noteq> Some out" and env: "env_ok env"
    and fit: "volumes_fit fs d ui vis names" and "i \<le> length vis"
    and "vols_inv ui fs d i st" "file_inv ui (a_ec a) out fs d i st"
  shows "\<exists>st'. section_loop env a ui out d [i..<length vis] st = Ret st'"
  using assms(7-9)
proof (induction "length vis - i" arbitrary: i st)
  case (Suc n)
  have i: "i < length vis" "i < length (section_names d)" using Suc.hyps(2) fit by (simp_all add: volumes_fit_def)
  have j: "length (ue_junk env i) = nat (ui_peb_size ui)" using junk by simp
  obtain st1 where st1: "section_step env a ui out d i st = Ret st1"
    using section_step_Ret [OF g max j noalias env fit i(1) Suc.prems(2,3)] by blast
  note inv = section_step_inv [OF g max j noalias i(2) st1 Suc.prems(2,3)]
  show ?case using Suc.hyps(1) [OF _ _ inv] Suc.hyps(2) i(1) by (simp add: upt_conv_Cons st1)
qed simp

lemma length_vtbl_image:
  assumes "vols_inv ui fs d n st" "0 < ui_leb_size ui"
  shows "length (vtbl_image (l_vtbl st)) = 172 * nat (ui_max_volumes ui)"
proof -
  have names: "length (vi_name vi) \<le> UBI_VOL_NAME_MAX" if v: "vi \<in> fst ` set (l_vis st)" for vi
  proof -
    obtain j where j: "j < length (l_vis st)" "vi = fst (l_vis st ! j)" using v by (auto simp: in_set_conv_nth)
    then obtain name im where "read_section fs d ui (section_names d ! j) = Ret (Volume vi name im)"
      using assms(1) by (fastforce simp: vols_inv_def)
    then show ?thesis using read_section_volume(8) assms(2) by blast
  qed
  have wft: "\<forall>r \<in> set (table_of ui vis). vtbl_record_wf r" if "\<forall>vi \<in> set vis. length (vi_name vi) \<le> UBI_VOL_NAME_MAX" for vis
    using that
  proof (induction vis rule: rev_induct)
    case Nil
    then show ?case by (simp add: table_of_def ubigen_create_empty_vtbl_def)
  next
    case (snoc vi vis)
    then show ?case
      by (auto simp: table_of_append volume_record_wf dest!: set_update_subset_insert [THEN subsetD])
  qed
  have "l_vtbl st = table_of ui (map fst (l_vis st))" using assms(1) by (simp add: vols_inv_def)
  then have wf: "\<forall>r \<in> set (l_vtbl st). length (vtbl_record_bytes r) = 172"
    using names wft [of "map fst (l_vis st)"] by (simp add: length_vtbl_record)
  have "length (l_vtbl st) = nat (ui_max_volumes ui)" using assms(1) by (simp add: vols_inv_def)
  moreover have "length (concat (map vtbl_record_bytes rs)) = 172 * length rs" if "\<forall>r \<in> set rs. length (vtbl_record_bytes r) = 172" for rs
    using that by (induction rs) auto
  ultimately show ?thesis using wf by (simp add: vtbl_image_def)
qed

lemma ubinize_succeeds_ex:
  assumes po: "parse_opt env opts rest fs0 = Ret (a, fs)" "a_f_out a = Some out"
    and vid: "a_vid_hdr_offs a = 0 \<or> 64 \<le> a_vid_hdr_offs a"
    and ui: "ubigen_info_init (a_peb_size a) (a_min_io_size a) (a_subpage_size a) (a_vid_hdr_offs a) (a_ubi_ver a) (a_image_seq a) = Ret ui"
    and room: "ui_data_offs ui + ui_vtbl_size ui \<le> ui_peb_size ui"
    and ini: "iniparser_load (ue_dict_mem env) (ue_before env) (ini_text env a fs) = Ret d"
    and sects: "0 < iniparser_getnsec d" "iniparser_getnsec d \<le> ui_max_volumes ui"
    and fit: "volumes_fit fs d ui vis names" and env: "env_ok env"
    and noalias: "\<forall>sname. iniparser_getstring d (sname @ '':image'') None \<noteq> Some out"
    and junk: "\<forall>i. length (ue_junk env i) = nat (a_peb_size a)" "length (ue_layout_junk env) = nat (a_peb_size a)"
  shows "\<exists>fs' img. ubinize env opts rest fs0 = Ret (0, fs') \<and> fs' out = Some img"
proof -
  have max: "0 < ui_max_volumes ui" using sects by simp
  note G = ubinize_geometry [OF po vid ui max room]
  let ?s0 = "\<lparr>l_vis = [], l_auto = False, l_vtbl = ubigen_create_empty_vtbl ui, l_fs = fs, l_pos = nat (2 * ui_peb_size ui), l_err = 0\<rparr>"
  have inv: "vols_inv ui fs d 0 ?s0" "file_inv ui (a_ec a) out fs d 0 ?s0"
    using parse_opt_args(10) [OF po] by (simp_all add: vols_inv_def file_inv_def table_of_def)
  have junk': "\<forall>i. length (ue_junk env i) = nat (ui_peb_size ui)" using junk(1) G(3) by simp
  have n: "nat (iniparser_getnsec d) = length vis" "length vis = length (section_names d)"
    using fit by (simp_all add: iniparser_getnsec_def volumes_fit_def)
  obtain st where st: "section_loop env a ui out d [0..<length vis] ?s0 = Ret st"
    using section_loop_Ret [OF G(1) max junk' noalias env fit _ inv] by blast
  then have "vols_inv ui fs d (length (section_names d)) st"
    using section_loop_inv [OF G(1) max junk' noalias _ _ inv, of st] n(2) by simp
  then have "length (vtbl_image (l_vtbl st)) = nat (ui_vtbl_size ui)"
    using length_vtbl_image G(1,5) max by (simp add: geometry_def)
  then have lay: "ubigen_write_layout_vol (ue_layout_junk env) (ue_layout_io env) ui 0 1 (a_ec a) (a_ec a) (vtbl_image (l_vtbl st)) (the (l_fs st out))
      = (Ret (), file_write (1 * nat (ui_peb_size ui)) (layout_copy ui (a_ec a) 1 (vtbl_image (l_vtbl st)))
          (file_write (0 * nat (ui_peb_size ui)) (layout_copy ui (a_ec a) 0 (vtbl_image (l_vtbl st))) (the (l_fs st out))))"
    using junk(2) G max env by (intro write_layout_vol_file) (simp_all add: env_ok_def)
  have "build_image env a ui out d fs = Ret (0, (l_fs st)(out \<mapsto> snd (ubigen_write_layout_vol (ue_layout_junk env) (ue_layout_io env) ui 0 1
      (a_ec a) (a_ec a) (vtbl_image (l_vtbl st)) (the (l_fs st out)))))"
    by (simp only: build_image_def n(1) st lay outcome.case prod.case snd_conv)
  moreover have "ubinize env opts rest fs0 = build_image env a ui out d fs"
    using sects env by (simp add: ubinize_def po ui ini env_ok_def)
  ultimately show ?thesis by simp
qed

text \<open>A configuration file that cannot be loaded is reported with the return value zero, and the output is removed.\<close>

lemma load_failure_returns_zero:
  assumes "parse_opt env opts rest fs0 = Ret (a, fs)" "a_f_out a = Some out"
    and "ubigen_info_init (a_peb_size a) (a_min_io_size a) (a_subpage_size a) (a_vid_hdr_offs a) (a_ubi_ver a) (a_image_seq a) = Ret ui"
    and "iniparser_load (ue_dict_mem env) (ue_before env) (ini_text env a fs) = Err e"
  shows "ubinize env opts rest fs0 = Ret (0, fs(out := None))"
  using assms by (simp add: ubinize_def)

definition demo_env :: ubinize_env where
  "demo_env = \<lparr>ue_creatable = \<lambda>_. True, ue_readable = \<lambda>_. True, ue_seek = True, ue_vtbl_mem = True, ue_dict_mem = True,
     ue_vi_mem = True, ue_before = CHR ''x'', ue_rand = 7, ue_junk = \<lambda>_. replicate 512 0, ue_write = \<lambda>_ _. True,
     ue_layout_junk = replicate 512 0, ue_layout_io = \<lambda>_. True\<rparr>"

definition demo_opts :: "(char \<times> string) list" where
  "demo_opts = [(CHR ''o'', ''u''), (CHR ''p'', ''512''), (CHR ''m'', ''1''), (CHR ''e'', ''3'')]"

definition demo_ini :: string where
  "demo_ini = ''[v]'' @ newline @ ''mode=ubi'' @ newline @ ''image=i'' @ newline @ ''vol_id=0'' @ newline @ ''vol_name=a'' @ newline"

definition demo_files :: files where
  "demo_files = [''c'' \<mapsto> map of_char demo_ini, ''i'' \<mapsto> [1, 2, 3]]"

definition demo_args :: args where
  "demo_args = \<lparr>a_f_in = ''c'', a_f_out = Some ''u'', a_peb_size = 512, a_min_io_size = 1, a_subpage_size = 1,
     a_vid_hdr_offs = 0, a_ec = 3, a_ubi_ver = 1, a_image_seq = 7, a_verbose = False\<rparr>"

definition demo_d :: dictionary where
  "demo_d = (case iniparser_load True CHR ''x'' (Some demo_ini) of Ret d \<Rightarrow> d | _ \<Rightarrow> dictionary_new 0)"

lemma demo_numbers: "size_option ''512'' = Ret 512" "power_option ''1'' = Ret 1" "int_option ''3'' = Ret 3"
  by code_simp+

lemma demo_parse: "parse_opt demo_env demo_opts [''c''] demo_files = Ret (demo_args, demo_files(''u'' \<mapsto> []))"
  by (simp add: parse_opt_def demo_opts_def demo_env_def initial_args_def parse_option_def demo_numbers check_args_def
      UBI_MAX_PEB_SZ_def demo_args_def Let_def smod_nonneg)

definition demo_geometry :: ubigen_info where
  "demo_geometry = \<lparr>ui_leb_size = 384, ui_peb_size = 512, ui_min_io_size = 1, ui_vid_hdr_offs = 64, ui_data_offs = 128,
     ui_ubi_ver = 1, ui_vtbl_size = 344, ui_max_volumes = 2, ui_image_seq = 7\<rparr>"

definition demo_vol :: ubigen_vol_info where
  "demo_vol = \<lparr>vi_id = 0, vi_type = 1, vi_alignment = 1, vi_data_pad = 0, vi_usable_leb_size = 384, vi_name = [0x61],
     vi_name_len = 1, vi_compat = 0, vi_used_ebs = 1, vi_bytes = 3, vi_flags = 0\<rparr>"

lemma demo_init: "ubigen_info_init 512 1 1 0 1 7 = Ret demo_geometry"
  by code_simp

lemma demo_load: "case iniparser_load True CHR ''x'' (Some demo_ini) of Ret d \<Rightarrow>
     section_names d = [''v''] \<and> iniparser_getstring d ''v:mode'' None = Some ''ubi''
     \<and> iniparser_getstring d ''v:vol_type'' None = None \<and> iniparser_getstring d ''v:image'' None = Some ''i''
     \<and> iniparser_getint d ''v:vol_id'' (- 1) = Ret 0 \<and> iniparser_getstring d ''v:vol_size'' None = None
     \<and> iniparser_getstring d ''v:vol_name'' None = Some ''a'' \<and> iniparser_getint d ''v:vol_alignment'' (- 1) = Ret (- 1)
     \<and> iniparser_getstring d ''v:vol_flags'' None = None \<and> length (d_key d) = length (d_val d)
     \<and> list_all (\<lambda>v. v \<noteq> Some ''u'') (d_val d)
   | _ \<Rightarrow> False"
  by code_simp

lemma getstring_value:
  assumes "length (d_key d) = length (d_val d)" "iniparser_getstring d key None = Some v"
  shows "Some v \<in> set (d_val d)"
proof -
  obtain i where "find_slot (dictionary_hash (strlwc key)) (strlwc key) (d_key d) (d_hash d) 0 = Some i" "d_val d ! i = Some v"
    using assms(2) by (auto simp: iniparser_getstring_def dictionary_get_def split: option.splits)
  then show ?thesis using assms(1) find_slot_Some by (fastforce simp: present_def dest: nth_mem)
qed

lemma demo_d: "iniparser_load True CHR ''x'' (Some demo_ini) = Ret demo_d" "section_names demo_d = [''v'']"
    "\<forall>sname. iniparser_getstring demo_d (sname @ '':image'') None \<noteq> Some ''u''"
    "read_section (demo_files(''u'' \<mapsto> [])) demo_d demo_geometry ''v'' = Ret (Volume demo_vol ''a'' (Some ''i''))"
proof -
  obtain d where d: "iniparser_load True CHR ''x'' (Some demo_ini) = Ret d" using demo_load by (auto split: outcome.splits)
  show l: "iniparser_load True CHR ''x'' (Some demo_ini) = Ret demo_d" by (simp add: demo_d_def d)
  note v = demo_load [unfolded l outcome.case]
  show "section_names demo_d = [''v'']" using v by blast
  show "\<forall>sname. iniparser_getstring demo_d (sname @ '':image'') None \<noteq> Some ''u''"
  proof
    have "length (d_key demo_d) = length (d_val demo_d)" "list_all (\<lambda>v. v \<noteq> Some ''u'') (d_val demo_d)" using v by blast+
    then show "iniparser_getstring demo_d (sname @ '':image'') None \<noteq> Some ''u''" for sname
      using getstring_value [of demo_d "sname @ '':image''" "''u''"] unfolding list_all_iff by blast
  qed
  have files: "(demo_files(''u'' \<mapsto> [])) ''i'' = Some [1, 2, 3]" by (simp add: demo_files_def)
  have g: "iniparser_getstring demo_d (''v'' @ '':mode'') None = Some ''ubi''"
    "section_type demo_d ''v'' = Ret 1" "section_image (demo_files(''u'' \<mapsto> [])) demo_d ''v'' 1 = Ret (Some (''i'', 3))"
    "section_id demo_d demo_geometry ''v'' = Ret 0" "section_size demo_d ''v'' (Some (''i'', 3)) = Ret 3" "section_name demo_d ''v'' = Ret ''a''"
    "section_alignment demo_d ''v'' = Ret 1" "section_flags demo_d ''v'' = Ret 0"
    using v files by (simp_all add: section_type_def section_image_def section_id_def section_size_def section_name_def section_alignment_def
        section_flags_def UBI_VID_DYNAMIC_def demo_geometry_def UBI_VOL_NAME_MAX_def)
  have f: "finish_vol demo_geometry 0 1 ''a'' 3 1 0 (Some (''i'', 3)) = Ret demo_vol" by code_simp
  show "read_section (demo_files(''u'' \<mapsto> [])) demo_d demo_geometry ''v'' = Ret (Volume demo_vol ''a'' (Some ''i''))"
    unfolding read_section_def g(1) option.case by (simp add: g f bind_outcome_def)
qed

lemma demo_text: "ini_text demo_env demo_args (demo_files(''u'' \<mapsto> [])) = Some demo_ini"
proof -
  have "map (\<lambda>b. char_of (unat b)) (map of_char demo_ini :: bytes) = demo_ini" by code_simp
  then show ?thesis by (simp add: ini_text_def demo_env_def demo_args_def demo_files_def o_def)
qed

lemma demo_fit: "volumes_fit (demo_files(''u'' \<mapsto> [])) demo_d demo_geometry [demo_vol] [''a'']"
  by (simp add: volumes_fit_def section_fits_def demo_d(2,4)) (simp add: demo_vol_def demo_geometry_def)

lemma demo_ini_load:
  "iniparser_load (ue_dict_mem demo_env) (ue_before demo_env) (ini_text demo_env demo_args (demo_files(''u'' \<mapsto> []))) = Ret demo_d"
  unfolding demo_text using demo_d(1) by (simp add: demo_env_def)

lemma demo_init_args:
  "ubigen_info_init (a_peb_size demo_args) (a_min_io_size demo_args) (a_subpage_size demo_args) (a_vid_hdr_offs demo_args)
     (a_ubi_ver demo_args) (a_image_seq demo_args) = Ret demo_geometry"
  by (simp add: demo_args_def demo_init)

lemma demo_sizes:
  "a_f_out demo_args = Some ''u''" "a_vid_hdr_offs demo_args = 0 \<or> 64 \<le> a_vid_hdr_offs demo_args" "env_ok demo_env"
  "0 < iniparser_getnsec demo_d" "iniparser_getnsec demo_d \<le> ui_max_volumes demo_geometry"
  "ui_data_offs demo_geometry + ui_vtbl_size demo_geometry \<le> ui_peb_size demo_geometry"
  "\<forall>i. length (ue_junk demo_env i) = nat (a_peb_size demo_args)" "length (ue_layout_junk demo_env) = nat (a_peb_size demo_args)"
  by (simp_all add: demo_args_def env_ok_def demo_env_def iniparser_getnsec_def demo_d(2) demo_geometry_def)

text \<open>The run of the example, with the image it leaves.\<close>

lemma demo_success:
  obtains fs' img where "ubinize demo_env demo_opts [''c''] demo_files = Ret (0, fs')" "fs' ''u'' = Some img" "length img = 1536"
proof -
  obtain fs' img where run: "ubinize demo_env demo_opts [''c''] demo_files = Ret (0, fs')" "fs' ''u'' = Some img"
    using ubinize_succeeds_ex [OF demo_parse demo_sizes(1,2) demo_init_args demo_sizes(6) demo_ini_load demo_sizes(4,5) demo_fit
        demo_sizes(3) demo_d(3) demo_sizes(7,8)] by blast
  obtain st where g: "geometry demo_geometry" and "a_min_io_size demo_args dvd ui_data_offs demo_geometry"
      and "ui_peb_size demo_geometry = a_peb_size demo_args" and vt: "ui_vtbl_size demo_geometry \<le> ui_leb_size demo_geometry"
      and "vols_inv demo_geometry (demo_files(''u'' \<mapsto> [])) demo_d (length (section_names demo_d)) st"
      and img: "img = layout_copy demo_geometry (a_ec demo_args) 0 (vtbl_image (l_vtbl st)) @ layout_copy demo_geometry (a_ec demo_args) 1 (vtbl_image (l_vtbl st))
        @ concat (concat (map (section_blocks demo_geometry (a_ec demo_args) (demo_files(''u'' \<mapsto> [])) demo_d) [0..<length (section_names demo_d)]))"
    by (rule ubinize_image_ex [OF run demo_parse demo_sizes(1,2) demo_init_args demo_ini_load demo_d(3) demo_sizes(7,8)])
  have "length (chunks 384 [1, 2, 3 :: u8]) = 1" using length_chunks [of 384 "[1, 2, 3 :: u8]"] by simp
  then have one: "length (section_blocks demo_geometry (a_ec demo_args) (demo_files(''u'' \<mapsto> [])) demo_d 0) = 1"
    by (simp add: section_blocks_def demo_d(2,4)) (simp add: demo_vol_def demo_files_def)
  then obtain b where b: "section_blocks demo_geometry (a_ec demo_args) (demo_files(''u'' \<mapsto> [])) demo_d 0 = [b]"
    by (auto simp: length_Suc_conv)
  have "length b = nat (ui_peb_size demo_geometry)" using section_blocks_block [OF g] b by (metis list.set_intros(1))
  then have "length img = 1536"
    using layout_copy_block [OF g vt] by (simp add: img demo_d(2) b) (simp add: demo_geometry_def)
  then show thesis using that run by blast
qed

section \<open>Properties\<close>

text \<open>C1. The image \<open>ubinize\<close> leaves when it returns zero: two copies of the layout volume with the volume
  table, followed by the eraseblocks of every section's image in the order of the sections. Every section
  describes a volume; their identifiers and names are unique and at most one is marked for resizing; the
  volume table holds the record of each volume at its identifier and empty records elsewhere. The
  assumptions: the output file still exists, a VID header offset given as an option leaves room for the erase
  counter header, no section uses the output file as its image, and the buffers have the size that was
  allocated.\<close>

theorem ubinize_image:
  assumes "ubinize env opts rest fs0 = Ret (0, fs')" "fs' out = Some img"
    and "parse_opt env opts rest fs0 = Ret (a, fs)" "a_f_out a = Some out"
    and "a_vid_hdr_offs a = 0 \<or> 64 \<le> a_vid_hdr_offs a"
    and "ubigen_info_init (a_peb_size a) (a_min_io_size a) (a_subpage_size a) (a_vid_hdr_offs a) (a_ubi_ver a) (a_image_seq a) = Ret ui"
    and "iniparser_load (ue_dict_mem env) (ue_before env) (ini_text env a fs) = Ret d"
    and "\<forall>sname. iniparser_getstring d (sname @ '':image'') None \<noteq> Some out"
    and "\<forall>i. length (ue_junk env i) = nat (a_peb_size a)" "length (ue_layout_junk env) = nat (a_peb_size a)"
  shows "\<exists>vis names vtbl. length vis = length (section_names d) \<and> length names = length vis
     \<and> (\<forall>i < length vis. \<exists>im. read_section fs d ui (section_names d ! i) = Ret (Volume (vis ! i) (names ! i) im))
     \<and> distinct (map vi_id vis) \<and> distinct names \<and> length (filter autoresize vis) \<le> 1
     \<and> length vtbl = nat (ui_max_volumes ui)
     \<and> (\<forall>k < length vtbl. vtbl ! k = (case find (\<lambda>vi. vi_id vi = int k) vis of
          Some vi \<Rightarrow> seal_record (volume_record ui vi) | None \<Rightarrow> seal_record zero_record))
     \<and> img = layout_copy ui (a_ec a) 0 (vtbl_image vtbl) @ layout_copy ui (a_ec a) 1 (vtbl_image vtbl)
         @ concat (concat (map (section_blocks ui (a_ec a) fs d) [0..<length vis]))"
proof -
  obtain st where g: "geometry ui" and st: "vols_inv ui fs d (length (section_names d)) st"
      "img = layout_copy ui (a_ec a) 0 (vtbl_image (l_vtbl st)) @ layout_copy ui (a_ec a) 1 (vtbl_image (l_vtbl st))
        @ concat (concat (map (section_blocks ui (a_ec a) fs d) [0..<length (section_names d)]))"
    using ubinize_image_ex [OF assms] by blast
  let ?vis = "map fst (l_vis st)" and ?names = "map (the \<circ> snd) (l_vis st)"
  have len: "length ?vis = length (section_names d)" using st(1) by (simp add: vols_inv_def)
  have sec: "\<exists>im. read_section fs d ui (section_names d ! i) = Ret (Volume (?vis ! i) (?names ! i) im) \<and> snd (l_vis st ! i) \<noteq> None"
    if "i < length ?vis" for i using st(1) that by (fastforce simp: vols_inv_def)
  have ids: "\<forall>vi \<in> set ?vis. 0 \<le> vi_id vi \<and> vi_id vi < ui_max_volumes ui"
  proof
    fix vi assume "vi \<in> set ?vis"
    then obtain i where i: "i < length ?vis" "vi = ?vis ! i" by (metis in_set_conv_nth)
    then obtain im where "read_section fs d ui (section_names d ! i) = Ret (Volume vi (?names ! i) im)" using sec by blast
    then show "0 \<le> vi_id vi \<and> vi_id vi < ui_max_volumes ui"
      using read_section_volume(1,2) g by (auto simp: geometry_def)
  qed
  have dist: "distinct (map vi_id ?vis)" "distinct ?names" "length (filter autoresize ?vis) \<le> 1"
  proof -
    have "\<forall>v \<in> set (l_vis st). snd v \<noteq> None" using sec by (metis in_set_conv_nth length_map)
    then have "\<forall>x \<in> snd ` set (l_vis st). x \<noteq> None" by blast
    then have "inj_on the (snd ` set (l_vis st))" by (intro inj_onI option.expand) blast+
    then show "distinct ?names"
      using st(1) by (simp add: vols_inv_def distinct_map comp_inj_on)
  qed (use st(1) in \<open>simp_all add: vols_inv_def filter_map o_def of_bool_def\<close>)
  have vt: "l_vtbl st = table_of ui ?vis" using st(1) by (simp add: vols_inv_def)
  show ?thesis
    by (rule exI [of _ ?vis], rule exI [of _ ?names], rule exI [of _ "l_vtbl st"])
      (use st(2) len sec dist table_of_nth [OF dist(1) ids] in \<open>auto simp: vt\<close>)
qed

theorem ubinize_image_witness:
  "\<exists>fs' img vtbl. ubinize demo_env demo_opts [''c''] demo_files = Ret (0, fs') \<and> fs' ''u'' = Some img
     \<and> img = layout_copy demo_geometry 3 0 (vtbl_image vtbl) @ layout_copy demo_geometry 3 1 (vtbl_image vtbl)
         @ concat (section_blocks demo_geometry 3 (demo_files(''u'' \<mapsto> [])) demo_d 0)"
proof -
  obtain fs' img where run: "ubinize demo_env demo_opts [''c''] demo_files = Ret (0, fs')" "fs' ''u'' = Some img"
    by (rule demo_success)
  have "a_ec demo_args = 3" by (simp add: demo_args_def)
  with run ubinize_image [OF run demo_parse demo_sizes(1,2) demo_init_args demo_ini_load demo_d(3) demo_sizes(7,8)] demo_d(2)
  show ?thesis by auto
qed

text \<open>C3. The scanner accepts what \<open>ubinize\<close> writes: a flash device without bad eraseblocks that holds the image
  scans as good eraseblocks only, all with the erase counter of the option, and with the offsets of the image. The
  assumptions are those on the options, the sections and the buffers under which the image is known, and that it has fewer
  than \<open>2 ^ 31\<close> eraseblocks.\<close>

theorem ubinize_scan:
  assumes "ubinize env opts rest fs0 = Ret (0, fs')" "fs' out = Some img"
    and "parse_opt env opts rest fs0 = Ret (a, fs)" "a_f_out a = Some out"
    and "a_vid_hdr_offs a = 0 \<or> 64 \<le> a_vid_hdr_offs a"
    and "ubigen_info_init (a_peb_size a) (a_min_io_size a) (a_subpage_size a) (a_vid_hdr_offs a) (a_ubi_ver a) (a_image_seq a) = Ret ui"
    and "iniparser_load (ue_dict_mem env) (ue_before env) (ini_text env a fs) = Ret d"
    and "\<forall>sname. iniparser_getstring d (sname @ '':image'') None \<noteq> Some out"
    and "\<forall>i. length (ue_junk env i) = nat (a_peb_size a)" "length (ue_layout_junk env) = nat (a_peb_size a)"
  defines "P \<equiv> nat (a_peb_size a)"
  assumes "length img < 2 ^ 31 * P"
  shows "P dvd length img \<and> 2 \<le> length img div P
     \<and> (\<exists>si. ubi_scan (length img div P) (a_min_io_size a) (\<lambda>_. 0) (\<lambda>eb. Some (take 64 (drop (eb * P) img))) = Ret si
         \<and> si_ec si = replicate (length img div P) (word_of_int (a_ec a)) \<and> si_ok_cnt si = int (length img div P)
         \<and> si_corrupted_cnt si = 0 \<and> si_mean_ec si = a_ec a
         \<and> si_vid_hdr_offs si = ui_vid_hdr_offs ui \<and> si_data_offs si = ui_data_offs ui)"
proof -
  obtain st where G: "geometry ui" "a_min_io_size a dvd ui_data_offs ui" "ui_peb_size ui = a_peb_size a" "ui_vtbl_size ui \<le> ui_leb_size ui"
      and "vols_inv ui fs d (length (section_names d)) st"
      and img: "img = layout_copy ui (a_ec a) 0 (vtbl_image (l_vtbl st)) @ layout_copy ui (a_ec a) 1 (vtbl_image (l_vtbl st))
        @ concat (concat (map (section_blocks ui (a_ec a) fs d) [0..<length (section_names d)]))"
    by (rule ubinize_image_ex [OF assms(1-10)])
  note A = parse_opt_args [OF assms(3,4)]
  define bs where "bs = layout_copy ui (a_ec a) 0 (vtbl_image (l_vtbl st)) # layout_copy ui (a_ec a) 1 (vtbl_image (l_vtbl st))
        # concat (map (section_blocks ui (a_ec a) fs d) [0..<length (section_names d)])"
  have img': "img = concat bs" by (simp add: img bs_def)
  have P: "0 < P" using A(1) by (simp add: P_def)
  have blocks: "\<forall>b \<in> set bs. length b = P \<and> take 64 b = ec_hdr_bytes (ubigen_init_ec_hdr ui (a_ec a))"
    using layout_copy_block [OF G(1,4)] section_blocks_block [OF G(1)] G(3) by (auto simp: bs_def P_def)
  have len: "length img = length bs * P" using length_concat_blocks blocks img' by blast
  then have n: "length img div P = length bs" using P by simp
  have "take 64 (drop (k * P) img) = ec_hdr_bytes (ubigen_init_ec_hdr ui (a_ec a))" if "k < length bs" for k
  proof -
    have "take 64 (drop (k * P) img) = take 64 (bs ! k)"
      using drop_concat_blocks [of bs P k] blocks that G(1,3) by (auto simp: img' P_def geometry_def ubi_sizes)
    then show ?thesis using blocks that by simp
  qed
  then have "\<exists>si. ubi_scan (length bs) (a_min_io_size a) (\<lambda>_. 0) (\<lambda>eb. Some (take 64 (drop (eb * P) img))) = Ret si
     \<and> si_ec si = replicate (length bs) (word_of_int (a_ec a)) \<and> si_ok_cnt si = int (length bs) \<and> si_good_cnt si = int (length bs)
     \<and> si_corrupted_cnt si = 0 \<and> si_mean_ec si = a_ec a
     \<and> si_vid_hdr_offs si = ui_vid_hdr_offs ui \<and> si_data_offs si = ui_data_offs ui"
    using A(3,7,8) G(1,2) assms(12) P
    by (intro scan_good_headers) (simp_all add: uint_EC_MAX len smod_nonneg geometry_def ubi_sizes dvd_eq_mod_eq_0 bs_def)
  then show ?thesis using len n unfolding n by (auto simp: bs_def)
qed

theorem ubinize_scan_witness:
  "\<exists>fs' img si. ubinize demo_env demo_opts [''c''] demo_files = Ret (0, fs') \<and> fs' ''u'' = Some img
     \<and> ubi_scan 3 1 (\<lambda>_. 0) (\<lambda>eb. Some (take 64 (drop (eb * 512) img))) = Ret si \<and> si_ok_cnt si = 3"
proof -
  obtain fs' img where run: "ubinize demo_env demo_opts [''c''] demo_files = Ret (0, fs')" "fs' ''u'' = Some img"
      and len: "length img = 1536" by (rule demo_success)
  have "a_peb_size demo_args = 512" "a_min_io_size demo_args = 1" by (simp_all add: demo_args_def)
  with run len ubinize_scan [OF run demo_parse demo_sizes(1,2) demo_init_args demo_ini_load demo_d(3) demo_sizes(7,8)]
  show ?thesis by auto
qed

text \<open>C37. A valid configuration gives an image: when the options and the ini file are accepted, the volume
  table fits the eraseblock, every section describes a volume the generator can write, with unique
  identifiers and names and at most one mark for resizing, and no system call fails, then \<open>ubinize\<close> has defined
  behaviour, returns zero and leaves the output file.\<close>

theorem ubinize_succeeds:
  assumes "parse_opt env opts rest fs0 = Ret (a, fs)" "a_f_out a = Some out"
    and "a_vid_hdr_offs a = 0 \<or> 64 \<le> a_vid_hdr_offs a"
    and "ubigen_info_init (a_peb_size a) (a_min_io_size a) (a_subpage_size a) (a_vid_hdr_offs a) (a_ubi_ver a) (a_image_seq a) = Ret ui"
    and "ui_data_offs ui + ui_vtbl_size ui \<le> ui_peb_size ui"
    and "iniparser_load (ue_dict_mem env) (ue_before env) (ini_text env a fs) = Ret d"
    and "0 < iniparser_getnsec d" "iniparser_getnsec d \<le> ui_max_volumes ui"
    and "volumes_fit fs d ui vis names" and "env_ok env"
    and "\<forall>sname. iniparser_getstring d (sname @ '':image'') None \<noteq> Some out"
    and "\<forall>i. length (ue_junk env i) = nat (a_peb_size a)" "length (ue_layout_junk env) = nat (a_peb_size a)"
  shows "\<exists>fs' img. ubinize env opts rest fs0 = Ret (0, fs') \<and> fs' out = Some img"
  using assms by (rule ubinize_succeeds_ex)

theorem ubinize_succeeds_witness:
  "\<exists>fs' img. ubinize demo_env demo_opts [''c''] demo_files = Ret (0, fs') \<and> fs' ''u'' = Some img"
  using ubinize_succeeds [OF demo_parse demo_sizes(1,2) demo_init_args demo_sizes(6) demo_ini_load demo_sizes(4,5) demo_fit
      demo_sizes(3) demo_d(3) demo_sizes(7,8)] .

end
