(* ===== verification/LptPack.thy ===== *)
theory LptPack
  imports Crc
begin

text \<open>
  The nodes of the UBIFS LEB properties tree (\<open>mkfs.ubifs/lpt.c\<close>): fields of any width packed end to end by
  \<open>pack_bits\<close>, behind a 16-bit checksum. The four packers are shown to write the concatenation of the bits
  of their fields. Sizes and counts are natural numbers; a write outside the buffer is \<open>Undef\<close>.
\<close>

section \<open>Constants and data\<close>

definition UBIFS_LPT_FANOUT :: nat where "UBIFS_LPT_FANOUT = 4"
definition UBIFS_LPT_FANOUT_SHIFT :: nat where "UBIFS_LPT_FANOUT_SHIFT = 2"
definition UBIFS_LPT_CRC_BITS :: nat where "UBIFS_LPT_CRC_BITS = 16"
definition UBIFS_LPT_CRC_BYTES :: nat where "UBIFS_LPT_CRC_BYTES = 2"
definition UBIFS_LPT_TYPE_BITS :: nat where "UBIFS_LPT_TYPE_BITS = 4"
definition UBIFS_LPT_PNODE :: u32 where "UBIFS_LPT_PNODE = 0"
definition UBIFS_LPT_NNODE :: u32 where "UBIFS_LPT_NNODE = 1"
definition UBIFS_LPT_LTAB :: u32 where "UBIFS_LPT_LTAB = 2"
definition UBIFS_LPT_LSAVE :: u32 where "UBIFS_LPT_LSAVE = 3"
definition LPROPS_INDEX :: nat where "LPROPS_INDEX = 32"

lemmas lpt_consts = UBIFS_LPT_FANOUT_def UBIFS_LPT_FANOUT_SHIFT_def UBIFS_LPT_CRC_BITS_def UBIFS_LPT_CRC_BYTES_def
  UBIFS_LPT_TYPE_BITS_def UBIFS_LPT_PNODE_def UBIFS_LPT_NNODE_def UBIFS_LPT_LTAB_def UBIFS_LPT_LSAVE_def

record ubifs_lprops =
  lp_free :: nat
  lp_dirty :: nat
  lp_flags :: nat

record ubifs_lpt_lprops =
  lt_free :: nat
  lt_dirty :: nat

record ubifs_pnode =
  pn_num :: nat
  pn_lprops :: "ubifs_lprops list"

record ubifs_nbranch =
  nb_lnum :: nat
  nb_offs :: nat

record ubifs_nnode =
  nn_num :: nat
  nn_nbranch :: "ubifs_nbranch list"

text \<open>The part of the description of a file system that the tree uses.\<close>

record ubifs_info =
  uc_min_io_size :: nat
  uc_leb_size :: nat
  uc_max_leb_cnt :: nat
  uc_lpt_lebs :: nat
  uc_lpt_first :: nat
  uc_lpt_last :: nat
  uc_main_lebs :: nat
  uc_main_first :: nat
  uc_space_bits :: nat
  uc_lpt_lnum_bits :: nat
  uc_lpt_offs_bits :: nat
  uc_lpt_spc_bits :: nat
  uc_pcnt_bits :: nat
  uc_lnum_bits :: nat
  uc_nnode_sz :: nat
  uc_pnode_sz :: nat
  uc_ltab_sz :: nat
  uc_lsave_sz :: nat
  uc_pnode_cnt :: nat
  uc_nnode_cnt :: nat
  uc_lpt_hght :: nat
  uc_lpt_lnum :: nat
  uc_lpt_offs :: nat
  uc_nhead_lnum :: nat
  uc_nhead_offs :: nat
  uc_big_lpt :: bool
  uc_lpt_sz :: nat
  uc_ltab_lnum :: nat
  uc_ltab_offs :: nat
  uc_lpt :: "ubifs_lprops list"
  uc_ltab :: "ubifs_lpt_lprops list"
  uc_lsave_cnt :: nat
  uc_lsave_lnum :: nat
  uc_lsave_offs :: nat
  uc_lscan_lnum :: nat

section \<open>Packing\<close>

text \<open>The state is the buffer, the index of the current byte and the position of the next bit in it.\<close>

type_synonym pack_state = "bytes \<times> nat \<times> nat"

definition pack_bits :: "u32 \<Rightarrow> nat \<Rightarrow> pack_state \<Rightarrow> (unit, pack_state) outcome" where
  "pack_bits val nrbits st =
     (let (buf, p, b) = st in
      if b \<noteq> 0 then
        (let nrbits = nrbits + b;
             more = of_bool (nrbits > 8) + of_bool (nrbits > 16) + of_bool (nrbits > 24) + of_bool (nrbits > 32);
             buf = buf[p := buf ! p OR push_bit b (ucast val)];
             val = drop_bit (8 - b) val;
             buf = (if nrbits > 8 then buf[p + 1 := ucast val] else buf);
             val = drop_bit 8 val;
             buf = (if nrbits > 16 then buf[p + 2 := ucast val] else buf);
             val = drop_bit 8 val;
             buf = (if nrbits > 24 then buf[p + 3 := ucast val] else buf);
             val = drop_bit 8 val;
             buf = (if nrbits > 32 then buf[p + 4 := ucast val] else buf);
             b = nrbits mod 8;
             p = p + more
         in if p \<ge> length buf then Undef else Ret (buf, if b = 0 then p + 1 else p, b))
      else
        (let more = of_bool (nrbits > 8) + of_bool (nrbits > 16) + of_bool (nrbits > 24);
             buf = buf[p := ucast val];
             val = drop_bit 8 val;
             buf = (if nrbits > 8 then buf[p + 1 := ucast val] else buf);
             val = drop_bit 8 val;
             buf = (if nrbits > 16 then buf[p + 2 := ucast val] else buf);
             val = drop_bit 8 val;
             buf = (if nrbits > 24 then buf[p + 3 := ucast val] else buf);
             b = nrbits mod 8;
             p = p + more
         in if p \<ge> length buf then Undef else Ret (buf, if b = 0 then p + 1 else p, b)))"

text \<open>Calls of \<open>pack_bits\<close> one after the other.\<close>

fun pack_fields :: "(u32 \<times> nat) list \<Rightarrow> pack_state \<Rightarrow> (unit, pack_state) outcome" where
  "pack_fields [] st = Ret st"
| "pack_fields ((val, nrbits) # fs) st =
     (case pack_bits val nrbits st of Ret st' \<Rightarrow> pack_fields fs st' | Err e \<Rightarrow> Err e | Undef \<Rightarrow> Undef)"

text \<open>The common frame of the four packers: the fields behind the space of the checksum, then the checksum.\<close>

definition pack_node :: "nat \<Rightarrow> (u32 \<times> nat) list \<Rightarrow> nat \<Rightarrow> bytes \<Rightarrow> (unit, bytes) outcome" where
  "pack_node sz fds off buf =
     (case pack_fields fds (buf, off + UBIFS_LPT_CRC_BYTES, 0) of
        Ret (buf, p, b) \<Rightarrow>
          if off + sz > length buf then Undef
          else
            (let crc = crc16 (- 1) (drop (off + UBIFS_LPT_CRC_BYTES) buf) (sz - UBIFS_LPT_CRC_BYTES)
             in case pack_bits (ucast crc) UBIFS_LPT_CRC_BITS (buf, off, 0) of
                  Ret (buf, p, b) \<Rightarrow> Ret buf | Err e \<Rightarrow> Err e | Undef \<Rightarrow> Undef)
      | Err e \<Rightarrow> Err e | Undef \<Rightarrow> Undef)"

definition lprops_fields :: "ubifs_info \<Rightarrow> ubifs_lprops \<Rightarrow> (u32 \<times> nat) list" where
  "lprops_fields c lp =
     [(of_nat (drop_bit 3 (lp_free lp)), uc_space_bits c), (of_nat (drop_bit 3 (lp_dirty lp)), uc_space_bits c),
      (if lp_flags lp AND LPROPS_INDEX \<noteq> 0 then 1 else 0, 1)]"

definition pnode_fields :: "ubifs_info \<Rightarrow> ubifs_pnode \<Rightarrow> (u32 \<times> nat) list" where
  "pnode_fields c pnode =
     (UBIFS_LPT_PNODE, UBIFS_LPT_TYPE_BITS)
     # (if uc_big_lpt c then [(of_nat (pn_num pnode), uc_pcnt_bits c)] else [])
     @ concat (map (lprops_fields c) (pn_lprops pnode))"

definition pack_pnode :: "ubifs_info \<Rightarrow> nat \<Rightarrow> ubifs_pnode \<Rightarrow> bytes \<Rightarrow> (unit, bytes) outcome" where
  "pack_pnode c off pnode buf = pack_node (uc_pnode_sz c) (pnode_fields c pnode) off buf"

definition nbranch_fields :: "ubifs_info \<Rightarrow> ubifs_nbranch \<Rightarrow> (u32 \<times> nat) list" where
  "nbranch_fields c br =
     (let lnum = (if nb_lnum br = 0 then uc_lpt_last c + 1 else nb_lnum br)
      in [(of_nat lnum - of_nat (uc_lpt_first c), uc_lpt_lnum_bits c), (of_nat (nb_offs br), uc_lpt_offs_bits c)])"

definition nnode_fields :: "ubifs_info \<Rightarrow> ubifs_nnode \<Rightarrow> (u32 \<times> nat) list" where
  "nnode_fields c nnode =
     (UBIFS_LPT_NNODE, UBIFS_LPT_TYPE_BITS)
     # (if uc_big_lpt c then [(of_nat (nn_num nnode), uc_pcnt_bits c)] else [])
     @ concat (map (nbranch_fields c) (nn_nbranch nnode))"

definition pack_nnode :: "ubifs_info \<Rightarrow> nat \<Rightarrow> ubifs_nnode \<Rightarrow> bytes \<Rightarrow> (unit, bytes) outcome" where
  "pack_nnode c off nnode buf = pack_node (uc_nnode_sz c) (nnode_fields c nnode) off buf"

definition ltab_fields :: "ubifs_info \<Rightarrow> ubifs_lpt_lprops list \<Rightarrow> (u32 \<times> nat) list" where
  "ltab_fields c ltab =
     (UBIFS_LPT_LTAB, UBIFS_LPT_TYPE_BITS)
     # concat (map (\<lambda>lt. [(of_nat (lt_free lt), uc_lpt_spc_bits c), (of_nat (lt_dirty lt), uc_lpt_spc_bits c)])
         (take (uc_lpt_lebs c) ltab))"

definition pack_ltab :: "ubifs_info \<Rightarrow> nat \<Rightarrow> ubifs_lpt_lprops list \<Rightarrow> bytes \<Rightarrow> (unit, bytes) outcome" where
  "pack_ltab c off ltab buf =
     (if length ltab < uc_lpt_lebs c then Undef else pack_node (uc_ltab_sz c) (ltab_fields c ltab) off buf)"

definition lsave_fields :: "ubifs_info \<Rightarrow> nat list \<Rightarrow> (u32 \<times> nat) list" where
  "lsave_fields c lsave =
     (UBIFS_LPT_LSAVE, UBIFS_LPT_TYPE_BITS) # map (\<lambda>l. (of_nat l, uc_lnum_bits c)) (take (uc_lsave_cnt c) lsave)"

definition pack_lsave :: "ubifs_info \<Rightarrow> nat \<Rightarrow> nat list \<Rightarrow> bytes \<Rightarrow> (unit, bytes) outcome" where
  "pack_lsave c off lsave buf =
     (if length lsave < uc_lsave_cnt c then Undef else pack_node (uc_lsave_sz c) (lsave_fields c lsave) off buf)"

section \<open>Bits\<close>

text \<open>The reference: a list of bits, eight to a byte, the first in the lowest place, the last byte filled with zeros.\<close>

definition byte_of_bits :: "bool list \<Rightarrow> u8" where
  "byte_of_bits bs = horner_sum of_bool 2 (take 8 bs)"

definition bytes_of_bits :: "bool list \<Rightarrow> bytes" where
  "bytes_of_bits bs = map (\<lambda>i. byte_of_bits (drop (8 * i) bs)) [0..<(length bs + 7) div 8]"

definition field_bits :: "u32 \<times> nat \<Rightarrow> bool list" where
  "field_bits f = map (bit (fst f)) [0..<snd f]"

lemma length_bytes_of_bits [simp]: "length (bytes_of_bits bs) = (length bs + 7) div 8"
  by (simp add: bytes_of_bits_def)

lemma length_field_bits [simp]: "length (field_bits f) = snd f"
  by (simp add: field_bits_def)

lemma bit_byte_of_bits: "bit (byte_of_bits bs) j \<longleftrightarrow> j < 8 \<and> j < length bs \<and> bs ! j"
  by (auto simp: byte_of_bits_def bit_horner_sum_bit_word_iff)

lemma bit_bytes_of_bits:
  "i < (length bs + 7) div 8 \<Longrightarrow> bit (bytes_of_bits bs ! i) j \<longleftrightarrow> j < 8 \<and> 8 * i + j < length bs \<and> bs ! (8 * i + j)"
  by (auto simp: bytes_of_bits_def bit_byte_of_bits)

text \<open>What one call does to each byte of the buffer.\<close>

lemma pack_bits_bytes:
  assumes "b < 8" "0 < n" "n \<le> 32" and room: "p + (n + b - 1) div 8 < length buf"
  obtains buf' where "pack_bits val n (buf, p, b) = Ret (buf', p + (n + b) div 8, (n + b) mod 8)" "length buf' = length buf"
    and "\<And>i. i < length buf \<Longrightarrow> buf' ! i =
      (if i = p then (if b = 0 then 0 else buf ! p) OR push_bit b (ucast val)
       else if p < i \<and> i \<le> p + (n + b - 1) div 8 then ucast (drop_bit (8 * (i - p) - b) val) else buf ! i)"
proof -
  define q where "q = (n + b - 1) div 8"
  have q: "q = of_bool (n + b > 8) + of_bool (n + b > 16) + of_bool (n + b > 24) + of_bool (n + b > 32)"
    using assms(1-3) by (auto simp: q_def)
  have n: "n + b > 32 \<longrightarrow> b \<noteq> 0" using assms(3) by auto
  define b1 where "b1 = buf[p := (if b = 0 then 0 else buf ! p) OR push_bit b (ucast val)]"
  define b2 where "b2 = (if n + b > 8 then b1[p + 1 := ucast (drop_bit (8 - b) val)] else b1)"
  define b3 where "b3 = (if n + b > 16 then b2[p + 2 := ucast (drop_bit (16 - b) val)] else b2)"
  define b4 where "b4 = (if n + b > 24 then b3[p + 3 := ucast (drop_bit (24 - b) val)] else b3)"
  define b5 where "b5 = (if n + b > 32 then b4[p + 4 := ucast (drop_bit (32 - b) val)] else b4)"
  have len: "length b5 = length buf" by (simp add: b5_def b4_def b3_def b2_def b1_def)
  have p': "(if (n + b) mod 8 = 0 then p + q + 1 else p + q) = p + (n + b) div 8"
  proof -
    obtain m where m: "n + b = Suc m" using assms(2) by (cases "n + b") auto
    show ?thesis unfolding q_def m by (simp add: div_Suc)
  qed
  have "pack_bits val n (buf, p, b) = (if p + q \<ge> length buf then Undef else Ret (b5, if (n + b) mod 8 = 0 then p + q + 1 else p + q, (n + b) mod 8))"
    using n assms(1) by (cases "b = 0") (simp_all add: pack_bits_def Let_def q b5_def b4_def b3_def b2_def b1_def)
  then have ret: "pack_bits val n (buf, p, b) = Ret (b5, p + (n + b) div 8, (n + b) mod 8)"
    using room p' by (simp add: q_def)
  show thesis
  proof (rule that [OF ret len])
    fix i assume i: "i < length buf"
    consider "i < p" | "i = p" | "i = p + 1" | "i = p + 2" | "i = p + 3" | "i = p + 4" | "p + 4 < i" by linarith
    then show "b5 ! i = (if i = p then (if b = 0 then 0 else buf ! p) OR push_bit b (ucast val)
       else if p < i \<and> i \<le> p + (n + b - 1) div 8 then ucast (drop_bit (8 * (i - p) - b) val) else buf ! i)"
      unfolding q_def [symmetric]
      by cases (use i in \<open>auto simp: q b5_def b4_def b3_def b2_def b1_def nth_list_update of_bool_def\<close>)
  qed
qed

definition fits :: "u32 \<times> nat \<Rightarrow> bool" where
  "fits f \<longleftrightarrow> 0 < snd f \<and> snd f \<le> 32 \<and> unat (fst f) < 2 ^ snd f"

lemma fits_bit: "fits (v, n) \<Longrightarrow> n \<le> i \<Longrightarrow> \<not> bit v i"
proof -
  assume "fits (v, n)" "n \<le> i"
  then have "unat v < 2 ^ n" by (simp add: fits_def)
  then have "take_bit n (unat v) = unat v" by (simp add: take_bit_nat_eq_self)
  then have "take_bit n v = v" by (metis unsigned_take_bit_eq unsigned_word_eqI)
  then show "\<not> bit v i" using \<open>n \<le> i\<close> by (metis bit_take_bit_iff not_less)
qed

lemma div8_add: "a div 8 + (n + a mod 8) div 8 = (a + n) div (8::nat)"
proof -
  have "a + n = (n + a mod 8) + a div 8 * 8" by simp
  then have "(a + n) div 8 = ((n + a mod 8) + a div 8 * 8) div 8" by (rule arg_cong)
  also have "\<dots> = a div 8 + (n + a mod 8) div 8" by (rule div_mult_self1) simp
  finally show ?thesis by simp
qed

text \<open>One call appends the bits of its value to the bits packed before.\<close>

lemma pack_bits_append:
  assumes "fits (val, n)" and room: "(length bs + n + 7) div 8 \<le> length (bytes_of_bits bs) + length post"
  shows "pack_bits val n (pre @ bytes_of_bits bs @ post, length pre + length bs div 8, length bs mod 8)
    = Ret (pre @ bytes_of_bits (bs @ field_bits (val, n)) @ drop ((length bs + n + 7) div 8 - (length bs + 7) div 8) post,
        length pre + (length bs + n) div 8, (length bs + n) mod 8)"
proof -
  let ?buf = "pre @ bytes_of_bits bs @ post" and ?p = "length pre + length bs div 8" and ?b = "length bs mod 8"
  let ?all = "bs @ field_bits (val, n)"
  define L where "L = length bs"
  have n: "0 < n" "n \<le> 32" using assms(1) by (simp_all add: fits_def)
  have last: "?p + (n + ?b - 1) div 8 + 1 = length pre + (L + n + 7) div 8"
  proof -
    have "(L + n + 7) div 8 = (L + (n - 1)) div 8 + 1" using n(1) by (cases n) simp_all
    moreover have "(n - 1 + L mod 8) = n + L mod 8 - 1" using n(1) by simp
    ultimately show ?thesis using div8_add [of L "n - 1"] by (simp add: L_def)
  qed
  have r: "?p + (n + ?b - 1) div 8 < length ?buf" using last room by (simp add: L_def)
  obtain buf' where b': "pack_bits val n (?buf, ?p, ?b) = Ret (buf', ?p + (n + ?b) div 8, (n + ?b) mod 8)" "length buf' = length ?buf"
    and nth: "\<And>i. i < length ?buf \<Longrightarrow> buf' ! i =
      (if i = ?p then (if ?b = 0 then 0 else ?buf ! ?p) OR push_bit ?b (ucast val)
       else if ?p < i \<and> i \<le> ?p + (n + ?b - 1) div 8 then ucast (drop_bit (8 * (i - ?p) - ?b) val) else ?buf ! i)"
    by (rule pack_bits_bytes [of ?b n ?p ?buf val]) (use n r in simp_all)
  let ?new = "pre @ bytes_of_bits ?all @ drop ((L + n + 7) div 8 - (L + 7) div 8) post"
  have "buf' = ?new"
  proof (rule nth_equalityI)
    show "length buf' = length ?new" using b'(2) room by (simp add: L_def)
  next
    fix i assume i: "i < length buf'"
    consider (pre) "i < length pre" | (old) k where "i = length pre + k" "k < L div 8"
      | (new) k where "i = length pre + k" "L div 8 \<le> k" "k < (L + n + 7) div 8"
      | (post) k where "i = length pre + k" "(L + n + 7) div 8 \<le> k"
      by (metis le_add_diff_inverse not_less)
    then show "buf' ! i = ?new ! i"
    proof cases
      case pre
      then show ?thesis using nth [of i] i b'(2) by (simp add: nth_append)
    next
      case (old k)
      have k: "k < (length bs + 7) div 8" "k < (length ?all + 7) div 8" using old(2) by (simp_all add: L_def)
      have "bytes_of_bits bs ! k = bytes_of_bits ?all ! k"
        using k old(2) by (intro bit_eqI) (auto simp: bit_bytes_of_bits nth_append L_def)
      then show ?thesis using nth [of i] i b'(2) old k by (simp add: nth_append L_def)
    next
      case (new k)
      have k: "k < (length ?all + 7) div 8" using new(3) by (simp add: L_def)
      have oldbits: "bit (?buf ! i) j \<longleftrightarrow> j < ?b \<and> bs ! (8 * k + j)" if "k = L div 8" "?b \<noteq> 0" "j < 8" for j
      proof -
        have "length bs = 8 * k + ?b" using that(1) by (simp add: L_def)
        then have "8 * Suc k \<le> length bs + 7" using that(2) by simp
        then have kk: "k < (length bs + 7) div 8" by (simp add: less_eq_div_iff_mult_less_eq [symmetric] Suc_le_eq [symmetric] mult.commute)
        then have "?buf ! i = bytes_of_bits bs ! k" using new(1) by (simp add: nth_append)
        moreover have "length bs = 8 * k + ?b" using that(1) by (simp add: L_def)
        then have "8 * k + j < length bs \<longleftrightarrow> j < ?b" by linarith
        ultimately show ?thesis using bit_bytes_of_bits [OF kk, of j] that(3) by simp
      qed
      have "buf' ! i = bytes_of_bits ?all ! k"
      proof (rule bit_word_eqI)
        fix j assume j: "j < LENGTH(8)"
        have fb: "\<not> bit val m" if "n \<le> m" for m using fits_bit [OF assms(1) that] .
        have all: "bit (bytes_of_bits ?all ! k) j \<longleftrightarrow> (if 8 * k + j < L then bs ! (8 * k + j) else bit val (8 * k + j - L))"
        proof -
          consider "8 * k + j < L" | "L \<le> 8 * k + j" "8 * k + j < L + n" | "L + n \<le> 8 * k + j" by linarith
          then show ?thesis
            using bit_bytes_of_bits [OF k, of j] j fb [of "8 * k + j - L"]
            by cases (simp_all add: nth_append L_def field_bits_def)
        qed
        show "bit (buf' ! i) j \<longleftrightarrow> bit (bytes_of_bits ?all ! k) j"
        proof (cases "k = L div 8")
          case True
          then have "buf' ! i = (if ?b = 0 then 0 else ?buf ! i) OR push_bit ?b (ucast val)"
            using nth [of i] i b'(2) new(1) by (simp add: L_def)
          moreover have "8 * k + j - L = j - ?b" "8 * k + j < L \<longleftrightarrow> j < ?b"
          proof -
            have "L = 8 * k + ?b" using True by (simp add: L_def)
            then show "8 * k + j - L = j - ?b" "8 * k + j < L \<longleftrightarrow> j < ?b" by linarith+
          qed
          moreover have "j - ?b < 8" using j by simp
          ultimately show ?thesis
            using all oldbits [OF True, of j] j True
            by (auto simp: bit_or_iff bit_push_bit_iff bit_ucast_iff)
        next
          case False
          then have gt: "L div 8 < k" using new(2) by simp
          have le: "i \<le> ?p + (n + ?b - 1) div 8" using last new(1,3) by (simp add: L_def)
          have "buf' ! i = ucast (drop_bit (8 * (i - ?p) - ?b) val)"
            using nth [of i] i b'(2) new(1) gt le by (simp add: L_def)
          moreover have "8 * (i - ?p) - ?b + j = 8 * k + j - L" "\<not> 8 * k + j < L"
          proof -
            obtain e where e: "k = L div 8 + Suc e" using gt less_iff_Suc_add by auto
            have L: "L = 8 * (L div 8) + ?b" "?b < 8" by (simp_all add: L_def)
            have "i - ?p = Suc e" using new(1) e by (simp add: L_def)
            moreover have "8 * k + j - (8 * (L div 8) + ?b) = 8 * Suc e + j - ?b" unfolding e by simp
            then have "8 * k + j - L = 8 * Suc e + j - ?b" by (simp only: L(1) [symmetric])
            ultimately show "8 * (i - ?p) - ?b + j = 8 * k + j - L" using L(2) by simp
            show "\<not> 8 * k + j < L" using e L by linarith
          qed
          ultimately show ?thesis using all j by (simp add: bit_ucast_iff bit_drop_bit_eq add.commute)
        qed
      qed
      then show ?thesis using new(1) k by (simp add: nth_append)
    next
      case (post k)
      have kk: "(length bs + 7) div 8 \<le> k" "(length ?all + 7) div 8 \<le> k" using post(2) n by (simp_all add: L_def)
      have "\<not> i \<le> ?p + (n + ?b - 1) div 8" using last post by (simp add: L_def)
      then have "buf' ! i = ?buf ! i" using nth [of i] i b'(2) by simp
      moreover have "(length bs + 7) div 8 \<le> (length bs + n + 7) div 8" by (rule div_le_mono) simp
      then have "(length bs + n + 7) div 8 - (length bs + 7) div 8 + (k - (length bs + n + 7) div 8) = k - (length bs + 7) div 8"
        using post(2) by (simp add: L_def)
      ultimately show ?thesis using post kk n room by (simp add: nth_append L_def)
    qed
  qed
  moreover have "?p + (n + ?b) div 8 = length pre + (length bs + n) div 8" "(n + ?b) mod 8 = (length bs + n) mod 8"
    using div8_add [of "length bs" n] by (simp_all add: mod_simps add.commute)
  ultimately show ?thesis using b'(1) by (simp add: L_def)
qed

lemma div8_mono: "(a + 7) div 8 \<le> (a + b + 7) div (8::nat)"
  by (rule div_le_mono) simp

lemma pack_fields_append:
  assumes "list_all fits fs" and "(length bs + length (concat (map field_bits fs)) + 7) div 8 \<le> length (bytes_of_bits bs) + length post"
  shows "pack_fields fs (pre @ bytes_of_bits bs @ post, length pre + length bs div 8, length bs mod 8)
    = (let all = bs @ concat (map field_bits fs) in
       Ret (pre @ bytes_of_bits all @ drop ((length all + 7) div 8 - (length bs + 7) div 8) post,
            length pre + length all div 8, length all mod 8))"
  using assms
proof (induction fs arbitrary: bs post)
  case (Cons f fs)
  obtain v n where f: "f = (v, n)" by (cases f)
  let ?bs = "bs @ field_bits (v, n)" and ?m = "length (concat (map field_bits fs))"
  have fit: "fits (v, n)" "list_all fits fs" using Cons.prems(1) by (simp_all add: f)
  have total: "length bs + length (concat (map field_bits (f # fs))) = length ?bs + ?m" by (simp add: f)
  have room: "(length ?bs + ?m + 7) div 8 \<le> (length bs + 7) div 8 + length post"
    using Cons.prems(2) unfolding total by simp
  have mono: "(length bs + 7) div 8 \<le> (length bs + n + 7) div 8" "(length bs + n + 7) div 8 \<le> (length bs + n + ?m + 7) div 8"
    by (rule div8_mono)+
  have one: "pack_bits v n (pre @ bytes_of_bits bs @ post, length pre + length bs div 8, length bs mod 8)
      = Ret (pre @ bytes_of_bits ?bs @ drop ((length bs + n + 7) div 8 - (length bs + 7) div 8) post,
          length pre + length ?bs div 8, length ?bs mod 8)"
    using pack_bits_append [OF fit(1), of bs post pre] room mono by simp
  have "pack_fields fs (pre @ bytes_of_bits ?bs @ drop ((length bs + n + 7) div 8 - (length bs + 7) div 8) post,
      length pre + length ?bs div 8, length ?bs mod 8)
    = (let all = ?bs @ concat (map field_bits fs) in
       Ret (pre @ bytes_of_bits all @ drop ((length all + 7) div 8 - (length ?bs + 7) div 8) (drop ((length bs + n + 7) div 8 - (length bs + 7) div 8) post),
            length pre + length all div 8, length all mod 8))"
    by (rule Cons.IH [OF fit(2)]) (use room mono in simp)
  then show ?case using one mono by (simp add: f Let_def)
qed simp

text \<open>The bytes of a node: the checksum, the fields, and nothing of what the buffer held before.\<close>

definition node_body :: "(u32 \<times> nat) list \<Rightarrow> bytes" where
  "node_body fs = bytes_of_bits (concat (map field_bits fs))"

definition node_image :: "(u32 \<times> nat) list \<Rightarrow> bytes" where
  "node_image fs = le16 (crc16 (- 1) (node_body fs) (length (node_body fs))) @ node_body fs"

definition node_size :: "(u32 \<times> nat) list \<Rightarrow> nat" where
  "node_size fs = (16 + sum_list (map snd fs) + 7) div 8"

lemma length_node_body: "length (node_body fs) = (sum_list (map snd fs) + 7) div 8"
  by (simp add: node_body_def length_concat o_def)

lemma length_node_image: "length (node_image fs) = node_size fs"
  by (simp add: node_image_def node_size_def length_node_body)

lemma pack_bits_16:
  assumes "off + 2 \<le> length buf"
  shows "pack_bits (ucast (crc :: u16)) 16 (buf, off, 0) = Ret (overwrite off (le16 crc) buf, off + 2, 0)"
proof -
  have "le16 crc = [ucast crc, ucast (drop_bit 8 crc)]"
    by (simp add: le16_def le_bytes_def numeral_2_eq_2)
  moreover have "overwrite off [x, y] buf = buf[off := x, Suc off := y]" for x y
    using assms by (intro nth_equalityI) (auto simp: nth_overwrite nth_list_update less_Suc_eq)
  moreover have "ucast (drop_bit 8 (ucast crc :: u32)) = (ucast (drop_bit 8 crc) :: u8)"
    by (rule bit_word_eqI) (simp add: bit_ucast_iff bit_drop_bit_eq)
  moreover have "ucast (ucast crc :: u32) = (ucast crc :: u8)"
    by (rule bit_word_eqI) (simp add: bit_ucast_iff)
  ultimately show ?thesis using assms by (simp add: pack_bits_def Let_def)
qed

text \<open>A packer writes the image of its node over the buffer.\<close>

lemma pack_node_image:
  assumes fit: "list_all fits fs" and sz: "sz = node_size fs" and room: "off + sz \<le> length buf"
  shows "pack_node sz fs off buf = Ret (overwrite off (node_image fs) buf)"
proof -
  define B where "B = node_body fs"
  have sz': "sz = 2 + length B" by (simp add: sz node_size_def B_def length_node_body)
  have split: "buf = take (off + 2) buf @ bytes_of_bits [] @ drop (off + 2) buf" by (simp add: bytes_of_bits_def)
  have len: "length (concat (map field_bits fs)) = sum_list (map snd fs)" by (simp add: length_concat o_def)
  have pre: "length (take (off + 2) buf) = off + 2" using room sz' by simp
  have "pack_fields fs (take (off + 2) buf @ bytes_of_bits [] @ drop (off + 2) buf, length (take (off + 2) buf) + length ([] :: bool list) div 8, length ([] :: bool list) mod 8)
      = (let all = [] @ concat (map field_bits fs) in
       Ret (take (off + 2) buf @ bytes_of_bits all @ drop ((length all + 7) div 8 - (length ([] :: bool list) + 7) div 8) (drop (off + 2) buf),
            length (take (off + 2) buf) + length all div 8, length all mod 8))"
    by (rule pack_fields_append [OF fit]) (use room sz' in \<open>simp add: len B_def length_node_body\<close>)
  then have fields: "pack_fields fs (buf, off + 2, 0) = Ret (overwrite (off + 2) B buf, off + 2 + sum_list (map snd fs) div 8, sum_list (map snd fs) mod 8)"
    using pre split by (simp add: Let_def len overwrite_def B_def node_body_def add.commute)
  have body: "take (length B) (drop (off + 2) (overwrite (off + 2) B buf)) = B"
    using room sz' by (intro take_drop_overwrite) simp
  have crc: "crc16 (- 1) (drop (off + 2) (overwrite (off + 2) B buf)) (sz - 2) = crc16 (- 1) B (length B)"
    using body sz' by (simp add: crc16_def)
  have "overwrite off (le16 c) (overwrite (off + 2) B buf) = overwrite off (le16 c @ B) buf" for c
    using room sz' by (intro nth_equalityI) (auto simp: nth_overwrite nth_append)
  then show ?thesis
    using room sz' pack_bits_16 [of off "overwrite (off + 2) B buf"]
    unfolding pack_node_def lpt_consts fields outcome.case prod.case crc Let_def
    by (simp add: node_image_def B_def)
qed

section \<open>Reading nodes\<close>

text \<open>The reader of a node: the fields of the given widths one after the other.\<close>

definition read_bits :: "bytes \<Rightarrow> nat \<Rightarrow> nat \<Rightarrow> nat" where
  "read_bits bs off n = horner_sum of_bool 2 (map (\<lambda>i. bit (bs ! ((off + i) div 8)) ((off + i) mod 8)) [0..<n])"

fun parse_fields :: "nat list \<Rightarrow> nat \<Rightarrow> bytes \<Rightarrow> nat list" where
  "parse_fields [] off bs = []"
| "parse_fields (w # ws) off bs = read_bits bs off w # parse_fields ws (off + w) bs"

definition unpack_node :: "nat list \<Rightarrow> bytes \<Rightarrow> nat list" where
  "unpack_node ws node = parse_fields ws 0 (drop 2 node)"

definition node_crc_ok :: "bytes \<Rightarrow> bool" where
  "node_crc_ok node \<longleftrightarrow> take 2 node = le16 (crc16 (- 1) (drop 2 node) (length node - 2))"

lemma read_bits_of_bits:
  assumes "off + n \<le> length bs"
  shows "read_bits (bytes_of_bits bs) off n = horner_sum of_bool 2 (take n (drop off bs))"
proof -
  have "map (\<lambda>i. bit (bytes_of_bits bs ! ((off + i) div 8)) ((off + i) mod 8)) [0..<n] = take n (drop off bs)"
  proof (rule nth_equalityI)
    fix i assume "i < length (map (\<lambda>i. bit (bytes_of_bits bs ! ((off + i) div 8)) ((off + i) mod 8)) [0..<n])"
    then have i: "i < n" by simp
    then have "(off + i) div 8 < (length bs + 7) div 8" using assms by linarith
    from bit_bytes_of_bits [OF this] i assms
    show "map (\<lambda>i. bit (bytes_of_bits bs ! ((off + i) div 8)) ((off + i) mod 8)) [0..<n] ! i = take n (drop off bs) ! i"
      by (simp add: algebra_simps)
  qed (use assms in simp)
  then show ?thesis by (simp only: read_bits_def)
qed

lemma field_bits_value: "fits (v, n) \<Longrightarrow> horner_sum of_bool 2 (field_bits (v, n)) = unat v"
proof -
  assume "fits (v, n)"
  then have "take_bit n (unat v) = unat v" by (simp add: fits_def take_bit_nat_eq_self)
  moreover have "field_bits (v, n) = map (bit (unat v)) [0..<n]"
    by (auto simp: field_bits_def bit_unsigned_iff bit_simps intro: bit_imp_le_length)
  ultimately show ?thesis by (simp add: horner_sum_bit_eq_take_bit)
qed

lemma parse_fields_bits:
  "list_all fits fs \<Longrightarrow> parse_fields (map snd fs) (length bs) (bytes_of_bits (bs @ concat (map field_bits fs) @ cs)) = map (unat \<circ> fst) fs"
proof (induction fs arbitrary: bs)
  case (Cons f fs)
  obtain v n where f: "f = (v, n)" by (cases f)
  have "read_bits (bytes_of_bits (bs @ field_bits (v, n) @ concat (map field_bits fs) @ cs)) (length bs) n = unat v"
    using Cons.prems by (subst read_bits_of_bits) (simp_all add: f field_bits_value)
  then show ?case using Cons.IH [of "bs @ field_bits (v, n)"] Cons.prems by (simp add: f)
qed simp

text \<open>Reading the image of a node gives back the values of its fields.\<close>

lemma unpack_node_image:
  assumes "list_all fits fs"
  shows "unpack_node (map snd fs) (node_image fs) = map (unat \<circ> fst) fs" "node_crc_ok (node_image fs)"
  using parse_fields_bits [OF assms, of "[]" "[]"]
  by (simp_all add: unpack_node_def node_image_def node_body_def node_crc_ok_def)

section \<open>Properties\<close>

text \<open>C39. Packing is concatenation of bits: calls of \<open>pack_bits\<close> for any fields of one to thirty-two bits, whose values
  fit their widths, that start at the beginning of a byte and have room in the buffer, write the bits of the
  fields one after the other, lowest first, clear the rest of the last byte, keep every other byte, and leave the
  byte index and the bit position behind the last field.\<close>

theorem pack_fields_bits:
  assumes "list_all fits fs" and "p + (sum_list (map snd fs) + 7) div 8 \<le> length buf"
  shows "pack_fields fs (buf, p, 0) = Ret (overwrite p (bytes_of_bits (concat (map field_bits fs))) buf,
     p + sum_list (map snd fs) div 8, sum_list (map snd fs) mod 8)"
proof -
  have len: "length (concat (map field_bits fs)) = sum_list (map snd fs)" by (simp add: length_concat o_def)
  have "buf = take p buf @ bytes_of_bits [] @ drop p buf" by (simp add: bytes_of_bits_def)
  with pack_fields_append [OF assms(1), of "[]" "drop p buf" "take p buf"] assms(2) show ?thesis
    by (simp add: Let_def len overwrite_def add.commute)
qed

theorem pack_fields_bits_witness:
  "pack_fields [(5, 4), (0x1ABC, 13), (1, 1)] ([0xFF, 0xFF, 0xFF, 0xFF], 1, 0)
     = Ret ([0xFF, 0xC5, 0xAB, 0x03], 3, 2)"
proof -
  have "bytes_of_bits (concat (map field_bits [(5, 4), (0x1ABC, 13), (1, 1)])) = [0xC5, 0xAB, 0x03]" by code_simp
  moreover have "list_all fits [(5, 4), (0x1ABC, 13), (1, 1)]" by (simp add: fits_def)
  ultimately show ?thesis
    using pack_fields_bits [of "[(5, 4), (0x1ABC, 13), (1, 1)]" 1 "[0xFF, 0xFF, 0xFF, 0xFF]"] by (simp add: overwrite_def)
qed

end
