(* ===== verification/LptGeom.thy ===== *)
theory LptGeom
  imports LptPack
begin

text \<open>
  The geometry of the LEB properties tree of UBIFS (\<open>mkfs.ubifs/lpt.c\<close>): the widths of the packed fields, the sizes
  of the nodes, the shape of the tree and the number of LEBs it needs.
\<close>

section \<open>Geometry\<close>

definition fls :: "u32 \<Rightarrow> nat" where
  "fls x =
     (if x = 0 then 0
      else
        let r = 32;
            (x, r) = (if x AND 0xffff0000 = 0 then (push_bit 16 x, r - 16) else (x, r));
            (x, r) = (if x AND 0xff000000 = 0 then (push_bit 8 x, r - 8) else (x, r));
            (x, r) = (if x AND 0xf0000000 = 0 then (push_bit 4 x, r - 4) else (x, r));
            (x, r) = (if x AND 0xc0000000 = 0 then (push_bit 2 x, r - 2) else (x, r));
            (x, r) = (if x AND 0x80000000 = 0 then (push_bit 1 x, r - 1) else (x, r))
        in r)"

definition ALIGN :: "nat \<Rightarrow> nat \<Rightarrow> nat" where
  "ALIGN x a = nat ((int x + (int a - 1)) AND NOT (int a - 1))"

function nnode_levels :: "nat \<Rightarrow> nat \<Rightarrow> nat" where
  "nnode_levels n cnt =
     (if n > 1 then let n = (n + UBIFS_LPT_FANOUT - 1) div UBIFS_LPT_FANOUT in nnode_levels n (cnt + n) else cnt)"
  by pat_completeness auto
termination
  by (relation "measure fst") (auto simp: UBIFS_LPT_FANOUT_def)

declare nnode_levels.simps [simp del]

text \<open>The loop starts with the fanout, so \<open>n\<close> is never zero.\<close>

function height_loop :: "nat \<Rightarrow> nat \<Rightarrow> nat \<Rightarrow> nat" where
  "height_loop pnode_cnt n hght =
     (if n \<noteq> 0 \<and> n < pnode_cnt then height_loop pnode_cnt (push_bit UBIFS_LPT_FANOUT_SHIFT n) (hght + 1) else hght)"
  by pat_completeness auto
termination
  by (relation "measure (\<lambda>(p, n, h). p - n)") (auto simp: UBIFS_LPT_FANOUT_SHIFT_def push_bit_eq_mult)

declare height_loop.simps [simp del]

text \<open>The loop over the wasted space never ends when a node is as large as a LEB.\<close>

function waste_loop :: "nat \<Rightarrow> nat \<Rightarrow> nat \<Rightarrow> nat \<Rightarrow> (unit, nat \<times> nat) outcome" where
  "waste_loop leb_size per_leb sz tot =
     (if sz > leb_size then
        (if per_leb \<ge> leb_size then Undef else waste_loop leb_size per_leb (sz + per_leb - leb_size) (tot + per_leb))
      else Ret (sz, tot))"
  by pat_completeness auto
termination
  by (relation "measure (\<lambda>(l, p, s, t). s)") auto

declare waste_loop.simps [simp del]

text \<open>The widths of the fields, the sizes of the nodes and the shape of the tree. The products that are computed
  in an \<open>int\<close> must not overflow, and the width of a free or dirty space must not be negative.\<close>

definition lpt_shape :: "ubifs_info \<Rightarrow> ubifs_info" where
  "lpt_shape c =
     (let pnode_cnt = (uc_main_lebs c + UBIFS_LPT_FANOUT - 1) div UBIFS_LPT_FANOUT;
          n = (pnode_cnt + UBIFS_LPT_FANOUT - 1) div UBIFS_LPT_FANOUT;
          m = (uc_max_leb_cnt c + UBIFS_LPT_FANOUT - 1) div UBIFS_LPT_FANOUT
      in c\<lparr>uc_pnode_cnt := pnode_cnt, uc_nnode_cnt := nnode_levels n n,
           uc_lpt_hght := height_loop pnode_cnt UBIFS_LPT_FANOUT 1,
           uc_space_bits := fls (of_nat (uc_leb_size c)) - 3,
           uc_lpt_lnum_bits := fls (of_nat (uc_lpt_lebs c)),
           uc_lpt_offs_bits := fls (of_nat (uc_leb_size c - 1)),
           uc_lpt_spc_bits := fls (of_nat (uc_leb_size c)),
           uc_pcnt_bits := fls (of_nat (m - 1)),
           uc_lnum_bits := fls (of_nat (uc_max_leb_cnt c - 1))\<rparr>)"

definition lpt_node_sizes :: "ubifs_info \<Rightarrow> ubifs_info" where
  "lpt_node_sizes c =
     (let head = UBIFS_LPT_CRC_BITS + UBIFS_LPT_TYPE_BITS;
          num = (if uc_big_lpt c then uc_pcnt_bits c else 0)
      in c\<lparr>uc_pnode_sz := (head + num + (uc_space_bits c * 2 + 1) * UBIFS_LPT_FANOUT + 7) div 8,
           uc_nnode_sz := (head + num + (uc_lpt_lnum_bits c + uc_lpt_offs_bits c) * UBIFS_LPT_FANOUT + 7) div 8,
           uc_ltab_sz := (head + uc_lpt_lebs c * uc_lpt_spc_bits c * 2 + 7) div 8,
           uc_lsave_sz := (head + uc_lnum_bits c * uc_lsave_cnt c + 7) div 8\<rparr>)"

definition do_calc_lpt_geom :: "ubifs_info \<Rightarrow> (unit, ubifs_info) outcome" where
  "do_calc_lpt_geom c =
     (if uc_leb_size c < 8 \<or> uc_max_leb_cnt c = 0 \<or> uc_main_lebs c + 3 \<ge> 2 ^ 31 \<or> uc_max_leb_cnt c + 3 \<ge> 2 ^ 31 then Undef
      else
        let c = lpt_node_sizes (lpt_shape c) in
        if uc_lpt_lebs c * uc_lpt_spc_bits c * 2 + 27 \<ge> 2 ^ 31 \<or> uc_lnum_bits c * uc_lsave_cnt c + 27 \<ge> 2 ^ 31 then Undef
        else
          let lpt_sz = uc_pnode_cnt c * uc_pnode_sz c + uc_nnode_cnt c * uc_nnode_sz c + uc_ltab_sz c + uc_lsave_sz c;
              per_leb = max (uc_pnode_sz c) (uc_nnode_sz c)
          in case waste_loop (uc_leb_size c) per_leb (lpt_sz + per_leb) per_leb of
               Ret (sz, tot) \<Rightarrow> Ret (c\<lparr>uc_lpt_sz := lpt_sz + (tot + (ALIGN sz (uc_min_io_size c) - sz))\<rparr>)
             | Err e \<Rightarrow> Err e | Undef \<Rightarrow> Undef)"

datatype lpt_error = EINVAL | Write_error

definition UBIFS_MIN_LPT_LEBS :: nat where "UBIFS_MIN_LPT_LEBS = 2"

text \<open>Four times the size of the tree in LEBs, stored in an \<open>int\<close>.\<close>

definition lebs_needed :: "ubifs_info \<Rightarrow> int" where
  "lebs_needed c = to_int32 (int ((uc_lpt_sz c * 4 + (uc_leb_size c - 1)) div uc_leb_size c))"

fun geom_loop :: "nat \<Rightarrow> nat \<Rightarrow> ubifs_info \<Rightarrow> (lpt_error, ubifs_info) outcome" where
  "geom_loop 0 main_lebs c = Err EINVAL"
| "geom_loop (Suc i) main_lebs c =
     (let needed = lebs_needed c in
      if needed > int (uc_lpt_lebs c) then
        (if main_lebs \<le> nat needed then Err EINVAL
         else case do_calc_lpt_geom (c\<lparr>uc_lpt_lebs := nat needed, uc_main_lebs := main_lebs - nat needed\<rparr>) of
                Ret c' \<Rightarrow> geom_loop i main_lebs c' | Err _ \<Rightarrow> Undef | Undef \<Rightarrow> Undef)
      else if uc_ltab_sz c > uc_leb_size c then Err EINVAL
      else Ret c)"

text \<open>The new description holds the values returned through the pointers, \<open>main_lebs\<close> and \<open>big_lpt\<close>.\<close>

definition calc_dflt_lpt_geom :: "ubifs_info \<Rightarrow> nat \<Rightarrow> (lpt_error, ubifs_info) outcome" where
  "calc_dflt_lpt_geom c main_lebs =
     (if main_lebs \<le> UBIFS_MIN_LPT_LEBS then Err EINVAL
      else case do_calc_lpt_geom (c\<lparr>uc_lpt_lebs := UBIFS_MIN_LPT_LEBS, uc_main_lebs := main_lebs - UBIFS_MIN_LPT_LEBS, uc_big_lpt := False\<rparr>) of
          Ret c' \<Rightarrow>
            (case (if uc_lpt_sz c' > uc_leb_size c' then do_calc_lpt_geom (c'\<lparr>uc_big_lpt := True\<rparr>) else Ret c') of
               Ret c'' \<Rightarrow> geom_loop 64 main_lebs c'' | Err _ \<Rightarrow> Undef | Undef \<Rightarrow> Undef)
        | Err _ \<Rightarrow> Undef | Undef \<Rightarrow> Undef)"

section \<open>Arithmetic of the geometry\<close>

text \<open>One step of \<open>fls\<close>: with the upper bits clear the word is shifted up.\<close>

lemma and_high_zero_iff:
  fixes x :: u32
  shows "x AND NOT (mask k) = 0 \<longleftrightarrow> unat x < 2 ^ k"
proof
  assume z: "x AND NOT (mask k) = 0"
  have "x = take_bit k x"
  proof (rule bit_word_eqI)
    fix n assume n: "n < LENGTH(32)"
    have "\<not> bit (x AND NOT (mask k)) n" by (simp add: z)
    then show "bit x n = bit (take_bit k x) n" using n by (auto simp: bit_simps)
  qed
  then have "unat x = take_bit k (unat x)" by (metis unsigned_take_bit_eq)
  then show "unat x < 2 ^ k" by (metis take_bit_nat_less_exp)
next
  assume "unat x < 2 ^ k"
  then have "take_bit k (unat x) = unat x" by (rule take_bit_nat_eq_self)
  then have t: "take_bit k x = x" by (metis unsigned_take_bit_eq unsigned_word_eqI)
  have "\<not> bit x n" if "k \<le> n" for n using bit_take_bit_iff [of k x n] that by (simp add: t)
  then show "x AND NOT (mask k) = 0" by (intro bit_word_eqI) (auto simp: bit_simps not_less)
qed

definition fls_step :: "nat \<Rightarrow> u32 \<times> nat \<Rightarrow> u32 \<times> nat" where
  "fls_step k xr = (if fst xr AND NOT (mask (32 - k)) = 0 then (push_bit k (fst xr), snd xr - k) else xr)"

lemma fls_steps: "x \<noteq> 0 \<Longrightarrow> fls x = snd (fls_step 1 (fls_step 2 (fls_step 4 (fls_step 8 (fls_step 16 (x, 32))))))"
proof -
  have m: "(0xffff0000 :: u32) = NOT (mask 16)" "(0xff000000 :: u32) = NOT (mask 24)" "(0xf0000000 :: u32) = NOT (mask 28)"
    "(0xc0000000 :: u32) = NOT (mask 30)" "(0x80000000 :: u32) = NOT (mask 31)" by code_simp+
  assume "x \<noteq> 0"
  then show ?thesis unfolding fls_def Let_def m fls_step_def by (simp split: prod.splits)
qed

definition fls_inv :: "u32 \<Rightarrow> nat \<Rightarrow> u32 \<times> nat \<Rightarrow> bool" where
  "fls_inv x k xr \<longleftrightarrow> snd xr \<le> 32 \<and> unat (fst xr) = unat x * 2 ^ (32 - snd xr) \<and> 2 ^ (32 - k) \<le> unat (fst xr)"

lemma fls_step_inv:
  assumes "fls_inv x (2 * k) xr" "2 * k \<le> 32"
  shows "fls_inv x k (fls_step k xr)"
proof (cases "unat (fst xr) < 2 ^ (32 - k)")
  case True
  obtain y r where xr: "xr = (y, r)" by (cases xr)
  have y: "unat y = unat x * 2 ^ (32 - r)" "r \<le> 32" "2 ^ (32 - 2 * k) \<le> unat y" "unat y < 2 ^ (32 - k)"
    using assms(1) True by (simp_all add: fls_inv_def xr)
  have "unat y * 2 ^ k < 2 ^ (32 - k) * 2 ^ k" using y(4) by simp
  also have "\<dots> = 2 ^ 32" using assms(2) by (simp flip: power_add)
  finally have small: "unat y * 2 ^ k < 2 ^ 32" .
  then have push: "unat (push_bit k y) = unat y * 2 ^ k"
    by (subst unsigned_push_bit_eq) (simp add: push_bit_eq_mult take_bit_nat_eq_self)
  have "unat x \<noteq> 0" using y(1,3) by (metis mult_0 not_le power_eq_0_iff zero_less_power zero_neq_numeral gr0I le_zero_eq zero_less_numeral)
  then have "2 ^ (32 - r) \<le> unat y" unfolding y(1) by simp
  then have "(2::nat) ^ (32 - r) < 2 ^ (32 - k)" using y(4) by linarith
  then have "32 - r < 32 - k" by (rule power_less_imp_less_exp [rotated]) simp
  then have kr: "k < r" using y(2) by linarith
  have "2 ^ (32 - k) = 2 ^ (32 - 2 * k) * (2::nat) ^ k" using assms(2) by (simp flip: power_add)
  also have "\<dots> \<le> unat y * 2 ^ k" using y(3) by simp
  finally have low: "2 ^ (32 - k) \<le> unat y * 2 ^ k" .
  have "2 ^ (32 - (r - k)) = 2 ^ (32 - r) * (2::nat) ^ k" using kr y(2) by (simp flip: power_add)
  moreover have "r - k \<le> 32" using y(2) by simp
  ultimately show ?thesis using True push low y(1,2) by (simp add: fls_step_def xr fls_inv_def and_high_zero_iff)
next
  case False
  then show ?thesis using assms(1) by (auto simp: fls_step_def fls_inv_def and_high_zero_iff)
qed

lemma fls_bounds_word:
  assumes "x \<noteq> 0"
  shows "0 < fls x" "fls x \<le> 32" "2 ^ (fls x - 1) \<le> unat x" "unat x < 2 ^ fls x"
proof -
  have x: "1 \<le> unat x" using assms by (simp add: unat_eq_0 Suc_le_eq flip: neq0_conv)
  have "fls_inv x (2 * 16) (x, 32)" using x by (simp add: fls_inv_def)
  then have "fls_inv x (2 * 8) (fls_step 16 (x, 32))" using fls_step_inv [of x 16] by simp
  then have "fls_inv x (2 * 4) (fls_step 8 (fls_step 16 (x, 32)))" using fls_step_inv [of x 8] by simp
  then have "fls_inv x (2 * 2) (fls_step 4 (fls_step 8 (fls_step 16 (x, 32))))" using fls_step_inv [of x 4] by simp
  then have "fls_inv x (2 * 1) (fls_step 2 (fls_step 4 (fls_step 8 (fls_step 16 (x, 32)))))" using fls_step_inv [of x 2] by simp
  then have "fls_inv x 1 (fls_step 1 (fls_step 2 (fls_step 4 (fls_step 8 (fls_step 16 (x, 32))))))" by (rule fls_step_inv) simp
  moreover obtain y r where yr: "fls_step 1 (fls_step 2 (fls_step 4 (fls_step 8 (fls_step 16 (x, 32))))) = (y, r)"
    by (metis surj_pair)
  moreover have "fls x = r" using fls_steps [OF assms] unfolding yr by simp
  ultimately have y: "unat y = unat x * 2 ^ (32 - fls x)" "fls x \<le> 32" "2 ^ 31 \<le> unat y"
    by (simp_all add: fls_inv_def)
  have lt: "unat y < 2 ^ 32" using unsigned_less [of y] by simp
  let ?r = "fls x"
  have e: "(2::nat) ^ 32 = 2 ^ ?r * 2 ^ (32 - ?r)" using y(2) by (simp flip: power_add)
  then have "unat x * 2 ^ (32 - ?r) < 2 ^ ?r * 2 ^ (32 - ?r)" using y(1) lt by simp
  then show up: "unat x < 2 ^ ?r" by simp
  then show pos: "0 < ?r" using x by (cases "?r = 0") auto
  have "(2::nat) ^ 31 = 2 ^ (?r - 1) * 2 ^ (32 - ?r)" using y(2) pos by (simp flip: power_add)
  then have "2 ^ (?r - 1) * 2 ^ (32 - ?r) \<le> unat x * 2 ^ (32 - ?r)" using y(1,3) by simp
  then show "2 ^ (?r - 1) \<le> unat x" by simp
  show "?r \<le> 32" by (rule y(2))
qed

lemma fls_bounds:
  assumes "n < 2 ^ 32"
  shows "fls (of_nat n) \<le> 32" "n < 2 ^ fls (of_nat n)" "n \<noteq> 0 \<Longrightarrow> 0 < fls (of_nat n)" "n \<noteq> 0 \<Longrightarrow> 2 ^ (fls (of_nat n) - 1) \<le> n"
proof -
  have u: "unat (of_nat n :: u32) = n" using assms by (simp add: unsigned_of_nat take_bit_nat_eq_self)
  have z: "(of_nat n :: u32) = 0 \<longleftrightarrow> n = 0" by (subst unat_eq_0 [symmetric]) (simp only: u)
  have z0: "fls (of_nat n) = 0" if "n = 0" using that by (simp add: fls_def)
  note b = fls_bounds_word [of "of_nat n", unfolded z u]
  show "fls (of_nat n) \<le> 32" using b(2) z0 by (cases "n = 0") simp_all
  show "n < 2 ^ fls (of_nat n)" using b(4) z0 by (cases "n = 0") simp_all
  show "0 < fls (of_nat n)" "2 ^ (fls (of_nat n) - 1) \<le> n" if "n \<noteq> 0" by (rule b [OF that])+
qed

text \<open>A smaller number needs no more bits.\<close>

lemma fls_mono_width:
  assumes "2 ^ k \<le> n" "n < 2 ^ 32"
  shows "k < fls (of_nat n)"
proof -
  have "(2::nat) ^ k < 2 ^ fls (of_nat n)" using assms(1) fls_bounds(2) [OF assms(2)] by linarith
  then show ?thesis by (rule power_less_imp_less_exp [rotated]) simp
qed

lemma fls_le:
  assumes "n < 2 ^ k" "n < 2 ^ 32"
  shows "fls (of_nat n) \<le> k"
proof (cases "n = 0")
  case False
  then have "(2::nat) ^ (fls (of_nat n) - 1) < 2 ^ k" using fls_bounds(4) [OF assms(2)] assms(1) by linarith
  then have "fls (of_nat n) - 1 < k" by (rule power_less_imp_less_exp [rotated]) simp
  then show ?thesis by simp
qed (simp add: fls_def)

lemma ALIGN_eq:
  assumes "a = 2 ^ k"
  shows "ALIGN x a = (x + a - 1) div a * a"
proof -
  have m: "int a - 1 = mask k" by (simp add: assms mask_eq_exp_minus_1)
  have s: "int x + mask k = int (x + a - 1)" by (simp add: m [symmetric] of_nat_diff assms Suc_le_eq)
  have "y AND NOT (mask k) = push_bit k (drop_bit k y)" for y :: int
    by (rule bit_eqI) (auto simp: bit_simps)
  then have "(int x + (int a - 1)) AND NOT (int a - 1) = int (push_bit k (drop_bit k (x + a - 1)))"
    unfolding m s by (simp add: of_nat_push_bit of_nat_drop_bit)
  then have "ALIGN x a = push_bit k (drop_bit k (x + a - 1))" unfolding ALIGN_def by (simp only: nat_int)
  then show ?thesis by (simp add: push_bit_eq_mult drop_bit_eq_div assms)
qed

lemma ALIGN_bounds:
  assumes "a = 2 ^ k"
  shows "x \<le> ALIGN x a" and "x \<le> m \<Longrightarrow> a dvd m \<Longrightarrow> ALIGN x a \<le> m"
proof -
  have a: "0 < a" using assms by simp
  have "x + a - 1 < (x + a - 1) div a * a + a" using dividend_less_div_times [OF a, of "x + a - 1"] by (simp add: add.commute)
  then show "x \<le> ALIGN x a" unfolding ALIGN_eq [OF assms] using a by linarith
  show "ALIGN x a \<le> m" if x: "x \<le> m" and d: "a dvd m"
  proof -
    obtain q where q: "m = q * a" using d by (metis dvd_def mult.commute)
    have "x + a - 1 < (q + 1) * a" using x q a by (simp add: algebra_simps)
    then have "(x + a - 1) div a < q + 1" by (simp add: less_mult_imp_div_less)
    then show ?thesis unfolding ALIGN_eq [OF assms] q by simp
  qed
qed

text \<open>The number of nodes on each level above \<open>n\<close> leaves, and the number of nodes below a level.\<close>

fun level :: "nat \<Rightarrow> nat \<Rightarrow> nat" where
  "level n 0 = n"
| "level n (Suc t) = (level n t + 3) div 4"

definition below :: "nat \<Rightarrow> nat \<Rightarrow> nat" where
  "below n t = (\<Sum>s<t. level n s)"

lemma below_Suc [simp]: "below n (Suc t) = below n t + level n t" "below n 0 = 0"
  by (simp_all add: below_def)

lemma level_le_iff: "level n t \<le> m \<longleftrightarrow> n \<le> m * 4 ^ t"
proof (induction t arbitrary: m)
  case (Suc t)
  have "(a + 3) div 4 \<le> m \<longleftrightarrow> a \<le> m * 4" for a :: nat by linarith
  then show ?case using Suc [of "m * 4"] by (simp add: mult.assoc)
qed simp

lemma level_pos: "0 < n \<Longrightarrow> 0 < level n t"
  using level_le_iff [of n t 0] by (cases "level n t") simp_all

lemma level_index: "k < n \<Longrightarrow> k div 4 ^ t < level n t"
proof (induction t)
  case (Suc t)
  have "a div 4 < (b + 3) div 4" if "a < b" for a b :: nat using that by linarith
  from this [OF Suc.IH [OF Suc.prems]] have "(k div 4 ^ t) div 4 < (level n t + 3) div 4" .
  then show ?case by (simp add: power_Suc2 div_mult2_eq del: power_Suc)
qed simp

lemma height_loop_spec:
  assumes "0 < n"
  shows "\<exists>k. height_loop pc n h = h + k \<and> pc \<le> n * 4 ^ k \<and> (0 < k \<longrightarrow> n * 4 ^ (k - 1) < pc)"
  using assms
proof (induction pc n h rule: height_loop.induct)
  case (1 pc n h)
  show ?case
  proof (cases "n < pc")
    case True
    have "push_bit UBIFS_LPT_FANOUT_SHIFT n = n * 4" by (simp add: UBIFS_LPT_FANOUT_SHIFT_def push_bit_eq_mult)
    with 1 True obtain k where k: "height_loop pc (n * 4) (h + 1) = h + 1 + k" "pc \<le> n * 4 * 4 ^ k" "0 < k \<longrightarrow> n * 4 * 4 ^ (k - 1) < pc"
      by auto
    have "height_loop pc n h = h + Suc k" using True 1(2) k(1) by (subst height_loop.simps) (simp add: UBIFS_LPT_FANOUT_SHIFT_def push_bit_eq_mult)
    moreover have "n * 4 ^ k < pc" using k(3) True by (cases k) (simp_all add: mult.assoc)
    ultimately show ?thesis using k(2) by (intro exI [of _ "Suc k"]) (simp add: mult.assoc)
  next
    case False
    then show ?thesis by (intro exI [of _ 0]) (simp add: height_loop.simps)
  qed
qed

lemma height_spec:
  obtains h where "height_loop pc 4 1 = Suc h" "pc \<le> 4 ^ Suc h" "0 < h \<longrightarrow> 4 ^ h < pc"
proof -
  obtain k where k: "height_loop pc 4 1 = 1 + k" "pc \<le> 4 * 4 ^ k" "0 < k \<longrightarrow> 4 * 4 ^ (k - 1) < pc"
    using height_loop_spec [of 4 pc 1] by auto
  moreover have "0 < k \<Longrightarrow> 4 * 4 ^ (k - 1) = (4::nat) ^ k" by (cases k) simp_all
  ultimately show thesis using that [of k] by simp
qed

text \<open>The inner nodes are those of the levels above the leaves, up to the root.\<close>

lemma nnode_levels_spec:
  assumes "t \<le> h" "level pc h = 1" "\<And>s. s < h \<Longrightarrow> 1 < level pc s"
  shows "nnode_levels (level pc t) acc = acc + (below pc (Suc h) - below pc (Suc t))"
  using assms(1)
proof (induction "h - t" arbitrary: t acc)
  case 0
  then have "t = h" by simp
  then show ?case using assms(2) by (subst nnode_levels.simps) simp
next
  case (Suc k)
  then have t: "t < h" by simp
  have IH: "nnode_levels (level pc (Suc t)) (acc + level pc (Suc t)) = acc + level pc (Suc t) + (below pc (Suc h) - below pc (Suc (Suc t)))"
    using Suc.hyps(1) [of "Suc t"] Suc.hyps(2) t by simp
  have mono: "below pc a \<le> below pc b" if "a \<le> b" for a b
    unfolding below_def using that by (intro sum_mono2) auto
  have "below pc (Suc (Suc t)) \<le> below pc (Suc h)" using t by (intro mono) simp
  moreover have "nnode_levels (level pc t) acc = nnode_levels (level pc (Suc t)) (acc + level pc (Suc t))"
    using assms(3) [OF t] by (subst nnode_levels.simps) (simp add: UBIFS_LPT_FANOUT_def Let_def add.commute)
  ultimately show ?case using IH by simp
qed

section \<open>A consistent geometry\<close>

text \<open>What the creation of the tree relies on: the geometry is a fixed point of its computation, four times the tree
  fits into its LEBs, and the LEBs and their properties are in range.\<close>

definition lpt_ok :: "ubifs_info \<Rightarrow> bool" where
  "lpt_ok c \<longleftrightarrow> do_calc_lpt_geom c = Ret c
     \<and> 15 * 1024 \<le> uc_leb_size c \<and> uc_leb_size c < 2 ^ 31 \<and> uc_min_io_size c dvd uc_leb_size c \<and> (\<exists>k. uc_min_io_size c = 2 ^ k)
     \<and> 0 < uc_main_lebs c \<and> uc_main_lebs c \<le> uc_max_leb_cnt c \<and> uc_max_leb_cnt c < 2 ^ 31
     \<and> 2 \<le> uc_lpt_lebs c \<and> uc_lpt_lebs c < 2 ^ 31 \<and> uc_lpt_sz c * 4 \<le> uc_lpt_lebs c * uc_leb_size c
     \<and> uc_ltab_sz c \<le> uc_leb_size c
     \<and> 0 < uc_lpt_first c \<and> uc_lpt_last c = uc_lpt_first c + uc_lpt_lebs c - 1 \<and> uc_lpt_last c < 2 ^ 31
     \<and> length (uc_lpt c) = uc_main_lebs c \<and> length (uc_ltab c) = uc_lpt_lebs c
     \<and> list_all (\<lambda>lp. lp_free lp \<le> uc_leb_size c \<and> lp_dirty lp \<le> uc_leb_size c) (uc_lpt c)
     \<and> list_all (\<lambda>lt. lt_free lt \<le> uc_leb_size c \<and> lt_dirty lt \<le> uc_leb_size c) (uc_ltab c)
     \<and> (uc_big_lpt c \<longrightarrow> 1 < uc_pnode_cnt c \<and> 1 < uc_max_leb_cnt c \<and> uc_lsave_cnt c \<le> 256
          \<and> uc_main_first c + uc_lsave_cnt c \<le> uc_max_leb_cnt c)"

lemma do_calc_Ret:
  assumes "do_calc_lpt_geom c = Ret c'"
  defines "d \<equiv> lpt_node_sizes (lpt_shape c)"
  shows "\<exists>x. c' = d\<lparr>uc_lpt_sz := uc_pnode_cnt d * uc_pnode_sz d + uc_nnode_cnt d * uc_nnode_sz d + uc_ltab_sz d + uc_lsave_sz d + x\<rparr>"
  using assms(1) unfolding do_calc_lpt_geom_def Let_def d_def [symmetric]
  by (auto split: if_splits outcome.splits prod.splits)

lemma geom_fields:
  assumes "do_calc_lpt_geom c = Ret c"
  shows "uc_pnode_cnt c = (uc_main_lebs c + 3) div 4"
    and "uc_nnode_cnt c = nnode_levels ((uc_pnode_cnt c + 3) div 4) ((uc_pnode_cnt c + 3) div 4)"
    and "uc_lpt_hght c = height_loop (uc_pnode_cnt c) 4 1"
    and "uc_space_bits c = fls (of_nat (uc_leb_size c)) - 3" "uc_lpt_lnum_bits c = fls (of_nat (uc_lpt_lebs c))"
    and "uc_lpt_offs_bits c = fls (of_nat (uc_leb_size c - 1))" "uc_lpt_spc_bits c = fls (of_nat (uc_leb_size c))"
    and "uc_pcnt_bits c = fls (of_nat ((uc_max_leb_cnt c + 3) div 4 - 1))" "uc_lnum_bits c = fls (of_nat (uc_max_leb_cnt c - 1))"
    and "uc_pnode_sz c = (20 + (if uc_big_lpt c then uc_pcnt_bits c else 0) + (uc_space_bits c * 2 + 1) * 4 + 7) div 8"
    and "uc_nnode_sz c = (20 + (if uc_big_lpt c then uc_pcnt_bits c else 0) + (uc_lpt_lnum_bits c + uc_lpt_offs_bits c) * 4 + 7) div 8"
    and "uc_ltab_sz c = (20 + uc_lpt_lebs c * uc_lpt_spc_bits c * 2 + 7) div 8"
    and "uc_lsave_sz c = (20 + uc_lnum_bits c * uc_lsave_cnt c + 7) div 8"
    and "uc_pnode_cnt c * uc_pnode_sz c + uc_nnode_cnt c * uc_nnode_sz c + uc_ltab_sz c + uc_lsave_sz c \<le> uc_lpt_sz c"
proof -
  let ?d = "lpt_node_sizes (lpt_shape c)"
  let ?lsz = "uc_pnode_cnt ?d * uc_pnode_sz ?d + uc_nnode_cnt ?d * uc_nnode_sz ?d + uc_ltab_sz ?d + uc_lsave_sz ?d"
  obtain x where e: "c = ?d\<lparr>uc_lpt_sz := ?lsz + x\<rparr>"
    using do_calc_Ret [OF assms] by blast
  note simps = lpt_node_sizes_def lpt_shape_def Let_def lpt_consts
  show pc: "uc_pnode_cnt c = (uc_main_lebs c + 3) div 4" using arg_cong [OF e, of uc_pnode_cnt] by (simp add: simps add.commute)
  show nn: "uc_nnode_cnt c = nnode_levels ((uc_pnode_cnt c + 3) div 4) ((uc_pnode_cnt c + 3) div 4)"
    using arg_cong [OF e, of uc_nnode_cnt] by (simp add: simps pc add.commute)
  show "uc_lpt_hght c = height_loop (uc_pnode_cnt c) 4 1" using arg_cong [OF e, of uc_lpt_hght] by (simp add: simps pc add.commute)
  show sp: "uc_space_bits c = fls (of_nat (uc_leb_size c)) - 3" using arg_cong [OF e, of uc_space_bits] by (simp add: simps add.commute)
  show ln: "uc_lpt_lnum_bits c = fls (of_nat (uc_lpt_lebs c))" using arg_cong [OF e, of uc_lpt_lnum_bits] by (simp add: simps add.commute)
  show off: "uc_lpt_offs_bits c = fls (of_nat (uc_leb_size c - 1))" using arg_cong [OF e, of uc_lpt_offs_bits] by (simp add: simps add.commute)
  show spc: "uc_lpt_spc_bits c = fls (of_nat (uc_leb_size c))" using arg_cong [OF e, of uc_lpt_spc_bits] by (simp add: simps add.commute)
  show pb: "uc_pcnt_bits c = fls (of_nat ((uc_max_leb_cnt c + 3) div 4 - 1))" using arg_cong [OF e, of uc_pcnt_bits] by (simp add: simps add.commute)
  show lb: "uc_lnum_bits c = fls (of_nat (uc_max_leb_cnt c - 1))" using arg_cong [OF e, of uc_lnum_bits] by (simp add: simps add.commute)
  show psz: "uc_pnode_sz c = (20 + (if uc_big_lpt c then uc_pcnt_bits c else 0) + (uc_space_bits c * 2 + 1) * 4 + 7) div 8"
    using arg_cong [OF e, of uc_pnode_sz] unfolding pb sp by (simp add: simps add.commute)
  show nsz: "uc_nnode_sz c = (20 + (if uc_big_lpt c then uc_pcnt_bits c else 0) + (uc_lpt_lnum_bits c + uc_lpt_offs_bits c) * 4 + 7) div 8"
    using arg_cong [OF e, of uc_nnode_sz] unfolding pb ln off by (simp add: simps add.commute)
  show tsz: "uc_ltab_sz c = (20 + uc_lpt_lebs c * uc_lpt_spc_bits c * 2 + 7) div 8"
    using arg_cong [OF e, of uc_ltab_sz] unfolding spc by (simp add: simps add.commute)
  show ssz: "uc_lsave_sz c = (20 + uc_lnum_bits c * uc_lsave_cnt c + 7) div 8"
    using arg_cong [OF e, of uc_lsave_sz] unfolding lb by (simp add: simps add.commute)
  have "uc_pnode_cnt c = uc_pnode_cnt ?d" "uc_nnode_cnt c = uc_nnode_cnt ?d" "uc_pnode_sz c = uc_pnode_sz ?d"
    "uc_nnode_sz c = uc_nnode_sz ?d" "uc_ltab_sz c = uc_ltab_sz ?d" "uc_lsave_sz c = uc_lsave_sz ?d"
    using arg_cong [OF e, of uc_pnode_cnt] arg_cong [OF e, of uc_nnode_cnt] arg_cong [OF e, of uc_pnode_sz]
      arg_cong [OF e, of uc_nnode_sz] arg_cong [OF e, of uc_ltab_sz] arg_cong [OF e, of uc_lsave_sz] by simp_all
  then show "uc_pnode_cnt c * uc_pnode_sz c + uc_nnode_cnt c * uc_nnode_sz c + uc_ltab_sz c + uc_lsave_sz c \<le> uc_lpt_sz c"
    using arg_cong [OF e, of uc_lpt_sz] by simp
qed

lemma fits_of_nat: "0 < n \<Longrightarrow> n \<le> 32 \<Longrightarrow> v < 2 ^ n \<Longrightarrow> fits (of_nat v, n)" "v < 2 ^ n \<Longrightarrow> n \<le> 32 \<Longrightarrow> unat (of_nat v :: u32) = v"
proof -
  have "unat (of_nat v :: u32) = v" if "v < 2 ^ n" "n \<le> 32"
  proof -
    have "(2::nat) ^ n \<le> 2 ^ 32" using that(2) by (rule power_increasing) simp
    then show ?thesis using that(1) by (simp add: unsigned_of_nat take_bit_nat_eq_self)
  qed
  then show "0 < n \<Longrightarrow> n \<le> 32 \<Longrightarrow> v < 2 ^ n \<Longrightarrow> fits (of_nat v, n)" "v < 2 ^ n \<Longrightarrow> n \<le> 32 \<Longrightarrow> unat (of_nat v :: u32) = v"
    by (simp_all add: fits_def)
qed

lemma fits_fls: "v \<le> m \<Longrightarrow> m \<noteq> 0 \<Longrightarrow> m < 2 ^ 32 \<Longrightarrow> fits (of_nat v, fls (of_nat m))"
  using fls_bounds [of m] by (intro fits_of_nat) auto

lemma lpt_okD:
  assumes "lpt_ok c"
  shows "do_calc_lpt_geom c = Ret c" "15360 \<le> uc_leb_size c" "uc_leb_size c < 2 ^ 31" "uc_min_io_size c dvd uc_leb_size c"
    "\<exists>k. uc_min_io_size c = 2 ^ k" "0 < uc_main_lebs c" "uc_main_lebs c \<le> uc_max_leb_cnt c" "uc_max_leb_cnt c < 2 ^ 31"
    "2 \<le> uc_lpt_lebs c" "uc_lpt_lebs c < 2 ^ 31" "uc_lpt_sz c * 4 \<le> uc_lpt_lebs c * uc_leb_size c" "uc_ltab_sz c \<le> uc_leb_size c"
    "0 < uc_lpt_first c" "uc_lpt_last c = uc_lpt_first c + uc_lpt_lebs c - 1" "uc_lpt_last c < 2 ^ 31"
    "length (uc_lpt c) = uc_main_lebs c" "length (uc_ltab c) = uc_lpt_lebs c"
    "list_all (\<lambda>lp. lp_free lp \<le> uc_leb_size c \<and> lp_dirty lp \<le> uc_leb_size c) (uc_lpt c)"
    "list_all (\<lambda>lt. lt_free lt \<le> uc_leb_size c \<and> lt_dirty lt \<le> uc_leb_size c) (uc_ltab c)"
    "uc_big_lpt c \<longrightarrow> 1 < uc_pnode_cnt c \<and> 1 < uc_max_leb_cnt c \<and> uc_lsave_cnt c \<le> 256 \<and> uc_main_first c + uc_lsave_cnt c \<le> uc_max_leb_cnt c"
  using assms unfolding lpt_ok_def by simp_all

lemma space_bits_bounds:
  assumes "lpt_ok c"
  shows "0 < uc_space_bits c" "uc_space_bits c \<le> 28" "v \<le> uc_leb_size c \<Longrightarrow> v div 8 < 2 ^ uc_space_bits c"
proof -
  note ok = lpt_okD [OF assms]
  let ?f = "fls (of_nat (uc_leb_size c))"
  have leb: "uc_leb_size c < 2 ^ 32" using ok(3) by simp
  have f: "13 < ?f" using ok(2) leb by (intro fls_mono_width) simp_all
  have f31: "?f \<le> 31" using ok(3) leb by (intro fls_le) simp_all
  show "0 < uc_space_bits c" "uc_space_bits c \<le> 28" using f f31 by (simp_all add: geom_fields(4) [OF ok(1)])
  obtain k where k: "?f = k + 3" using le_Suc_ex [of 3 ?f] f by (auto simp: add.commute)
  have "uc_leb_size c < 2 ^ k * 8" using fls_bounds(2) [OF leb] by (simp add: k power_add)
  then have "uc_leb_size c div 8 < 2 ^ (?f - 3)" by (simp add: k less_mult_imp_div_less)
  then show "v div 8 < 2 ^ uc_space_bits c" if "v \<le> uc_leb_size c"
    using div_le_mono [OF that, of 8] by (simp add: geom_fields(4) [OF ok(1)])
qed

lemma num_bits_bounds:
  assumes "lpt_ok c" "uc_big_lpt c"
  shows "0 < uc_pcnt_bits c" "uc_pcnt_bits c \<le> 32" "i < uc_pnode_cnt c \<Longrightarrow> i < 2 ^ uc_pcnt_bits c"
    and "row < uc_lpt_hght c \<Longrightarrow> v < 2 * 4 ^ row \<Longrightarrow> v < (2::nat) ^ uc_pcnt_bits c"
proof -
  note ok = lpt_okD [OF assms(1)]
  note gf = geom_fields [OF ok(1)]
  let ?n = "(uc_max_leb_cnt c + 3) div 4 - 1"
  have n: "?n < 2 ^ 32" using ok(8) by simp
  have le: "uc_pnode_cnt c \<le> (uc_max_leb_cnt c + 3) div 4" unfolding gf(1) using ok(7) by (intro div_le_mono) simp
  have n1: "1 \<le> ?n" "uc_pnode_cnt c - 1 \<le> ?n" using le ok(20) assms(2) by linarith+
  then show pb: "0 < uc_pcnt_bits c" "uc_pcnt_bits c \<le> 32" using fls_bounds(1,3) [OF n] by (simp_all add: gf(8))
  show "i < 2 ^ uc_pcnt_bits c" if "i < uc_pnode_cnt c"
    using fls_bounds(2) [OF n] n1 that by (simp add: gf(8))
  obtain h where h: "uc_lpt_hght c = Suc h" "0 < h \<longrightarrow> 4 ^ h < uc_pnode_cnt c"
    using height_spec [of "uc_pnode_cnt c"] gf(3) by metis
  show "v < (2::nat) ^ uc_pcnt_bits c" if row: "row < uc_lpt_hght c" and v: "v < 2 * 4 ^ row"
  proof -
    have "4 ^ h \<le> ?n" using h(2) n1 by (cases "h = 0") auto
    then have "(2::nat) ^ (2 * h) \<le> ?n" by (simp add: power_mult)
    then have "2 * h < uc_pcnt_bits c" unfolding gf(8) using n by (rule fls_mono_width)
    then have "(2::nat) ^ Suc (2 * h) \<le> 2 ^ uc_pcnt_bits c" by (intro power_increasing) simp_all
    moreover have "(4::nat) ^ row \<le> 4 ^ h" using row h(1) by (intro power_increasing) simp_all
    moreover have "(2::nat) ^ Suc (2 * h) = 2 * 4 ^ h" by (simp add: power_mult)
    ultimately show ?thesis using v by linarith
  qed
qed

section \<open>The number of LEBs\<close>

lemma lpt_shape_idem: "lpt_shape (lpt_shape c) = lpt_shape c"
  by (simp add: lpt_shape_def Let_def)

lemma lpt_shape_sizes:
  "lpt_shape (c\<lparr>uc_pnode_sz := p, uc_nnode_sz := n, uc_ltab_sz := l, uc_lsave_sz := s, uc_lpt_sz := x\<rparr>)
     = (lpt_shape c)\<lparr>uc_pnode_sz := p, uc_nnode_sz := n, uc_ltab_sz := l, uc_lsave_sz := s, uc_lpt_sz := x\<rparr>"
  by (simp add: lpt_shape_def Let_def)

lemma lpt_node_sizes_again:
  "lpt_node_sizes (c\<lparr>uc_pnode_sz := p, uc_nnode_sz := n, uc_ltab_sz := l, uc_lsave_sz := s, uc_lpt_sz := x\<rparr>)
     = (lpt_node_sizes c)\<lparr>uc_lpt_sz := x\<rparr>"
  by (simp add: lpt_node_sizes_def Let_def)

text \<open>The computation is idempotent: it reads only fields that it does not set.\<close>

lemma do_calc_idem:
  assumes "do_calc_lpt_geom c = Ret c'"
  shows "do_calc_lpt_geom c' = Ret c'"
proof -
  define d where "d = lpt_node_sizes (lpt_shape c)"
  obtain x where c': "c' = d\<lparr>uc_lpt_sz := x\<rparr>" using do_calc_Ret [OF assms] unfolding d_def by blast
  have again: "lpt_node_sizes (lpt_shape (d\<lparr>uc_lpt_sz := x\<rparr>)) = d\<lparr>uc_lpt_sz := x\<rparr>"
    unfolding d_def by (subst (2) lpt_node_sizes_def) (simp add: Let_def lpt_shape_sizes lpt_node_sizes_again lpt_shape_idem)
  have f: "uc_leb_size d = uc_leb_size c" "uc_max_leb_cnt d = uc_max_leb_cnt c" "uc_main_lebs d = uc_main_lebs c"
    by (simp_all add: d_def lpt_node_sizes_def lpt_shape_def Let_def)
  have "do_calc_lpt_geom (d\<lparr>uc_lpt_sz := x\<rparr>) = do_calc_lpt_geom c"
    unfolding do_calc_lpt_geom_def again d_def [symmetric] by (simp add: f Let_def cong: outcome.case_cong prod.case_cong)
  then show ?thesis using assms c' by simp
qed

lemma do_calc_inputs:
  assumes "do_calc_lpt_geom c = Ret c'"
  shows "uc_leb_size c' = uc_leb_size c" "uc_lpt_lebs c' = uc_lpt_lebs c" "uc_main_lebs c' = uc_main_lebs c"
    "uc_min_io_size c' = uc_min_io_size c" "uc_max_leb_cnt c' = uc_max_leb_cnt c"
proof -
  obtain x where "c' = (lpt_node_sizes (lpt_shape c))\<lparr>uc_lpt_sz := x\<rparr>" using do_calc_Ret [OF assms] by blast
  then show "uc_leb_size c' = uc_leb_size c" "uc_lpt_lebs c' = uc_lpt_lebs c" "uc_main_lebs c' = uc_main_lebs c"
    "uc_min_io_size c' = uc_min_io_size c" "uc_max_leb_cnt c' = uc_max_leb_cnt c"
    by (simp_all add: lpt_node_sizes_def lpt_shape_def Let_def)
qed

text \<open>The wasted space is at most the size it is computed for, so four times the tree is counted in an \<open>int\<close>.\<close>

lemma waste_loop_bound:
  "waste_loop leb per sz tot = Ret (s, t) \<Longrightarrow> 2 * per \<le> leb \<Longrightarrow> t + s \<le> tot + sz \<and> s \<le> leb"
proof (induction leb per sz tot rule: waste_loop.induct)
  case (1 leb per sz tot)
  show ?case
  proof (cases "sz > leb")
    case True
    have "waste_loop leb per (sz + per - leb) (tot + per) = Ret (s, t)"
      using "1.prems" True by (subst (asm) waste_loop.simps) (simp split: if_splits)
    moreover have "\<not> per \<ge> leb" using "1.prems"(2) True "1.prems"(1) by (subst (asm) waste_loop.simps) (auto split: if_splits)
    ultimately have "t + s \<le> tot + per + (sz + per - leb) \<and> s \<le> leb" using "1.IH" True "1.prems"(2) by simp
    then show ?thesis using True "1.prems"(2) by linarith
  next
    case False
    then show ?thesis using "1.prems"(1) by (subst (asm) waste_loop.simps) simp
  qed
qed

lemma nnode_levels_bound: "nnode_levels n cnt \<le> cnt + n"
proof (induction n cnt rule: nnode_levels.induct)
  case (1 n cnt)
  show ?case
  proof (cases "n > 1")
    case True
    have "nnode_levels n cnt = nnode_levels ((n + 3) div 4) (cnt + (n + 3) div 4)"
      using True by (subst nnode_levels.simps) (simp add: UBIFS_LPT_FANOUT_def Let_def add.commute)
    also have "\<dots> \<le> cnt + (n + 3) div 4 + (n + 3) div 4" using 1 True by (simp add: UBIFS_LPT_FANOUT_def add.commute)
    also have "\<dots> \<le> cnt + n" using True by linarith
    finally show ?thesis .
  qed (simp add: nnode_levels.simps)
qed

lemma do_calc_size:
  assumes "do_calc_lpt_geom c = Ret c'"
  shows "\<exists>sz tot. waste_loop (uc_leb_size c) (max (uc_pnode_sz c') (uc_nnode_sz c'))
      (uc_pnode_cnt c' * uc_pnode_sz c' + uc_nnode_cnt c' * uc_nnode_sz c' + uc_ltab_sz c' + uc_lsave_sz c' + max (uc_pnode_sz c') (uc_nnode_sz c'))
      (max (uc_pnode_sz c') (uc_nnode_sz c')) = Ret (sz, tot)
    \<and> uc_lpt_sz c' = uc_pnode_cnt c' * uc_pnode_sz c' + uc_nnode_cnt c' * uc_nnode_sz c' + uc_ltab_sz c' + uc_lsave_sz c'
        + (tot + (ALIGN sz (uc_min_io_size c) - sz))
    \<and> 27 + uc_lpt_lebs c' * uc_lpt_spc_bits c' * 2 < 2 ^ 31 \<and> 27 + uc_lnum_bits c' * uc_lsave_cnt c' < 2 ^ 31
    \<and> uc_main_lebs c' + 3 < 2 ^ 31 \<and> uc_max_leb_cnt c' + 3 < 2 ^ 31"
proof -
  define d where "d = lpt_node_sizes (lpt_shape c)"
  have f: "uc_leb_size d = uc_leb_size c" "uc_max_leb_cnt d = uc_max_leb_cnt c" "uc_main_lebs d = uc_main_lebs c" "uc_min_io_size d = uc_min_io_size c"
    by (simp_all add: d_def lpt_node_sizes_def lpt_shape_def Let_def)
  show ?thesis
    using assms unfolding do_calc_lpt_geom_def Let_def d_def [symmetric]
    by (auto simp: f add.commute split: if_splits outcome.splits prod.splits)
qed

lemma node_sizes_small:
  assumes "do_calc_lpt_geom c = Ret c" "uc_leb_size c < 2 ^ 31" "uc_lpt_lebs c < 2 ^ 31"
  shows "uc_pnode_sz c \<le> 64" "uc_nnode_sz c \<le> 64"
proof -
  note gf = geom_fields [OF assms(1)]
  have big: "uc_max_leb_cnt c < 2 ^ 31" using do_calc_size [OF assms(1)] by auto
  have f: "fls (of_nat v) \<le> 31" if "v < 2 ^ 31" for v using that by (intro fls_le) simp_all
  have b: "uc_pcnt_bits c \<le> 31" "uc_lpt_lnum_bits c \<le> 31" "uc_lpt_offs_bits c \<le> 31" "uc_space_bits c \<le> 28"
    unfolding gf using assms(2,3) big f [of "uc_leb_size c"] by (auto intro!: f)
  have "(if uc_big_lpt c then uc_pcnt_bits c else 0) \<le> 31" using b(1) by simp
  moreover have "(20 + x + (y * 2 + 1) * 4 + 7) div 8 \<le> 64" if "x \<le> 31" "y \<le> 28" for x y :: nat using that by simp
  moreover have "(20 + x + (y + z) * 4 + 7) div 8 \<le> 64" if "x \<le> 31" "y \<le> 31" "z \<le> 31" for x y z :: nat using that by simp
  ultimately show "uc_pnode_sz c \<le> 64" "uc_nnode_sz c \<le> 64" unfolding gf(10,11) using b by blast+
qed

lemma ALIGN_waste: "a = 2 ^ k \<Longrightarrow> ALIGN x a - x \<le> a"
proof -
  assume a: "a = 2 ^ k"
  have "(x + a - 1) div a * a \<le> x + a - 1" by (rule div_times_less_eq_dividend)
  then show "ALIGN x a - x \<le> a" unfolding ALIGN_eq [OF a] by linarith
qed

lemma lpt_sz_small:
  assumes "do_calc_lpt_geom c = Ret c" "15360 \<le> uc_leb_size c" "uc_leb_size c < 2 ^ 31" "uc_lpt_lebs c < 2 ^ 31"
    "uc_min_io_size c = 2 ^ k" "uc_min_io_size c \<le> uc_leb_size c"
  shows "lebs_needed c = int ((uc_lpt_sz c * 4 + (uc_leb_size c - 1)) div uc_leb_size c)"
    "uc_lpt_sz c * 4 \<le> nat (lebs_needed c) * uc_leb_size c"
proof -
  note gf = geom_fields [OF assms(1)]
  let ?per = "max (uc_pnode_sz c) (uc_nnode_sz c)"
  let ?lsz = "uc_pnode_cnt c * uc_pnode_sz c + uc_nnode_cnt c * uc_nnode_sz c + uc_ltab_sz c + uc_lsave_sz c"
  obtain sz tot where w: "waste_loop (uc_leb_size c) ?per (?lsz + ?per) ?per = Ret (sz, tot)"
    "uc_lpt_sz c = ?lsz + (tot + (ALIGN sz (uc_min_io_size c) - sz))"
    "27 + uc_lpt_lebs c * uc_lpt_spc_bits c * 2 < 2 ^ 31" "27 + uc_lnum_bits c * uc_lsave_cnt c < 2 ^ 31" "uc_main_lebs c + 3 < 2 ^ 31"
    using do_calc_size [OF assms(1)] by auto
  note small = node_sizes_small [OF assms(1,3,4)]
  have per: "2 * ?per \<le> uc_leb_size c" using small assms(2) by simp
  have "tot + sz \<le> ?per + (?lsz + ?per)" using waste_loop_bound [OF w(1) per] by simp
  moreover have "ALIGN sz (uc_min_io_size c) - sz \<le> uc_min_io_size c" by (rule ALIGN_waste [OF assms(5)])
  moreover have "?per \<le> 64" using small by simp
  moreover have "z \<le> 2 * l + 128 + 2 ^ 31" if "tot + sz \<le> p + (l + p)" "a \<le> m" "p \<le> 64" "z = l + (tot + a)" "m \<le> n" "n < 2 ^ 31"
    for z l p a m n :: nat using that by simp
  ultimately have "uc_lpt_sz c \<le> 2 * ?lsz + 128 + 2 ^ 31" using w(2) assms(3,6) by blast
  moreover have "?lsz \<le> 2 ^ 29 * 64 + 2 ^ 29 * 64 + 2 ^ 29 + 2 ^ 29"
  proof -
    have pc: "uc_pnode_cnt c \<le> 2 ^ 29" using w(5) by (simp add: gf(1))
    have "uc_nnode_cnt c \<le> (uc_pnode_cnt c + 3) div 4 + (uc_pnode_cnt c + 3) div 4" unfolding gf(2) by (rule nnode_levels_bound)
    then have nc: "uc_nnode_cnt c \<le> 2 ^ 29" using pc by simp
    have "uc_ltab_sz c \<le> 2 ^ 29" "uc_lsave_sz c \<le> 2 ^ 29" using w(3,4) by (simp_all add: gf(12,13))
    moreover have "uc_pnode_cnt c * uc_pnode_sz c \<le> 2 ^ 29 * 64" "uc_nnode_cnt c * uc_nnode_sz c \<le> 2 ^ 29 * 64"
      using mult_le_mono [OF pc small(1)] mult_le_mono [OF nc small(2)] by simp_all
    ultimately show ?thesis by linarith
  qed
  ultimately have sz: "uc_lpt_sz c * 4 \<le> 2 ^ 40" by simp
  let ?q = "(uc_lpt_sz c * 4 + (uc_leb_size c - 1)) div uc_leb_size c"
  have "?q < 2 ^ 31"
  proof (rule less_mult_imp_div_less)
    have "2 ^ 31 * 15360 \<le> 2 ^ 31 * uc_leb_size c" using assms(2) by simp
    then show "uc_lpt_sz c * 4 + (uc_leb_size c - 1) < 2 ^ 31 * uc_leb_size c" using sz assms(3) by simp
  qed
  then show q: "lebs_needed c = int ?q" by (simp add: lebs_needed_def)
  have "uc_lpt_sz c * 4 + (uc_leb_size c - 1) < ?q * uc_leb_size c + uc_leb_size c"
    using dividend_less_div_times [of "uc_leb_size c" "uc_lpt_sz c * 4 + (uc_leb_size c - 1)"] assms(2) by (simp add: add.commute)
  then show "uc_lpt_sz c * 4 \<le> nat (lebs_needed c) * uc_leb_size c" using q assms(2) by simp
qed

text \<open>A split of the LEBs between the tree and the files that the geometry was computed for.\<close>

definition split_ok :: "ubifs_info \<Rightarrow> nat \<Rightarrow> ubifs_info \<Rightarrow> bool" where
  "split_ok c main_lebs c' \<longleftrightarrow> do_calc_lpt_geom c' = Ret c' \<and> uc_main_lebs c' + uc_lpt_lebs c' = main_lebs \<and> 0 < uc_main_lebs c'
     \<and> 2 \<le> uc_lpt_lebs c' \<and> uc_lpt_lebs c' < 2 ^ 31 \<and> uc_leb_size c' = uc_leb_size c \<and> uc_min_io_size c' = uc_min_io_size c"

lemma split_okI:
  assumes "do_calc_lpt_geom (d\<lparr>uc_lpt_lebs := n, uc_main_lebs := main_lebs - n\<rparr>) = Ret c'" "n < main_lebs" "2 \<le> n" "n < 2 ^ 31"
    "uc_leb_size d = uc_leb_size c" "uc_min_io_size d = uc_min_io_size c"
  shows "split_ok c main_lebs c'"
  using do_calc_inputs [OF assms(1)] do_calc_idem [OF assms(1)] assms(2-6) by (simp add: split_ok_def)

lemma geom_loop_ok:
  assumes "geom_loop i main_lebs d = Ret c'" "split_ok c main_lebs d" "15360 \<le> uc_leb_size c" "uc_leb_size c < 2 ^ 31"
    "uc_min_io_size c = 2 ^ k" "uc_min_io_size c \<le> uc_leb_size c"
  shows "split_ok c main_lebs c' \<and> uc_ltab_sz c' \<le> uc_leb_size c' \<and> uc_lpt_sz c' * 4 \<le> uc_lpt_lebs c' * uc_leb_size c'"
  using assms(1,2)
proof (induction i arbitrary: d)
  case (Suc i)
  have d: "do_calc_lpt_geom d = Ret d" "2 \<le> uc_lpt_lebs d" "uc_lpt_lebs d < 2 ^ 31" "uc_leb_size d = uc_leb_size c" "uc_min_io_size d = uc_min_io_size c"
    using Suc.prems(2) by (simp_all add: split_ok_def)
  have small: "uc_lpt_sz d * 4 \<le> nat (lebs_needed d) * uc_leb_size d"
    by (rule lpt_sz_small [OF d(1) _ _ d(3), where k = k]) (use assms(3-6) d(4,5) in simp_all)
  show ?case
  proof (cases "lebs_needed d > int (uc_lpt_lebs d)")
    case True
    let ?n = "nat (lebs_needed d)"
    obtain c1 where c1: "do_calc_lpt_geom (d\<lparr>uc_lpt_lebs := ?n, uc_main_lebs := main_lebs - ?n\<rparr>) = Ret c1" "geom_loop i main_lebs c1 = Ret c'"
        "?n < main_lebs"
      using Suc.prems(1) True by (auto simp: Let_def split: if_splits outcome.splits)
    have "lebs_needed d < 2 ^ 31" by (simp add: lebs_needed_def to_int32_def)
    then have n: "?n < 2 ^ 31" "2 \<le> ?n" using True d(2) by (simp_all add: nat_less_iff)
    have "split_ok c main_lebs c1" by (rule split_okI [OF c1(1,3) n(2,1) d(4,5)])
    then show ?thesis using Suc.IH c1(2) by blast
  next
    case False
    then have c': "c' = d" "uc_ltab_sz d \<le> uc_leb_size d" using Suc.prems(1) by (auto simp: Let_def split: if_splits)
    have "nat (lebs_needed d) * uc_leb_size d \<le> uc_lpt_lebs d * uc_leb_size d" using False by (intro mult_le_mono1) simp
    with small have "uc_lpt_sz d * 4 \<le> uc_lpt_lebs d * uc_leb_size d" by (rule order_trans)
    then show ?thesis using Suc.prems(2) c' by simp
  qed
qed simp

lemma calc_dflt_ok:
  assumes "calc_dflt_lpt_geom c main_lebs = Ret c'" "15360 \<le> uc_leb_size c" "uc_leb_size c < 2 ^ 31"
    "uc_min_io_size c = 2 ^ k" "uc_min_io_size c \<le> uc_leb_size c"
  shows "split_ok c main_lebs c' \<and> uc_ltab_sz c' \<le> uc_leb_size c' \<and> uc_lpt_sz c' * 4 \<le> uc_lpt_lebs c' * uc_leb_size c'"
proof -
  let ?c0 = "c\<lparr>uc_big_lpt := False\<rparr>"
  have upd: "c\<lparr>uc_lpt_lebs := n, uc_main_lebs := m, uc_big_lpt := False\<rparr> = ?c0\<lparr>uc_lpt_lebs := n, uc_main_lebs := m\<rparr>" for n m by simp
  obtain c1 c2 where c1: "do_calc_lpt_geom (?c0\<lparr>uc_lpt_lebs := 2, uc_main_lebs := main_lebs - 2\<rparr>) = Ret c1" "2 < main_lebs"
    and c2: "(if uc_lpt_sz c1 > uc_leb_size c1 then do_calc_lpt_geom (c1\<lparr>uc_big_lpt := True\<rparr>) else Ret c1) = Ret c2"
    and loop: "geom_loop 64 main_lebs c2 = Ret c'"
    using assms(1) unfolding calc_dflt_lpt_geom_def UBIFS_MIN_LPT_LEBS_def upd by (auto split: if_splits outcome.splits)
  have s1: "split_ok c main_lebs c1" by (rule split_okI [OF c1]) simp_all
  have "split_ok c main_lebs c2"
  proof (cases "uc_lpt_sz c1 > uc_leb_size c1")
    case True
    then have r: "do_calc_lpt_geom (c1\<lparr>uc_big_lpt := True\<rparr>) = Ret c2" using c2 by simp
    show ?thesis using s1 do_calc_inputs [OF r] do_calc_idem [OF r] by (simp add: split_ok_def)
  qed (use c2 s1 in simp)
  then show ?thesis by (rule geom_loop_ok [OF loop _ assms(2-5)])
qed

section \<open>Properties\<close>

text \<open>C38. The default geometry is consistent: when \<open>calc_dflt_lpt_geom\<close> succeeds for LEBs of at least 15 KiB, the tree and
  the files share all LEBs, the tree has at least two and the files at least one, the sizes in the description are
  those of a further computation with these numbers, the table of the tree's LEBs fits into one LEB, and four times
  the tree fits into the LEBs of the tree, also where the code stores the number of needed LEBs in an \<open>int\<close>.\<close>

theorem calc_dflt_lpt_geom_fits:
  assumes "calc_dflt_lpt_geom c main_lebs = Ret c'" "15360 \<le> uc_leb_size c" "uc_leb_size c < 2 ^ 31"
    "uc_min_io_size c = 2 ^ k" "uc_min_io_size c \<le> uc_leb_size c"
  shows "do_calc_lpt_geom c' = Ret c' \<and> uc_main_lebs c' + uc_lpt_lebs c' = main_lebs \<and> 0 < uc_main_lebs c' \<and> 2 \<le> uc_lpt_lebs c'
    \<and> uc_ltab_sz c' \<le> uc_leb_size c' \<and> uc_lpt_sz c' * 4 \<le> uc_lpt_lebs c' * uc_leb_size c'"
  using calc_dflt_ok [OF assms] unfolding split_ok_def by blast

text \<open>A small file system: LEBs of 16 KiB, two for the tree and six for files.\<close>

definition small_fs :: ubifs_info where
  "small_fs = \<lparr>uc_min_io_size = 2048, uc_leb_size = 16384, uc_max_leb_cnt = 40, uc_lpt_lebs = 2, uc_lpt_first = 7,
     uc_lpt_last = 8, uc_main_lebs = 6, uc_main_first = 10, uc_space_bits = 12, uc_lpt_lnum_bits = 2,
     uc_lpt_offs_bits = 14, uc_lpt_spc_bits = 15, uc_pcnt_bits = 4, uc_lnum_bits = 6, uc_nnode_sz = 11,
     uc_pnode_sz = 15, uc_ltab_sz = 10, uc_lsave_sz = 3, uc_pnode_cnt = 2, uc_nnode_cnt = 1, uc_lpt_hght = 1,
     uc_lpt_lnum = 0, uc_lpt_offs = 0, uc_nhead_lnum = 0, uc_nhead_offs = 0, uc_big_lpt = False, uc_lpt_sz = 2048,
     uc_ltab_lnum = 0, uc_ltab_offs = 0,
     uc_lpt = replicate 5 \<lparr>lp_free = 2048, lp_dirty = 512, lp_flags = 0\<rparr> @ [\<lparr>lp_free = 4096, lp_dirty = 0, lp_flags = 32\<rparr>],
     uc_ltab = replicate 2 \<lparr>lt_free = 16384, lt_dirty = 0\<rparr>, uc_lsave_cnt = 0, uc_lsave_lnum = 0,
     uc_lsave_offs = 0, uc_lscan_lnum = 0\<rparr>"

lemma small_fs_fls:
  "fls 16384 = 15" "fls 2 = 2" "fls 16383 = 14" "fls 9 = 4" "fls 39 = 6"
  by code_simp+

lemma small_fs_shape: "lpt_shape small_fs = small_fs"
proof -
  have "nnode_levels (Suc 0) (Suc 0) = 1" by (simp add: nnode_levels.simps)
  moreover have "height_loop 2 4 (Suc 0) = 1" by (simp add: height_loop.simps)
  ultimately show ?thesis by (simp add: lpt_shape_def small_fs_def lpt_consts Let_def small_fs_fls)
qed

lemma small_fs_sizes: "lpt_node_sizes small_fs = small_fs"
  by (simp add: lpt_node_sizes_def small_fs_def lpt_consts Let_def)

lemma small_fs_geom: "do_calc_lpt_geom small_fs = Ret small_fs"
proof -
  have "waste_loop 16384 15 69 15 = Ret (69, 15)" by (simp add: waste_loop.simps)
  moreover have "ALIGN 69 2048 = 2048" using ALIGN_eq [of 2048 11 69] by simp
  ultimately show ?thesis
    unfolding do_calc_lpt_geom_def small_fs_shape small_fs_sizes Let_def by (simp add: small_fs_def)
qed

lemma small_fs_calc: "calc_dflt_lpt_geom small_fs 8 = Ret small_fs"
proof -
  have "small_fs\<lparr>uc_lpt_lebs := 2, uc_main_lebs := 6, uc_big_lpt := False\<rparr> = small_fs" by (simp add: small_fs_def)
  moreover have "lebs_needed small_fs = 1" by (simp add: lebs_needed_def small_fs_def)
  moreover have "uc_lpt_sz small_fs = 2048" "uc_leb_size small_fs = 16384" "uc_lpt_lebs small_fs = 2" "uc_ltab_sz small_fs = 10"
    by (simp_all add: small_fs_def)
  moreover have "geom_loop (Suc i) 8 small_fs = Ret small_fs" for i
    using calculation by (simp add: Let_def)
  then have "geom_loop 64 8 small_fs = Ret small_fs" by (metis Suc_numeral Suc_eq_plus1 add_One_commute numeral_eq_Suc)
  ultimately show ?thesis
    by (simp add: calc_dflt_lpt_geom_def UBIFS_MIN_LPT_LEBS_def small_fs_geom)
qed

theorem calc_dflt_lpt_geom_fits_witness:
  "calc_dflt_lpt_geom small_fs 8 = Ret small_fs \<and> uc_main_lebs small_fs + uc_lpt_lebs small_fs = 8
     \<and> uc_lpt_sz small_fs * 4 \<le> uc_lpt_lebs small_fs * uc_leb_size small_fs"
  using calc_dflt_lpt_geom_fits [OF small_fs_calc, of 11] small_fs_calc by (simp add: small_fs_def)

end
