(* ===== verification/Lpt.thy ===== *)
theory Lpt
  imports LptGeom
begin

text \<open>
  The creation of the LEB properties tree of UBIFS (\<open>mkfs.ubifs/lpt.c\<close>): the properties of all main LEBs are packed
  into leaf nodes, the inner nodes are written level by level above them, and the save table and the table of the
  tree's own LEBs follow. The writing of a LEB (\<open>write_leb\<close>) is modelled by the map of written LEBs and by an
  argument that tells which writes succeed.
\<close>

section \<open>Creation\<close>

record lpt_out =
  lo_c :: ubifs_info
  lo_buf :: bytes
  lo_len :: nat
  lo_lnum :: nat
  lo_lebs :: "nat \<rightharpoonup> bytes"

definition set_ltab :: "nat \<Rightarrow> nat \<Rightarrow> nat \<Rightarrow> ubifs_info \<Rightarrow> (lpt_error, ubifs_info) outcome" where
  "set_ltab lnum free dirty c =
     (if lnum < uc_lpt_first c \<or> lnum - uc_lpt_first c \<ge> length (uc_ltab c) then Undef
      else Ret (c\<lparr>uc_ltab := (uc_ltab c)[lnum - uc_lpt_first c := \<lparr>lt_free = free, lt_dirty = dirty\<rparr>]\<rparr>))"

text \<open>The rest of the LEB is filled with \<open>0xFF\<close> before it is written.\<close>

definition write_leb :: "(nat \<Rightarrow> bool) \<Rightarrow> nat \<Rightarrow> nat \<Rightarrow> lpt_out \<Rightarrow> (lpt_error, lpt_out) outcome" where
  "write_leb wr lnum len st =
     (let buf = overwrite len (memset 0xFF (uc_leb_size (lo_c st) - len)) (lo_buf st) in
      if wr lnum then Ret (st\<lparr>lo_buf := buf, lo_lebs := (lo_lebs st)(lnum \<mapsto> buf)\<rparr>) else Err Write_error)"

text \<open>The block in front of every node: when it does not fit, the LEB is closed and written.\<close>

definition need_space :: "(nat \<Rightarrow> bool) \<Rightarrow> nat \<Rightarrow> lpt_out \<Rightarrow> (lpt_error, lpt_out) outcome" where
  "need_space wr sz st =
     (let c = lo_c st; len = lo_len st in
      if len + sz > uc_leb_size c then
        (let alen = ALIGN len (uc_min_io_size c) in
         if alen < len \<or> alen > uc_leb_size c then Undef
         else case set_ltab (lo_lnum st) (uc_leb_size c - alen) (alen - len) c of
             Ret c \<Rightarrow>
               (case write_leb wr (lo_lnum st) alen
                       (st\<lparr>lo_c := c, lo_buf := overwrite len (memset 0xFF (alen - len)) (lo_buf st)\<rparr>) of
                  Ret st \<Rightarrow> Ret (st\<lparr>lo_lnum := lo_lnum st + 1, lo_len := 0\<rparr>) | Err e \<Rightarrow> Err e | Undef \<Rightarrow> Undef)
           | Err e \<Rightarrow> Err e | Undef \<Rightarrow> Undef)
      else Ret st)"

text \<open>The packed node becomes part of the buffer.\<close>

definition put_node :: "nat \<Rightarrow> (unit, bytes) outcome \<Rightarrow> lpt_out \<Rightarrow> (lpt_error, lpt_out) outcome" where
  "put_node sz packed st =
     (case packed of Ret buf \<Rightarrow> Ret (st\<lparr>lo_buf := buf, lo_len := lo_len st + sz\<rparr>) | _ \<Rightarrow> Undef)"

definition pnode_of :: "ubifs_info \<Rightarrow> nat \<Rightarrow> ubifs_pnode" where
  "pnode_of c i =
     \<lparr>pn_num = i,
      pn_lprops = map (\<lambda>j. let k = push_bit UBIFS_LPT_FANOUT_SHIFT i + j in
        if k < uc_main_lebs c then uc_lpt c ! k else \<lparr>lp_free = uc_leb_size c, lp_dirty = 0, lp_flags = 0\<rparr>) [0..<UBIFS_LPT_FANOUT]\<rparr>"

definition add_pnode :: "(nat \<Rightarrow> bool) \<Rightarrow> nat \<Rightarrow> lpt_out \<Rightarrow> (lpt_error, lpt_out) outcome" where
  "add_pnode wr i st =
     (case need_space wr (uc_pnode_sz (lo_c st)) st of
        Ret st \<Rightarrow> put_node (uc_pnode_sz (lo_c st)) (pack_pnode (lo_c st) (lo_len st) (pnode_of (lo_c st) i) (lo_buf st)) st
      | Err e \<Rightarrow> Err e | Undef \<Rightarrow> Undef)"

fun add_pnodes :: "(nat \<Rightarrow> bool) \<Rightarrow> nat list \<Rightarrow> lpt_out \<Rightarrow> (lpt_error, lpt_out) outcome" where
  "add_pnodes wr [] st = Ret st"
| "add_pnodes wr (i # is) st =
     (case add_pnode wr i st of Ret st' \<Rightarrow> add_pnodes wr is st' | Err e \<Rightarrow> Err e | Undef \<Rightarrow> Undef)"

definition calc_nnode_num :: "nat \<Rightarrow> nat \<Rightarrow> nat" where
  "calc_nnode_num row col =
     fst (((\<lambda>(num, col). (push_bit UBIFS_LPT_FANOUT_SHIFT num OR (col AND (UBIFS_LPT_FANOUT - 1)), drop_bit UBIFS_LPT_FANOUT_SHIFT col)) ^^ row) (1, col))"

text \<open>Where the nodes of the level below are: the next one, the size of each, and how many are left.\<close>

record branch_state =
  br_lnum :: nat
  br_offs :: nat
  br_sz :: nat
  br_cnt :: nat

definition next_branch :: "nat \<Rightarrow> branch_state \<Rightarrow> ubifs_nbranch \<times> branch_state" where
  "next_branch leb_size b =
     (if br_cnt b \<noteq> 0 then
        (let b = (if br_offs b + br_sz b > leb_size then b\<lparr>br_lnum := br_lnum b + 1, br_offs := 0\<rparr> else b)
         in (\<lparr>nb_lnum = br_lnum b, nb_offs = br_offs b\<rparr>, b\<lparr>br_offs := br_offs b + br_sz b, br_cnt := br_cnt b - 1\<rparr>))
      else (\<lparr>nb_lnum = 0, nb_offs = 0\<rparr>, b))"

fun next_branches :: "nat \<Rightarrow> nat \<Rightarrow> branch_state \<Rightarrow> ubifs_nbranch list \<times> branch_state" where
  "next_branches 0 leb_size b = ([], b)"
| "next_branches (Suc n) leb_size b =
     (let (x, b) = next_branch leb_size b; (xs, b) = next_branches n leb_size b in (x # xs, b))"

definition add_nnode :: "(nat \<Rightarrow> bool) \<Rightarrow> nat \<Rightarrow> nat \<Rightarrow> branch_state \<Rightarrow> lpt_out \<Rightarrow> (lpt_error, branch_state \<times> lpt_out) outcome" where
  "add_nnode wr row i b st =
     (case need_space wr (uc_nnode_sz (lo_c st)) st of
        Ret st \<Rightarrow>
          (let st = (if row = 0 then st\<lparr>lo_c := (lo_c st)\<lparr>uc_lpt_lnum := lo_lnum st, uc_lpt_offs := lo_len st\<rparr>\<rparr> else st);
               c = lo_c st;
               (brs, b) = next_branches UBIFS_LPT_FANOUT (uc_leb_size c) b
           in case put_node (uc_nnode_sz c) (pack_nnode c (lo_len st) \<lparr>nn_num = calc_nnode_num row i, nn_nbranch = brs\<rparr> (lo_buf st)) st of
                Ret st \<Rightarrow> Ret (b, st) | Err e \<Rightarrow> Err e | Undef \<Rightarrow> Undef)
      | Err e \<Rightarrow> Err e | Undef \<Rightarrow> Undef)"

fun add_nnodes :: "(nat \<Rightarrow> bool) \<Rightarrow> nat \<Rightarrow> nat list \<Rightarrow> branch_state \<Rightarrow> lpt_out \<Rightarrow> (lpt_error, branch_state \<times> lpt_out) outcome" where
  "add_nnodes wr row [] b st = Ret (b, st)"
| "add_nnodes wr row (i # is) b st =
     (case add_nnode wr row i b st of Ret (b', st') \<Rightarrow> add_nnodes wr row is b' st' | Err e \<Rightarrow> Err e | Undef \<Rightarrow> Undef)"

definition level_cnt :: "nat \<Rightarrow> nat" where
  "level_cnt cnt = (let cnt = (cnt + UBIFS_LPT_FANOUT - 1) div UBIFS_LPT_FANOUT in if cnt = 0 then 1 else cnt)"

fun add_levels :: "(nat \<Rightarrow> bool) \<Rightarrow> nat \<Rightarrow> nat \<Rightarrow> branch_state \<Rightarrow> lpt_out \<Rightarrow> (lpt_error, lpt_out) outcome" where
  "add_levels wr row cnt b st =
     (let cnt = level_cnt cnt in
      case add_nnodes wr row [0..<cnt] b st of
        Ret (b, st) \<Rightarrow>
          (case row of 0 \<Rightarrow> Ret st
           | Suc row \<Rightarrow> add_levels wr row cnt (b\<lparr>br_cnt := cnt, br_sz := uc_nnode_sz (lo_c st)\<rparr>) st)
      | Err e \<Rightarrow> Err e | Undef \<Rightarrow> Undef)"

declare add_levels.simps [simp del]

definition add_lsave :: "(nat \<Rightarrow> bool) \<Rightarrow> lpt_out \<Rightarrow> (lpt_error, lpt_out) outcome" where
  "add_lsave wr st =
     (if uc_big_lpt (lo_c st) then
        (case need_space wr (uc_lsave_sz (lo_c st)) st of
           Ret st \<Rightarrow>
             (let st = st\<lparr>lo_c := (lo_c st)\<lparr>uc_lsave_lnum := lo_lnum st, uc_lsave_offs := lo_len st\<rparr>\<rparr>; c = lo_c st;
                  lsave = map (\<lambda>i. uc_main_first c + i) [0..<uc_lsave_cnt c]
              in put_node (uc_lsave_sz c) (pack_lsave c (lo_len st) lsave (lo_buf st)) st)
         | Err e \<Rightarrow> Err e | Undef \<Rightarrow> Undef)
      else Ret st)"

definition add_ltab :: "(nat \<Rightarrow> bool) \<Rightarrow> lpt_out \<Rightarrow> (lpt_error, lpt_out) outcome" where
  "add_ltab wr st =
     (case need_space wr (uc_ltab_sz (lo_c st)) st of
        Ret st \<Rightarrow>
          (let c = (lo_c st)\<lparr>uc_ltab_lnum := lo_lnum st, uc_ltab_offs := lo_len st\<rparr>;
               len = lo_len st + uc_ltab_sz c;
               alen = ALIGN len (uc_min_io_size c)
           in if alen < len \<or> alen > uc_leb_size c then Undef
              else case set_ltab (lo_lnum st) (uc_leb_size c - alen) (alen - len) c of
                  Ret c \<Rightarrow>
                    (case put_node (uc_ltab_sz c) (pack_ltab c (lo_len st) (uc_ltab c) (lo_buf st)) (st\<lparr>lo_c := c\<rparr>) of
                       Ret st \<Rightarrow>
                         (case write_leb wr (lo_lnum st) alen (st\<lparr>lo_buf := overwrite len (memset 0xFF (alen - len)) (lo_buf st)\<rparr>) of
                            Ret st \<Rightarrow> Ret (st\<lparr>lo_c := (lo_c st)\<lparr>uc_nhead_lnum := lo_lnum st, uc_nhead_offs := alen\<rparr>\<rparr>)
                          | Err e \<Rightarrow> Err e | Undef \<Rightarrow> Undef)
                     | Err e \<Rightarrow> Err e | Undef \<Rightarrow> Undef)
                | Err e \<Rightarrow> Err e | Undef \<Rightarrow> Undef)
      | Err e \<Rightarrow> Err e | Undef \<Rightarrow> Undef)"

text \<open>\<open>junk\<close> is what the allocated buffer holds.\<close>

definition create_lpt :: "(nat \<Rightarrow> bool) \<Rightarrow> bytes \<Rightarrow> ubifs_info \<Rightarrow> (lpt_error, lpt_out) outcome" where
  "create_lpt wr junk c =
     (let c = c\<lparr>uc_lscan_lnum := uc_main_first c\<rparr>;
          cnt = drop_bit UBIFS_LPT_FANOUT_SHIFT (uc_main_lebs c + UBIFS_LPT_FANOUT - 1);
          st = \<lparr>lo_c = c, lo_buf = junk, lo_len = 0, lo_lnum = uc_lpt_first c, lo_lebs = Map.empty\<rparr>;
          b = \<lparr>br_lnum = uc_lpt_first c, br_offs = 0, br_sz = uc_pnode_sz c, br_cnt = cnt\<rparr>
      in if length (uc_lpt c) < uc_main_lebs c then Undef
         else case add_pnodes wr [0..<cnt] st of
           Ret st \<Rightarrow>
             (case add_levels wr (uc_lpt_hght c - 1) cnt b st of
                Ret st \<Rightarrow>
                  (case add_lsave wr st of Ret st \<Rightarrow> add_ltab wr st | Err e \<Rightarrow> Err e | Undef \<Rightarrow> Undef)
              | Err e \<Rightarrow> Err e | Undef \<Rightarrow> Undef)
         | Err e \<Rightarrow> Err e | Undef \<Rightarrow> Undef)"

lemma calc_nnode_num_bounds: "4 ^ row \<le> calc_nnode_num row col \<and> calc_nnode_num row col < 2 * 4 ^ row"
proof -
  let ?f = "\<lambda>(num, col). (push_bit UBIFS_LPT_FANOUT_SHIFT num OR (col AND (UBIFS_LPT_FANOUT - 1)), drop_bit UBIFS_LPT_FANOUT_SHIFT col) :: nat \<times> nat"
  have step: "push_bit 2 num OR (c AND 3) = 4 * num + c mod 4" for num c :: nat
  proof -
    have m: "c AND 3 = take_bit 2 c" using take_bit_eq_mask [of 2 c] by (simp add: mask_eq_exp_minus_1)
    have "push_bit 2 num AND take_bit 2 c = 0" by (rule bit_eqI) (auto simp: bit_simps)
    then have "push_bit 2 num OR take_bit 2 c = push_bit 2 num + take_bit 2 c" by (rule disjunctive_add_eq_or [symmetric])
    then show ?thesis unfolding m by (simp add: push_bit_eq_mult take_bit_eq_mod mult.commute)
  qed
  have "4 ^ row \<le> fst ((?f ^^ row) (1, col)) \<and> fst ((?f ^^ row) (1, col)) < 2 * 4 ^ row"
  proof (induction row)
    case (Suc row)
    obtain num c where nc: "(?f ^^ row) (1, col) = (num, c)" by (rule prod.exhaust)
    have "fst ((?f ^^ Suc row) (1, col)) = 4 * num + c mod 4"
      unfolding funpow.simps o_apply nc by (simp add: step lpt_consts)
    moreover have "c mod 4 < 4" by simp
    moreover have "4 ^ row \<le> num" "num < 2 * 4 ^ row" using Suc nc by simp_all
    ultimately show ?case by simp
  qed simp
  then show ?thesis by (simp only: calc_nnode_num_def)
qed

text \<open>The fields of every node fit their widths, and the node sizes are those of the geometry.\<close>

definition lp_ok :: "ubifs_info \<Rightarrow> ubifs_lprops \<Rightarrow> bool" where
  "lp_ok c lp \<longleftrightarrow> lp_free lp \<le> uc_leb_size c \<and> lp_dirty lp \<le> uc_leb_size c"

lemma fits_bit1: "fits (if b then 1 else 0, Suc 0)"
  by (simp add: fits_def)

lemma fits_type: "fits (0, 4)" "fits (1, 4)" "fits (2, 4)" "fits (3, 4)"
  by (simp_all add: fits_def)

lemma lprops_fields_fit:
  assumes "lpt_ok c" "lp_ok c lp"
  shows "list_all fits (lprops_fields c lp)" "map (unat \<circ> fst) (lprops_fields c lp) =
    [lp_free lp div 8, lp_dirty lp div 8, if lp_flags lp AND LPROPS_INDEX \<noteq> 0 then 1 else 0]"
proof -
  note sb = space_bits_bounds [OF assms(1)]
  have "fits (of_nat (lp_free lp div 8), uc_space_bits c)" "fits (of_nat (lp_dirty lp div 8), uc_space_bits c)"
    using sb assms(2) by (intro fits_of_nat(1); simp add: lp_ok_def)+
  then show "list_all fits (lprops_fields c lp)" by (simp add: lprops_fields_def drop_bit_eq_div fits_bit1)
  have "unat (of_nat (lp_free lp div 8) :: u32) = lp_free lp div 8" "unat (of_nat (lp_dirty lp div 8) :: u32) = lp_dirty lp div 8"
    using sb(2) sb(3) assms(2) by (intro fits_of_nat(2) [of _ "uc_space_bits c"]; simp add: lp_ok_def)+
  then show "map (unat \<circ> fst) (lprops_fields c lp) =
    [lp_free lp div 8, lp_dirty lp div 8, if lp_flags lp AND LPROPS_INDEX \<noteq> 0 then 1 else 0]"
    by (simp add: lprops_fields_def drop_bit_eq_div)
qed

lemma pnode_of_ok:
  assumes "lpt_ok c"
  shows "length (pn_lprops (pnode_of c i)) = 4" "list_all (lp_ok c) (pn_lprops (pnode_of c i))" "pn_num (pnode_of c i) = i"
proof -
  note ok = lpt_okD [OF assms]
  show "length (pn_lprops (pnode_of c i)) = 4" "pn_num (pnode_of c i) = i" by (simp_all add: pnode_of_def lpt_consts)
  have "lp_ok c (uc_lpt c ! k)" if "k < uc_main_lebs c" for k
    using ok(16,18) that by (auto simp: list_all_length lp_ok_def)
  then show "list_all (lp_ok c) (pn_lprops (pnode_of c i))"
    by (auto simp: pnode_of_def list_all_iff Let_def lp_ok_def)
qed

lemma pnode_fields_fit:
  assumes "lpt_ok c" "i < uc_pnode_cnt c"
  shows "list_all fits (pnode_fields c (pnode_of c i))" "node_size (pnode_fields c (pnode_of c i)) = uc_pnode_sz c"
proof -
  note ok = lpt_okD [OF assms(1)]
  note po = pnode_of_ok [OF assms(1)]
  have "list_all fits (concat (map (lprops_fields c) lps))" if "list_all (lp_ok c) lps" for lps
    using that by (induction lps) (simp_all add: lprops_fields_fit(1) [OF assms(1)])
  moreover have "uc_big_lpt c \<longrightarrow> fits (of_nat i, uc_pcnt_bits c)"
    using num_bits_bounds(1-3) [OF assms(1)] assms(2) by (auto intro: fits_of_nat)
  ultimately show "list_all fits (pnode_fields c (pnode_of c i))"
    using po by (simp add: pnode_fields_def lpt_consts fits_type)
  obtain a b d e where l: "pn_lprops (pnode_of c i) = [a, b, d, e]" using po(1) [of i] by (auto simp: length_Suc_conv numeral_eq_Suc)
  show "node_size (pnode_fields c (pnode_of c i)) = uc_pnode_sz c"
    by (simp add: node_size_def pnode_fields_def l lprops_fields_def lpt_consts geom_fields(10) [OF ok(1)] algebra_simps)
qed

definition branch_ok :: "ubifs_info \<Rightarrow> ubifs_nbranch \<Rightarrow> bool" where
  "branch_ok c br \<longleftrightarrow> nb_offs br < uc_leb_size c \<and>
     (nb_lnum br = 0 \<or> uc_lpt_first c \<le> nb_lnum br \<and> nb_lnum br \<le> uc_lpt_last c)"

text \<open>The value of a branch on flash: the number of the LEB relative to the first of the tree, one behind the last for
  a missing child, and the offset.\<close>

definition branch_value :: "ubifs_info \<Rightarrow> ubifs_nbranch \<Rightarrow> nat list" where
  "branch_value c br = [if nb_lnum br = 0 then uc_lpt_lebs c else nb_lnum br - uc_lpt_first c, nb_offs br]"

lemma nbranch_fields_fit:
  assumes "lpt_ok c" "branch_ok c br"
  shows "list_all fits (nbranch_fields c br)" "map (unat \<circ> fst) (nbranch_fields c br) = branch_value c br"
proof -
  note ok = lpt_okD [OF assms(1)]
  note gf = geom_fields [OF ok(1)]
  let ?lnum = "if nb_lnum br = 0 then uc_lpt_last c + 1 else nb_lnum br"
  let ?v = "if nb_lnum br = 0 then uc_lpt_lebs c else nb_lnum br - uc_lpt_first c"
  have le: "uc_lpt_first c \<le> ?lnum" and eq: "?lnum - uc_lpt_first c = ?v"
    using assms(2) ok(9,14) by (auto simp: branch_ok_def)
  have w: "(of_nat ?lnum - of_nat (uc_lpt_first c) :: u32) = of_nat ?v"
    by (rule trans [OF of_nat_diff [OF le, symmetric] arg_cong [OF eq, of of_nat]])
  have v: "?v \<le> uc_lpt_lebs c" using assms(2) ok(14) by (auto simp: branch_ok_def)
  have o: "nb_offs br \<le> uc_leb_size c - 1" using assms(2) by (auto simp: branch_ok_def)
  have f: "fits (of_nat ?v, uc_lpt_lnum_bits c)" "fits (of_nat (nb_offs br), uc_lpt_offs_bits c)"
    unfolding gf using v o ok(2,3,9,10) by (intro fits_fls; simp)+
  then show "list_all fits (nbranch_fields c br)" unfolding nbranch_fields_def Let_def w by simp
  have "unat (of_nat ?v :: u32) = ?v" "unat (of_nat (nb_offs br) :: u32) = nb_offs br"
    using v o ok(3,10) by (intro fits_of_nat(2) [of _ 32]; simp)+
  then show "map (unat \<circ> fst) (nbranch_fields c br) = branch_value c br"
    unfolding nbranch_fields_def Let_def w branch_value_def by simp
qed

lemma nnode_fields_fit:
  fixes row i :: nat and brs :: "ubifs_nbranch list"
  assumes "lpt_ok c" "row < uc_lpt_hght c" "length brs = 4" "list_all (branch_ok c) brs"
  defines "nn \<equiv> \<lparr>nn_num = calc_nnode_num row i, nn_nbranch = brs\<rparr>"
  shows "list_all fits (nnode_fields c nn)" "node_size (nnode_fields c nn) = uc_nnode_sz c"
proof -
  note ok = lpt_okD [OF assms(1)]
  have "list_all fits (concat (map (nbranch_fields c) bs))" if "list_all (branch_ok c) bs" for bs
    using that by (induction bs) (simp_all add: nbranch_fields_fit(1) [OF assms(1)])
  moreover have "uc_big_lpt c \<longrightarrow> fits (of_nat (calc_nnode_num row i), uc_pcnt_bits c)"
    using num_bits_bounds(1,2,4) [OF assms(1)] calc_nnode_num_bounds assms(2) by (auto intro!: fits_of_nat)
  ultimately show "list_all fits (nnode_fields c nn)"
    using assms(4) by (simp add: nnode_fields_def nn_def lpt_consts fits_type)
  obtain a b d e where l: "brs = [a, b, d, e]" using assms(3) by (auto simp: length_Suc_conv numeral_eq_Suc)
  show "node_size (nnode_fields c nn) = uc_nnode_sz c"
    by (simp add: node_size_def nnode_fields_def nn_def l nbranch_fields_def Let_def lpt_consts geom_fields(11) [OF ok(1)] algebra_simps)
qed

lemma ltab_fields_fit:
  assumes "lpt_ok c" "length ltab = uc_lpt_lebs c" "list_all (\<lambda>lt. lt_free lt \<le> uc_leb_size c \<and> lt_dirty lt \<le> uc_leb_size c) ltab"
  shows "list_all fits (ltab_fields c ltab)" "node_size (ltab_fields c ltab) = uc_ltab_sz c"
proof -
  note ok = lpt_okD [OF assms(1)]
  note gf = geom_fields [OF ok(1)]
  have f: "fits (of_nat v, uc_lpt_spc_bits c)" if "v \<le> uc_leb_size c" for v
    unfolding gf using that ok(2,3) by (intro fits_fls) simp_all
  have "list_all fits (concat (map (\<lambda>lt. [(of_nat (lt_free lt), uc_lpt_spc_bits c), (of_nat (lt_dirty lt), uc_lpt_spc_bits c)]) lts))"
    if "list_all (\<lambda>lt. lt_free lt \<le> uc_leb_size c \<and> lt_dirty lt \<le> uc_leb_size c) lts" for lts
    using that by (induction lts) (simp_all add: f)
  then show "list_all fits (ltab_fields c ltab)" using assms(2,3) by (simp add: ltab_fields_def lpt_consts fits_type)
  have "sum_list (map snd (concat (map (\<lambda>lt. [(of_nat (lt_free lt) :: u32, w), (of_nat (lt_dirty lt), w)]) lts))) = length lts * w * 2"
    for lts :: "ubifs_lpt_lprops list" and w :: nat
    by (induction lts) (simp_all add: algebra_simps)
  then show "node_size (ltab_fields c ltab) = uc_ltab_sz c"
    using assms(2) by (simp add: node_size_def ltab_fields_def lpt_consts gf(12))
qed

lemma lsave_fields_fit:
  assumes "lpt_ok c" "uc_big_lpt c"
  defines "ls \<equiv> map (\<lambda>i. uc_main_first c + i) [0..<uc_lsave_cnt c]"
  shows "list_all fits (lsave_fields c ls)" "node_size (lsave_fields c ls) = uc_lsave_sz c" "uc_lsave_sz c \<le> uc_leb_size c"
proof -
  note ok = lpt_okD [OF assms(1)]
  note gf = geom_fields [OF ok(1)]
  have big: "1 < uc_max_leb_cnt c" "uc_lsave_cnt c \<le> 256" "uc_main_first c + uc_lsave_cnt c \<le> uc_max_leb_cnt c"
    using ok(20) assms(2) by simp_all
  have f: "fits (of_nat (uc_main_first c + i), uc_lnum_bits c)" if "i < uc_lsave_cnt c" for i
    unfolding gf using that big ok(8) by (intro fits_fls) simp_all
  then have "list_all (\<lambda>l. fits (of_nat l, uc_lnum_bits c)) ls" by (simp add: ls_def list_all_length)
  moreover have "list_all P (map (\<lambda>l. (g l, w)) xs) \<longleftrightarrow> list_all (\<lambda>l. P (g l, w)) xs" 
    for P and g :: "nat \<Rightarrow> u32" and w :: nat and xs :: "nat list"
    by (induction xs) simp_all
  moreover have "take (uc_lsave_cnt c) ls = ls" by (simp add: ls_def)
  ultimately show "list_all fits (lsave_fields c ls)"
    by (simp add: lsave_fields_def lpt_consts fits_type)
  show "node_size (lsave_fields c ls) = uc_lsave_sz c"
    by (simp add: node_size_def lsave_fields_def lpt_consts gf(13) ls_def o_def sum_list_triv mult.commute)
  have "uc_lnum_bits c \<le> 32" unfolding gf using ok(8) by (intro fls_bounds(1)) simp
  then have "uc_lnum_bits c * uc_lsave_cnt c \<le> 32 * 256" using big(2) by (rule mult_le_mono)
  then show "uc_lsave_sz c \<le> uc_leb_size c" using ok(2) by (simp add: gf(13))
qed

section \<open>Where the nodes are\<close>

text \<open>The description without the fields that the creation sets.\<close>

definition geo :: "ubifs_info \<Rightarrow> ubifs_info" where
  "geo c = c\<lparr>uc_ltab := [], uc_lpt_lnum := 0, uc_lpt_offs := 0, uc_lsave_lnum := 0, uc_lsave_offs := 0,
     uc_ltab_lnum := 0, uc_ltab_offs := 0, uc_nhead_lnum := 0, uc_nhead_offs := 0, uc_lscan_lnum := 0\<rparr>"

lemma geo_fields:
  assumes "geo d = geo c"
  shows "uc_leb_size d = uc_leb_size c" "uc_min_io_size d = uc_min_io_size c" "uc_lpt_first d = uc_lpt_first c"
    "uc_lpt_lebs d = uc_lpt_lebs c" "uc_pnode_sz d = uc_pnode_sz c" "uc_nnode_sz d = uc_nnode_sz c"
    "uc_lsave_sz d = uc_lsave_sz c" "uc_ltab_sz d = uc_ltab_sz c" "uc_big_lpt d = uc_big_lpt c"
    "uc_lsave_cnt d = uc_lsave_cnt c" "uc_main_first d = uc_main_first c" "uc_lpt_hght d = uc_lpt_hght c"
    "uc_main_lebs d = uc_main_lebs c" "uc_lpt d = uc_lpt c" "uc_space_bits d = uc_space_bits c" "uc_pcnt_bits d = uc_pcnt_bits c"
    "uc_lpt_lnum_bits d = uc_lpt_lnum_bits c" "uc_lpt_offs_bits d = uc_lpt_offs_bits c" "uc_lpt_last d = uc_lpt_last c"
    "uc_lpt_spc_bits d = uc_lpt_spc_bits c" "uc_lnum_bits d = uc_lnum_bits c"
  using arg_cong [OF assms, of uc_leb_size] arg_cong [OF assms, of uc_min_io_size] arg_cong [OF assms, of uc_lpt_first]
    arg_cong [OF assms, of uc_lpt_lebs] arg_cong [OF assms, of uc_pnode_sz] arg_cong [OF assms, of uc_nnode_sz]
    arg_cong [OF assms, of uc_lsave_sz] arg_cong [OF assms, of uc_ltab_sz] arg_cong [OF assms, of uc_big_lpt]
    arg_cong [OF assms, of uc_lsave_cnt] arg_cong [OF assms, of uc_main_first] arg_cong [OF assms, of uc_lpt_hght]
    arg_cong [OF assms, of uc_main_lebs] arg_cong [OF assms, of uc_lpt] arg_cong [OF assms, of uc_space_bits]
    arg_cong [OF assms, of uc_pcnt_bits] arg_cong [OF assms, of uc_lpt_lnum_bits] arg_cong [OF assms, of uc_lpt_offs_bits]
    arg_cong [OF assms, of uc_lpt_last] arg_cong [OF assms, of uc_lpt_spc_bits] arg_cong [OF assms, of uc_lnum_bits]
  by (simp_all add: geo_def)

lemma geo_packers:
  assumes "geo d = geo c"
  shows "pnode_of d i = pnode_of c i" "pnode_fields d p = pnode_fields c p" "nnode_fields d nn = nnode_fields c nn"
    "lsave_fields d ls = lsave_fields c ls" "ltab_fields d lt = ltab_fields c lt"
proof -
  note gf = geo_fields [OF assms]
  show "pnode_of d i = pnode_of c i" by (simp add: pnode_of_def gf Let_def)
  have "lprops_fields d = lprops_fields c" by (rule ext) (simp add: lprops_fields_def gf)
  then show "pnode_fields d p = pnode_fields c p" by (simp add: pnode_fields_def gf)
  have "nbranch_fields d = nbranch_fields c" by (rule ext) (simp add: nbranch_fields_def gf)
  then show "nnode_fields d nn = nnode_fields c nn" by (simp add: nnode_fields_def gf)
  show "lsave_fields d ls = lsave_fields c ls" "ltab_fields d lt = ltab_fields c lt"
    by (simp_all add: lsave_fields_def ltab_fields_def gf)
qed

text \<open>The place of the next node of a size, and the position behind it.\<close>

definition place :: "nat \<Rightarrow> nat \<times> nat \<Rightarrow> nat \<Rightarrow> nat \<times> nat" where
  "place leb pos sz = (if snd pos + sz > leb then (fst pos + 1, 0) else pos)"

definition after :: "nat \<times> nat \<Rightarrow> nat \<Rightarrow> nat \<times> nat" where
  "after pos sz = (fst pos, snd pos + sz)"

text \<open>The nodes in the order of writing: all leaves, the inner nodes level by level, the two tables.\<close>

definition node_sz :: "ubifs_info \<Rightarrow> nat \<Rightarrow> nat" where
  "node_sz c m = (if m < uc_pnode_cnt c then uc_pnode_sz c
     else if m < uc_pnode_cnt c + uc_nnode_cnt c then uc_nnode_sz c
     else if m = uc_pnode_cnt c + uc_nnode_cnt c \<and> uc_big_lpt c then uc_lsave_sz c else uc_ltab_sz c)"

fun node_end :: "ubifs_info \<Rightarrow> nat \<Rightarrow> nat \<times> nat" where
  "node_end c 0 = (uc_lpt_first c, 0)"
| "node_end c (Suc m) = after (place (uc_leb_size c) (node_end c m) (node_sz c m)) (node_sz c m)"

definition node_at :: "ubifs_info \<Rightarrow> nat \<Rightarrow> nat \<times> nat" where
  "node_at c m = place (uc_leb_size c) (node_end c m) (node_sz c m)"

lemma node_end_Suc: "node_end c (Suc m) = after (node_at c m) (node_sz c m)"
  by (simp add: node_at_def)

declare node_end.simps(2) [simp del]

text \<open>A closed LEB and the first node of the next one are larger than a LEB, so at least half of the space is used.\<close>

lemma node_end_bound:
  "uc_lpt_first c \<le> fst (node_end c m) \<and>
   (fst (node_end c m) - uc_lpt_first c) * uc_leb_size c + snd (node_end c m) \<le> 2 * (\<Sum>i<m. node_sz c i)"
proof (induction m)
  case (Suc m)
  obtain l o' where p: "node_end c m = (l, o')" by (rule prod.exhaust)
  have IH: "uc_lpt_first c \<le> l" "(l - uc_lpt_first c) * uc_leb_size c + o' \<le> 2 * (\<Sum>i<m. node_sz c i)"
    using Suc by (simp_all add: p)
  have "(Suc l - uc_lpt_first c) * uc_leb_size c = (l - uc_lpt_first c) * uc_leb_size c + uc_leb_size c"
    using IH(1) by (simp add: Suc_diff_le)
  then show ?case using IH by (auto simp: node_end_Suc node_at_def p place_def after_def)
qed simp

lemma node_end_offs:
  assumes "\<And>i. i < m \<Longrightarrow> node_sz c i \<le> uc_leb_size c"
  shows "snd (node_end c m) \<le> uc_leb_size c"
  using assms by (induction m) (auto simp: node_end_Suc node_at_def place_def after_def not_less)

lemma node_at_le_end: "m < n \<Longrightarrow> fst (node_at c m) \<le> fst (node_end c n)"
proof (induction n)
  case (Suc n)
  have "fst (node_end c n) \<le> fst (node_at c n)" by (simp add: node_at_def place_def)
  then show ?case using Suc by (cases "m = n") (simp_all add: node_end_Suc after_def)
qed simp

section \<open>Writing\<close>

text \<open>A node is stored: in the written LEBs, or in the used part of the buffer for the current one.\<close>

definition chunk :: "bytes \<Rightarrow> nat \<Rightarrow> nat \<Rightarrow> bytes option" where
  "chunk b off n = (if off + n \<le> length b then Some (take n (drop off b)) else None)"

definition stored :: "lpt_out \<Rightarrow> nat \<times> nat \<Rightarrow> bytes \<Rightarrow> bool" where
  "stored st pos img \<longleftrightarrow> fst pos \<le> lo_lnum st \<and>
     (if fst pos = lo_lnum st then chunk (take (lo_len st) (lo_buf st)) (snd pos) (length img) = Some img
      else \<exists>b. lo_lebs st (fst pos) = Some b \<and> chunk b (snd pos) (length img) = Some img)"

lemma chunk_prefix:
  assumes "chunk b off n = Some x" "take (length b) b' = b"
  shows "chunk b' off n = Some x"
proof -
  obtain r where "b' = b @ r" using assms(2) by (metis append_take_drop_id)
  then show ?thesis using assms(1) by (auto simp: chunk_def split: if_splits)
qed

definition ltab_ok :: "ubifs_info \<Rightarrow> ubifs_lpt_lprops list \<Rightarrow> bool" where
  "ltab_ok c ltab \<longleftrightarrow> length ltab = uc_lpt_lebs c \<and>
     list_all (\<lambda>lt. lt_free lt \<le> uc_leb_size c \<and> lt_dirty lt \<le> uc_leb_size c) ltab"

text \<open>What every step keeps.\<close>

definition out_ok :: "ubifs_info \<Rightarrow> lpt_out \<Rightarrow> bool" where
  "out_ok c st \<longleftrightarrow> geo (lo_c st) = geo c \<and> ltab_ok c (uc_ltab (lo_c st)) \<and> length (lo_buf st) = uc_leb_size c
     \<and> lo_len st \<le> uc_leb_size c \<and> uc_lpt_first c \<le> lo_lnum st"

lemma set_ltab_ok:
  assumes "geo d = geo c" "ltab_ok c (uc_ltab d)" "uc_lpt_first c \<le> lnum" "lnum - uc_lpt_first c < uc_lpt_lebs c"
    "free \<le> uc_leb_size c" "dirty \<le> uc_leb_size c"
  obtains d' where "set_ltab lnum free dirty d = Ret d'" "geo d' = geo d" "ltab_ok c (uc_ltab d')"
    "uc_lpt_lnum d' = uc_lpt_lnum d" "uc_lpt_offs d' = uc_lpt_offs d"
proof
  let ?t = "(uc_ltab d)[lnum - uc_lpt_first c := \<lparr>lt_free = free, lt_dirty = dirty\<rparr>]"
  show "set_ltab lnum free dirty d = Ret (d\<lparr>uc_ltab := ?t\<rparr>)"
    using assms geo_fields(3) [OF assms(1)] by (simp add: set_ltab_def ltab_ok_def)
  show "ltab_ok c (uc_ltab (d\<lparr>uc_ltab := ?t\<rparr>))"
    using assms by (auto simp: ltab_ok_def list_all_length nth_list_update)
qed (simp_all add: geo_def)

lemma write_leb_ok:
  assumes "wr lnum" "length (lo_buf st) = uc_leb_size (lo_c st)" "len \<le> uc_leb_size (lo_c st)"
  obtains b where "write_leb wr lnum len st = Ret (st\<lparr>lo_buf := b, lo_lebs := (lo_lebs st)(lnum \<mapsto> b)\<rparr>)"
    "length b = uc_leb_size (lo_c st)" "take len b = take len (lo_buf st)"
proof
  let ?b = "overwrite len (memset 0xFF (uc_leb_size (lo_c st) - len)) (lo_buf st)"
  show "write_leb wr lnum len st = Ret (st\<lparr>lo_buf := ?b, lo_lebs := (lo_lebs st)(lnum \<mapsto> ?b)\<rparr>)"
    using assms(1) by (simp add: write_leb_def Let_def)
qed (use assms in \<open>simp_all add: overwrite_def\<close>)

definition keeps :: "lpt_out \<Rightarrow> lpt_out \<Rightarrow> bool" where
  "keeps st st' \<longleftrightarrow> (\<forall>pos img. stored st pos img \<longrightarrow> stored st' pos img)"

lemma keepsD: "keeps st st' \<Longrightarrow> stored st pos img \<Longrightarrow> stored st' pos img"
  unfolding keeps_def by blast

lemma keeps_trans: "keeps a b \<Longrightarrow> keeps b c \<Longrightarrow> keeps a c"
  unfolding keeps_def by blast

text \<open>Closing a LEB keeps all that is stored.\<close>

lemma need_space_ok:
  assumes ok: "lpt_ok c" and out: "out_ok c st" and wr: "\<And>l. wr l" and lnum: "lo_lnum st - uc_lpt_first c < uc_lpt_lebs c"
  obtains st' where "need_space wr sz st = Ret st'" "out_ok c st'"
    "(lo_lnum st', lo_len st') = place (uc_leb_size c) (lo_lnum st, lo_len st) sz"
    "uc_lpt_lnum (lo_c st') = uc_lpt_lnum (lo_c st)" "uc_lpt_offs (lo_c st') = uc_lpt_offs (lo_c st)"
    "keeps st st'"
proof (cases "lo_len st + sz > uc_leb_size c")
  case False
  then have "need_space wr sz st = Ret st" using out geo_fields [of "lo_c st" c] by (simp add: need_space_def out_ok_def)
  then show thesis using False out by (intro that [of st]) (simp_all add: place_def keeps_def)
next
  case True
  let ?d = "lo_c st" and ?len = "lo_len st"
  define alen where "alen = ALIGN ?len (uc_min_io_size c)"
  have g: "geo ?d = geo c" "ltab_ok c (uc_ltab ?d)" "length (lo_buf st) = uc_leb_size c" "?len \<le> uc_leb_size c" "uc_lpt_first c \<le> lo_lnum st"
    using out by (simp_all add: out_ok_def)
  note gf = geo_fields [OF g(1)]
  obtain k where k: "uc_min_io_size c = 2 ^ k" using lpt_okD(5) [OF ok] by blast
  have al: "?len \<le> alen" "alen \<le> uc_leb_size c"
    using ALIGN_bounds [OF k, of ?len] g(4) lpt_okD(4) [OF ok] by (simp_all add: alen_def)
  have fd: "uc_leb_size c - alen \<le> uc_leb_size c" "alen - ?len \<le> uc_leb_size c" using al by simp_all
  obtain d' where d': "set_ltab (lo_lnum st) (uc_leb_size c - alen) (alen - ?len) ?d = Ret d'" "geo d' = geo ?d" "ltab_ok c (uc_ltab d')"
    "uc_lpt_lnum d' = uc_lpt_lnum ?d" "uc_lpt_offs d' = uc_lpt_offs ?d"
    by (rule set_ltab_ok [OF g(1,2,5) lnum fd])
  define st1 where "st1 = st\<lparr>lo_c := d', lo_buf := overwrite ?len (memset 0xFF (alen - ?len)) (lo_buf st)\<rparr>"
  have leb: "uc_leb_size (lo_c st1) = uc_leb_size c" using geo_fields(1) [OF trans [OF d'(2) g(1)]] by (simp add: st1_def)
  obtain b where b: "write_leb wr (lo_lnum st) alen st1 = Ret (st1\<lparr>lo_buf := b, lo_lebs := (lo_lebs st1)(lo_lnum st \<mapsto> b)\<rparr>)"
    "length b = uc_leb_size c" "take alen b = take alen (lo_buf st1)"
    using write_leb_ok [of wr "lo_lnum st" st1 alen] wr al g(3) unfolding leb by (auto simp: st1_def)
  have same: "take ?len b = take ?len (lo_buf st)"
  proof -
    have "take ?len b = take ?len (take alen (lo_buf st1))" using al(1) by (simp add: b(3) [symmetric] min_def)
    also have "\<dots> = take ?len (lo_buf st)" using al g(3) by (simp add: st1_def overwrite_def min_def)
    finally show ?thesis .
  qed
  define st' where "st' = st1\<lparr>lo_buf := b, lo_lebs := (lo_lebs st1)(lo_lnum st \<mapsto> b), lo_lnum := lo_lnum st + 1, lo_len := 0\<rparr>"
  have ret: "need_space wr sz st = Ret st'"
    using True al unfolding need_space_def Let_def gf alen_def [symmetric] d'(1) outcome.case st1_def [symmetric] b(1)
    by (simp add: st'_def st1_def)
  have keep': "stored st' pos img" if s: "stored st pos img" for pos img
  proof (cases "fst pos = lo_lnum st")
    case True
    then have "chunk (take ?len (lo_buf st)) (snd pos) (length img) = Some img" using s by (simp add: stored_def)
    then have "chunk b (snd pos) (length img) = Some img"
      by (rule chunk_prefix) (use same g in \<open>simp add: min_def\<close>)
    then show ?thesis using True by (simp add: stored_def st'_def)
  next
    case False
    then show ?thesis using s by (auto simp: stored_def st'_def st1_def)
  qed
  have keep: "keeps st st'" using keep' by (simp add: keeps_def)
  show thesis
    by (rule that [OF ret _ _ _ _ keep])
      (use True d' g b(2) in \<open>simp_all add: out_ok_def place_def st'_def st1_def\<close>)
qed

text \<open>The packed node becomes part of the buffer, and all that is stored stays.\<close>

lemma put_node_ok:
  assumes "out_ok c st" "length img = sz" "lo_len st + sz \<le> uc_leb_size c" "packed = Ret (overwrite (lo_len st) img (lo_buf st))"
  obtains st' where "put_node sz packed st = Ret st'" "out_ok c st'" "lo_c st' = lo_c st"
    "lo_lnum st' = lo_lnum st" "lo_len st' = lo_len st + sz" "stored st' (lo_lnum st, lo_len st) img"
    "keeps st st'"
proof
  let ?b = "overwrite (lo_len st) img (lo_buf st)"
  let ?st = "st\<lparr>lo_buf := ?b, lo_len := lo_len st + sz\<rparr>"
  have len: "length (lo_buf st) = uc_leb_size c" using assms(1) by (simp add: out_ok_def)
  show "put_node sz packed st = Ret ?st" by (simp add: put_node_def assms(4))
  show "out_ok c ?st" using assms(1-3) len by (simp add: out_ok_def)
  have "take (lo_len st + sz) ?b = take (lo_len st) (lo_buf st) @ img"
    using assms(2,3) len by (simp add: overwrite_def min_def)
  then show "stored ?st (lo_lnum st, lo_len st) img" using assms(2,3) len by (simp add: stored_def chunk_def)
  have "stored ?st pos x" if s: "stored st pos x" for pos x
  proof (cases "fst pos = lo_lnum st")
    case True
    then have "chunk (take (lo_len st) (lo_buf st)) (snd pos) (length x) = Some x" using s by (simp add: stored_def)
    then have "chunk (take (lo_len st + sz) ?b) (snd pos) (length x) = Some x"
      by (rule chunk_prefix) (use assms(2,3) len in \<open>simp add: overwrite_def min_def\<close>)
    then show ?thesis using True by (simp add: stored_def)
  qed (use s in \<open>simp add: stored_def\<close>)
  then show "keeps st ?st" by (simp add: keeps_def)
qed simp_all

section \<open>The shape of the tree\<close>

lemma level_shift: "level (level n (Suc 0)) t = level n (Suc t)"
  by (induction t) simp_all

lemma below_shift: "below (level n (Suc 0)) t + n = below n (Suc t)"
  by (induction t) (simp_all add: level_shift del: level.simps(2))

lemma below_mono: "s \<le> t \<Longrightarrow> below n s \<le> below n t"
  unfolding below_def by (intro sum_mono2) auto

lemma below_unique:
  assumes "below n s + i = below n t + j" "i < level n s" "j < level n t"
  shows "s = t" "i = j"
proof -
  have lt: "\<not> a < b" if "below n a + x = below n b + y" "x < level n a" for a b x y
    using below_mono [of "Suc a" b n] that by auto
  show "s = t" using lt [OF assms(1,2)] lt [OF assms(1) [symmetric] assms(3)] by simp
  then show "i = j" using assms(1) by simp
qed

text \<open>The root is alone on the top level, and the nodes of all levels are the counted ones.\<close>

lemma tree_shape:
  assumes "lpt_ok c"
  shows "0 < uc_pnode_cnt c" "0 < uc_lpt_hght c" "level (uc_pnode_cnt c) (uc_lpt_hght c) = 1"
    "below (uc_pnode_cnt c) (Suc (uc_lpt_hght c)) = uc_pnode_cnt c + uc_nnode_cnt c"
proof -
  note ok = lpt_okD [OF assms]
  note gf = geom_fields [OF ok(1)]
  let ?pc = "uc_pnode_cnt c"
  show pos: "0 < ?pc" using ok(6) by (simp add: gf(1))
  obtain h where h: "uc_lpt_hght c = Suc h" "?pc \<le> 4 ^ Suc h" "0 < h \<longrightarrow> 4 ^ h < ?pc"
    using height_spec [of ?pc] gf(3) by metis
  show "0 < uc_lpt_hght c" by (simp add: h(1))
  have "level ?pc (Suc h) \<le> 1" using h(2) by (subst level_le_iff) simp
  moreover have "0 < level ?pc (Suc h)" by (rule level_pos [OF pos])
  ultimately have one: "level ?pc (Suc h) = 1" by (simp del: level.simps)
  then show "level ?pc (uc_lpt_hght c) = 1" by (simp add: h(1))
  have more: "1 < level (level ?pc (Suc 0)) s" if "s < h" for s
  proof -
    have "(4::nat) ^ Suc s \<le> 4 ^ h" using that by (intro power_increasing) simp_all
    then have "\<not> ?pc \<le> 1 * 4 ^ Suc s" using h(3) that by auto
    then show ?thesis unfolding level_shift using level_le_iff [of ?pc "Suc s" 1] by simp
  qed
  have "nnode_levels (level (level ?pc (Suc 0)) 0) (level ?pc (Suc 0)) = level ?pc (Suc 0) + (below (level ?pc (Suc 0)) (Suc h) - below (level ?pc (Suc 0)) (Suc 0))"
    by (rule nnode_levels_spec [of 0 h]) (use one more in \<open>simp_all add: level_shift del: level.simps(2)\<close>)
  then have "uc_nnode_cnt c = below (level ?pc (Suc 0)) (Suc h)"
    using below_mono [of "Suc 0" "Suc h" "level ?pc (Suc 0)"] gf(2) by simp
  then show "below ?pc (Suc (uc_lpt_hght c)) = ?pc + uc_nnode_cnt c"
    using below_shift [of ?pc "Suc h"] h(1) by simp
qed

lemma sum_const_parts: "(\<Sum>i<a + b. if i < a then x else (y::nat)) = a * x + b * y"
  by (induction b) simp_all

text \<open>Up to the table at the end, all nodes fit into LEBs of the tree.\<close>

definition last_node :: "ubifs_info \<Rightarrow> nat" where
  "last_node c = uc_pnode_cnt c + uc_nnode_cnt c + (if uc_big_lpt c then 1 else 0)"

lemma node_sz_le:
  assumes "lpt_ok c"
  shows "node_sz c m \<le> uc_leb_size c"
proof -
  note ok = lpt_okD [OF assms]
  note gf = geom_fields [OF ok(1)]
  have f: "fls (of_nat v) \<le> 32" if "v < 2 ^ 31" for v using fls_bounds(1) [of v] that by simp
  have b: "uc_pcnt_bits c \<le> 32" "uc_lpt_lnum_bits c \<le> 32" "uc_lpt_offs_bits c \<le> 32"
    unfolding gf using ok(3,8,10) by (intro f; simp)+
  have "(if uc_big_lpt c then uc_pcnt_bits c else 0) \<le> 32" using b(1) by simp
  moreover have "(20 + x + (y * 2 + 1) * 4 + 7) div 8 \<le> 15360" if "x \<le> 32" "y \<le> 28" for x y :: nat using that by simp
  moreover have "(20 + x + (y + z) * 4 + 7) div 8 \<le> 15360" if "x \<le> 32" "y \<le> 32" "z \<le> 32" for x y z :: nat using that by simp
  ultimately have "uc_pnode_sz c \<le> 15360" "uc_nnode_sz c \<le> 15360"
    unfolding gf(10,11) using b(2,3) space_bits_bounds(2) [OF assms] by blast+
  moreover have "uc_big_lpt c \<Longrightarrow> uc_lsave_sz c \<le> uc_leb_size c" using lsave_fields_fit(3) [OF assms] .
  ultimately show ?thesis using ok(2,12) by (simp add: node_sz_def)
qed

lemma node_sum:
  assumes "lpt_ok c" "m \<le> Suc (last_node c)"
  shows "(\<Sum>i<m. node_sz c i) \<le> uc_lpt_sz c"
proof -
  let ?pc = "uc_pnode_cnt c" and ?nc = "uc_nnode_cnt c"
  have "(\<Sum>i<?pc + ?nc. node_sz c i) = (\<Sum>i<?pc + ?nc. if i < ?pc then uc_pnode_sz c else uc_nnode_sz c)"
    by (rule sum.cong) (simp_all add: node_sz_def)
  then have tree: "(\<Sum>i<?pc + ?nc. node_sz c i) = ?pc * uc_pnode_sz c + ?nc * uc_nnode_sz c"
    by (simp only: sum_const_parts)
  have "(\<Sum>i<m. node_sz c i) \<le> (\<Sum>i<Suc (last_node c). node_sz c i)" using assms(2) by (intro sum_mono2) auto
  also have "\<dots> \<le> (\<Sum>i<?pc + ?nc. node_sz c i) + uc_ltab_sz c + uc_lsave_sz c"
    by (cases "uc_big_lpt c") (simp_all add: last_node_def node_sz_def)
  finally show ?thesis using tree geom_fields(14) [OF lpt_okD(1) [OF assms(1)]] by simp
qed

lemma node_end_range:
  assumes "lpt_ok c" "m \<le> Suc (last_node c)"
  shows "uc_lpt_first c \<le> fst (node_end c m)" "fst (node_end c m) - uc_lpt_first c < uc_lpt_lebs c"
    "snd (node_end c m) \<le> uc_leb_size c"
proof -
  note ok = lpt_okD [OF assms(1)]
  let ?F = "fst (node_end c m) - uc_lpt_first c"
  show "uc_lpt_first c \<le> fst (node_end c m)" using node_end_bound by blast
  show "snd (node_end c m) \<le> uc_leb_size c" using node_sz_le [OF assms(1)] by (rule node_end_offs)
  have "?F * uc_leb_size c \<le> 2 * uc_lpt_sz c" using node_end_bound [of c m] node_sum [OF assms] by linarith
  then have "2 * (?F * uc_leb_size c) \<le> uc_lpt_lebs c * uc_leb_size c" using ok(11) by linarith
  then have "(2 * ?F) * uc_leb_size c \<le> uc_lpt_lebs c * uc_leb_size c" by (simp only: mult.assoc)
  then have "2 * ?F \<le> uc_lpt_lebs c" using ok(2) by simp
  then show "?F < uc_lpt_lebs c" using ok(9) by simp
qed

lemma node_at_range:
  assumes "lpt_ok c" "m \<le> last_node c"
  shows "uc_lpt_first c \<le> fst (node_at c m)" "fst (node_at c m) \<le> uc_lpt_last c"
    "snd (node_at c m) + node_sz c m \<le> uc_leb_size c"
proof -
  have e: "fst (node_end c (Suc m)) = fst (node_at c m)" "snd (node_end c (Suc m)) = snd (node_at c m) + node_sz c m"
    by (simp_all add: node_end_Suc after_def)
  have m: "Suc m \<le> Suc (last_node c)" using assms(2) by simp
  from node_end_range [OF assms(1) m] show "uc_lpt_first c \<le> fst (node_at c m)" "fst (node_at c m) \<le> uc_lpt_last c"
    "snd (node_at c m) + node_sz c m \<le> uc_leb_size c"
    unfolding e using lpt_okD(9,14) [OF assms(1)] by linarith+
qed

section \<open>Adding the nodes of the tree\<close>

text \<open>The branches of the node \<open>i\<close> above level \<open>t\<close>, and the bytes of the node \<open>i\<close> of level \<open>t\<close>.\<close>

definition branch_to :: "ubifs_info \<Rightarrow> nat \<Rightarrow> nat \<Rightarrow> ubifs_nbranch" where
  "branch_to c t m = (if m < level (uc_pnode_cnt c) t
     then (let pos = node_at c (below (uc_pnode_cnt c) t + m) in \<lparr>nb_lnum = fst pos, nb_offs = snd pos\<rparr>)
     else \<lparr>nb_lnum = 0, nb_offs = 0\<rparr>)"

definition nnode_of :: "ubifs_info \<Rightarrow> nat \<Rightarrow> nat \<Rightarrow> ubifs_nnode" where
  "nnode_of c t i = \<lparr>nn_num = calc_nnode_num (uc_lpt_hght c - Suc t) i, nn_nbranch = map (\<lambda>j. branch_to c t (4 * i + j)) [0..<4]\<rparr>"

fun node_img :: "ubifs_info \<Rightarrow> nat \<Rightarrow> nat \<Rightarrow> bytes" where
  "node_img c 0 i = node_image (pnode_fields c (pnode_of c i))"
| "node_img c (Suc t) i = node_image (nnode_fields c (nnode_of c t i))"

definition tree_stored :: "ubifs_info \<Rightarrow> nat \<Rightarrow> lpt_out \<Rightarrow> bool" where
  "tree_stored c n st \<longleftrightarrow> (\<forall>t i. i < level (uc_pnode_cnt c) t \<longrightarrow> below (uc_pnode_cnt c) t + i < n \<longrightarrow>
     stored st (node_at c (below (uc_pnode_cnt c) t + i)) (node_img c t i))"

definition tree_inv :: "ubifs_info \<Rightarrow> nat \<Rightarrow> lpt_out \<Rightarrow> bool" where
  "tree_inv c n st \<longleftrightarrow> out_ok c st \<and> (lo_lnum st, lo_len st) = node_end c n \<and> tree_stored c n st"

lemma tree_stored_mono: "tree_stored c n st \<Longrightarrow> keeps st st' \<Longrightarrow> tree_stored c n st'"
  unfolding tree_stored_def by (blast intro: keepsD)

lemma space_for_node:
  assumes "lpt_ok c" "\<And>l. wr l" "out_ok c st" "(lo_lnum st, lo_len st) = node_end c n" "n \<le> last_node c"
  obtains st1 where "need_space wr (node_sz c n) st = Ret st1" "out_ok c st1" "(lo_lnum st1, lo_len st1) = node_at c n"
    "uc_lpt_lnum (lo_c st1) = uc_lpt_lnum (lo_c st)" "uc_lpt_offs (lo_c st1) = uc_lpt_offs (lo_c st)"
    "keeps st st1" "lo_len st1 + node_sz c n \<le> uc_leb_size c"
proof -
  have n: "n \<le> Suc (last_node c)" using assms(5) by simp
  have "lo_lnum st - uc_lpt_first c < uc_lpt_lebs c"
    using node_end_range(2) [OF assms(1) n] unfolding assms(4) [symmetric] by simp
  note sp = need_space_ok [where wr = wr and sz = "node_sz c n", OF assms(1,3,2) this]
  obtain st1 where st1:
    "need_space wr (node_sz c n) st = Ret st1" "out_ok c st1"
    "(lo_lnum st1, lo_len st1) = place (uc_leb_size c) (lo_lnum st, lo_len st) (node_sz c n)"
    "uc_lpt_lnum (lo_c st1) = uc_lpt_lnum (lo_c st)" "uc_lpt_offs (lo_c st1) = uc_lpt_offs (lo_c st)"
    "keeps st st1" by (rule sp)
  have at: "(lo_lnum st1, lo_len st1) = node_at c n" using st1(3) unfolding assms(4) node_at_def .
  have "lo_len st1 + node_sz c n \<le> uc_leb_size c"
    using node_at_range(3) [OF assms(1,5)] unfolding at [symmetric] by simp
  then show thesis by (rule that [OF st1(1,2) at st1(4-6)])
qed

text \<open>A node of the tree at its place extends the invariant; the description may change where the geometry does not.\<close>

lemma put_tree_node:
  assumes "out_ok c st" "(lo_lnum st, lo_len st) = node_at c n" "tree_stored c n st" "lo_len st + node_sz c n \<le> uc_leb_size c"
    "n = below (uc_pnode_cnt c) t + i" "i < level (uc_pnode_cnt c) t" "length (node_img c t i) = node_sz c n"
    "packed = Ret (overwrite (lo_len st) (node_img c t i) (lo_buf st))"
  obtains st' where "put_node (node_sz c n) packed st = Ret st'" "tree_inv c (Suc n) st'" "lo_c st' = lo_c st"
proof -
  obtain st' where st': "put_node (node_sz c n) packed st = Ret st'" "out_ok c st'" "lo_c st' = lo_c st"
    "lo_lnum st' = lo_lnum st" "lo_len st' = lo_len st + node_sz c n" "stored st' (lo_lnum st, lo_len st) (node_img c t i)"
    "keeps st st'"
    by (rule put_node_ok [OF assms(1,7,4,8)])
  have "stored st' (node_at c (below (uc_pnode_cnt c) s + j)) (node_img c s j)"
    if "j < level (uc_pnode_cnt c) s" "below (uc_pnode_cnt c) s + j < Suc n" for s j
  proof (cases "below (uc_pnode_cnt c) s + j = n")
    case True
    then have e: "below (uc_pnode_cnt c) s + j = below (uc_pnode_cnt c) t + i" using assms(5) by simp
    have "s = t" "j = i" using below_unique [OF e that(1) assms(6)] by simp_all
    then show ?thesis using st'(6) unfolding assms(2) by (simp add: assms(5))
  next
    case False
    then show ?thesis using that tree_stored_mono [OF assms(3) st'(7)] by (simp add: tree_stored_def)
  qed
  then have "tree_stored c (Suc n) st'" by (simp add: tree_stored_def)
  moreover have "(lo_lnum st', lo_len st') = node_end c (Suc n)"
    unfolding node_end_Suc assms(2) [symmetric] by (simp add: after_def st'(4,5))
  ultimately show thesis using st'(2) by (intro that [OF st'(1) _ st'(3)]) (simp_all add: tree_inv_def)
qed

lemma pack_pnode_image:
  assumes "lpt_ok c" "out_ok c st" "i < uc_pnode_cnt c" "lo_len st + uc_pnode_sz c \<le> uc_leb_size c"
  shows "pack_pnode (lo_c st) (lo_len st) (pnode_of (lo_c st) i) (lo_buf st) = Ret (overwrite (lo_len st) (node_img c 0 i) (lo_buf st))"
proof -
  have g: "geo (lo_c st) = geo c" "length (lo_buf st) = uc_leb_size c" using assms(2) by (simp_all add: out_ok_def)
  have "pack_node (uc_pnode_sz c) (pnode_fields c (pnode_of c i)) (lo_len st) (lo_buf st)
      = Ret (overwrite (lo_len st) (node_image (pnode_fields c (pnode_of c i))) (lo_buf st))"
    by (rule pack_node_image) (use pnode_fields_fit [OF assms(1,3)] assms(4) g(2) in simp_all)
  then show ?thesis by (simp add: pack_pnode_def geo_fields [OF g(1)] geo_packers [OF g(1)])
qed

lemma add_pnode_inv:
  assumes "lpt_ok c" "\<And>l. wr l" "tree_inv c i st" "i < uc_pnode_cnt c"
  shows "\<exists>st'. add_pnode wr i st = Ret st' \<and> tree_inv c (Suc i) st'"
proof -
  have inv: "out_ok c st" "(lo_lnum st, lo_len st) = node_end c i" "tree_stored c i st" using assms(3) by (simp_all add: tree_inv_def)
  have sz: "node_sz c i = uc_pnode_sz c" using assms(4) by (simp add: node_sz_def)
  have le: "i \<le> last_node c" using assms(4) by (simp add: last_node_def)
  obtain st1 where st1: "need_space wr (node_sz c i) st = Ret st1" "out_ok c st1" "(lo_lnum st1, lo_len st1) = node_at c i"
    "uc_lpt_lnum (lo_c st1) = uc_lpt_lnum (lo_c st)" "uc_lpt_offs (lo_c st1) = uc_lpt_offs (lo_c st)"
    "keeps st st1" "lo_len st1 + node_sz c i \<le> uc_leb_size c"
    by (rule space_for_node [where wr = wr, OF assms(1,2) inv(1,2) le])
  have g: "geo (lo_c st) = geo c" "geo (lo_c st1) = geo c" using inv(1) st1(2) by (simp_all add: out_ok_def)
  have len: "length (node_img c 0 i) = node_sz c i"
    using pnode_fields_fit(2) [OF assms(1,4)] by (simp add: length_node_image sz)
  have idx: "i = below (uc_pnode_cnt c) 0 + i" "i < level (uc_pnode_cnt c) 0" using assms(4) by simp_all
  obtain st' where st': "put_node (node_sz c i) (pack_pnode (lo_c st1) (lo_len st1) (pnode_of (lo_c st1) i) (lo_buf st1)) st1 = Ret st'"
    "tree_inv c (Suc i) st'" "lo_c st' = lo_c st1"
    by (rule put_tree_node [OF st1(2,3) tree_stored_mono [OF inv(3) st1(6)] st1(7) idx len
        pack_pnode_image [OF assms(1) st1(2) assms(4) st1(7) [unfolded sz]]])
  then show ?thesis using st1(1) by (simp add: add_pnode_def sz geo_fields(5) [OF g(1)] geo_fields(5) [OF g(2)])
qed

lemma add_pnodes_inv:
  assumes "lpt_ok c" "\<And>l. wr l" "tree_inv c a st" "a \<le> b" "b \<le> uc_pnode_cnt c"
  shows "\<exists>st'. add_pnodes wr [a..<b] st = Ret st' \<and> tree_inv c b st'"
  using assms(3,4)
proof (induction "b - a" arbitrary: a st)
  case (Suc k)
  then have ab: "a < b" by simp
  then obtain st1 where "add_pnode wr a st = Ret st1" "tree_inv c (Suc a) st1"
    using add_pnode_inv [where wr = wr, OF assms(1,2) Suc.prems(1)] assms(5) by auto
  then show ?case using Suc.hyps(1) [of "Suc a" st1] Suc.hyps(2) ab by (simp add: upt_conv_Cons)
qed simp

text \<open>The branches trail the writer: they run through the same positions.\<close>

definition bst :: "ubifs_info \<Rightarrow> nat \<Rightarrow> nat \<Rightarrow> nat \<Rightarrow> branch_state" where
  "bst c q cnt sz = \<lparr>br_lnum = fst (node_end c q), br_offs = snd (node_end c q), br_sz = sz, br_cnt = cnt\<rparr>"

definition to_node :: "nat \<times> nat \<Rightarrow> ubifs_nbranch" where
  "to_node pos = \<lparr>nb_lnum = fst pos, nb_offs = snd pos\<rparr>"

lemma next_branch_bst:
  "next_branch (uc_leb_size c) (bst c q 0 sz) = (to_node (0, 0), bst c q 0 sz)"
  "node_sz c q = sz \<Longrightarrow> next_branch (uc_leb_size c) (bst c q (Suc cnt) sz) = (to_node (node_at c q), bst c (Suc q) cnt sz)"
  by (auto simp: next_branch_def bst_def to_node_def node_end_Suc node_at_def place_def after_def Let_def)

lemma next_branches_bst:
  assumes "\<And>m. q \<le> m \<Longrightarrow> m < q + cnt \<Longrightarrow> node_sz c m = sz"
  shows "next_branches n (uc_leb_size c) (bst c q cnt sz) =
    (map (\<lambda>j. if j < cnt then to_node (node_at c (q + j)) else to_node (0, 0)) [0..<n], bst c (q + min n cnt) (cnt - n) sz)"
  using assms
proof (induction n arbitrary: q cnt)
  case (Suc n)
  show ?case
  proof (cases cnt)
    case 0
    then show ?thesis using Suc.IH [of q 0]
      by (simp add: next_branch_bst map_upt_Suc del: upt_Suc)
  next
    case (Suc m)
    have "node_sz c k = sz" if "Suc q \<le> k" "k < Suc q + m" for k using Suc.prems [of k] that Suc by simp
    from Suc.IH [OF this] show ?thesis using Suc.prems [of q] Suc
      by (simp add: next_branch_bst map_upt_Suc del: upt_Suc)
  qed
qed simp

definition level_sz :: "ubifs_info \<Rightarrow> nat \<Rightarrow> nat" where
  "level_sz c t = (if t = 0 then uc_pnode_sz c else uc_nnode_sz c)"

definition branches_from :: "ubifs_info \<Rightarrow> nat \<Rightarrow> nat \<Rightarrow> branch_state" where
  "branches_from c t i = bst c (below (uc_pnode_cnt c) t + min (4 * i) (level (uc_pnode_cnt c) t))
     (level (uc_pnode_cnt c) t - 4 * i) (level_sz c t)"

lemma level_index_range:
  assumes "lpt_ok c" "t \<le> uc_lpt_hght c" "i < level (uc_pnode_cnt c) t"
  shows "below (uc_pnode_cnt c) t + i < uc_pnode_cnt c + uc_nnode_cnt c"
    "node_sz c (below (uc_pnode_cnt c) t + i) = level_sz c t"
proof -
  have "below (uc_pnode_cnt c) (Suc t) \<le> below (uc_pnode_cnt c) (Suc (uc_lpt_hght c))" using assms(2) by (intro below_mono) simp
  then show lt: "below (uc_pnode_cnt c) t + i < uc_pnode_cnt c + uc_nnode_cnt c"
    using assms(3) tree_shape(4) [OF assms(1)] by simp
  have "uc_pnode_cnt c \<le> below (uc_pnode_cnt c) t" if "t \<noteq> 0" using below_mono [of 1 t "uc_pnode_cnt c"] that by simp
  then show "node_sz c (below (uc_pnode_cnt c) t + i) = level_sz c t"
    using lt assms(3) by (cases "t = 0") (auto simp: node_sz_def level_sz_def)
qed

lemma level_sz_pos: "lpt_ok c \<Longrightarrow> 0 < level_sz c t"
  using geom_fields(10,11) [OF lpt_okD(1)] by (simp add: level_sz_def div_greater_zero_iff)

lemma branch_to_ok:
  assumes "lpt_ok c" "t \<le> uc_lpt_hght c"
  shows "branch_ok c (branch_to c t m)"
proof (cases "m < level (uc_pnode_cnt c) t")
  case True
  let ?n = "below (uc_pnode_cnt c) t + m"
  note r = level_index_range [OF assms True]
  have "?n \<le> last_node c" using r(1) by (simp add: last_node_def)
  from node_at_range [OF assms(1) this] show ?thesis
    using True level_sz_pos [OF assms(1), of t] r(2) by (simp add: branch_ok_def branch_to_def Let_def)
qed (use lpt_okD(2) [OF assms(1)] in \<open>simp add: branch_ok_def branch_to_def\<close>)

lemma next_branches_nnode:
  assumes "lpt_ok c" "t < uc_lpt_hght c" "i < level (uc_pnode_cnt c) (Suc t)"
  shows "next_branches 4 (uc_leb_size c) (branches_from c t i) = (nn_nbranch (nnode_of c t i), branches_from c t (Suc i))"
proof -
  let ?l = "level (uc_pnode_cnt c) t" and ?b = "below (uc_pnode_cnt c) t"
  have i: "4 * i < ?l" using assms(3) by simp
  have sz: "node_sz c m = level_sz c t" if "?b + 4 * i \<le> m" "m < ?b + 4 * i + (?l - 4 * i)" for m
    using level_index_range(2) [OF assms(1) less_imp_le [OF assms(2)], of "m - ?b"] that by simp
  have "next_branches 4 (uc_leb_size c) (bst c (?b + 4 * i) (?l - 4 * i) (level_sz c t)) =
    (map (\<lambda>j. if j < ?l - 4 * i then to_node (node_at c (?b + 4 * i + j)) else to_node (0, 0)) [0..<4],
     bst c (?b + 4 * i + min 4 (?l - 4 * i)) (?l - 4 * i - 4) (level_sz c t))"
    by (rule next_branches_bst) (rule sz)
  moreover have "map (\<lambda>j. if j < ?l - 4 * i then to_node (node_at c (?b + 4 * i + j)) else to_node (0, 0)) [0..<4] = nn_nbranch (nnode_of c t i)"
    by (auto simp: nnode_of_def branch_to_def to_node_def Let_def ac_simps)
  moreover have "?b + 4 * i + min 4 (?l - 4 * i) = ?b + min (4 * Suc i) ?l" "?l - 4 * i - 4 = ?l - 4 * Suc i" "min (4 * i) ?l = 4 * i"
    using i by simp_all
  ultimately show ?thesis by (simp add: branches_from_def)
qed

lemma nnode_img_fit:
  assumes "lpt_ok c" "t < uc_lpt_hght c"
  shows "list_all fits (nnode_fields c (nnode_of c t i))" "node_size (nnode_fields c (nnode_of c t i)) = uc_nnode_sz c"
  unfolding nnode_of_def
  by (rule nnode_fields_fit [OF assms(1)], use assms branch_to_ok [OF assms(1) less_imp_le [OF assms(2)]] in \<open>simp_all add: list_all_iff\<close>)+

lemma pack_nnode_image:
  assumes "lpt_ok c" "out_ok c st" "t < uc_lpt_hght c" "lo_len st + uc_nnode_sz c \<le> uc_leb_size c"
  shows "pack_nnode (lo_c st) (lo_len st) (nnode_of c t i) (lo_buf st) = Ret (overwrite (lo_len st) (node_img c (Suc t) i) (lo_buf st))"
proof -
  have g: "geo (lo_c st) = geo c" "length (lo_buf st) = uc_leb_size c" using assms(2) by (simp_all add: out_ok_def)
  have "pack_node (uc_nnode_sz c) (nnode_fields c (nnode_of c t i)) (lo_len st) (lo_buf st)
      = Ret (overwrite (lo_len st) (node_image (nnode_fields c (nnode_of c t i))) (lo_buf st))"
    by (rule pack_node_image) (use nnode_img_fit [OF assms(1,3)] assms(4) g(2) in simp_all)
  then show ?thesis by (simp add: pack_nnode_def geo_fields [OF g(1)] geo_packers [OF g(1)])
qed

definition root_at :: "lpt_out \<Rightarrow> nat \<times> nat \<Rightarrow> bool" where
  "root_at st pos \<longleftrightarrow> uc_lpt_lnum (lo_c st) = fst pos \<and> uc_lpt_offs (lo_c st) = snd pos"

lemma out_ok_root: "out_ok c (st\<lparr>lo_c := (lo_c st)\<lparr>uc_lpt_lnum := l, uc_lpt_offs := p\<rparr>\<rparr>) = out_ok c st"
  by (simp add: out_ok_def geo_def)

lemma add_nnode_inv:
  assumes "lpt_ok c" "\<And>l. wr l" "t < uc_lpt_hght c" "i < level (uc_pnode_cnt c) (Suc t)"
    "tree_inv c (below (uc_pnode_cnt c) (Suc t) + i) st"
  shows "\<exists>st'. add_nnode wr (uc_lpt_hght c - Suc t) i (branches_from c t i) st = Ret (branches_from c t (Suc i), st')
    \<and> tree_inv c (Suc (below (uc_pnode_cnt c) (Suc t) + i)) st'
    \<and> (uc_lpt_hght c = Suc t \<longrightarrow> root_at st' (node_at c (below (uc_pnode_cnt c) (Suc t) + i)))"
proof -
  define n where "n = below (uc_pnode_cnt c) (Suc t) + i"
  let ?row = "uc_lpt_hght c - Suc t"
  have inv: "out_ok c st" "(lo_lnum st, lo_len st) = node_end c n" "tree_stored c n st"
    using assms(5) by (simp_all add: tree_inv_def n_def)
  have t: "Suc t \<le> uc_lpt_hght c" using assms(3) by simp
  have sz: "node_sz c n = uc_nnode_sz c" using level_index_range(2) [OF assms(1) t assms(4)] by (simp add: n_def level_sz_def)
  have le: "n \<le> last_node c" using level_index_range(1) [OF assms(1) t assms(4)] by (simp add: n_def last_node_def)
  obtain st1 where st1: "need_space wr (node_sz c n) st = Ret st1" "out_ok c st1" "(lo_lnum st1, lo_len st1) = node_at c n"
    "uc_lpt_lnum (lo_c st1) = uc_lpt_lnum (lo_c st)" "uc_lpt_offs (lo_c st1) = uc_lpt_offs (lo_c st)"
    "keeps st st1" "lo_len st1 + node_sz c n \<le> uc_leb_size c"
    by (rule space_for_node [where wr = wr, OF assms(1,2) inv(1,2) le])
  define st2 where "st2 = (if ?row = 0 then st1\<lparr>lo_c := (lo_c st1)\<lparr>uc_lpt_lnum := lo_lnum st1, uc_lpt_offs := lo_len st1\<rparr>\<rparr> else st1)"
  have st2: "out_ok c st2" "(lo_lnum st2, lo_len st2) = node_at c n" "lo_len st2 + node_sz c n \<le> uc_leb_size c"
    using st1(2,3,7) by (simp_all add: st2_def out_ok_root)
  have "keeps st1 st2" by (simp add: st2_def keeps_def stored_def)
  then have ts: "tree_stored c n st2" using inv(3) st1(6) by (blast intro: tree_stored_mono)
  have g: "geo (lo_c st) = geo c" "geo (lo_c st2) = geo c" using inv(1) st2(1) by (simp_all add: out_ok_def)
  have len: "length (node_img c (Suc t) i) = node_sz c n"
    using nnode_img_fit(2) [OF assms(1,3)] by (simp add: length_node_image sz)
  obtain st' where st': "put_node (node_sz c n) (pack_nnode (lo_c st2) (lo_len st2) (nnode_of c t i) (lo_buf st2)) st2 = Ret st'"
    "tree_inv c (Suc n) st'" "lo_c st' = lo_c st2"
    by (rule put_tree_node [OF st2(1,2) ts st2(3) n_def assms(4) len pack_nnode_image [OF assms(1) st2(1) assms(3) st2(3) [unfolded sz]]])
  have nn: "\<lparr>nn_num = calc_nnode_num ?row i, nn_nbranch = nn_nbranch (nnode_of c t i)\<rparr> = nnode_of c t i" by (simp add: nnode_of_def)
  have ret: "add_nnode wr ?row i (branches_from c t i) st = Ret (branches_from c t (Suc i), st')"
    unfolding add_nnode_def geo_fields(6) [OF g(1)] sz [symmetric] st1(1) outcome.case Let_def st2_def [symmetric]
    unfolding geo_fields(1,6) [OF g(2)] lpt_consts next_branches_nnode [OF assms(1,3,4)] prod.case nn sz [symmetric] st'(1)
    by simp
  have "root_at st' (node_at c n)" if "uc_lpt_hght c = Suc t"
    using that unfolding st1(3) [symmetric] by (simp add: root_at_def st'(3) st2_def)
  then show ?thesis using ret st'(2) by (simp add: n_def)
qed

lemma add_nnodes_inv:
  assumes "lpt_ok c" "\<And>l. wr l" "t < uc_lpt_hght c" "a < b" "b \<le> level (uc_pnode_cnt c) (Suc t)"
    "tree_inv c (below (uc_pnode_cnt c) (Suc t) + a) st"
  shows "\<exists>st'. add_nnodes wr (uc_lpt_hght c - Suc t) [a..<b] (branches_from c t a) st = Ret (branches_from c t b, st')
    \<and> tree_inv c (below (uc_pnode_cnt c) (Suc t) + b) st'
    \<and> (uc_lpt_hght c = Suc t \<longrightarrow> root_at st' (node_at c (below (uc_pnode_cnt c) (Suc t) + (b - 1))))"
  using assms(4,6)
proof (induction "b - a" arbitrary: a st)
  case (Suc k)
  have a: "a < level (uc_pnode_cnt c) (Suc t)" using Suc.prems(1) assms(5) by simp
  obtain st1 where st1: "add_nnode wr (uc_lpt_hght c - Suc t) a (branches_from c t a) st = Ret (branches_from c t (Suc a), st1)"
    "tree_inv c (Suc (below (uc_pnode_cnt c) (Suc t) + a)) st1"
    "uc_lpt_hght c = Suc t \<longrightarrow> root_at st1 (node_at c (below (uc_pnode_cnt c) (Suc t) + a))"
    using add_nnode_inv [where wr = wr, OF assms(1-3) a Suc.prems(2)] by blast
  show ?case
  proof (cases "Suc a = b")
    case True
    then show ?thesis using st1 by (auto simp: upt_conv_Cons)
  next
    case False
    then show ?thesis using Suc.hyps(1) [of "Suc a" st1] Suc.hyps(2) Suc.prems(1) st1 by (simp add: upt_conv_Cons)
  qed
qed simp

lemma level_cnt_level: "lpt_ok c \<Longrightarrow> level_cnt (level (uc_pnode_cnt c) t) = level (uc_pnode_cnt c) (Suc t)"
  using level_pos [OF tree_shape(1), of c "Suc t"] by (simp add: level_cnt_def Let_def lpt_consts add.commute)

lemma branches_next_level:
  "(branches_from c t (level (uc_pnode_cnt c) (Suc t)))\<lparr>br_cnt := level (uc_pnode_cnt c) (Suc t), br_sz := uc_nnode_sz c\<rparr>
     = branches_from c (Suc t) 0"
proof -
  have "level (uc_pnode_cnt c) t \<le> 4 * ((level (uc_pnode_cnt c) t + 3) div 4)" by linarith
  then show ?thesis by (simp add: branches_from_def bst_def level_sz_def)
qed

text \<open>All levels, up to the root.\<close>

lemma add_levels_inv:
  assumes "lpt_ok c" "\<And>l. wr l" "t < uc_lpt_hght c" "tree_inv c (below (uc_pnode_cnt c) (Suc t)) st"
  shows "\<exists>st'. add_levels wr (uc_lpt_hght c - Suc t) (level (uc_pnode_cnt c) t) (branches_from c t 0) st = Ret st'
    \<and> tree_inv c (uc_pnode_cnt c + uc_nnode_cnt c) st' \<and> root_at st' (node_at c (below (uc_pnode_cnt c) (uc_lpt_hght c)))"
  using assms(3,4)
proof (induction "uc_lpt_hght c - Suc t" arbitrary: t st)
  case 0
  then have h: "uc_lpt_hght c = Suc t" by simp
  have pos: "0 < level (uc_pnode_cnt c) (Suc t)" by (rule level_pos [OF tree_shape(1) [OF assms(1)]])
  have "level (uc_pnode_cnt c) (Suc t) = 1" using tree_shape(3) [OF assms(1)] h by simp
  then show ?case
    using add_nnodes_inv [where wr = wr, OF assms(1,2) 0(2) pos order_refl, of st] 0 tree_shape(4) [OF assms(1)]
    by (auto simp: add_levels.simps [of _ 0] level_cnt_level [OF assms(1)] h simp del: level.simps)
next
  case (Suc row)
  have pos: "0 < level (uc_pnode_cnt c) (Suc t)" by (rule level_pos [OF tree_shape(1) [OF assms(1)]])
  obtain st1 where st1: "add_nnodes wr (uc_lpt_hght c - Suc t) [0..<level (uc_pnode_cnt c) (Suc t)] (branches_from c t 0) st
      = Ret (branches_from c t (level (uc_pnode_cnt c) (Suc t)), st1)"
    "tree_inv c (below (uc_pnode_cnt c) (Suc t) + level (uc_pnode_cnt c) (Suc t)) st1"
    using add_nnodes_inv [where wr = wr, OF assms(1,2) Suc.prems(1) pos order_refl, of st] Suc.prems(2) by auto
  have inv: "tree_inv c (below (uc_pnode_cnt c) (Suc (Suc t))) st1" using st1(2) by (simp del: level.simps)
  then have "geo (lo_c st1) = geo c" by (simp add: tree_inv_def out_ok_def)
  then have "uc_nnode_sz (lo_c st1) = uc_nnode_sz c" by (rule geo_fields)
  moreover have row: "row = uc_lpt_hght c - Suc (Suc t)" "Suc t < uc_lpt_hght c" using Suc.hyps(2) by simp_all
  ultimately have "add_levels wr (uc_lpt_hght c - Suc t) (level (uc_pnode_cnt c) t) (branches_from c t 0) st
      = add_levels wr row (level (uc_pnode_cnt c) (Suc t)) (branches_from c (Suc t) 0) st1"
    using st1(1) unfolding Suc.hyps(2) [symmetric]
    by (subst add_levels.simps) (simp add: Let_def level_cnt_level [OF assms(1)] branches_next_level del: level.simps)
  then show ?case using Suc.hyps(1) [OF row inv] by (simp add: row)
qed

section \<open>The tables and the whole tree\<close>

lemma add_lsave_inv:
  assumes "lpt_ok c" "\<And>l. wr l" "tree_inv c (uc_pnode_cnt c + uc_nnode_cnt c) st" "root_at st pos"
  obtains st' where "add_lsave wr st = Ret st'" "out_ok c st'" "(lo_lnum st', lo_len st') = node_end c (last_node c)"
    "tree_stored c (uc_pnode_cnt c + uc_nnode_cnt c) st'" "root_at st' pos"
proof (cases "uc_big_lpt c")
  case False
  have "geo (lo_c st) = geo c" using assms(3) by (simp add: tree_inv_def out_ok_def)
  note gf = geo_fields(9) [OF this]
  show thesis using False assms(3,4) by (intro that [of st]) (simp_all add: add_lsave_def gf tree_inv_def last_node_def)
next
  case True
  define n where "n = uc_pnode_cnt c + uc_nnode_cnt c"
  have inv: "out_ok c st" "(lo_lnum st, lo_len st) = node_end c n" "tree_stored c n st"
    using assms(3) by (simp_all add: tree_inv_def n_def)
  have sz: "node_sz c n = uc_lsave_sz c" and ln: "last_node c = Suc n" and le: "n \<le> last_node c"
    using True by (simp_all add: node_sz_def n_def last_node_def)
  obtain st1 where st1: "need_space wr (node_sz c n) st = Ret st1" "out_ok c st1" "(lo_lnum st1, lo_len st1) = node_at c n"
    "uc_lpt_lnum (lo_c st1) = uc_lpt_lnum (lo_c st)" "uc_lpt_offs (lo_c st1) = uc_lpt_offs (lo_c st)"
    "keeps st st1" "lo_len st1 + node_sz c n \<le> uc_leb_size c"
    by (rule space_for_node [where wr = wr, OF assms(1,2) inv(1,2) le])
  define d where "d = (lo_c st1)\<lparr>uc_lsave_lnum := lo_lnum st1, uc_lsave_offs := lo_len st1\<rparr>"
  let ?ls = "map (\<lambda>i. uc_main_first c + i) [0..<uc_lsave_cnt c]"
  have g: "geo (lo_c st) = geo c" "geo d = geo c" "length (lo_buf st1) = uc_leb_size c"
    using inv(1) st1(2) by (simp_all add: out_ok_def d_def geo_def)
  note gf = geo_fields [OF g(2)]
  have st2: "out_ok c (st1\<lparr>lo_c := d\<rparr>)" "keeps st1 (st1\<lparr>lo_c := d\<rparr>)"
    using st1(2) g(2) by (simp_all add: out_ok_def d_def keeps_def stored_def)
  have "pack_node (uc_lsave_sz c) (lsave_fields c ?ls) (lo_len st1) (lo_buf st1)
      = Ret (overwrite (lo_len st1) (node_image (lsave_fields c ?ls)) (lo_buf st1))"
    by (rule pack_node_image) (use lsave_fields_fit [OF assms(1) True] st1(7) g(3) in \<open>simp_all add: sz\<close>)
  then have pk: "pack_lsave d (lo_len (st1\<lparr>lo_c := d\<rparr>)) ?ls (lo_buf (st1\<lparr>lo_c := d\<rparr>))
      = Ret (overwrite (lo_len (st1\<lparr>lo_c := d\<rparr>)) (node_image (lsave_fields c ?ls)) (lo_buf (st1\<lparr>lo_c := d\<rparr>)))"
    by (simp add: pack_lsave_def gf geo_packers [OF g(2)])
  have len: "length (node_image (lsave_fields c ?ls)) = node_sz c n"
    using lsave_fields_fit(2) [OF assms(1) True] by (simp add: length_node_image sz)
  have room: "lo_len (st1\<lparr>lo_c := d\<rparr>) + node_sz c n \<le> uc_leb_size c" using st1(7) by simp
  obtain st' where st': "put_node (node_sz c n) (pack_lsave d (lo_len (st1\<lparr>lo_c := d\<rparr>)) ?ls (lo_buf (st1\<lparr>lo_c := d\<rparr>))) (st1\<lparr>lo_c := d\<rparr>) = Ret st'"
    "out_ok c st'" "lo_c st' = lo_c (st1\<lparr>lo_c := d\<rparr>)" "lo_lnum st' = lo_lnum (st1\<lparr>lo_c := d\<rparr>)"
    "lo_len st' = lo_len (st1\<lparr>lo_c := d\<rparr>) + node_sz c n"
    "stored st' (lo_lnum (st1\<lparr>lo_c := d\<rparr>), lo_len (st1\<lparr>lo_c := d\<rparr>)) (node_image (lsave_fields c ?ls))" "keeps (st1\<lparr>lo_c := d\<rparr>) st'"
    by (rule put_node_ok [OF st2(1) len room pk])
  show thesis
  proof (rule that)
    show "add_lsave wr st = Ret st'"
      using True st1(1) st'(1) unfolding add_lsave_def geo_fields(7,9) [OF g(1)] sz [symmetric]
      by (simp add: Let_def d_def [symmetric] gf sz)
    show "(lo_lnum st', lo_len st') = node_end c (last_node c)"
      unfolding ln node_end_Suc st1(3) [symmetric] by (simp add: after_def st'(4,5))
    show "tree_stored c (uc_pnode_cnt c + uc_nnode_cnt c) st'"
      using tree_stored_mono [OF inv(3) keeps_trans [OF keeps_trans [OF st1(6) st2(2)] st'(7)]] by (simp add: n_def)
    show "root_at st' pos" using assms(4) st1(4,5) st'(3) by (simp add: root_at_def d_def)
  qed (rule st'(2))
qed

text \<open>A node is on flash.\<close>

definition flashed :: "lpt_out \<Rightarrow> nat \<times> nat \<Rightarrow> bytes \<Rightarrow> bool" where
  "flashed st pos img \<longleftrightarrow> (\<exists>b. lo_lebs st (fst pos) = Some b \<and> chunk b (snd pos) (length img) = Some img)"

lemma write_last_leb:
  assumes "out_ok c st" "wr (lo_lnum st)" "lo_len st \<le> alen" "alen \<le> uc_leb_size c"
  obtains st' where "write_leb wr (lo_lnum st) alen (st\<lparr>lo_buf := overwrite (lo_len st) (memset 0xFF (alen - lo_len st)) (lo_buf st)\<rparr>) = Ret st'"
    "lo_c st' = lo_c st" "lo_lnum st' = lo_lnum st" "\<forall>pos img. stored st pos img \<longrightarrow> flashed st' pos img"
proof -
  let ?st = "st\<lparr>lo_buf := overwrite (lo_len st) (memset 0xFF (alen - lo_len st)) (lo_buf st)\<rparr>"
  have g: "uc_leb_size (lo_c st) = uc_leb_size c" "length (lo_buf st) = uc_leb_size c"
    using assms(1) geo_fields(1) [of "lo_c st" c] by (simp_all add: out_ok_def)
  have a: "wr (lo_lnum st)" "length (lo_buf ?st) = uc_leb_size (lo_c ?st)" "alen \<le> uc_leb_size (lo_c ?st)"
    using assms g by simp_all
  obtain b where b: "write_leb wr (lo_lnum st) alen ?st = Ret (?st\<lparr>lo_buf := b, lo_lebs := (lo_lebs ?st)(lo_lnum st \<mapsto> b)\<rparr>)"
    "length b = uc_leb_size (lo_c ?st)" "take alen b = take alen (lo_buf ?st)"
    by (rule write_leb_ok [where wr = wr and lnum = "lo_lnum st", OF a])
  have "take (lo_len st) b = take (lo_len st) (take alen (lo_buf ?st))" using assms(3) by (simp only: b(3) [symmetric] take_take min_absorb1)
  also have "\<dots> = take (lo_len st) (lo_buf st)" using assms(3,4) g by (simp add: overwrite_def min_def)
  finally have same: "take (lo_len st) b = take (lo_len st) (lo_buf st)" .
  have le: "lo_len st \<le> length (lo_buf st)" using assms(3,4) g(2) by simp
  have "flashed (?st\<lparr>lo_buf := b, lo_lebs := (lo_lebs ?st)(lo_lnum st \<mapsto> b)\<rparr>) pos img" if s: "stored st pos img" for pos img
  proof (cases "fst pos = lo_lnum st")
    case True
    then have "chunk (take (lo_len st) (lo_buf st)) (snd pos) (length img) = Some img" using s by (simp add: stored_def)
    then have "chunk b (snd pos) (length img) = Some img"
      by (rule chunk_prefix) (use same le in \<open>simp add: min_absorb2\<close>)
    then show ?thesis using True by (simp add: flashed_def)
  qed (use s in \<open>auto simp: stored_def flashed_def\<close>)
  then show thesis by (intro that [OF b(1)]) simp_all
qed

lemma pack_ltab_image:
  assumes "lpt_ok c" "geo d = geo c" "ltab_ok c (uc_ltab d)" "off + uc_ltab_sz c \<le> length buf"
  shows "pack_ltab d off (uc_ltab d) buf = Ret (overwrite off (node_image (ltab_fields c (uc_ltab d))) buf)"
    "length (node_image (ltab_fields c (uc_ltab d))) = uc_ltab_sz c"
proof -
  have lt: "length (uc_ltab d) = uc_lpt_lebs c" "list_all (\<lambda>lt. lt_free lt \<le> uc_leb_size c \<and> lt_dirty lt \<le> uc_leb_size c) (uc_ltab d)"
    using assms(3) by (simp_all add: ltab_ok_def)
  note fit = ltab_fields_fit [OF assms(1) lt]
  have "pack_node (uc_ltab_sz c) (ltab_fields c (uc_ltab d)) off buf = Ret (overwrite off (node_image (ltab_fields c (uc_ltab d))) buf)"
    by (rule pack_node_image) (use fit assms(4) in simp_all)
  then show "pack_ltab d off (uc_ltab d) buf = Ret (overwrite off (node_image (ltab_fields c (uc_ltab d))) buf)"
    by (simp add: pack_ltab_def lt(1) geo_fields [OF assms(2)] geo_packers [OF assms(2)])
  show "length (node_image (ltab_fields c (uc_ltab d))) = uc_ltab_sz c" using fit(2) by (simp add: length_node_image)
qed

lemma add_ltab_inv:
  assumes "lpt_ok c" "\<And>l. wr l" "out_ok c st" "(lo_lnum st, lo_len st) = node_end c (last_node c)" "root_at st pos"
  obtains st' where "add_ltab wr st = Ret st'" "geo (lo_c st') = geo c" "root_at st' pos"
    "\<forall>pos img. stored st pos img \<longrightarrow> flashed st' pos img"
    "flashed st' (uc_ltab_lnum (lo_c st'), uc_ltab_offs (lo_c st')) (node_image (ltab_fields c (uc_ltab (lo_c st'))))"
    "ltab_ok c (uc_ltab (lo_c st'))"
proof -
  have sz: "node_sz c (last_node c) = uc_ltab_sz c" by (simp add: node_sz_def last_node_def)
  obtain st1 where st1: "need_space wr (node_sz c (last_node c)) st = Ret st1" "out_ok c st1" "(lo_lnum st1, lo_len st1) = node_at c (last_node c)"
    "uc_lpt_lnum (lo_c st1) = uc_lpt_lnum (lo_c st)" "uc_lpt_offs (lo_c st1) = uc_lpt_offs (lo_c st)"
    "keeps st st1" "lo_len st1 + node_sz c (last_node c) \<le> uc_leb_size c"
    by (rule space_for_node [where wr = wr, OF assms(1-4) order_refl])
  define d where "d = (lo_c st1)\<lparr>uc_ltab_lnum := lo_lnum st1, uc_ltab_offs := lo_len st1\<rparr>"
  define len where "len = lo_len st1 + uc_ltab_sz c"
  define alen where "alen = ALIGN len (uc_min_io_size c)"
  have g: "geo (lo_c st) = geo c" "geo d = geo c" "ltab_ok c (uc_ltab d)" "length (lo_buf st1) = uc_leb_size c" "uc_lpt_first c \<le> lo_lnum st1"
    using assms(3) st1(2) by (simp_all add: out_ok_def d_def geo_def)
  obtain k where k: "uc_min_io_size c = 2 ^ k" using lpt_okD(5) [OF assms(1)] by blast
  have al: "len \<le> alen" "alen \<le> uc_leb_size c"
    using ALIGN_bounds [OF k, of len] st1(7) lpt_okD(4) [OF assms(1)] by (simp_all add: alen_def len_def sz)
  have lnum: "lo_lnum st1 - uc_lpt_first c < uc_lpt_lebs c"
    using node_at_range(2) [OF assms(1) order_refl] lpt_okD(9,14) [OF assms(1)] g(5) unfolding st1(3) [symmetric] by simp
  have fd: "uc_leb_size c - alen \<le> uc_leb_size c" "alen - len \<le> uc_leb_size c" using al by simp_all
  obtain e where e: "set_ltab (lo_lnum st1) (uc_leb_size c - alen) (alen - len) d = Ret e" "geo e = geo d" "ltab_ok c (uc_ltab e)"
    "uc_lpt_lnum e = uc_lpt_lnum d" "uc_lpt_offs e = uc_lpt_offs d"
    by (rule set_ltab_ok [OF g(2,3,5) lnum fd])
  have ge: "geo e = geo c" "uc_ltab_lnum e = lo_lnum st1" "uc_ltab_offs e = lo_len st1"
    using e(1,2) g(2) by (auto simp: set_ltab_def d_def split: if_splits)
  have room: "lo_len (st1\<lparr>lo_c := e\<rparr>) + uc_ltab_sz c \<le> length (lo_buf (st1\<lparr>lo_c := e\<rparr>))"
    "lo_len (st1\<lparr>lo_c := e\<rparr>) + uc_ltab_sz c \<le> uc_leb_size c" using st1(7) g(4) sz by simp_all
  have st2: "out_ok c (st1\<lparr>lo_c := e\<rparr>)" "keeps st1 (st1\<lparr>lo_c := e\<rparr>)"
    using st1(2) ge(1) e(3) by (simp_all add: out_ok_def keeps_def stored_def)
  let ?img = "node_image (ltab_fields c (uc_ltab e))"
  note pk = pack_ltab_image [OF assms(1) ge(1) e(3) room(1)]
  obtain st3 where st3: "put_node (uc_ltab_sz c) (pack_ltab e (lo_len (st1\<lparr>lo_c := e\<rparr>)) (uc_ltab e) (lo_buf (st1\<lparr>lo_c := e\<rparr>))) (st1\<lparr>lo_c := e\<rparr>) = Ret st3"
    "out_ok c st3" "lo_c st3 = lo_c (st1\<lparr>lo_c := e\<rparr>)" "lo_lnum st3 = lo_lnum (st1\<lparr>lo_c := e\<rparr>)"
    "lo_len st3 = lo_len (st1\<lparr>lo_c := e\<rparr>) + uc_ltab_sz c"
    "stored st3 (lo_lnum (st1\<lparr>lo_c := e\<rparr>), lo_len (st1\<lparr>lo_c := e\<rparr>)) ?img" "keeps (st1\<lparr>lo_c := e\<rparr>) st3"
    by (rule put_node_ok [OF st2(1) pk(2) room(2) pk(1)])
  have len3: "lo_len st3 = len" by (simp add: st3(5) len_def)
  obtain st4 where st4: "write_leb wr (lo_lnum st3) alen (st3\<lparr>lo_buf := overwrite (lo_len st3) (memset 0xFF (alen - lo_len st3)) (lo_buf st3)\<rparr>) = Ret st4"
    "lo_c st4 = lo_c st3" "lo_lnum st4 = lo_lnum st3" "\<forall>pos img. stored st3 pos img \<longrightarrow> flashed st4 pos img"
    by (rule write_last_leb [where wr = wr, OF st3(2) assms(2) al(1) [folded len3] al(2)])
  define st5 where "st5 = st4\<lparr>lo_c := (lo_c st4)\<lparr>uc_nhead_lnum := lo_lnum st4, uc_nhead_offs := alen\<rparr>\<rparr>"
  have c5: "lo_c st5 = e\<lparr>uc_nhead_lnum := lo_lnum st4, uc_nhead_offs := alen\<rparr>" by (simp add: st5_def st4(2) st3(3))
  have flash: "flashed st5 pos img" if "stored st3 pos img" for pos img
    using st4(4) that by (simp add: st5_def flashed_def)
  note gd = geo_fields [OF g(2)] and gee = geo_fields [OF ge(1)]
  show thesis
  proof (rule that)
    have "\<not> (alen < len \<or> alen > uc_leb_size c)" using al by simp
    then show "add_ltab wr st = Ret st5"
      unfolding add_ltab_def geo_fields(8) [OF g(1)] sz [symmetric] st1(1) outcome.case Let_def d_def [symmetric]
      unfolding gd sz len_def [symmetric] alen_def [symmetric] e(1) outcome.case gee
      using st3(1) st4(1) by (simp add: st5_def len3)
    show "geo (lo_c st5) = geo c" using ge(1) by (simp add: c5 geo_def)
    show "root_at st5 pos" using assms(5) st1(4,5) e(4,5) by (simp add: c5 root_at_def d_def)
    show "\<forall>pos img. stored st pos img \<longrightarrow> flashed st5 pos img"
      using flash keepsD [OF keeps_trans [OF keeps_trans [OF st1(6) st2(2)] st3(7)]] by blast
    show "flashed st5 (uc_ltab_lnum (lo_c st5), uc_ltab_offs (lo_c st5)) (node_image (ltab_fields c (uc_ltab (lo_c st5))))"
      using flash [OF st3(6)] by (simp add: c5 ge)
    show "ltab_ok c (uc_ltab (lo_c st5))" using e(3) by (simp add: c5)
  qed
qed

text \<open>The whole creation: every node of the tree is on flash, and the description points to the root and the table.\<close>

lemma create_lpt_nodes:
  assumes "lpt_ok c" "\<And>l. wr l" "length junk = uc_leb_size c"
  obtains st where "create_lpt wr junk c = Ret st" "geo (lo_c st) = geo c"
    "root_at st (node_at c (below (uc_pnode_cnt c) (uc_lpt_hght c)))"
    "\<forall>t i. t \<le> uc_lpt_hght c \<longrightarrow> i < level (uc_pnode_cnt c) t \<longrightarrow> flashed st (node_at c (below (uc_pnode_cnt c) t + i)) (node_img c t i)"
    "flashed st (uc_ltab_lnum (lo_c st), uc_ltab_offs (lo_c st)) (node_image (ltab_fields c (uc_ltab (lo_c st))))"
    "ltab_ok c (uc_ltab (lo_c st))"
proof -
  note ok = lpt_okD [OF assms(1)]
  define d where "d = c\<lparr>uc_lscan_lnum := uc_main_first c\<rparr>"
  have d: "geo d = geo c" by (simp add: d_def geo_def)
  define st0 where "st0 = \<lparr>lo_c = d, lo_buf = junk, lo_len = 0, lo_lnum = uc_lpt_first c, lo_lebs = Map.empty\<rparr>"
  have inv0: "tree_inv c 0 st0"
    using d assms(3) ok(17,19) by (simp add: tree_inv_def tree_stored_def out_ok_def ltab_ok_def st0_def d_def)
  have cnt: "drop_bit UBIFS_LPT_FANOUT_SHIFT (uc_main_lebs c + UBIFS_LPT_FANOUT - 1) = uc_pnode_cnt c"
    by (simp add: geom_fields(1) [OF ok(1)] lpt_consts drop_bit_eq_div add.commute)
  obtain st1 where st1: "add_pnodes wr [0..<uc_pnode_cnt c] st0 = Ret st1" "tree_inv c (uc_pnode_cnt c) st1"
    using add_pnodes_inv [where wr = wr, OF assms(1,2) inv0 le0 order_refl] by blast
  have b: "branches_from c 0 0 = \<lparr>br_lnum = uc_lpt_first c, br_offs = 0, br_sz = uc_pnode_sz c, br_cnt = uc_pnode_cnt c\<rparr>"
    by (simp add: branches_from_def bst_def level_sz_def)
  have inv1: "tree_inv c (below (uc_pnode_cnt c) (Suc 0)) st1" using st1(2) by simp
  obtain st2 where st2: "add_levels wr (uc_lpt_hght c - Suc 0) (level (uc_pnode_cnt c) 0) (branches_from c 0 0) st1 = Ret st2"
    "tree_inv c (uc_pnode_cnt c + uc_nnode_cnt c) st2" "root_at st2 (node_at c (below (uc_pnode_cnt c) (uc_lpt_hght c)))"
    using add_levels_inv [where wr = wr, OF assms(1,2) tree_shape(2) [OF assms(1)] inv1] by blast
  obtain st3 where st3: "add_lsave wr st2 = Ret st3" "out_ok c st3" "(lo_lnum st3, lo_len st3) = node_end c (last_node c)"
    "tree_stored c (uc_pnode_cnt c + uc_nnode_cnt c) st3" "root_at st3 (node_at c (below (uc_pnode_cnt c) (uc_lpt_hght c)))"
    by (rule add_lsave_inv [where wr = wr, OF assms(1,2) st2(2,3)])
  obtain st4 where st4: "add_ltab wr st3 = Ret st4" "geo (lo_c st4) = geo c"
    "root_at st4 (node_at c (below (uc_pnode_cnt c) (uc_lpt_hght c)))"
    "\<forall>pos img. stored st3 pos img \<longrightarrow> flashed st4 pos img"
    "flashed st4 (uc_ltab_lnum (lo_c st4), uc_ltab_offs (lo_c st4)) (node_image (ltab_fields c (uc_ltab (lo_c st4))))"
    "ltab_ok c (uc_ltab (lo_c st4))"
    by (rule add_ltab_inv [where wr = wr, OF assms(1,2) st3(2,3,5)])
  have "create_lpt wr junk c = Ret st4"
    unfolding create_lpt_def Let_def d_def [symmetric] geo_fields [OF d] cnt st0_def [symmetric]
    using st1(1) st2(1) st3(1) st4(1) ok(16) by (simp add: b)
  moreover have "flashed st4 (node_at c (below (uc_pnode_cnt c) t + i)) (node_img c t i)"
    if "t \<le> uc_lpt_hght c" "i < level (uc_pnode_cnt c) t" for t i
    using st3(4) st4(4) level_index_range(1) [OF assms(1) that] that(2) unfolding tree_stored_def by blast
  ultimately show thesis using that st4(2,3,5,6) by blast
qed

section \<open>Looking up\<close>

text \<open>The reader of the tree: the widths of the fields of the nodes, the bytes of a node of a size at a position,
  accepted when the checksum and the type are right, and the way from the root to the properties of a LEB.\<close>

definition head_widths :: "ubifs_info \<Rightarrow> nat list" where
  "head_widths c = UBIFS_LPT_TYPE_BITS # (if uc_big_lpt c then [uc_pcnt_bits c] else [])"

definition pnode_widths :: "ubifs_info \<Rightarrow> nat list" where
  "pnode_widths c = head_widths c @ concat (replicate 4 [uc_space_bits c, uc_space_bits c, 1])"

definition nnode_widths :: "ubifs_info \<Rightarrow> nat list" where
  "nnode_widths c = head_widths c @ concat (replicate 4 [uc_lpt_lnum_bits c, uc_lpt_offs_bits c])"

definition read_node :: "(nat \<rightharpoonup> bytes) \<Rightarrow> nat \<Rightarrow> nat list \<Rightarrow> nat \<Rightarrow> nat \<times> nat \<Rightarrow> nat list option" where
  "read_node lebs sz ws ty pos =
     (case lebs (fst pos) of None \<Rightarrow> None
      | Some b \<Rightarrow>
          (case chunk b (snd pos) sz of None \<Rightarrow> None
           | Some node \<Rightarrow> if node_crc_ok node \<and> hd (unpack_node ws node) = ty then Some (unpack_node ws node) else None))"

fun lpt_walk :: "ubifs_info \<Rightarrow> (nat \<rightharpoonup> bytes) \<Rightarrow> nat \<Rightarrow> nat \<times> nat \<Rightarrow> nat \<Rightarrow> (nat \<times> nat \<times> nat) option" where
  "lpt_walk c lebs 0 pos k =
     (case read_node lebs (uc_pnode_sz c) (pnode_widths c) 0 pos of None \<Rightarrow> None
      | Some vs \<Rightarrow>
          (let vs = drop (length (head_widths c)) vs; j = k mod 4 in Some (vs ! (3 * j), vs ! (3 * j + 1), vs ! (3 * j + 2))))"
| "lpt_walk c lebs (Suc t) pos k =
     (case read_node lebs (uc_nnode_sz c) (nnode_widths c) 1 pos of None \<Rightarrow> None
      | Some vs \<Rightarrow>
          (let vs = drop (length (head_widths c)) vs; j = (k div 4 ^ Suc t) mod 4
           in if vs ! (2 * j) = uc_lpt_lebs c then None
              else lpt_walk c lebs t (uc_lpt_first c + vs ! (2 * j), vs ! (2 * j + 1)) k))"

definition lpt_lookup :: "ubifs_info \<Rightarrow> (nat \<rightharpoonup> bytes) \<Rightarrow> nat \<Rightarrow> (nat \<times> nat \<times> nat) option" where
  "lpt_lookup c lebs k = lpt_walk c lebs (uc_lpt_hght c) (uc_lpt_lnum c, uc_lpt_offs c) k"

lemma read_node_flashed:
  assumes "flashed st pos (node_image fs)" "list_all fits fs" "sz = node_size fs" "ws = map snd fs" "fs \<noteq> []" "unat (fst (hd fs)) = ty"
  shows "read_node (lo_lebs st) sz ws ty pos = Some (map (unat \<circ> fst) fs)"
  using assms(1) unpack_node_image [OF assms(2)] assms(3-6)
  by (auto simp: read_node_def flashed_def length_node_image hd_map)

lemma nth_concat3:
  assumes "\<And>x. length (f x) = 3" "j < length xs" "r < 3"
  shows "concat (map f xs) ! (3 * j + r) = f (xs ! j) ! r"
  using assms(2)
proof (induction xs arbitrary: j)
  case (Cons x xs)
  then show ?case using assms(1,3) by (cases j) (simp_all add: nth_append)
qed simp

lemma nth_concat2:
  assumes "\<And>x. length (f x) = 2" "j < length xs" "r < 2"
  shows "concat (map f xs) ! (2 * j + r) = f (xs ! j) ! r"
  using assms(2)
proof (induction xs arbitrary: j)
  case (Cons x xs)
  then show ?case using assms(1,3) by (cases j) (simp_all add: nth_append)
qed simp

text \<open>The values of a leaf and of an inner node behind their heads.\<close>

lemma pnode_values:
  assumes "lpt_ok c"
  shows "map snd (pnode_fields c (pnode_of c i)) = pnode_widths c"
    "drop (length (head_widths c)) (map (unat \<circ> fst) (pnode_fields c (pnode_of c i)))
       = concat (map (\<lambda>lp. [lp_free lp div 8, lp_dirty lp div 8, if lp_flags lp AND LPROPS_INDEX \<noteq> 0 then 1 else 0]) (pn_lprops (pnode_of c i)))"
proof -
  have "map snd (concat (map (lprops_fields c) lps)) = concat (replicate (length lps) [uc_space_bits c, uc_space_bits c, 1])" for lps
    by (induction lps) (simp_all add: lprops_fields_def)
  then show "map snd (pnode_fields c (pnode_of c i)) = pnode_widths c"
    using pnode_of_ok(1) [OF assms] by (simp add: pnode_fields_def pnode_widths_def head_widths_def)
  have "map (unat \<circ> fst) (concat (map (lprops_fields c) lps))
      = concat (map (\<lambda>lp. [lp_free lp div 8, lp_dirty lp div 8, if lp_flags lp AND LPROPS_INDEX \<noteq> 0 then 1 else 0]) lps)"
    if "list_all (lp_ok c) lps" for lps
    using that by (induction lps) (simp_all only: list.map concat.simps map_append list.pred_inject lprops_fields_fit(2) [OF assms])
  from this [OF pnode_of_ok(2) [OF assms]] show "drop (length (head_widths c)) (map (unat \<circ> fst) (pnode_fields c (pnode_of c i)))
       = concat (map (\<lambda>lp. [lp_free lp div 8, lp_dirty lp div 8, if lp_flags lp AND LPROPS_INDEX \<noteq> 0 then 1 else 0]) (pn_lprops (pnode_of c i)))"
    by (simp add: pnode_fields_def head_widths_def)
qed

lemma nnode_values:
  assumes "lpt_ok c" "t < uc_lpt_hght c"
  shows "map snd (nnode_fields c (nnode_of c t i)) = nnode_widths c"
    "drop (length (head_widths c)) (map (unat \<circ> fst) (nnode_fields c (nnode_of c t i)))
       = concat (map (branch_value c) (nn_nbranch (nnode_of c t i)))"
proof -
  have "map snd (concat (map (nbranch_fields c) brs)) = concat (replicate (length brs) [uc_lpt_lnum_bits c, uc_lpt_offs_bits c])" for brs
    by (induction brs) (simp_all add: nbranch_fields_def Let_def)
  moreover have "length (nn_nbranch (nnode_of c t i)) = 4" by (simp add: nnode_of_def)
  ultimately show "map snd (nnode_fields c (nnode_of c t i)) = nnode_widths c"
    by (simp add: nnode_fields_def nnode_widths_def head_widths_def)
  have br: "list_all (branch_ok c) (nn_nbranch (nnode_of c t i))"
    using branch_to_ok [OF assms(1) less_imp_le [OF assms(2)]] by (simp add: nnode_of_def list_all_iff)
  have "map (unat \<circ> fst) (concat (map (nbranch_fields c) brs)) = concat (map (branch_value c) brs)" if "list_all (branch_ok c) brs" for brs
    using that by (induction brs) (simp_all only: list.map concat.simps map_append list.pred_inject nbranch_fields_fit(2) [OF assms(1)])
  from this [OF br] show "drop (length (head_widths c)) (map (unat \<circ> fst) (nnode_fields c (nnode_of c t i)))
       = concat (map (branch_value c) (nn_nbranch (nnode_of c t i)))"
    by (simp add: nnode_fields_def head_widths_def)
qed

text \<open>From the node of level \<open>t\<close> above a LEB, the walk ends at the properties of the LEB.\<close>

lemma lpt_walk_flashed:
  assumes ok: "lpt_ok c"
    and nodes: "\<And>t i. t \<le> uc_lpt_hght c \<Longrightarrow> i < level (uc_pnode_cnt c) t \<Longrightarrow>
      flashed st (node_at c (below (uc_pnode_cnt c) t + i)) (node_img c t i)"
    and k: "k < uc_main_lebs c" and t: "t \<le> uc_lpt_hght c"
  shows "lpt_walk c (lo_lebs st) t (node_at c (below (uc_pnode_cnt c) t + k div 4 ^ Suc t)) k
    = Some (lp_free (uc_lpt c ! k) div 8, lp_dirty (uc_lpt c ! k) div 8, if lp_flags (uc_lpt c ! k) AND LPROPS_INDEX \<noteq> 0 then 1 else 0)"
  using t
proof (induction t)
  case 0
  have i: "k div 4 < uc_pnode_cnt c" using k by (simp add: geom_fields(1) [OF lpt_okD(1) [OF ok]])
  let ?fs = "pnode_fields c (pnode_of c (k div 4))"
  have "flashed st (node_at c (k div 4)) (node_image ?fs)" using nodes [of 0 "k div 4"] i by simp
  then have r: "read_node (lo_lebs st) (uc_pnode_sz c) (pnode_widths c) 0 (node_at c (k div 4)) = Some (map (unat \<circ> fst) ?fs)"
    by (rule read_node_flashed) (use pnode_fields_fit [OF ok i] pnode_values(1) [OF ok] in \<open>simp_all add: pnode_fields_def lpt_consts\<close>)
  define vs where "vs = drop (length (head_widths c)) (map (unat \<circ> fst) ?fs)"
  have "pn_lprops (pnode_of c (k div 4)) ! (k mod 4) = uc_lpt c ! k"
    using k by (simp add: pnode_of_def Let_def lpt_consts push_bit_eq_mult)
  moreover have "vs ! (3 * (k mod 4) + r) = [lp_free lp div 8, lp_dirty lp div 8, if lp_flags lp AND LPROPS_INDEX \<noteq> 0 then 1 else 0] ! r"
    if "r < 3" "lp = pn_lprops (pnode_of c (k div 4)) ! (k mod 4)" for r lp
    unfolding vs_def pnode_values(2) [OF ok] that(2)
    by (rule nth_concat3) (use that(1) pnode_of_ok(1) [OF ok] in simp_all)
  ultimately have "vs ! (3 * (k mod 4) + r) = [lp_free (uc_lpt c ! k) div 8, lp_dirty (uc_lpt c ! k) div 8,
      if lp_flags (uc_lpt c ! k) AND LPROPS_INDEX \<noteq> 0 then 1 else 0] ! r" if "r < 3" for r
    using that by metis
  from this [of 0] this [of 1] this [of 2] have "vs ! (3 * (k mod 4)) = lp_free (uc_lpt c ! k) div 8"
    "vs ! (3 * (k mod 4) + 1) = lp_dirty (uc_lpt c ! k) div 8"
    "vs ! (3 * (k mod 4) + 2) = (if lp_flags (uc_lpt c ! k) AND LPROPS_INDEX \<noteq> 0 then 1 else 0)" by simp_all
  then show ?case
    using r unfolding lpt_walk.simps Let_def below_Suc(2) add_0 power_one_right power_Suc0_right
    by (simp only: option.case vs_def [symmetric])
next
  case (Suc t)
  let ?i = "k div 4 ^ Suc (Suc t)" and ?m = "k div 4 ^ Suc t" and ?b = "below (uc_pnode_cnt c)"
  have t: "t < uc_lpt_hght c" "t \<le> uc_lpt_hght c" using Suc.prems by simp_all
  have pn: "k div 4 < uc_pnode_cnt c" using k by (simp add: geom_fields(1) [OF lpt_okD(1) [OF ok]])
  have lev: "k div 4 ^ Suc s < level (uc_pnode_cnt c) s" for s
    using level_index [OF pn, of s] by (simp add: div_mult2_eq)
  have "?i = ?m div 4" by (simp only: power_Suc2 [of 4 "Suc t"] div_mult2_eq)
  then have j: "4 * ?i + ?m mod 4 = ?m" by (simp only: mult_div_mod_eq)
  let ?fs = "nnode_fields c (nnode_of c t ?i)"
  have "flashed st (node_at c (?b (Suc t) + ?i)) (node_image ?fs)" using nodes [OF Suc.prems lev [of "Suc t"]] by simp
  then have r: "read_node (lo_lebs st) (uc_nnode_sz c) (nnode_widths c) 1 (node_at c (?b (Suc t) + ?i)) = Some (map (unat \<circ> fst) ?fs)"
    by (rule read_node_flashed) (use nnode_img_fit [OF ok t(1)] nnode_values(1) [OF ok t(1)] in \<open>simp_all add: nnode_fields_def lpt_consts\<close>)
  define vs where "vs = drop (length (head_widths c)) (map (unat \<circ> fst) ?fs)"
  define pos where "pos = node_at c (?b t + ?m)"
  have le: "?b t + ?m \<le> last_node c" using level_index_range(1) [OF ok t(2) lev] by (simp add: last_node_def)
  note rng = node_at_range [OF ok le, folded pos_def]
  have "nn_nbranch (nnode_of c t ?i) ! (?m mod 4) = \<lparr>nb_lnum = fst pos, nb_offs = snd pos\<rparr>"
    using lev [of t] by (simp add: nnode_of_def j branch_to_def Let_def pos_def del: power_Suc)
  moreover have "vs ! (2 * (?m mod 4) + r) = branch_value c (nn_nbranch (nnode_of c t ?i) ! (?m mod 4)) ! r" if "r < 2" for r
    unfolding vs_def nnode_values(2) [OF ok t(1)]
    by (rule nth_concat2) (use that in \<open>simp_all add: branch_value_def nnode_of_def\<close>)
  ultimately have "vs ! (2 * (?m mod 4) + r) = [fst pos - uc_lpt_first c, snd pos] ! r" if "r < 2" for r
    using that rng(1) lpt_okD(13) [OF ok] by (simp add: branch_value_def)
  from this [of 0] this [of 1] have v: "vs ! (2 * (?m mod 4)) = fst pos - uc_lpt_first c" "vs ! (2 * (?m mod 4) + 1) = snd pos" by simp_all
  have ne: "fst pos - uc_lpt_first c \<noteq> uc_lpt_lebs c" using rng(1,2) lpt_okD(9,14) [OF ok] by linarith
  have p: "(uc_lpt_first c + (fst pos - uc_lpt_first c), snd pos) = pos" using rng(1) by simp
  have "lpt_walk c (lo_lebs st) (Suc t) (node_at c (?b (Suc t) + ?i)) k = lpt_walk c (lo_lebs st) t pos k"
    unfolding lpt_walk.simps r option.case Let_def vs_def [symmetric] v p using ne by simp
  then show ?case using Suc.IH [OF t(2)] by (simp only: pos_def)
qed

lemma lpt_walk_geo:
  assumes "geo d = geo c"
  shows "lpt_walk d lebs t pos k = lpt_walk c lebs t pos k"
proof (induction t arbitrary: pos)
  have w: "head_widths d = head_widths c" "pnode_widths d = pnode_widths c" "nnode_widths d = nnode_widths c"
    by (simp_all add: pnode_widths_def nnode_widths_def head_widths_def geo_fields [OF assms])
  case 0
  show ?case unfolding lpt_walk.simps w geo_fields [OF assms] by (rule refl)
next
  have w: "head_widths d = head_widths c" "nnode_widths d = nnode_widths c"
    by (simp_all add: nnode_widths_def head_widths_def geo_fields [OF assms])
  case (Suc t)
  then show ?case unfolding lpt_walk.simps w geo_fields [OF assms] by (simp only:)
qed

definition ltab_widths :: "ubifs_info \<Rightarrow> nat list" where
  "ltab_widths c = UBIFS_LPT_TYPE_BITS # concat (replicate (uc_lpt_lebs c) [uc_lpt_spc_bits c, uc_lpt_spc_bits c])"

definition ltab_values :: "ubifs_lpt_lprops list \<Rightarrow> nat list" where
  "ltab_values ltab = 2 # concat (map (\<lambda>lt. [lt_free lt, lt_dirty lt]) ltab)"

lemma read_ltab_flashed:
  assumes "lpt_ok c" "ltab_ok c ltab" "flashed st pos (node_image (ltab_fields c ltab))"
  shows "read_node (lo_lebs st) (uc_ltab_sz c) (ltab_widths c) 2 pos = Some (ltab_values ltab)"
proof -
  have lt: "length ltab = uc_lpt_lebs c" "list_all (\<lambda>lt. lt_free lt \<le> uc_leb_size c \<and> lt_dirty lt \<le> uc_leb_size c) ltab"
    using assms(2) by (simp_all add: ltab_ok_def)
  note fit = ltab_fields_fit [OF assms(1) lt]
  let ?f = "\<lambda>lt. [(of_nat (lt_free lt) :: u32, uc_lpt_spc_bits c), (of_nat (lt_dirty lt), uc_lpt_spc_bits c)]"
  have w: "map snd (concat (map ?f lts)) = concat (replicate (length lts) [uc_lpt_spc_bits c, uc_lpt_spc_bits c])" for lts
    by (induction lts) simp_all
  have u: "unat (of_nat v :: u32) = v" if "v \<le> uc_leb_size c" for v
    using that lpt_okD(3) [OF assms(1)] by (intro fits_of_nat(2) [of _ 32]) simp_all
  have v: "map (unat \<circ> fst) (concat (map ?f lts)) = concat (map (\<lambda>lt. [lt_free lt, lt_dirty lt]) lts)"
    if "list_all (\<lambda>lt. lt_free lt \<le> uc_leb_size c \<and> lt_dirty lt \<le> uc_leb_size c) lts" for lts
    using that by (induction lts) (simp_all add: u)
  have "read_node (lo_lebs st) (uc_ltab_sz c) (ltab_widths c) 2 pos = Some (map (unat \<circ> fst) (ltab_fields c ltab))"
    by (rule read_node_flashed [OF assms(3) fit(1)])
      (use fit(2) lt(1) w [of ltab] in \<open>simp_all add: ltab_widths_def ltab_fields_def lpt_consts\<close>)
  moreover have "map (unat \<circ> fst) (ltab_fields c ltab) = ltab_values ltab"
    using v [OF lt(2)] lt(1) by (simp add: ltab_fields_def ltab_values_def lpt_consts)
  ultimately show ?thesis by simp
qed

lemma create_lpt_readable:
  assumes "lpt_ok c" "\<forall>l. wr l" "length junk = uc_leb_size c"
  obtains st where "create_lpt wr junk c = Ret st"
    "\<And>k. k < uc_main_lebs c \<Longrightarrow> lpt_lookup (lo_c st) (lo_lebs st) k = Some (lp_free (uc_lpt c ! k) div 8, lp_dirty (uc_lpt c ! k) div 8,
       if lp_flags (uc_lpt c ! k) AND LPROPS_INDEX \<noteq> 0 then 1 else 0)"
    "read_node (lo_lebs st) (uc_ltab_sz c) (ltab_widths c) 2 (uc_ltab_lnum (lo_c st), uc_ltab_offs (lo_c st)) = Some (ltab_values (uc_ltab (lo_c st)))"
proof -
  have wr: "\<And>l. wr l" using assms(2) by blast
  let ?pc = "uc_pnode_cnt c" and ?h = "uc_lpt_hght c"
  obtain st where st: "create_lpt wr junk c = Ret st" "geo (lo_c st) = geo c" "root_at st (node_at c (below ?pc ?h))"
    "\<forall>t i. t \<le> ?h \<longrightarrow> i < level ?pc t \<longrightarrow> flashed st (node_at c (below ?pc t + i)) (node_img c t i)"
    "flashed st (uc_ltab_lnum (lo_c st), uc_ltab_offs (lo_c st)) (node_image (ltab_fields c (uc_ltab (lo_c st))))"
    "ltab_ok c (uc_ltab (lo_c st))"
    by (rule create_lpt_nodes [where wr = wr, OF assms(1) wr assms(3)])
  show thesis
  proof (rule that [OF st(1) _ read_ltab_flashed [OF assms(1) st(6,5)]])
    fix k assume k: "k < uc_main_lebs c"
    have "k div 4 < ?pc" using k by (simp add: geom_fields(1) [OF lpt_okD(1) [OF assms(1)]])
    from level_index [OF this, of ?h] have "k div 4 ^ Suc ?h < 1"
      by (simp add: tree_shape(3) [OF assms(1)] div_mult2_eq)
    then have root: "(uc_lpt_lnum (lo_c st), uc_lpt_offs (lo_c st)) = node_at c (below ?pc ?h + k div 4 ^ Suc ?h)"
      using st(3) by (simp add: root_at_def del: power_Suc)
    have "lpt_walk c (lo_lebs st) ?h (node_at c (below ?pc ?h + k div 4 ^ Suc ?h)) k
      = Some (lp_free (uc_lpt c ! k) div 8, lp_dirty (uc_lpt c ! k) div 8, if lp_flags (uc_lpt c ! k) AND LPROPS_INDEX \<noteq> 0 then 1 else 0)"
      by (rule lpt_walk_flashed [OF assms(1) _ k order_refl]) (use st(4) in blast)
    then show "lpt_lookup (lo_c st) (lo_lebs st) k = Some (lp_free (uc_lpt c ! k) div 8, lp_dirty (uc_lpt c ! k) div 8,
       if lp_flags (uc_lpt c ! k) AND LPROPS_INDEX \<noteq> 0 then 1 else 0)"
      unfolding lpt_lookup_def lpt_walk_geo [OF st(2)] geo_fields(12) [OF st(2)] root .
  qed
qed

section \<open>Properties\<close>

text \<open>C7. The tree can be searched. With a consistent geometry, a buffer of one LEB and a device that accepts every write,
  the creation succeeds without leaving its LEBs or its tables, and from the root position it stored in the
  description a reader that checks the checksum and the type of every node finds for every main LEB its free and
  dirty space (in units of eight bytes) and whether it is an index LEB. The table of the tree's own LEBs is found
  at its position as well, with the values of the description.\<close>

theorem create_lpt_lookup:
  assumes "lpt_ok c" "\<forall>l. wr l" "length junk = uc_leb_size c"
  shows "\<exists>st. create_lpt wr junk c = Ret st
    \<and> (\<forall>k < uc_main_lebs c. lpt_lookup (lo_c st) (lo_lebs st) k = Some (lp_free (uc_lpt c ! k) div 8, lp_dirty (uc_lpt c ! k) div 8,
         if lp_flags (uc_lpt c ! k) AND LPROPS_INDEX \<noteq> 0 then 1 else 0))
    \<and> read_node (lo_lebs st) (uc_ltab_sz c) (ltab_widths c) 2 (uc_ltab_lnum (lo_c st), uc_ltab_offs (lo_c st))
        = Some (ltab_values (uc_ltab (lo_c st)))"
  using create_lpt_readable [OF assms] by metis

lemma small_fs_ok: "lpt_ok small_fs"
proof -
  have "(\<exists>k. (2048::nat) = 2 ^ k)" by (rule exI [of _ 11]) simp
  then show ?thesis unfolding lpt_ok_def by (simp add: small_fs_geom) (simp add: small_fs_def list_all_iff)
qed

theorem create_lpt_lookup_witness:
  "\<exists>st. create_lpt (\<lambda>_. True) (replicate 16384 0) small_fs = Ret st
    \<and> lpt_lookup (lo_c st) (lo_lebs st) 0 = Some (256, 64, 0) \<and> lpt_lookup (lo_c st) (lo_lebs st) 5 = Some (512, 0, 1)"
proof -
  have c: "uc_main_lebs small_fs = 6" "uc_leb_size small_fs = 16384" "uc_lpt small_fs ! 0 = \<lparr>lp_free = 2048, lp_dirty = 512, lp_flags = 0\<rparr>"
    "uc_lpt small_fs ! 5 = \<lparr>lp_free = 4096, lp_dirty = 0, lp_flags = 32\<rparr>" by (simp_all add: small_fs_def nth_append)
  have "length (replicate 16384 (0 :: u8)) = uc_leb_size small_fs" using c(2) by simp
  then obtain st where st: "create_lpt (\<lambda>_. True) (replicate 16384 0) small_fs = Ret st"
    and l: "\<forall>k < uc_main_lebs small_fs. lpt_lookup (lo_c st) (lo_lebs st) k = Some (lp_free (uc_lpt small_fs ! k) div 8,
      lp_dirty (uc_lpt small_fs ! k) div 8, if lp_flags (uc_lpt small_fs ! k) AND LPROPS_INDEX \<noteq> 0 then 1 else 0)"
    using create_lpt_lookup [OF small_fs_ok, of "\<lambda>_. True" "replicate 16384 0"] by blast
  show ?thesis using st spec [OF l, of 0] spec [OF l, of 5] by (simp add: c LPROPS_INDEX_def)
qed

end
