(* ===== verification/UbifsNode.thy ===== *)
theory UbifsNode
  imports LptGeom
begin

text \<open>
  The keys and nodes of UBIFS as \<open>mkfs.ubifs\<close> writes them (\<open>mkfs.ubifs/key.h\<close>, \<open>include/mtd/ubifs-media.h\<close>,
  \<open>prepare_node\<close> and \<open>do_pad\<close> of \<open>mkfs.ubifs.c\<close>): the common header with its checksum, the bodies of index nodes
  and the padding behind the last node of a LEB.
\<close>

section \<open>Constants\<close>

definition UBIFS_NODE_MAGIC :: u32 where "UBIFS_NODE_MAGIC = 0x06101831"
definition UBIFS_CRC32_INIT :: u32 where "UBIFS_CRC32_INIT = 0xFFFFFFFF"
definition UBIFS_PADDING_BYTE :: u8 where "UBIFS_PADDING_BYTE = 0xCE"
definition UBIFS_INO_NODE :: u8 where "UBIFS_INO_NODE = 0"
definition UBIFS_DATA_NODE :: u8 where "UBIFS_DATA_NODE = 1"
definition UBIFS_DENT_NODE :: u8 where "UBIFS_DENT_NODE = 2"
definition UBIFS_PAD_NODE :: u8 where "UBIFS_PAD_NODE = 5"
definition UBIFS_SB_NODE :: u8 where "UBIFS_SB_NODE = 6"
definition UBIFS_MST_NODE :: u8 where "UBIFS_MST_NODE = 7"
definition UBIFS_IDX_NODE :: u8 where "UBIFS_IDX_NODE = 9"
definition UBIFS_CS_NODE :: u8 where "UBIFS_CS_NODE = 10"
definition UBIFS_NO_NODE_GROUP :: u8 where "UBIFS_NO_NODE_GROUP = 0"
definition UBIFS_CH_SZ :: nat where "UBIFS_CH_SZ = 24"
definition UBIFS_PAD_NODE_SZ :: nat where "UBIFS_PAD_NODE_SZ = 28"
definition UBIFS_IDX_NODE_SZ :: nat where "UBIFS_IDX_NODE_SZ = 28"
definition UBIFS_BRANCH_SZ :: nat where "UBIFS_BRANCH_SZ = 12"
definition UBIFS_SK_LEN :: nat where "UBIFS_SK_LEN = 8"
definition UBIFS_INO_NODE_SZ :: nat where "UBIFS_INO_NODE_SZ = 160"
definition UBIFS_DENT_NODE_SZ :: nat where "UBIFS_DENT_NODE_SZ = 56"
definition UBIFS_DATA_NODE_SZ :: nat where "UBIFS_DATA_NODE_SZ = 48"
definition UBIFS_BLOCK_SIZE :: nat where "UBIFS_BLOCK_SIZE = 4096"
definition UBIFS_MIN_COMPR_LEN :: nat where "UBIFS_MIN_COMPR_LEN = 128"
definition UBIFS_S_KEY_BLOCK_BITS :: nat where "UBIFS_S_KEY_BLOCK_BITS = 29"
definition UBIFS_S_KEY_HASH_MASK :: u32 where "UBIFS_S_KEY_HASH_MASK = 0x1FFFFFFF"
definition UBIFS_INO_KEY :: u32 where "UBIFS_INO_KEY = 0"
definition UBIFS_DATA_KEY :: u32 where "UBIFS_DATA_KEY = 1"
definition UBIFS_DENT_KEY :: u32 where "UBIFS_DENT_KEY = 2"

lemmas ubifs_consts = UBIFS_CH_SZ_def UBIFS_PAD_NODE_SZ_def UBIFS_IDX_NODE_SZ_def UBIFS_BRANCH_SZ_def UBIFS_SK_LEN_def
  UBIFS_INO_NODE_SZ_def UBIFS_DENT_NODE_SZ_def UBIFS_DATA_NODE_SZ_def UBIFS_BLOCK_SIZE_def

section \<open>Keys\<close>

type_synonym ubifs_key = "u32 \<times> u32"

definition key_mask_hash :: "u32 \<Rightarrow> u32" where
  "key_mask_hash hash = (let hash = hash AND UBIFS_S_KEY_HASH_MASK in if hash \<le> 2 then hash + 3 else hash)"

text \<open>The bytes of the name up to the terminating zero, as signed numbers.\<close>

definition r5_step :: "u32 \<Rightarrow> u8 \<Rightarrow> u32" where
  "r5_step a b = (a + word_of_int (push_bit 4 (sint b)) + word_of_int (drop_bit 4 (sint b))) * 11"

definition key_r5_hash :: "bytes \<Rightarrow> u32" where
  "key_r5_hash str = key_mask_hash (foldl r5_step 0 (takeWhile (\<lambda>b. b \<noteq> 0) str))"

text \<open>The first bytes of the name in the order of the host, here least significant first.\<close>

definition key_test_hash :: "bytes \<Rightarrow> u32" where
  "key_test_hash str = key_mask_hash (le_word (take 4 str @ replicate (4 - length str) 0))"

definition ino_key_init :: "u64 \<Rightarrow> ubifs_key" where
  "ino_key_init inum = (ucast inum, push_bit UBIFS_S_KEY_BLOCK_BITS UBIFS_INO_KEY)"

definition dent_key_init :: "(bytes \<Rightarrow> u32) \<Rightarrow> u64 \<Rightarrow> bytes \<Rightarrow> ubifs_key" where
  "dent_key_init key_hash inum name = (ucast inum, key_hash name OR push_bit UBIFS_S_KEY_BLOCK_BITS UBIFS_DENT_KEY)"

definition data_key_init :: "u64 \<Rightarrow> u32 \<Rightarrow> ubifs_key" where
  "data_key_init inum block = (ucast inum, block OR push_bit UBIFS_S_KEY_BLOCK_BITS UBIFS_DATA_KEY)"

definition key_write_idx :: "ubifs_key \<Rightarrow> bytes" where
  "key_write_idx key = le32 (fst key) @ le32 (snd key)"

definition key_write :: "ubifs_key \<Rightarrow> bytes" where
  "key_write key = le32 (fst key) @ le32 (snd key) @ memset 0 8"

definition keys_cmp :: "ubifs_key \<Rightarrow> ubifs_key \<Rightarrow> int" where
  "keys_cmp key1 key2 =
     (if fst key1 < fst key2 then - 1 else if fst key1 > fst key2 then 1
      else if snd key1 < snd key2 then - 1 else if snd key1 > snd key2 then 1 else 0)"

section \<open>Nodes\<close>

text \<open>A node is its type and its body; \<open>prepare_node\<close> fills in the common header, with the checksum over all that
  follows it.\<close>

definition prepare_node :: "u64 \<Rightarrow> u8 \<Rightarrow> bytes \<Rightarrow> bytes" where
  "prepare_node sqnum node_type body =
     (let rest = le64 sqnum @ le32 (of_nat (UBIFS_CH_SZ + length body)) @ [node_type, UBIFS_NO_NODE_GROUP, 0, 0] @ body
      in le32 UBIFS_NODE_MAGIC @ le32 (mtd_crc32 UBIFS_CRC32_INIT rest (int (length rest))) @ rest)"

definition pad_node :: "nat \<Rightarrow> bytes" where
  "pad_node pad_len = prepare_node 0 UBIFS_PAD_NODE (le32 (of_nat pad_len))"

definition do_pad :: "nat \<Rightarrow> bytes \<Rightarrow> nat \<Rightarrow> (unit, bytes \<times> nat) outcome" where
  "do_pad min_io_size buf len =
     (let alen = ALIGN len 8; wlen = ALIGN alen min_io_size; pad_len = wlen - alen in
      if alen < len \<or> wlen < alen \<or> wlen > length buf then Undef
      else
        let buf = overwrite len (memset 0xff (alen - len)) buf;
            buf = (if pad_len \<ge> UBIFS_PAD_NODE_SZ
                   then overwrite alen (pad_node (pad_len - UBIFS_PAD_NODE_SZ) @ memset 0 (pad_len - UBIFS_PAD_NODE_SZ)) buf
                   else overwrite alen (memset UBIFS_PADDING_BYTE pad_len) buf)
        in Ret (buf, wlen))"

text \<open>The index nodes.\<close>

record zbranch =
  zb_key :: ubifs_key
  zb_lnum :: nat
  zb_offs :: nat
  zb_len :: nat

definition ubifs_idx_node_sz :: "nat \<Rightarrow> nat" where
  "ubifs_idx_node_sz child_cnt = UBIFS_IDX_NODE_SZ + (UBIFS_BRANCH_SZ + UBIFS_SK_LEN) * child_cnt"

definition branch_bytes :: "zbranch \<Rightarrow> bytes" where
  "branch_bytes br = le32 (of_nat (zb_lnum br)) @ le32 (of_nat (zb_offs br)) @ le32 (of_nat (zb_len br)) @ key_write_idx (zb_key br)"

definition idx_body :: "nat \<Rightarrow> zbranch list \<Rightarrow> bytes" where
  "idx_body lvl brs = le16 (of_nat (length brs)) @ le16 (of_nat lvl) @ concat (map branch_bytes brs)"

section \<open>Keys as numbers\<close>

definition key_num :: "ubifs_key \<Rightarrow> nat" where
  "key_num key = unat (fst key) * 2 ^ 32 + unat (snd key)"

lemma key_num_inject: "key_num a = key_num b \<longleftrightarrow> a = b"
proof -
  have lt: "unat (snd k) < 2 ^ 32" for k :: ubifs_key using unsigned_less [of "snd k"] by simp
  have "x = x' \<and> y = y'" if "x * 2 ^ 32 + y = x' * 2 ^ 32 + y'" "y < 2 ^ 32" "y' < 2 ^ 32" for x y x' y' :: nat
    using that by (metis div_mult_self3 div_less add.right_neutral add_left_cancel mod_less mod_mult_self3 power_not_zero zero_neq_numeral)
  from this [OF _ lt lt, of "unat (fst a)" a "unat (fst b)" b] show ?thesis
    by (auto simp: key_num_def prod_eq_iff unsigned_word_eqI)
qed

lemma keys_cmp_num: "keys_cmp a b = sgn (int (key_num a) - int (key_num b))"
proof -
  have lt: "unat (snd k) < 2 ^ 32" for k :: ubifs_key using unsigned_less [of "snd k"] by simp
  have *: "x * 2 ^ 32 + y < x' * 2 ^ 32 + y'" if "x < x'" "y < 2 ^ 32" for x y x' y' :: nat using that by simp
  consider "fst a < fst b" | "fst b < fst a" | "fst a = fst b" by fastforce
  then show ?thesis
  proof cases
    case 1
    then have "key_num a < key_num b" using * [OF _ lt] by (simp add: key_num_def word_less_nat_alt)
    then show ?thesis using 1 by (simp add: keys_cmp_def)
  next
    case 2
    then have "key_num b < key_num a" using * [OF _ lt] by (simp add: key_num_def word_less_nat_alt)
    then show ?thesis using 2 by (simp add: keys_cmp_def)
  next
    case 3
    consider "snd a < snd b" | "snd b < snd a" | "snd a = snd b" by fastforce
    then show ?thesis
    proof cases
      case lt: 1
      then have "key_num a < key_num b" using 3 by (simp add: key_num_def word_less_nat_alt)
      then show ?thesis using 3 lt by (simp add: keys_cmp_def)
    next
      case gt: 2
      then have "key_num b < key_num a" using 3 by (simp add: key_num_def word_less_nat_alt)
      then show ?thesis using 3 gt by (simp add: keys_cmp_def)
    next
      case eq: 3
      then show ?thesis using 3 by (simp add: keys_cmp_def key_num_def)
    qed
  qed
qed

section \<open>Reading nodes\<close>

text \<open>The reader of a node accepts the magic number, the length and the checksum.\<close>

definition node_ok :: "bytes \<Rightarrow> bool" where
  "node_ok node \<longleftrightarrow> UBIFS_CH_SZ \<le> length node \<and> le_word (take 4 node) = UBIFS_NODE_MAGIC
     \<and> le_word (take 4 (drop 16 node)) = (of_nat (length node) :: u32)
     \<and> le_word (take 4 (drop 4 node)) = mtd_crc32 UBIFS_CRC32_INIT (drop 8 node) (int (length node - 8))"

definition node_type :: "bytes \<Rightarrow> u8" where "node_type node = node ! 20"
definition node_data :: "bytes \<Rightarrow> bytes" where "node_data node = drop UBIFS_CH_SZ node"

lemma length_prepare_node [simp]: "length (prepare_node sq ty body) = UBIFS_CH_SZ + length body"
  by (simp add: prepare_node_def Let_def ubifs_consts)

lemma prepare_node_ok:
  "node_ok (prepare_node sq ty body)" "node_type (prepare_node sq ty body) = ty" "node_data (prepare_node sq ty body) = body"
proof -
  show "node_type (prepare_node sq ty body) = ty" "node_data (prepare_node sq ty body) = body"
    by (simp_all add: node_type_def node_data_def prepare_node_def Let_def nth_append ubifs_consts)
  define rest where "rest = le64 sq @ le32 (of_nat (UBIFS_CH_SZ + length body)) @ [ty, UBIFS_NO_NODE_GROUP, 0, 0] @ body"
  have e: "prepare_node sq ty body = le32 UBIFS_NODE_MAGIC @ le32 (mtd_crc32 UBIFS_CRC32_INIT rest (int (length rest))) @ rest"
    by (simp add: prepare_node_def Let_def rest_def)
  have l: "length rest = 16 + length body" by (simp add: rest_def)
  have "take 4 (drop 8 rest) = le32 (of_nat (UBIFS_CH_SZ + length body))" by (simp add: rest_def)
  then show "node_ok (prepare_node sq ty body)"
    unfolding node_ok_def e by (simp add: l codec_simps ubifs_consts)
qed

lemma length_pad_node [simp]: "length (pad_node n) = UBIFS_PAD_NODE_SZ"
  by (simp add: pad_node_def ubifs_consts)

text \<open>Padding keeps what is in front of it and ends at a minimum I/O unit.\<close>

lemma do_pad_ok:
  assumes "min_io = 2 ^ k" "min_io dvd length buf" "8 dvd length buf" "len \<le> length buf"
  obtains b where "do_pad min_io buf len = Ret (b, ALIGN (ALIGN len 8) min_io)" "length b = length buf" "take len b = take len buf"
    "len \<le> ALIGN (ALIGN len 8) min_io" "ALIGN (ALIGN len 8) min_io \<le> length buf"
proof -
  let ?a = "ALIGN len 8" let ?w = "ALIGN ?a min_io"
  have 8: "(8::nat) = 2 ^ 3" by simp
  have a: "len \<le> ?a" "?a \<le> length buf" using ALIGN_bounds [OF 8, of len] assms(3,4) by simp_all
  have w: "?a \<le> ?w" "?w \<le> length buf" using ALIGN_bounds [OF assms(1), of ?a] a(2) assms(2) by simp_all
  let ?b1 = "overwrite len (memset 0xff (?a - len)) buf"
  let ?p = "if ?w - ?a \<ge> UBIFS_PAD_NODE_SZ then pad_node (?w - ?a - UBIFS_PAD_NODE_SZ) @ memset 0 (?w - ?a - UBIFS_PAD_NODE_SZ)
    else memset UBIFS_PADDING_BYTE (?w - ?a)"
  have p: "length ?p = ?w - ?a" by (cases "?w - ?a \<ge> UBIFS_PAD_NODE_SZ") simp_all
  have b1: "length ?b1 = length buf" "take len ?b1 = take len buf" using a assms(4) by (simp_all add: overwrite_def)
  have "do_pad min_io buf len = Ret (overwrite ?a ?p ?b1, ?w)"
    using a w by (simp add: do_pad_def Let_def)
  moreover have "length (overwrite ?a ?p ?b1) = length buf" using p w b1(1) by (simp add: length_overwrite)
  moreover have "take len (overwrite ?a ?p ?b1) = take len buf"
    using a b1 by (simp add: overwrite_def [of ?a])
  ultimately show thesis using that a w by simp
qed

lemma length_branch_bytes [simp]: "length (branch_bytes br) = 20"
  by (simp add: branch_bytes_def key_write_idx_def)

lemma length_idx_body: "length (idx_body lvl brs) = 4 + 20 * length brs"
proof -
  have "length (concat (map branch_bytes brs)) = 20 * length brs" by (induction brs) simp_all
  then show ?thesis by (simp add: idx_body_def)
qed

lemma idx_node_size: "UBIFS_CH_SZ + length (idx_body lvl brs) = ubifs_idx_node_sz (length brs)"
  by (simp add: length_idx_body ubifs_idx_node_sz_def ubifs_consts)

definition branch_of_bytes :: "bytes \<Rightarrow> zbranch" where
  "branch_of_bytes bs = \<lparr>zb_key = (le_word (take 4 (drop 12 bs)), le_word (take 4 (drop 16 bs))),
     zb_lnum = unat (le_word (take 4 bs) :: u32), zb_offs = unat (le_word (take 4 (drop 4 bs)) :: u32),
     zb_len = unat (le_word (take 4 (drop 8 bs)) :: u32)\<rparr>"

definition idx_child_cnt :: "bytes \<Rightarrow> nat" where "idx_child_cnt body = unat (le_word (take 2 body) :: u16)"
definition idx_level :: "bytes \<Rightarrow> nat" where "idx_level body = unat (le_word (take 2 (drop 2 body)) :: u16)"

definition idx_branches :: "bytes \<Rightarrow> zbranch list" where
  "idx_branches body = map (\<lambda>j. branch_of_bytes (take 20 (drop (4 + 20 * j) body))) [0..<idx_child_cnt body]"

definition zbranch_fits :: "zbranch \<Rightarrow> bool" where
  "zbranch_fits br \<longleftrightarrow> zb_lnum br < 2 ^ 32 \<and> zb_offs br < 2 ^ 32 \<and> zb_len br < 2 ^ 32"

lemma unat_of_nat_id: "n < 2 ^ LENGTH('a) \<Longrightarrow> unat (of_nat n :: 'a::len word) = n"
  by (simp add: unsigned_of_nat take_bit_nat_eq_self)

lemma branch_of_bytes_bytes: "zbranch_fits br \<Longrightarrow> branch_of_bytes (branch_bytes br) = br"
  by (simp add: branch_of_bytes_def branch_bytes_def key_write_idx_def codec_simps zbranch_fits_def unat_of_nat_id)

lemma idx_body_read:
  assumes "list_all zbranch_fits brs" "length brs < 2 ^ 16" "lvl < 2 ^ 16"
  shows "idx_child_cnt (idx_body lvl brs) = length brs" "idx_level (idx_body lvl brs) = lvl" "idx_branches (idx_body lvl brs) = brs"
proof -
  show c: "idx_child_cnt (idx_body lvl brs) = length brs" "idx_level (idx_body lvl brs) = lvl"
    using assms(2,3) by (simp_all add: idx_child_cnt_def idx_level_def idx_body_def codec_simps unat_of_nat_id)
  have slice: "take 20 (drop (20 * j) (concat (map branch_bytes bs))) = branch_bytes (bs ! j)" if "j < length bs" for j bs
    using that
  proof (induction bs arbitrary: j)
    case (Cons b bs)
    then show ?case by (cases j) (simp_all add: add.commute)
  qed simp
  have "branch_of_bytes (take 20 (drop (4 + 20 * j) (idx_body lvl brs))) = brs ! j" if "j < length brs" for j
    using that assms(1) slice [OF that] by (simp add: idx_body_def add.commute branch_of_bytes_bytes list_all_length)
  then show "idx_branches (idx_body lvl brs) = brs"
    unfolding idx_branches_def c by (intro nth_equalityI) simp_all
qed

end
