(* ===== verification/UbifsIndex.thy ===== *)
theory UbifsIndex
  imports Lpt UbifsNode
begin

text \<open>
  The head of the main area and the index of \<open>mkfs.ubifs\<close> (\<open>mkfs.ubifs/mkfs.ubifs.c\<close>): nodes are collected in the
  buffer of one LEB, which is padded, written and accounted for when the next node does not fit; every node is
  remembered with its key, and at the end the entries are sorted and the levels of the index tree are written
  bottom up. The errors of the code carry the state, because the caller ignores some of them.
\<close>

section \<open>State\<close>

record idx_entry =
  e_key :: ubifs_key
  e_name :: "bytes option"
  e_lnum :: nat
  e_offs :: nat
  e_len :: nat

record ubifs_lp_stats =
  ls_empty_lebs :: nat
  ls_idx_lebs :: nat
  ls_total_free :: nat
  ls_total_dirty :: nat
  ls_total_used :: nat
  ls_total_dead :: nat
  ls_total_dark :: nat

text \<open>The description, the further fields of it that only this part uses, the global variables and the written LEBs.\<close>

record mkfs =
  mk_c :: ubifs_info
  mk_fanout :: nat
  mk_dead_wm :: nat
  mk_dark_wm :: nat
  mk_max_sqnum :: u64
  mk_lst :: ubifs_lp_stats
  mk_zroot :: "nat \<times> nat \<times> nat"
  mk_old_idx_sz :: nat
  mk_ihead :: "nat \<times> nat"
  mk_gc_lnum :: nat
  mk_leb_cnt :: nat
  mk_head_lnum :: nat
  mk_head_offs :: nat
  mk_head_flags :: nat
  mk_idx :: "idx_entry list"
  mk_leb_buf :: bytes
  mk_lebs :: "nat \<rightharpoonup> bytes"

section \<open>The head\<close>

definition mk_write_leb :: "(nat \<Rightarrow> bool) \<Rightarrow> nat \<Rightarrow> nat \<Rightarrow> mkfs \<Rightarrow> (mkfs, mkfs) outcome" where
  "mk_write_leb wr lnum len st =
     (let buf = overwrite len (memset 0xFF (uc_leb_size (mk_c st) - len)) (mk_leb_buf st); st = st\<lparr>mk_leb_buf := buf\<rparr> in
      if wr lnum then Ret (st\<lparr>mk_lebs := (mk_lebs st)(lnum \<mapsto> buf)\<rparr>) else Err st)"

definition MIN_WRITE_SZ :: nat where "MIN_WRITE_SZ = UBIFS_DATA_NODE_SZ + 8"

definition calc_dark :: "mkfs \<Rightarrow> nat \<Rightarrow> nat" where
  "calc_dark st spc =
     (if spc < mk_dark_wm st then spc
      else if spc - mk_dark_wm st < MIN_WRITE_SZ then spc - MIN_WRITE_SZ
      else mk_dark_wm st)"

text \<open>The statistics of one LEB.\<close>

definition add_stats :: "mkfs \<Rightarrow> nat \<Rightarrow> nat \<Rightarrow> nat \<Rightarrow> ubifs_lp_stats \<Rightarrow> ubifs_lp_stats" where
  "add_stats st free dirty flags ls =
     (let ls = ls\<lparr>ls_total_free := ls_total_free ls + free, ls_total_dirty := ls_total_dirty ls + dirty\<rparr> in
      if flags AND LPROPS_INDEX \<noteq> 0 then ls\<lparr>ls_idx_lebs := ls_idx_lebs ls + 1\<rparr>
      else
        let spc = free + dirty;
            ls = (if spc < mk_dead_wm st then ls\<lparr>ls_total_dead := ls_total_dead ls + spc\<rparr>
                  else ls\<lparr>ls_total_dark := ls_total_dark ls + calc_dark st spc\<rparr>)
        in ls\<lparr>ls_total_used := ls_total_used ls + (uc_leb_size (mk_c st) - spc)\<rparr>)"

definition set_lprops :: "nat \<Rightarrow> nat \<Rightarrow> nat \<Rightarrow> mkfs \<Rightarrow> (mkfs, mkfs) outcome" where
  "set_lprops lnum offs flags st =
     (let c = mk_c st; a = max (uc_min_io_size c) 8 in
      if lnum < uc_main_first c \<or> ALIGN offs a > uc_leb_size c then Undef
      else
        let i = lnum - uc_main_first c;
            free = uc_leb_size c - ALIGN offs a;
            dirty = uc_leb_size c - free - ALIGN offs 8
        in if i < uc_main_lebs c \<and> i \<ge> length (uc_lpt c) then Undef
           else Ret (st\<lparr>mk_c := (if i < uc_main_lebs c
                    then c\<lparr>uc_lpt := (uc_lpt c)[i := \<lparr>lp_free = free, lp_dirty = dirty, lp_flags = flags\<rparr>]\<rparr> else c),
                  mk_lst := add_stats st free dirty flags (mk_lst st)\<rparr>))"

definition add_to_index :: "ubifs_key \<Rightarrow> bytes option \<Rightarrow> nat \<Rightarrow> nat \<Rightarrow> nat \<Rightarrow> mkfs \<Rightarrow> mkfs" where
  "add_to_index key name lnum offs len st =
     st\<lparr>mk_idx := mk_idx st @ [\<lparr>e_key = key, e_name = name, e_lnum = lnum, e_offs = offs, e_len = len\<rparr>]\<rparr>"

definition flush_nodes :: "(nat \<Rightarrow> bool) \<Rightarrow> mkfs \<Rightarrow> (mkfs, mkfs) outcome" where
  "flush_nodes wr st =
     (if mk_head_offs st = 0 then Ret st
      else case do_pad (uc_min_io_size (mk_c st)) (mk_leb_buf st) (mk_head_offs st) of
          Ret (buf, len) \<Rightarrow>
            (case mk_write_leb wr (mk_head_lnum st) len (st\<lparr>mk_leb_buf := buf\<rparr>) of
               Ret st \<Rightarrow>
                 (case set_lprops (mk_head_lnum st) (mk_head_offs st) (mk_head_flags st) st of
                    Ret st \<Rightarrow> Ret (st\<lparr>mk_head_lnum := mk_head_lnum st + 1, mk_head_offs := 0\<rparr>) | Err e \<Rightarrow> Err e | Undef \<Rightarrow> Undef)
             | Err e \<Rightarrow> Err e | Undef \<Rightarrow> Undef)
        | Err _ \<Rightarrow> Undef | Undef \<Rightarrow> Undef)"

definition reserve_space :: "(nat \<Rightarrow> bool) \<Rightarrow> nat \<Rightarrow> mkfs \<Rightarrow> (mkfs, nat \<times> nat \<times> mkfs) outcome" where
  "reserve_space wr len st =
     (case (if int len > int (uc_leb_size (mk_c st)) - int (mk_head_offs st) then flush_nodes wr st else Ret st) of
        Ret st \<Rightarrow> Ret (mk_head_lnum st, mk_head_offs st, st\<lparr>mk_head_offs := mk_head_offs st + ALIGN len 8\<rparr>)
      | Err e \<Rightarrow> Err e | Undef \<Rightarrow> Undef)"

text \<open>The node with its header goes to the reserved place; \<open>ALIGN (len, 8) - len\<close> bytes behind it are set.\<close>

definition put_at :: "nat \<Rightarrow> bytes \<Rightarrow> mkfs \<Rightarrow> (mkfs, mkfs) outcome" where
  "put_at offs node st =
     (let len = length node in
      if offs + ALIGN len 8 > length (mk_leb_buf st) then Undef
      else Ret (st\<lparr>mk_leb_buf := overwrite offs (node @ memset 0xff (ALIGN len 8 - len)) (mk_leb_buf st)\<rparr>))"

definition next_sqnum :: "mkfs \<Rightarrow> mkfs" where
  "next_sqnum st = st\<lparr>mk_max_sqnum := mk_max_sqnum st + 1\<rparr>"

definition add_node :: "(nat \<Rightarrow> bool) \<Rightarrow> ubifs_key \<Rightarrow> bytes option \<Rightarrow> u8 \<Rightarrow> bytes \<Rightarrow> mkfs \<Rightarrow> (mkfs, mkfs) outcome" where
  "add_node wr key name ty body st =
     (let st = next_sqnum st; node = prepare_node (mk_max_sqnum st) ty body; len = length node in
      case reserve_space wr len st of
        Ret (lnum, offs, st) \<Rightarrow>
          (case put_at offs node st of
             Ret st \<Rightarrow> Ret (add_to_index key name lnum offs len st) | Err e \<Rightarrow> Err e | Undef \<Rightarrow> Undef)
      | Err e \<Rightarrow> Err e | Undef \<Rightarrow> Undef)"

section \<open>Sorting the index\<close>

definition memcmp :: "bytes \<Rightarrow> bytes \<Rightarrow> nat \<Rightarrow> int" where
  "memcmp a b n =
     (case filter (\<lambda>(x, y). x \<noteq> y) (zip (take n a) (take n b)) of [] \<Rightarrow> 0 | (x, y) # _ \<Rightarrow> if x < y then - 1 else 1)"

definition namecmp :: "bytes \<Rightarrow> bytes \<Rightarrow> int" where
  "namecmp name1 name2 =
     (let len1 = length name1; len2 = length name2; clen = (if len1 < len2 then len1 else len2);
          cmp = memcmp name1 name2 clen
      in if cmp \<noteq> 0 then cmp else if len1 < len2 then - 1 else 1)"

text \<open>Comparing entries with equal keys reads their names; \<open>None\<close> is the access through a null pointer.\<close>

definition cmp_idx :: "idx_entry \<Rightarrow> idx_entry \<Rightarrow> int option" where
  "cmp_idx e1 e2 =
     (let cmp = keys_cmp (e_key e1) (e_key e2) in
      if cmp \<noteq> 0 then Some cmp
      else case (e_name e1, e_name e2) of (Some n1, Some n2) \<Rightarrow> Some (namecmp n1 n2) | _ \<Rightarrow> None)"

text \<open>\<open>qsort\<close>, which the library leaves unspecified for a comparison that fails or is not an order: entries with the
  same key need different names.\<close>

fun insort_idx :: "idx_entry \<Rightarrow> idx_entry list \<Rightarrow> idx_entry list" where
  "insort_idx e [] = [e]"
| "insort_idx e (x # xs) = (case cmp_idx e x of Some cmp \<Rightarrow> if cmp < 0 then e # x # xs else x # insort_idx e xs | None \<Rightarrow> e # x # xs)"

fun comparable :: "idx_entry list \<Rightarrow> bool" where
  "comparable [] \<longleftrightarrow> True"
| "comparable (e # es) \<longleftrightarrow> list_all (\<lambda>x. cmp_idx e x \<noteq> None \<and> (e_key e, e_name e) \<noteq> (e_key x, e_name x)) es \<and> comparable es"

definition qsort_idx :: "idx_entry list \<Rightarrow> idx_entry list" where
  "qsort_idx es = foldr insort_idx es []"

section \<open>Writing the index\<close>

definition add_idx_node :: "(nat \<Rightarrow> bool) \<Rightarrow> nat \<Rightarrow> zbranch list \<Rightarrow> mkfs \<Rightarrow> (mkfs, mkfs) outcome" where
  "add_idx_node wr lvl brs st =
     (let st = next_sqnum st; node = prepare_node (mk_max_sqnum st) UBIFS_IDX_NODE (idx_body lvl brs); len = length node in
      case reserve_space wr len st of
        Ret (lnum, offs, st) \<Rightarrow>
          (case put_at offs node st of
             Ret st \<Rightarrow> Ret (st\<lparr>mk_old_idx_sz := mk_old_idx_sz st + ALIGN len 8, mk_zroot := (lnum, offs, len)\<rparr>)
           | Err e \<Rightarrow> Err e | Undef \<Rightarrow> Undef)
      | Err e \<Rightarrow> Err e | Undef \<Rightarrow> Undef)"

text \<open>The result of \<open>add_idx_node\<close> is ignored.\<close>

definition try_idx_node :: "(nat \<Rightarrow> bool) \<Rightarrow> nat \<Rightarrow> zbranch list \<Rightarrow> mkfs \<Rightarrow> (mkfs, mkfs) outcome" where
  "try_idx_node wr lvl brs st = (case add_idx_node wr lvl brs st of Ret st \<Rightarrow> Ret st | Err st \<Rightarrow> Ret st | Undef \<Rightarrow> Undef)"

definition child_count :: "nat \<Rightarrow> nat \<Rightarrow> nat \<Rightarrow> nat \<Rightarrow> nat" where
  "child_count fanout bcnt cnt i = (if i = cnt - 1 then if bcnt mod fanout = 0 then fanout else bcnt mod fanout else fanout)"

definition leaf_branch :: "idx_entry \<Rightarrow> zbranch" where
  "leaf_branch e = \<lparr>zb_key = e_key e, zb_lnum = e_lnum e, zb_offs = e_offs e, zb_len = e_len e\<rparr>"

fun bottom_level :: "(nat \<Rightarrow> bool) \<Rightarrow> nat \<Rightarrow> nat list \<Rightarrow> idx_entry list \<Rightarrow> nat \<Rightarrow> mkfs \<Rightarrow> (mkfs, mkfs) outcome" where
  "bottom_level wr cnt [] p n st = Ret st"
| "bottom_level wr cnt (i # is) p n st =
     (let child_cnt = child_count (mk_fanout st) n cnt i in
      if length p < child_cnt then Undef
      else case try_idx_node wr 0 (map leaf_branch (take child_cnt p)) st of
             Ret st \<Rightarrow> bottom_level wr cnt is (drop child_cnt p) n st | Err e \<Rightarrow> Err e | Undef \<Rightarrow> Undef)"

text \<open>The branches of a node of a higher level: the position of the child runs along the level below, the key is that
  of the first entry below the child.\<close>

record level_below =
  lb_cnt :: nat
  lb_last_len :: nat
  lb_pstep :: nat
  lb_lnum :: nat
  lb_offs :: nat

fun level_branches :: "nat \<Rightarrow> nat \<Rightarrow> idx_entry list \<Rightarrow> nat list \<Rightarrow> level_below \<Rightarrow> (mkfs, zbranch list \<times> level_below) outcome" where
  "level_branches leb_size idx_sz es [] b = Ret ([], b)"
| "level_branches leb_size idx_sz es (bn # bns) b =
     (let blen = (if bn = lb_cnt b - 1 then lb_last_len b else idx_sz);
          b = (if lb_offs b + blen > leb_size then b\<lparr>lb_lnum := lb_lnum b + 1, lb_offs := 0\<rparr> else b)
      in if bn * lb_pstep b \<ge> length es then Undef
         else case level_branches leb_size idx_sz es bns (b\<lparr>lb_offs := lb_offs b + ALIGN blen 8\<rparr>) of
           Ret (brs, b') \<Rightarrow>
             Ret (\<lparr>zb_key = e_key (es ! (bn * lb_pstep b)), zb_lnum = lb_lnum b, zb_offs = lb_offs b, zb_len = blen\<rparr> # brs, b')
         | Err e \<Rightarrow> Err e | Undef \<Rightarrow> Undef)"

fun upper_level :: "(nat \<Rightarrow> bool) \<Rightarrow> nat \<Rightarrow> nat \<Rightarrow> idx_entry list \<Rightarrow> nat list \<Rightarrow> level_below \<Rightarrow> mkfs \<Rightarrow> (mkfs, level_below \<times> mkfs) outcome" where
  "upper_level wr lvl cnt es [] b st = Ret (b, st)"
| "upper_level wr lvl cnt es (i # is) b st =
     (let child_cnt = child_count (mk_fanout st) (lb_cnt b) cnt i in
      case level_branches (uc_leb_size (mk_c st)) (ubifs_idx_node_sz (mk_fanout st)) es [i * mk_fanout st..<i * mk_fanout st + child_cnt] b of
        Ret (brs, b) \<Rightarrow>
          (case try_idx_node wr lvl brs st of Ret st \<Rightarrow> upper_level wr lvl cnt es is b st | Err e \<Rightarrow> Err e | Undef \<Rightarrow> Undef)
      | Err e \<Rightarrow> Err e | Undef \<Rightarrow> Undef)"

text \<open>The levels above the bottom one; with a fanout below two the loop does not end.\<close>

function upper_levels :: "(nat \<Rightarrow> bool) \<Rightarrow> nat \<Rightarrow> nat \<Rightarrow> nat \<Rightarrow> idx_entry list \<Rightarrow> nat \<Rightarrow> nat \<times> nat \<Rightarrow> nat \<Rightarrow> mkfs \<Rightarrow> (mkfs, mkfs) outcome" where
  "upper_levels wr fanout lvl cnt es pstep bpos blast st =
     (if cnt > 1 then
        if fanout < 2 then Undef
        else
          let bcnt = cnt; cnt = (let n = (cnt + fanout - 1) div fanout in if n = 0 then 1 else n); pstep = pstep * fanout in
          case upper_level wr (lvl + 1) cnt es [0..<cnt]
                 \<lparr>lb_cnt = bcnt, lb_last_len = blast, lb_pstep = pstep, lb_lnum = fst bpos, lb_offs = snd bpos\<rparr> st of
            Ret (b, st) \<Rightarrow>
              upper_levels wr fanout (lvl + 1) cnt es pstep (lb_lnum b, lb_offs b)
                (ubifs_idx_node_sz (child_count fanout bcnt cnt (cnt - 1))) st
          | Err e \<Rightarrow> Err e | Undef \<Rightarrow> Undef
      else Ret st)"
  by pat_completeness auto
termination
proof (relation "measure (\<lambda>(wr, fanout, lvl, cnt, es, pstep, bpos, blast, st). cnt)", goal_cases)
  case (2 wr fanout lvl cnt es pstep bpos blast st)
  then have c: "1 < cnt" "2 \<le> fanout" by simp_all
  have "(cnt + fanout - 1) div fanout < cnt"
  proof (rule less_mult_imp_div_less)
    have "cnt * 2 \<le> cnt * fanout" using c(2) by simp
    moreover have "fanout + cnt \<le> cnt * fanout" using c by (cases cnt; cases fanout) auto
    ultimately show "cnt + fanout - 1 < cnt * fanout" using c by linarith
  qed
  then show ?case using c 2 by (auto simp: Let_def)
qed simp

declare upper_levels.simps [simp del]

definition write_index :: "(nat \<Rightarrow> bool) \<Rightarrow> mkfs \<Rightarrow> (mkfs, mkfs) outcome" where
  "write_index wr st =
     (let st = st\<lparr>mk_head_flags := LPROPS_INDEX\<rparr>; fanout = mk_fanout st; n = length (mk_idx st); es = qsort_idx (mk_idx st);
          cnt = n div fanout + (if n mod fanout \<noteq> 0 then 1 else 0); bpos = (mk_head_lnum st, mk_head_offs st)
      in if n = 0 \<or> fanout = 0 \<or> \<not> comparable (mk_idx st) then Undef
         else case bottom_level wr cnt [0..<cnt] es n st of
           Ret st \<Rightarrow>
             (case upper_levels wr fanout 0 cnt es 1 bpos (ubifs_idx_node_sz (child_count fanout n cnt (cnt - 1))) st of
                Ret st \<Rightarrow>
                  flush_nodes wr (st\<lparr>mk_ihead := (mk_head_lnum st, ALIGN (mk_head_offs st) (uc_min_io_size (mk_c st)))\<rparr>)
              | Err e \<Rightarrow> Err e | Undef \<Rightarrow> Undef)
         | Err e \<Rightarrow> Err e | Undef \<Rightarrow> Undef)"

section \<open>The head keeps what it stores\<close>

text \<open>The head as the writer of the properties tree: buffer, position and written LEBs.\<close>

definition view :: "mkfs \<Rightarrow> lpt_out" where
  "view st = \<lparr>lo_c = mk_c st, lo_buf = mk_leb_buf st, lo_len = mk_head_offs st, lo_lnum = mk_head_lnum st, lo_lebs = mk_lebs st\<rparr>"

definition head :: "mkfs \<Rightarrow> nat \<times> nat" where
  "head st = (mk_head_lnum st, mk_head_offs st)"

text \<open>What the options guarantee and every step keeps.\<close>

definition mk_ok :: "mkfs \<Rightarrow> bool" where
  "mk_ok st \<longleftrightarrow> 15360 \<le> uc_leb_size (mk_c st) \<and> uc_leb_size (mk_c st) < 2 ^ 31 \<and> 8 dvd uc_leb_size (mk_c st)
     \<and> (\<exists>k. uc_min_io_size (mk_c st) = 2 ^ k \<and> 3 \<le> k) \<and> uc_min_io_size (mk_c st) dvd uc_leb_size (mk_c st)
     \<and> uc_main_lebs (mk_c st) \<le> length (uc_lpt (mk_c st)) \<and> uc_main_first (mk_c st) \<le> mk_head_lnum st
     \<and> length (mk_leb_buf st) = uc_leb_size (mk_c st) \<and> mk_head_offs st \<le> uc_leb_size (mk_c st)
     \<and> 8 dvd mk_head_offs st"

text \<open>The fields that the head does not change.\<close>

definition fixed :: "mkfs \<Rightarrow> ubifs_info \<times> nat \<times> nat \<times> nat" where
  "fixed st = ((mk_c st)\<lparr>uc_lpt := []\<rparr>, mk_fanout st, mk_dead_wm st, mk_dark_wm st)"

lemma fixed_fields:
  assumes "fixed st = fixed st'"
  shows "mk_fanout st = mk_fanout st'" "uc_leb_size (mk_c st) = uc_leb_size (mk_c st')" "uc_min_io_size (mk_c st) = uc_min_io_size (mk_c st')"
    "uc_main_first (mk_c st) = uc_main_first (mk_c st')" "uc_main_lebs (mk_c st) = uc_main_lebs (mk_c st')"
proof -
  have c: "(mk_c st)\<lparr>uc_lpt := []\<rparr> = (mk_c st')\<lparr>uc_lpt := []\<rparr>" and f: "mk_fanout st = mk_fanout st'" using assms by (simp_all add: fixed_def)
  show "mk_fanout st = mk_fanout st'" by (rule f)
  show "uc_leb_size (mk_c st) = uc_leb_size (mk_c st')" "uc_min_io_size (mk_c st) = uc_min_io_size (mk_c st')"
    "uc_main_first (mk_c st) = uc_main_first (mk_c st')" "uc_main_lebs (mk_c st) = uc_main_lebs (mk_c st')"
    using arg_cong [OF c, of uc_leb_size] arg_cong [OF c, of uc_min_io_size] arg_cong [OF c, of uc_main_first] arg_cong [OF c, of uc_main_lebs]
    by simp_all
qed

lemma mk_okD:
  assumes "mk_ok st"
  shows "15360 \<le> uc_leb_size (mk_c st)" "uc_leb_size (mk_c st) < 2 ^ 31" "8 dvd uc_leb_size (mk_c st)"
    "\<exists>k. uc_min_io_size (mk_c st) = 2 ^ k" "8 \<le> uc_min_io_size (mk_c st)" "uc_min_io_size (mk_c st) dvd uc_leb_size (mk_c st)"
    "uc_main_lebs (mk_c st) \<le> length (uc_lpt (mk_c st))" "uc_main_first (mk_c st) \<le> mk_head_lnum st"
    "length (mk_leb_buf st) = uc_leb_size (mk_c st)" "mk_head_offs st \<le> uc_leb_size (mk_c st)" "8 dvd mk_head_offs st"
proof -
  obtain k where k: "uc_min_io_size (mk_c st) = 2 ^ k" "3 \<le> k" using assms by (auto simp: mk_ok_def)
  have "(2::nat) ^ 3 \<le> 2 ^ k" using k(2) by (rule power_increasing) simp
  then show "8 \<le> uc_min_io_size (mk_c st)" "\<exists>k. uc_min_io_size (mk_c st) = 2 ^ k" using k by auto
qed (use assms in \<open>simp_all add: mk_ok_def\<close>)

lemma set_lprops_ok:
  assumes "mk_ok st" "offs \<le> uc_leb_size (mk_c st)"
  obtains st' where "set_lprops (mk_head_lnum st) offs flags st = Ret st'" "mk_ok st'" "fixed st' = fixed st" "head st' = head st"
    "mk_idx st' = mk_idx st" "mk_head_flags st' = mk_head_flags st" "mk_leb_buf st' = mk_leb_buf st" "mk_lebs st' = mk_lebs st" "mk_zroot st' = mk_zroot st"
proof -
  note ok = mk_okD [OF assms(1)]
  let ?c = "mk_c st" let ?i = "mk_head_lnum st - uc_main_first ?c" let ?a = "max (uc_min_io_size ?c) 8"
  obtain k where k: "uc_min_io_size ?c = 2 ^ k" using ok(4) by blast
  have a: "?a = uc_min_io_size ?c" using ok(5) by simp
  have al: "ALIGN offs ?a \<le> uc_leb_size ?c" unfolding a using ALIGN_bounds(2) [OF k] assms(2) ok(6) by blast
  define lp where "lp = \<lparr>lp_free = uc_leb_size ?c - ALIGN offs ?a, lp_dirty = uc_leb_size ?c - (uc_leb_size ?c - ALIGN offs ?a) - ALIGN offs 8, lp_flags = flags\<rparr>"
  define st' where "st' = st\<lparr>mk_c := (if ?i < uc_main_lebs ?c then ?c\<lparr>uc_lpt := (uc_lpt ?c)[?i := lp]\<rparr> else ?c),
    mk_lst := add_stats st (lp_free lp) (lp_dirty lp) flags (mk_lst st)\<rparr>"
  have "set_lprops (mk_head_lnum st) offs flags st = Ret st'"
    using al ok(7,8) by (auto simp: set_lprops_def Let_def st'_def lp_def)
  moreover have "mk_ok st'" using assms(1) by (auto simp: mk_ok_def st'_def)
  moreover have "fixed st' = fixed st" by (simp add: fixed_def st'_def)
  ultimately show thesis by (rule that) (simp_all add: st'_def head_def)
qed

lemma flush_nodes_ok:
  assumes "mk_ok st" "\<And>l. wr l"
  obtains st' where "flush_nodes wr st = Ret st'" "mk_ok st'" "fixed st' = fixed st" "mk_idx st' = mk_idx st" "mk_head_flags st' = mk_head_flags st"
    "head st' = (if mk_head_offs st = 0 then head st else (mk_head_lnum st + 1, 0))" "keeps (view st) (view st')" "mk_zroot st' = mk_zroot st"
proof (cases "mk_head_offs st = 0")
  case True
  then show thesis using assms(1) by (intro that [of st]) (simp_all add: flush_nodes_def keeps_def)
next
  case False
  note ok = mk_okD [OF assms(1)]
  let ?c = "mk_c st" and ?o = "mk_head_offs st"
  obtain k where k: "uc_min_io_size ?c = 2 ^ k" using ok(4) by blast
  have h: "uc_min_io_size ?c dvd length (mk_leb_buf st)" "8 dvd length (mk_leb_buf st)" "?o \<le> length (mk_leb_buf st)"
    using ok by simp_all
  define w where "w = ALIGN (ALIGN ?o 8) (uc_min_io_size ?c)"
  obtain b where b: "do_pad (uc_min_io_size ?c) (mk_leb_buf st) ?o = Ret (b, w)" "length b = length (mk_leb_buf st)"
    "take ?o b = take ?o (mk_leb_buf st)" "?o \<le> w" "w \<le> length (mk_leb_buf st)"
    unfolding w_def by (rule do_pad_ok [OF k h])
  define b2 where "b2 = overwrite w (memset 0xFF (uc_leb_size ?c - w)) b"
  have b2: "length b2 = uc_leb_size ?c" "take ?o b2 = take ?o (mk_leb_buf st)"
  proof -
    show "length b2 = uc_leb_size ?c" using b(2,5) ok(9) by (simp add: b2_def)
    have "take w b2 = take w b" using b(2,5) ok(9) by (simp add: b2_def overwrite_def)
    then have "take ?o (take w b2) = take ?o (take w b)" by (rule arg_cong)
    then show "take ?o b2 = take ?o (mk_leb_buf st)" using b(3,4) by (simp add: min_absorb1)
  qed
  define st1 where "st1 = st\<lparr>mk_leb_buf := b2, mk_lebs := (mk_lebs st)(mk_head_lnum st \<mapsto> b2)\<rparr>"
  have w1: "mk_write_leb wr (mk_head_lnum st) w (st\<lparr>mk_leb_buf := b\<rparr>) = Ret st1"
    using assms(2) by (simp add: mk_write_leb_def Let_def st1_def b2_def)
  have ok1: "mk_ok st1" using assms(1) b2(1) by (auto simp: mk_ok_def st1_def)
  have o1: "?o \<le> uc_leb_size (mk_c st1)" using ok(10) by (simp add: st1_def)
  obtain st2 where st2: "set_lprops (mk_head_lnum st1) ?o (mk_head_flags st1) st1 = Ret st2" "mk_ok st2" "fixed st2 = fixed st1" "head st2 = head st1"
    "mk_idx st2 = mk_idx st1" "mk_head_flags st2 = mk_head_flags st1" "mk_leb_buf st2 = mk_leb_buf st1" "mk_lebs st2 = mk_lebs st1" "mk_zroot st2 = mk_zroot st1"
    by (rule set_lprops_ok [OF ok1 o1])
  define st' where "st' = st2\<lparr>mk_head_lnum := mk_head_lnum st2 + 1, mk_head_offs := 0\<rparr>"
  have hl: "mk_head_lnum st2 = mk_head_lnum st" using st2(4) by (simp add: head_def st1_def)
  have ret: "flush_nodes wr st = Ret st'"
    using False b(1) w1 st2(1) by (simp add: flush_nodes_def st'_def st1_def)
  have "stored (view st') pos img" if s: "stored (view st) pos img" for pos img
  proof (cases "fst pos = mk_head_lnum st")
    case True
    then have "chunk (take ?o (mk_leb_buf st)) (snd pos) (length img) = Some img" using s by (simp add: stored_def view_def)
    then have "chunk b2 (snd pos) (length img) = Some img"
      by (rule chunk_prefix) (use b2(2) ok(9,10) in \<open>simp add: min_absorb2\<close>)
    then show ?thesis using True hl by (simp add: stored_def view_def st'_def st2(8) st1_def)
  next
    case False
    then show ?thesis using s hl by (auto simp: stored_def view_def st'_def st2(8) st1_def)
  qed
  then have "keeps (view st) (view st')" unfolding keeps_def by blast
  moreover have "mk_ok st'" using st2(2) by (auto simp: mk_ok_def st'_def)
  moreover have "fixed st' = fixed st" using st2(3) by (simp add: fixed_def st'_def st1_def)
  ultimately show thesis using False hl
    by (intro that [OF ret]) (simp_all add: st'_def st2(5,6,9) st1_def head_def)
qed

text \<open>A node that fits into a LEB is stored at its place.\<close>

lemma append_node:
  assumes "mk_ok st" "\<And>l. wr l" "length node \<le> uc_leb_size (mk_c st)"
  obtains st1 st2 where "reserve_space wr (length node) st = Ret (fst (place (uc_leb_size (mk_c st)) (head st) (length node)),
      snd (place (uc_leb_size (mk_c st)) (head st) (length node)), st1)"
    "put_at (snd (place (uc_leb_size (mk_c st)) (head st) (length node))) node st1 = Ret st2" "mk_ok st2" "fixed st2 = fixed st"
    "mk_idx st2 = mk_idx st" "mk_head_flags st2 = mk_head_flags st"
    "head st2 = after (place (uc_leb_size (mk_c st)) (head st) (length node)) (ALIGN (length node) 8)" "keeps (view st) (view st2)"
    "stored (view st2) (place (uc_leb_size (mk_c st)) (head st) (length node)) node"
proof -
  let ?L = "uc_leb_size (mk_c st)" and ?n = "length node"
  define p where "p = place ?L (head st) ?n"
  obtain st0 where st0: "(if int ?n > int ?L - int (mk_head_offs st) then flush_nodes wr st else Ret st) = Ret st0" "mk_ok st0" "fixed st0 = fixed st"
    "mk_idx st0 = mk_idx st" "mk_head_flags st0 = mk_head_flags st" "head st0 = p" "keeps (view st) (view st0)"
  proof (cases "int ?n > int ?L - int (mk_head_offs st)")
    case True
    then have big: "mk_head_offs st + ?n > ?L" "mk_head_offs st \<noteq> 0" using assms(3) by auto
    obtain st' where "flush_nodes wr st = Ret st'" "mk_ok st'" "fixed st' = fixed st" "mk_idx st' = mk_idx st" "mk_head_flags st' = mk_head_flags st"
      "head st' = (if mk_head_offs st = 0 then head st else (mk_head_lnum st + 1, 0))" "keeps (view st) (view st')" "mk_zroot st' = mk_zroot st"
      by (rule flush_nodes_ok [where wr = wr, OF assms(1,2)])
    then show thesis using True big by (intro that [of st']) (simp_all add: p_def place_def head_def)
  next
    case False
    then have "\<not> mk_head_offs st + ?n > ?L" by linarith
    then show thesis using False assms(1) by (intro that [of st]) (simp_all add: p_def place_def head_def keeps_def)
  qed
  note ok = mk_okD [OF st0(2)]
  have L: "uc_leb_size (mk_c st0) = ?L" using fixed_fields(2) [OF st0(3)] .
  have o: "snd p + ?n \<le> ?L" using assms(3) by (simp add: p_def place_def)
  have alo: "mk_head_offs st0 = snd p" "mk_head_lnum st0 = fst p" using st0(6) by (auto simp: head_def)
  define a where "a = ALIGN ?n 8"
  have a: "?n \<le> a" "snd p + a \<le> ?L" "8 dvd a" unfolding a_def
  proof -
    have 8: "(8::nat) = 2 ^ 3" by simp
    show "?n \<le> ALIGN ?n 8" "8 dvd ALIGN ?n 8" using ALIGN_bounds(1) [OF 8] by (simp_all add: ALIGN_eq [OF 8])
    have "8 dvd ?L - snd p" using ok(3,11) alo(1) L by (simp add: dvd_diff_nat)
    then have "ALIGN ?n 8 \<le> ?L - snd p" using o by (intro ALIGN_bounds(2) [OF 8]) simp_all
    then show "snd p + ALIGN ?n 8 \<le> ?L" using o by simp
  qed
  let ?x = "node @ memset 0xff (a - ?n)"
  define b where "b = overwrite (snd p) ?x (mk_leb_buf st0)"
  have b: "length b = ?L" "take (snd p) b = take (snd p) (mk_leb_buf st0)" "take (snd p + a) b = take (snd p) (mk_leb_buf st0) @ ?x"
    using a ok(9) L by (simp_all add: b_def overwrite_def)
  define st1 where "st1 = st0\<lparr>mk_head_offs := snd p + a\<rparr>"
  define st2 where "st2 = st1\<lparr>mk_leb_buf := b\<rparr>"
  have r: "reserve_space wr ?n st = Ret (fst p, snd p, st1)" unfolding reserve_space_def st0(1) by (simp add: alo st1_def a_def)
  have p: "put_at (snd p) node st1 = Ret st2" using a ok(9) L by (simp add: put_at_def Let_def st1_def st2_def b_def a_def)
  have ok2: "mk_ok st2" using st0(2) a b(1) L alo by (auto simp: mk_ok_def st2_def st1_def)
  have at: "stored (view st2) p node"
    using a b(3) ok(9) L by (simp add: stored_def view_def st2_def st1_def alo chunk_def min_absorb2)
  have "stored (view st2) pos img" if s: "stored (view st0) pos img" for pos img
  proof (cases "fst pos = fst p")
    case True
    then have "chunk (take (snd p) (mk_leb_buf st0)) (snd pos) (length img) = Some img" using s by (simp add: stored_def view_def alo)
    then have "chunk (take (snd p + a) b) (snd pos) (length img) = Some img"
      by (rule chunk_prefix) (use b(3) a ok(9) L in \<open>simp add: min_absorb2\<close>)
    then show ?thesis using True by (simp add: stored_def view_def st2_def st1_def alo)
  qed (use s alo in \<open>simp add: stored_def view_def st2_def st1_def\<close>)
  then have "keeps (view st0) (view st2)" unfolding keeps_def by blast
  then have k2: "keeps (view st) (view st2)" by (rule keeps_trans [OF st0(7)])
  have f2: "fixed st2 = fixed st" "mk_idx st2 = mk_idx st" "mk_head_flags st2 = mk_head_flags st" "head st2 = after p a"
    using st0(3-5) by (simp_all add: fixed_def st2_def st1_def head_def after_def alo)
  show thesis by (rule that [folded p_def a_def, OF r p ok2 f2 k2 at])
qed

section \<open>The shape of the index\<close>

text \<open>The number of nodes on each level, the entries being level zero, and the children of each node.\<close>

fun lev :: "nat \<Rightarrow> nat \<Rightarrow> nat \<Rightarrow> nat" where
  "lev f n 0 = n"
| "lev f n (Suc t) = (lev f n t + f - 1) div f"

definition kids :: "nat \<Rightarrow> nat \<Rightarrow> nat \<Rightarrow> nat \<Rightarrow> nat" where
  "kids f n t i = min f (lev f n t - i * f)"

lemma ceil_div_le: "0 < f \<Longrightarrow> (a + f - 1) div f \<le> m \<longleftrightarrow> a \<le> m * (f::nat)"
proof -
  assume f: "0 < f"
  have "(a + f - 1) div f \<le> m \<longleftrightarrow> (a + f - 1) div f < Suc m" by (rule less_Suc_eq_le [symmetric])
  also have "\<dots> \<longleftrightarrow> a + f - 1 < Suc m * f" using f by (rule div_less_iff_less_mult)
  also have "\<dots> \<longleftrightarrow> a \<le> m * f" using f by auto
  finally show ?thesis .
qed

lemma lev_le_iff: "0 < f \<Longrightarrow> lev f n t \<le> m \<longleftrightarrow> n \<le> m * f ^ t"
proof (induction t arbitrary: m)
  case (Suc t)
  have "lev f n (Suc t) \<le> m \<longleftrightarrow> lev f n t \<le> m * f" unfolding lev.simps by (rule ceil_div_le [OF Suc.prems])
  then show ?case using Suc.IH [OF Suc.prems, of "m * f"] by (simp only: mult.assoc power_Suc)
qed simp

lemma lev_pos: "0 < f \<Longrightarrow> 0 < n \<Longrightarrow> 0 < lev f n t"
  using lev_le_iff [of f n t 0] by (cases "lev f n t") simp_all

lemma lev_less_iff: "0 < f \<Longrightarrow> m < lev f n t \<longleftrightarrow> m * f ^ t < n"
  using lev_le_iff [of f n t m] by linarith

lemma lev_child: "0 < f \<Longrightarrow> i < lev f n (Suc t) \<longleftrightarrow> i * f < lev f n t"
  using ceil_div_le [of f "lev f n t" i] unfolding lev.simps by linarith

lemma child_count_kids:
  assumes "0 < f" "i < lev f n (Suc t)"
  shows "child_count f (lev f n t) (lev f n (Suc t)) i = kids f n t i"
proof -
  let ?b = "lev f n t" and ?c = "lev f n (Suc t)"
  have i: "i * f < ?b" using assms lev_child by blast
  show ?thesis
  proof (cases "i = ?c - 1")
    case True
    then have "\<not> Suc i * f < ?b" using assms lev_child [of f "Suc i" n t] by auto
    then have r: "0 < ?b - i * f" "?b - i * f \<le> f" "?b = i * f + (?b - i * f)" using i by simp_all
    have "?b mod f = (?b - i * f) mod f" using r(3) by (metis mod_mult_self3)
    then have "(if ?b mod f = 0 then f else ?b mod f) = ?b - i * f"
      using r(1,2) by (cases "?b - i * f = f") (auto simp: mod_if)
    then show ?thesis using True r(2) by (simp add: child_count_def kids_def)
  next
    case False
    then have "Suc i < ?c" using assms(2) by linarith
    then have "Suc i * f < ?b" using assms(1) lev_child by blast
    then show ?thesis using False by (simp add: child_count_def kids_def)
  qed
qed

lemma lev_first: "0 < f \<Longrightarrow> n div f + (if n mod f \<noteq> 0 then 1 else 0) = lev f n (Suc 0)"
proof -
  assume f: "0 < f"
  define q r where "q = n div f" and "r = n mod f"
  have n: "n = q * f + r" "r < f" using f by (simp_all add: q_def r_def)
  have "(q * f + r + f - 1) = (r + f - 1) + q * f" using f by simp
  then have "(q * f + r + f - 1) div f = q + (r + f - 1) div f" using f by (simp only: div_mult_self1)
  moreover have "(r + f - 1) div f = (if r \<noteq> 0 then 1 else 0)"
  proof (cases "r = 0")
    case False
    then have "(r + f - 1) div f = ((r - 1) + f) div f" by (intro arg_cong [of _ _ "\<lambda>x. x div f"]) simp
    also have "\<dots> = 1" using n(2) f by (simp add: div_add_self2)
    finally show ?thesis using False by simp
  qed (use f in simp)
  ultimately have "lev f n (Suc 0) = q + (if r \<noteq> 0 then 1 else 0)" unfolding lev.simps n(1) by (simp only:)
  then show ?thesis unfolding q_def r_def by (rule sym)
qed

section \<open>Positions\<close>

fun run_end :: "nat \<Rightarrow> nat \<times> nat \<Rightarrow> (nat \<Rightarrow> nat) \<Rightarrow> nat \<Rightarrow> nat \<times> nat" where
  "run_end leb p sz 0 = p"
| "run_end leb p sz (Suc i) = after (place leb (run_end leb p sz i) (sz i)) (ALIGN (sz i) 8)"

text \<open>The size, the end of the predecessor and the place of the node \<open>i\<close> of level \<open>Suc t\<close>; the levels follow each other.\<close>

definition isz :: "nat \<Rightarrow> nat \<Rightarrow> nat \<Rightarrow> nat \<Rightarrow> nat" where
  "isz f n t i = ubifs_idx_node_sz (kids f n t i)"

fun level_start :: "nat \<Rightarrow> nat \<times> nat \<Rightarrow> nat \<Rightarrow> nat \<Rightarrow> nat \<Rightarrow> nat \<times> nat" where
  "level_start leb p f n 0 = p"
| "level_start leb p f n (Suc t) = run_end leb (level_start leb p f n t) (isz f n t) (lev f n (Suc t))"

definition idx_end :: "nat \<Rightarrow> nat \<times> nat \<Rightarrow> nat \<Rightarrow> nat \<Rightarrow> nat \<Rightarrow> nat \<Rightarrow> nat \<times> nat" where
  "idx_end leb p f n t i = run_end leb (level_start leb p f n t) (isz f n t) i"

definition idx_at :: "nat \<Rightarrow> nat \<times> nat \<Rightarrow> nat \<Rightarrow> nat \<Rightarrow> nat \<Rightarrow> nat \<Rightarrow> nat \<times> nat" where
  "idx_at leb p f n t i = place leb (idx_end leb p f n t i) (isz f n t i)"

lemma idx_end_simps:
  "idx_end leb p f n 0 0 = p" "idx_end leb p f n (Suc t) 0 = idx_end leb p f n t (lev f n (Suc t))"
  "idx_end leb p f n t (Suc i) = after (idx_at leb p f n t i) (ALIGN (isz f n t i) 8)"
  by (simp_all add: idx_end_def idx_at_def)

text \<open>The branches of the node \<open>i\<close> of level \<open>Suc t\<close>.\<close>

definition kid_key :: "nat \<Rightarrow> idx_entry list \<Rightarrow> nat \<Rightarrow> nat \<Rightarrow> ubifs_key" where
  "kid_key f es t m = e_key (es ! (m * f ^ t))"

definition kid :: "nat \<Rightarrow> nat \<times> nat \<Rightarrow> nat \<Rightarrow> idx_entry list \<Rightarrow> nat \<Rightarrow> nat \<Rightarrow> zbranch" where
  "kid leb p f es t m =
     (case t of 0 \<Rightarrow> leaf_branch (es ! m)
      | Suc s \<Rightarrow> \<lparr>zb_key = kid_key f es t m, zb_lnum = fst (idx_at leb p f (length es) s m), zb_offs = snd (idx_at leb p f (length es) s m),
                zb_len = isz f (length es) s m\<rparr>)"

definition node_kids :: "nat \<Rightarrow> nat \<times> nat \<Rightarrow> nat \<Rightarrow> idx_entry list \<Rightarrow> nat \<Rightarrow> nat \<Rightarrow> zbranch list" where
  "node_kids leb p f es t i = map (\<lambda>j. kid leb p f es t (i * f + j)) [0..<kids f (length es) t i]"

lemma kid_key: "zb_key (kid leb p f es t m) = kid_key f es t m"
  by (simp add: kid_def kid_key_def leaf_branch_def split: nat.split)

lemma length_node_kids: "length (node_kids leb p f es t i) = kids f (length es) t i"
  by (simp add: node_kids_def)

section \<open>Writing the levels\<close>

definition idx_img :: "nat \<Rightarrow> nat \<times> nat \<Rightarrow> nat \<Rightarrow> idx_entry list \<Rightarrow> nat \<Rightarrow> nat \<Rightarrow> u64 \<Rightarrow> bytes" where
  "idx_img leb p f es t i sq = prepare_node sq UBIFS_IDX_NODE (idx_body t (node_kids leb p f es t i))"

lemma length_idx_img: "length (idx_img leb p f es t i sq) = isz f (length es) t i"
  using idx_node_size [of t "node_kids leb p f es t i"] by (simp add: idx_img_def isz_def length_node_kids)

text \<open>All levels below \<open>T\<close> and the first \<open>I\<close> nodes of level \<open>T\<close> are stored, and the head is behind them.\<close>

definition idx_stored :: "nat \<Rightarrow> nat \<times> nat \<Rightarrow> nat \<Rightarrow> idx_entry list \<Rightarrow> nat \<Rightarrow> nat \<Rightarrow> mkfs \<Rightarrow> bool" where
  "idx_stored leb p f es T I st \<longleftrightarrow> (\<forall>t i. t < T \<and> i < lev f (length es) (Suc t) \<or> t = T \<and> i < I \<longrightarrow>
     (\<exists>sq. stored (view st) (idx_at leb p f (length es) t i) (idx_img leb p f es t i sq)))"

definition zroot_at :: "nat \<times> nat \<Rightarrow> nat \<Rightarrow> mkfs \<Rightarrow> bool" where
  "zroot_at pos len st \<longleftrightarrow> mk_zroot st = (fst pos, snd pos, len)"

definition idx_inv :: "mkfs \<Rightarrow> nat \<times> nat \<Rightarrow> idx_entry list \<Rightarrow> nat \<Rightarrow> nat \<Rightarrow> mkfs \<Rightarrow> bool" where
  "idx_inv st0 p es T I st \<longleftrightarrow>
     (let leb = uc_leb_size (mk_c st0); f = mk_fanout st0; n = length es in
      mk_ok st \<and> fixed st = fixed st0 \<and> mk_idx st = mk_idx st0 \<and> head st = idx_end leb p f n T I \<and> idx_stored leb p f es T I st
      \<and> keeps (view st0) (view st) \<and> (0 < I \<longrightarrow> zroot_at (idx_at leb p f n T (I - 1)) (isz f n T (I - 1)) st))"

lemma idx_invD:
  assumes "idx_inv st0 p es T I st"
  shows "mk_ok st" "fixed st = fixed st0" "mk_idx st = mk_idx st0" "head st = idx_end (uc_leb_size (mk_c st0)) p (mk_fanout st0) (length es) T I"
    "idx_stored (uc_leb_size (mk_c st0)) p (mk_fanout st0) es T I st" "keeps (view st0) (view st)"
    "uc_leb_size (mk_c st) = uc_leb_size (mk_c st0)" "mk_fanout st = mk_fanout st0"
    "0 < I \<Longrightarrow> zroot_at (idx_at (uc_leb_size (mk_c st0)) p (mk_fanout st0) (length es) T (I - 1)) (isz (mk_fanout st0) (length es) T (I - 1)) st"
  using assms fixed_fields [of st st0] by (simp_all add: idx_inv_def Let_def)

lemma view_next_sqnum: "view (next_sqnum st) = view st" "mk_ok (next_sqnum st) = mk_ok st" "fixed (next_sqnum st) = fixed st"
  "head (next_sqnum st) = head st" "mk_idx (next_sqnum st) = mk_idx st" "mk_c (next_sqnum st) = mk_c st"
  by (simp_all add: next_sqnum_def view_def mk_ok_def fixed_def head_def)

lemma try_idx_node_ok:
  assumes wr: "\<And>l. wr l" and inv: "idx_inv st0 p es T I st" and sz: "ubifs_idx_node_sz (mk_fanout st0) \<le> uc_leb_size (mk_c st0)"
  shows "\<exists>st'. try_idx_node wr T (node_kids (uc_leb_size (mk_c st0)) p (mk_fanout st0) es T I) st = Ret st' \<and> idx_inv st0 p es T (Suc I) st'"
proof -
  define L f n where "L = uc_leb_size (mk_c st0)" and "f = mk_fanout st0" and "n = length es"
  note iv = idx_invD [OF inv, folded L_def f_def n_def]
  define st1 where "st1 = next_sqnum st"
  define node where "node = idx_img L p f es T I (mk_max_sqnum st1)"
  have len: "length node = isz f n T I" by (simp add: node_def length_idx_img n_def)
  have ok1: "mk_ok st1" "view st1 = view st" "fixed st1 = fixed st" "head st1 = head st" "mk_idx st1 = mk_idx st" "uc_leb_size (mk_c st1) = L"
    using iv(1,7) by (simp_all add: st1_def view_next_sqnum)
  have "isz f n T I \<le> ubifs_idx_node_sz f" by (simp add: isz_def ubifs_idx_node_sz_def kids_def)
  then have fit: "length node \<le> uc_leb_size (mk_c st1)" using sz len ok1(6) by (simp add: L_def f_def)
  have pl: "place (uc_leb_size (mk_c st1)) (head st1) (length node) = idx_at L p f n T I"
    by (simp add: ok1(4,6) iv(4) len idx_at_def)
  obtain st2 st3 where st3: "reserve_space wr (length node) st1 = Ret (fst (idx_at L p f n T I), snd (idx_at L p f n T I), st2)"
    "put_at (snd (idx_at L p f n T I)) node st2 = Ret st3" "mk_ok st3" "fixed st3 = fixed st1"
    "mk_idx st3 = mk_idx st1" "mk_head_flags st3 = mk_head_flags st1" "head st3 = after (idx_at L p f n T I) (ALIGN (length node) 8)"
    "keeps (view st1) (view st3)" "stored (view st3) (idx_at L p f n T I) node"
    by (rule append_node [where wr = wr, OF ok1(1) wr fit, unfolded pl])
  define st4 where "st4 = st3\<lparr>mk_old_idx_sz := mk_old_idx_sz st3 + ALIGN (length node) 8,
    mk_zroot := (fst (idx_at L p f n T I), snd (idx_at L p f n T I), length node)\<rparr>"
  have v4: "view st4 = view st3" "mk_ok st4" "fixed st4 = fixed st0" "mk_idx st4 = mk_idx st0" "head st4 = idx_end L p f n T (Suc I)"
    using st3(3) iv(2,3) st3(4,5,7) ok1(3,5)
    by (simp_all add: st4_def view_def mk_ok_def fixed_def head_def len idx_end_simps(3))
  have "try_idx_node wr T (node_kids L p f es T I) st = Ret st4"
    unfolding try_idx_node_def add_idx_node_def Let_def st1_def [symmetric] idx_img_def [symmetric] node_def [symmetric]
    using st3(1,2) by (simp add: st4_def)
  moreover have k: "keeps (view st) (view st4)" using st3(8) by (simp add: v4(1) ok1(2))
  have "idx_stored L p f es T (Suc I) st4"
    unfolding idx_stored_def
  proof (intro allI impI)
    fix t i assume a: "t < T \<and> i < lev f (length es) (Suc t) \<or> t = T \<and> i < Suc I"
    show "\<exists>sq. stored (view st4) (idx_at L p f (length es) t i) (idx_img L p f es t i sq)"
    proof (cases "t = T \<and> i = I")
      case True
      then show ?thesis using st3(9) by (auto simp: v4(1) node_def n_def)
    next
      case False
      then have "t < T \<and> i < lev f (length es) (Suc t) \<or> t = T \<and> i < I" using a by auto
      then obtain sq where "stored (view st) (idx_at L p f (length es) t i) (idx_img L p f es t i sq)" using iv(5) unfolding idx_stored_def by blast
      then show ?thesis using keepsD [OF k] by blast
    qed
  qed
  moreover have "zroot_at (idx_at L p f n T I) (isz f n T I) st4" by (simp add: zroot_at_def st4_def len)
  ultimately show ?thesis using v4 keeps_trans [OF iv(6) k]
    by (simp add: idx_inv_def Let_def L_def [symmetric] f_def [symmetric] n_def [symmetric])
qed

lemma bottom_level_ok:
  assumes wr: "\<And>l. wr l" and inv: "idx_inv st0 p es 0 i st" and sz: "ubifs_idx_node_sz (mk_fanout st0) \<le> uc_leb_size (mk_c st0)"
    and f: "0 < mk_fanout st0" and i: "i \<le> lev (mk_fanout st0) (length es) (Suc 0)"
  shows "\<exists>st'. bottom_level wr (lev (mk_fanout st0) (length es) (Suc 0)) [i..<lev (mk_fanout st0) (length es) (Suc 0)]
      (drop (i * mk_fanout st0) es) (length es) st = Ret st' \<and> idx_inv st0 p es 0 (lev (mk_fanout st0) (length es) (Suc 0)) st'"
proof -
  define f' n where "f' = mk_fanout st0" and "n = length es"
  define cnt where "cnt = lev f' n (Suc 0)"
  have "\<exists>st'. bottom_level wr cnt [i..<cnt] (drop (i * f') es) n st = Ret st' \<and> idx_inv st0 p es 0 cnt st'"
    using inv i [folded f'_def n_def, folded cnt_def]
  proof (induction "cnt - i" arbitrary: i st)
    case (Suc k)
    have lt: "i < cnt" using Suc.hyps(2) by simp
    have "i < lev f' n (Suc 0)" using lt by (simp only: cnt_def)
    then have cc: "child_count f' n cnt i = kids f' n 0 i" using child_count_kids [of f' i n 0] f by (simp only: cnt_def f'_def lev.simps(1))
    have fan: "mk_fanout st = f'" using idx_invD(8) [OF Suc.prems(1)] by (simp add: f'_def)
    have kd: "kids f' n 0 i \<le> n - i * f'" by (simp add: kids_def)
    have brs: "map leaf_branch (take (kids f' n 0 i) (drop (i * f') es)) = node_kids (uc_leb_size (mk_c st0)) p f' es 0 i"
      using kd by (intro nth_equalityI) (auto simp: node_kids_def kid_def n_def)
    obtain st1 where st1: "try_idx_node wr 0 (node_kids (uc_leb_size (mk_c st0)) p f' es 0 i) st = Ret st1" "idx_inv st0 p es 0 (Suc i) st1"
      using try_idx_node_ok [where wr = wr, OF wr Suc.prems(1) sz] by (auto simp: f'_def)
    have dr: "drop (kids f' n 0 i) (drop (i * f') es) = drop (Suc i * f') es" by (auto simp: kids_def n_def min_def add.commute)
    have len: "\<not> length (drop (i * f') es) < kids f' n 0 i" using kd by (simp add: n_def)
    have "bottom_level wr cnt [i..<cnt] (drop (i * f') es) n st = bottom_level wr cnt [Suc i..<cnt] (drop (Suc i * f') es) n st1"
      unfolding upt_conv_Cons [OF lt] bottom_level.simps fan cc Let_def brs dr using len st1(1) by simp
    then show ?case using Suc.hyps(1) [OF _ st1(2)] Suc.hyps(2) lt by simp
  qed (simp add: le_antisym)
  then show ?thesis by (simp only: f'_def n_def cnt_def)
qed

text \<open>The positions of the children run along the level below.\<close>

definition below_at :: "nat \<Rightarrow> nat \<times> nat \<Rightarrow> nat \<Rightarrow> nat \<Rightarrow> nat \<Rightarrow> nat \<Rightarrow> level_below" where
  "below_at leb p f n t m = \<lparr>lb_cnt = lev f n (Suc t), lb_last_len = isz f n t (lev f n (Suc t) - 1), lb_pstep = f ^ Suc t,
     lb_lnum = fst (idx_end leb p f n t m), lb_offs = snd (idx_end leb p f n t m)\<rparr>"

lemma full_node: "0 < f \<Longrightarrow> Suc m < lev f n (Suc t) \<Longrightarrow> isz f n t m = ubifs_idx_node_sz f"
  using lev_child [of f "Suc m" n t] by (simp add: isz_def kids_def)

lemma level_branches_ok:
  assumes "0 < f" "b \<le> lev f (length es) (Suc t)" "a \<le> b"
  shows "level_branches leb (ubifs_idx_node_sz f) es [a..<b] (below_at leb p f (length es) t a)
    = Ret (map (kid leb p f es (Suc t)) [a..<b], below_at leb p f (length es) t b)"
  using assms(3)
proof (induction "b - a" arbitrary: a)
  case (Suc k)
  let ?n = "length es"
  have lt: "a < b" using Suc.hyps(2) by simp
  then have al: "a < lev f ?n (Suc t)" using assms(2) by simp
  have blen: "(if a = lev f ?n (Suc t) - 1 then isz f ?n t (lev f ?n (Suc t) - 1) else ubifs_idx_node_sz f) = isz f ?n t a"
  proof (cases "a = lev f ?n (Suc t) - 1")
    case False
    then have "Suc a < lev f ?n (Suc t)" using al by linarith
    then show ?thesis using False full_node [OF assms(1)] by simp
  qed simp
  have idx: "a * f ^ Suc t < ?n" using lev_less_iff [OF assms(1)] al by blast
  have at: "(if snd (idx_end leb p f ?n t a) + isz f ?n t a > leb
      then (below_at leb p f ?n t a)\<lparr>lb_lnum := lb_lnum (below_at leb p f ?n t a) + 1, lb_offs := 0\<rparr> else below_at leb p f ?n t a)
    = (below_at leb p f ?n t a)\<lparr>lb_lnum := fst (idx_at leb p f ?n t a), lb_offs := snd (idx_at leb p f ?n t a)\<rparr>"
    by (simp add: below_at_def idx_at_def place_def)
  have nx: "(below_at leb p f ?n t a)\<lparr>lb_lnum := fst (idx_at leb p f ?n t a), lb_offs := snd (idx_at leb p f ?n t a) + ALIGN (isz f ?n t a) 8\<rparr>
    = below_at leb p f ?n t (Suc a)"
    by (simp add: below_at_def idx_end_simps(3) after_def)
  have f1: "lb_cnt (below_at leb p f ?n t a) = lev f ?n (Suc t)" "lb_last_len (below_at leb p f ?n t a) = isz f ?n t (lev f ?n (Suc t) - 1)"
    "lb_offs (below_at leb p f ?n t a) = snd (idx_end leb p f ?n t a)" "lb_pstep (below_at leb p f ?n t a) = f ^ Suc t"
    by (simp_all add: below_at_def)
  have "level_branches leb (ubifs_idx_node_sz f) es [Suc a..<b] (below_at leb p f ?n t (Suc a))
      = Ret (map (kid leb p f es (Suc t)) [Suc a..<b], below_at leb p f ?n t b)"
    using Suc.hyps(1) [of "Suc a"] Suc.hyps(2) lt by simp
  then show ?case
    unfolding upt_conv_Cons [OF lt] level_branches.simps Let_def f1 blen at
    using idx by (simp add: nx f1(4) kid_def kid_key_def del: power_Suc)
qed simp

lemma upper_level_ok:
  fixes st0 :: mkfs and es :: "idx_entry list" and t :: nat
  defines "f \<equiv> mk_fanout st0" and "n \<equiv> length es" and "L \<equiv> uc_leb_size (mk_c st0)"
  assumes wr: "\<And>l. wr l" and inv: "idx_inv st0 p es (Suc t) i st" and sz: "ubifs_idx_node_sz f \<le> L" and f: "0 < f"
    and i: "i \<le> lev f n (Suc (Suc t))"
  shows "\<exists>st'. upper_level wr (Suc t) (lev f n (Suc (Suc t))) es [i..<lev f n (Suc (Suc t))]
      (below_at L p f n t (min (i * f) (lev f n (Suc t)))) st = Ret (below_at L p f n t (lev f n (Suc t)), st')
    \<and> idx_inv st0 p es (Suc t) (lev f n (Suc (Suc t))) st'"
  using inv i
proof (induction "lev f n (Suc (Suc t)) - i" arbitrary: i st)
  case 0
  then have "i = lev f n (Suc (Suc t))" by simp
  moreover have "lev f n (Suc t) \<le> lev f n (Suc (Suc t)) * f" using ceil_div_le [OF f, of "lev f n (Suc t)" "lev f n (Suc (Suc t))"] by (simp only: lev.simps(2) [of f n "Suc t"] order_refl simp_thms)
  ultimately show ?case using "0.prems"(1) by (simp add: min_absorb2 del: lev.simps)
next
  case (Suc k)
  let ?c = "lev f n (Suc (Suc t))" and ?b = "lev f n (Suc t)"
  have lt: "i < ?c" using Suc.hyps(2) by simp
  have ib: "i * f < ?b" using lev_child [OF f] lt by blast
  have cc: "child_count f ?b ?c i = kids f n (Suc t) i" using child_count_kids [OF f lt] .
  note iv = idx_invD [OF Suc.prems(1), folded f_def n_def L_def]
  have kd: "i * f + kids f n (Suc t) i = min (Suc i * f) ?b" using ib by (auto simp: kids_def min_def simp del: lev.simps)
  have le: "i * f + kids f n (Suc t) i \<le> ?b" unfolding kd by simp
  have lb: "level_branches L (ubifs_idx_node_sz f) es [i * f..<i * f + kids f n (Suc t) i] (below_at L p f n t (i * f))
      = Ret (map (kid L p f es (Suc t)) [i * f..<i * f + kids f n (Suc t) i], below_at L p f n t (i * f + kids f n (Suc t) i))"
    unfolding n_def by (rule level_branches_ok [OF f le [unfolded n_def]]) simp
  have nk: "map (kid L p f es (Suc t)) [i * f..<i * f + kids f n (Suc t) i] = node_kids L p f es (Suc t) i"
    by (rule nth_equalityI) (simp_all add: node_kids_def n_def del: lev.simps)
  obtain st1 where st1: "try_idx_node wr (Suc t) (node_kids L p f es (Suc t) i) st = Ret st1" "idx_inv st0 p es (Suc t) (Suc i) st1"
    using try_idx_node_ok [where wr = wr, OF wr Suc.prems(1) sz [unfolded f_def L_def]] by (auto simp: f_def L_def)
  have m: "min (i * f) ?b = i * f" using ib by (simp del: lev.simps)
  have cnt: "lb_cnt (below_at L p f n t (i * f)) = ?b" by (simp add: below_at_def del: lev.simps)
  have "upper_level wr (Suc t) ?c es [i..<?c] (below_at L p f n t (min (i * f) ?b)) st
      = upper_level wr (Suc t) ?c es [Suc i..<?c] (below_at L p f n t (min (Suc i * f) ?b)) st1"
    unfolding m upt_conv_Cons [OF lt] upper_level.simps iv(7,8) Let_def cnt cc lb nk outcome.case prod.case st1(1)
    unfolding kd by (rule refl)
  moreover have "Suc i \<le> ?c" "k = ?c - Suc i" using lt Suc.hyps(2) by simp_all
  ultimately show ?case using Suc.hyps(1) [OF _ st1(2)] by (simp del: lev.simps)
qed

lemma upper_levels_ok:
  fixes st0 :: mkfs and es :: "idx_entry list"
  defines "f \<equiv> mk_fanout st0" and "n \<equiv> length es" and "L \<equiv> uc_leb_size (mk_c st0)"
  assumes wr: "\<And>l. wr l" and inv: "idx_inv st0 p es t (lev f n (Suc t)) st" and sz: "ubifs_idx_node_sz f \<le> L" and f: "2 \<le> f" and n: "0 < n"
    and low: "t = 0 \<or> 1 < lev f n t"
  shows "\<exists>st' H. upper_levels wr f t (lev f n (Suc t)) es (f ^ t) (idx_end L p f n t 0) (isz f n t (lev f n (Suc t) - 1)) st = Ret st'
    \<and> idx_inv st0 p es H 1 st' \<and> lev f n (Suc H) = 1 \<and> (H = 0 \<or> 1 < lev f n H)"
  using inv low
proof (induction "lev f n (Suc t)" arbitrary: t st rule: less_induct)
  case less
  have f0: "0 < f" using f by simp
  have pos: "0 < lev f n (Suc t)" by (rule lev_pos [OF f0 n])
  show ?case
  proof (cases "lev f n (Suc t) > 1")
    case False
    then have one: "lev f n (Suc t) = 1" using pos by linarith
    then have "upper_levels wr f t (lev f n (Suc t)) es (f ^ t) (idx_end L p f n t 0) (isz f n t (lev f n (Suc t) - 1)) st = Ret st"
      by (subst upper_levels.simps) simp
    then show ?thesis using less.prems one by metis
  next
    case True
    let ?c = "lev f n (Suc (Suc t))"
    have c: "?c = (lev f n (Suc t) + f - 1) div f" by simp
    have pc: "0 < ?c" by (rule lev_pos [OF f0 n])
    have smaller: "?c < lev f n (Suc t)"
    proof -
      have "\<not> lev f n (Suc t) \<le> ?c"
      proof
        assume a: "lev f n (Suc t) \<le> ?c"
        have "(lev f n (Suc t) - 1) * 2 \<le> (lev f n (Suc t) - 1) * f" using f by simp
        then have "lev f n (Suc t) \<le> (lev f n (Suc t) - 1) * f" using True by linarith
        then have "?c \<le> lev f n (Suc t) - 1" unfolding c by (subst ceil_div_le [OF f0])
        then show False using a True by linarith
      qed
      then show ?thesis by simp
    qed
    have inv0: "idx_inv st0 p es (Suc t) 0 st"
    proof -
      note iv = idx_invD [OF less.prems(1), folded f_def n_def L_def]
      have "idx_stored L p f es (Suc t) 0 st" using iv(5) unfolding idx_stored_def n_def by (auto simp: less_Suc_eq simp del: lev.simps)
      then show ?thesis using iv(1-4,6) by (simp add: idx_inv_def Let_def f_def [symmetric] n_def [symmetric] L_def [symmetric] idx_end_simps(2) del: lev.simps)
    qed
    have b0: "\<lparr>lb_cnt = lev f n (Suc t), lb_last_len = isz f n t (lev f n (Suc t) - 1), lb_pstep = f ^ Suc t,
        lb_lnum = fst (idx_end L p f n t 0), lb_offs = snd (idx_end L p f n t 0)\<rparr> = below_at L p f n t 0"
      by (simp add: below_at_def del: lev.simps)
    have nf: "(f < 2) = False" using f by simp
    obtain st1 where st1: "upper_level wr (Suc t) ?c es [0..<?c] (below_at L p f n t 0) st = Ret (below_at L p f n t (lev f n (Suc t)), st1)"
      "idx_inv st0 p es (Suc t) ?c st1"
      using upper_level_ok [where wr = wr, OF wr inv0 sz [unfolded f_def L_def] f0 [unfolded f_def] le0]
      by (auto simp: f_def n_def L_def simp del: lev.simps)
    have e: "(lb_lnum (below_at L p f n t (lev f n (Suc t))), lb_offs (below_at L p f n t (lev f n (Suc t)))) = idx_end L p f n (Suc t) 0"
      by (simp add: below_at_def idx_end_simps(2) del: lev.simps)
    have last: "?c - 1 < ?c" using pc by simp
    have cc: "ubifs_idx_node_sz (child_count f (lev f n (Suc t)) ?c (?c - 1)) = isz f n (Suc t) (?c - 1)"
      unfolding child_count_kids [OF f0 last] by (simp add: isz_def)
    have cnt: "(let m = (lev f n (Suc t) + f - 1) div f in if m = 0 then 1 else m) = ?c"
      unfolding c [symmetric] using pc by (simp add: Let_def del: lev.simps)
    have "upper_levels wr f t (lev f n (Suc t)) es (f ^ t) (idx_end L p f n t 0) (isz f n t (lev f n (Suc t) - 1)) st
        = upper_levels wr f (Suc t) ?c es (f ^ Suc t) (idx_end L p f n (Suc t) 0) (isz f n (Suc t) (?c - 1)) st1"
      using True
      by (subst upper_levels.simps) (simp only: cnt Let_def [of "lev f n (Suc t)"] Let_def [of ?c] power_Suc2 [symmetric] Let_def [of "f ^ Suc t"]
          b0 Suc_eq_plus1 [symmetric] st1(1) outcome.case prod.case e cc if_True if_False nf)
    then show ?thesis using less.hyps [OF smaller st1(2)] True by (simp del: lev.simps power_Suc)
  qed
qed

section \<open>Sorted entries\<close>

lemma cmp_idx_distinct: "e_key a \<noteq> e_key b \<Longrightarrow> cmp_idx a b = Some (sgn (int (key_num (e_key a)) - int (key_num (e_key b))))"
  using key_num_inject [of "e_key a" "e_key b"] by (simp add: cmp_idx_def keys_cmp_num Let_def sgn_eq_0_iff)

lemma insort_idx_key:
  "list_all (\<lambda>x. e_key x \<noteq> e_key e) xs \<Longrightarrow> insort_idx e xs = insort_key (\<lambda>x. key_num (e_key x)) e xs"
proof (induction xs)
  case (Cons x xs)
  then have ne: "e_key e \<noteq> e_key x" by auto
  have "key_num (e_key e) \<noteq> key_num (e_key x)" using ne by (simp add: key_num_inject)
  then show ?case using Cons cmp_idx_distinct [OF ne] by (auto simp: sgn_if)
qed simp

lemma qsort_idx_sorts:
  assumes "distinct (map e_key es)"
  shows "qsort_idx es = sort_key (\<lambda>x. key_num (e_key x)) es" "comparable es"
proof -
  show "qsort_idx es = sort_key (\<lambda>x. key_num (e_key x)) es"
    using assms unfolding qsort_idx_def sort_key_def
  proof (induction es)
    case (Cons e es)
    have "list_all (\<lambda>x. e_key x \<noteq> e_key e) (sort_key (\<lambda>x. key_num (e_key x)) es)"
      using Cons.prems unfolding list_all_iff set_sort by (metis distinct.simps(2) image_eqI list.set_map list.simps(9))
    then show ?case using Cons insort_idx_key [of e] by (simp add: sort_key_def)
  qed simp
  show "comparable es"
    using assms
  proof (induction es)
    case (Cons e es)
    have "cmp_idx e x \<noteq> None \<and> (e_key e, e_name e) \<noteq> (e_key x, e_name x)" if "x \<in> set es" for x
    proof -
      have "e_key e \<noteq> e_key x" using Cons.prems that by auto
      then show ?thesis using cmp_idx_distinct by simp
    qed
    then show ?case using Cons by (simp add: list_all_iff)
  qed simp
qed

definition key_at :: "idx_entry list \<Rightarrow> nat \<Rightarrow> nat" where
  "key_at es i = key_num (e_key (es ! i))"

lemma key_at_mono:
  assumes "distinct (map e_key es)" "sorted (map (\<lambda>x. key_num (e_key x)) es)" "a < length es" "b < length es"
  shows "key_at es a \<le> key_at es b \<longleftrightarrow> a \<le> b"
proof -
  let ?k = "map (\<lambda>x. key_num (e_key x)) es"
  have "inj_on key_num (set (map e_key es))" by (auto simp: inj_on_def key_num_inject)
  then have "distinct (map key_num (map e_key es))" using assms(1) distinct_map by blast
  then have "distinct ?k" by (simp add: o_def)
  then have "sorted_wrt (<) ?k" using assms(2) by (simp add: strict_sorted_iff)
  then have lt: "key_at es i < key_at es j" if "i < j" "j < length es" for i j
    using that unfolding key_at_def by (auto simp: sorted_wrt_iff_nth_less)
  show ?thesis using lt [of a b] lt [of b a] assms(3,4) by (cases "a = b"; cases "a < b") auto
qed

section \<open>Searching the index\<close>

definition UBIFS_MAX_LEVELS :: nat where "UBIFS_MAX_LEVELS = 512"

definition read_ubifs :: "(nat \<rightharpoonup> bytes) \<Rightarrow> nat \<times> nat \<times> nat \<Rightarrow> bytes option" where
  "read_ubifs lebs z =
     (case lebs (fst z) of None \<Rightarrow> None
      | Some b \<Rightarrow> (case chunk b (fst (snd z)) (snd (snd z)) of None \<Rightarrow> None | Some node \<Rightarrow> if node_ok node then Some node else None))"

text \<open>The reader of the index: in every node the last branch whose key is not greater, down to an equal key in the
  bottom level.\<close>

fun idx_search :: "(nat \<rightharpoonup> bytes) \<Rightarrow> nat \<Rightarrow> nat \<times> nat \<times> nat \<Rightarrow> ubifs_key \<Rightarrow> zbranch option" where
  "idx_search lebs 0 z key = None"
| "idx_search lebs (Suc fuel) z key =
     (case read_ubifs lebs z of None \<Rightarrow> None
      | Some node \<Rightarrow>
          (let body = node_data node; brs = filter (\<lambda>b. keys_cmp (zb_key b) key \<le> 0) (idx_branches body) in
           if node_type node \<noteq> UBIFS_IDX_NODE \<or> brs = [] then None
           else if idx_level body = 0 then (if zb_key (last brs) = key then Some (last brs) else None)
           else idx_search lebs fuel (zb_lnum (last brs), zb_offs (last brs), zb_len (last brs)) key))"

definition idx_lookup :: "(nat \<rightharpoonup> bytes) \<Rightarrow> nat \<times> nat \<times> nat \<Rightarrow> ubifs_key \<Rightarrow> zbranch option" where
  "idx_lookup lebs zroot key = idx_search lebs UBIFS_MAX_LEVELS zroot key"

lemma read_ubifs_flashed: "flashed V pos node \<Longrightarrow> node_ok node \<Longrightarrow> read_ubifs (lo_lebs V) (fst pos, snd pos, length node) = Some node"
  by (auto simp: read_ubifs_def flashed_def)

lemma filter_upt_le: "r < k \<Longrightarrow> filter (\<lambda>j. j \<le> r) [0..<k] = [0..<Suc r]"
proof (induction k)
  case (Suc k)
  show ?case
  proof (cases "r = k")
    case True
    have "filter (\<lambda>j. j \<le> k) [0..<k] = [0..<k]" by (simp add: filter_id_conv)
    then show ?thesis using True by simp
  qed (use Suc in simp)
qed simp

text \<open>The branch on the way to the entry \<open>q\<close>.\<close>

lemma filter_kids:
  assumes f: "0 < f" and es: "distinct (map e_key es)" "sorted (map (\<lambda>x. key_num (e_key x)) es)" and q: "q < length es"
  shows "filter (\<lambda>b. keys_cmp (zb_key b) (e_key (es ! q)) \<le> 0) (node_kids L p f es t (q div f ^ Suc t))
    = map (\<lambda>j. kid L p f es t (q div f ^ Suc t * f + j)) [0..<Suc ((q div f ^ t) mod f)]"
proof -
  let ?n = "length es"
  define m where "m = q div f ^ t"
  define i where "i = q div f ^ Suc t"
  define r where "r = m mod f"
  have ft: "0 < f ^ t" using f by simp
  have i: "i = m div f" by (simp add: i_def m_def power_Suc2 div_mult2_eq del: power_Suc)
  have m: "m = i * f + r" unfolding i r_def by simp
  have le: "x * f ^ t \<le> q \<longleftrightarrow> x \<le> m" for x unfolding m_def by (rule less_eq_div_iff_mult_less_eq [OF ft, symmetric])
  have mn: "m < lev f ?n t" using lev_less_iff [OF f, of m ?n t] le [of m] q by linarith
  have rf: "r < f" using f by (simp add: r_def)
  then have rk: "r < kids f ?n t i" unfolding kids_def min_less_iff_conj using mn m by linarith
  have sel: "keys_cmp (zb_key (kid L p f es t (i * f + j))) (e_key (es ! q)) \<le> 0 \<longleftrightarrow> j \<le> r" if "j < kids f ?n t i" for j
  proof -
    have "i * f + j < lev f ?n t" using that unfolding kids_def min_less_iff_conj by linarith
    then have x: "(i * f + j) * f ^ t < ?n" using lev_less_iff [OF f] by blast
    have "keys_cmp (zb_key (kid L p f es t (i * f + j))) (e_key (es ! q)) \<le> 0 \<longleftrightarrow> key_at es ((i * f + j) * f ^ t) \<le> key_at es q"
      by (simp add: kid_key kid_key_def keys_cmp_num key_at_def sgn_if)
    also have "\<dots> \<longleftrightarrow> (i * f + j) * f ^ t \<le> q" by (rule key_at_mono [OF es x q])
    also have "\<dots> \<longleftrightarrow> j \<le> r" by (simp add: le m)
    finally show ?thesis .
  qed
  have "filter (\<lambda>j. keys_cmp (zb_key (kid L p f es t (i * f + j))) (e_key (es ! q)) \<le> 0) [0..<kids f ?n t i] = filter (\<lambda>j. j \<le> r) [0..<kids f ?n t i]"
    by (rule filter_cong) (use sel in simp_all)
  also have "\<dots> = [0..<Suc r]" by (rule filter_upt_le [OF rk])
  finally show ?thesis
    unfolding node_kids_def filter_map o_def i_def [symmetric] r_def [symmetric] m_def [symmetric] by (simp only:)
qed

lemma read_idx_node:
  assumes "\<exists>sq. flashed V (idx_at L p f (length es) t i) (idx_img L p f es t i sq)" "f < 2 ^ 16" "t < 2 ^ 16" "i * f < lev f (length es) t"
    and fit: "\<And>m. m < lev f (length es) t \<Longrightarrow> zbranch_fits (kid L p f es t m)"
  obtains node where "read_ubifs (lo_lebs V) (fst (idx_at L p f (length es) t i), snd (idx_at L p f (length es) t i), isz f (length es) t i) = Some node"
    "node_type node = UBIFS_IDX_NODE" "idx_level (node_data node) = t" "idx_branches (node_data node) = node_kids L p f es t i"
proof -
  obtain sq where fl: "flashed V (idx_at L p f (length es) t i) (idx_img L p f es t i sq)" using assms(1) by blast
  let ?node = "idx_img L p f es t i sq"
  note pn = prepare_node_ok [of sq UBIFS_IDX_NODE "idx_body t (node_kids L p f es t i)", folded idx_img_def]
  have r: "read_ubifs (lo_lebs V) (fst (idx_at L p f (length es) t i), snd (idx_at L p f (length es) t i), isz f (length es) t i) = Some ?node"
    using read_ubifs_flashed [OF fl pn(1)] unfolding length_idx_img .
  have "i * f + j < lev f (length es) t" if "j < kids f (length es) t i" for j
    using that unfolding kids_def min_less_iff_conj by linarith
  then have kf: "list_all zbranch_fits (node_kids L p f es t i)" using fit by (auto simp: node_kids_def list_all_iff)
  have kl: "length (node_kids L p f es t i) < 2 ^ 16" using assms(2) by (simp add: length_node_kids kids_def)
  note b = idx_body_read [OF kf kl assms(3)]
  show thesis by (rule that [OF r pn(2)]) (simp_all only: pn(3) b)
qed

lemma idx_search_flashed:
  assumes f: "0 < f" "f < 2 ^ 16" and es: "distinct (map e_key es)" "sorted (map (\<lambda>x. key_num (e_key x)) es)" and q: "q < length es"
    and nodes: "\<And>t i. t \<le> H \<Longrightarrow> i < lev f (length es) (Suc t) \<Longrightarrow> \<exists>sq. flashed V (idx_at L p f (length es) t i) (idx_img L p f es t i sq)"
    and fit: "\<And>t m. t \<le> H \<Longrightarrow> m < lev f (length es) t \<Longrightarrow> zbranch_fits (kid L p f es t m)" and H: "H < 2 ^ 16"
  shows "t \<le> H \<Longrightarrow> t < fuel \<Longrightarrow> idx_search (lo_lebs V) fuel
      (fst (idx_at L p f (length es) t (q div f ^ Suc t)), snd (idx_at L p f (length es) t (q div f ^ Suc t)), isz f (length es) t (q div f ^ Suc t))
      (e_key (es ! q)) = Some (leaf_branch (es ! q))"
proof (induction t arbitrary: fuel)
  have node: "\<exists>node. read_ubifs (lo_lebs V) (fst (idx_at L p f (length es) t (q div f ^ Suc t)), snd (idx_at L p f (length es) t (q div f ^ Suc t)), isz f (length es) t (q div f ^ Suc t)) = Some node
      \<and> node_type node = UBIFS_IDX_NODE \<and> idx_level (node_data node) = t
      \<and> filter (\<lambda>b. keys_cmp (zb_key b) (e_key (es ! q)) \<le> 0) (idx_branches (node_data node)) \<noteq> []
      \<and> last (filter (\<lambda>b. keys_cmp (zb_key b) (e_key (es ! q)) \<le> 0) (idx_branches (node_data node))) = kid L p f es t (q div f ^ t)"
    if t: "t \<le> H" for t
  proof -
    let ?i = "q div f ^ Suc t"
    have fl: "0 < f ^ Suc t" using f(1) by simp
    have "?i * f ^ Suc t \<le> q" by simp
    then have il: "?i < lev f (length es) (Suc t)" using lev_less_iff [OF f(1), of ?i "length es" "Suc t"] q by linarith
    have il2: "?i * f < lev f (length es) t" using lev_child [OF f(1)] il by blast
    have t16: "t < 2 ^ 16" using t H by linarith
    obtain node where nd: "read_ubifs (lo_lebs V) (fst (idx_at L p f (length es) t ?i), snd (idx_at L p f (length es) t ?i), isz f (length es) t ?i) = Some node"
      "node_type node = UBIFS_IDX_NODE" "idx_level (node_data node) = t" "idx_branches (node_data node) = node_kids L p f es t ?i"
      by (rule read_idx_node [OF nodes [OF t il] f(2) t16 il2 fit [OF t]])
    have "?i * f + q div f ^ t mod f = q div f ^ t" by (simp add: power_Suc2 div_mult2_eq del: power_Suc)
    then have "last (map (\<lambda>j. kid L p f es t (?i * f + j)) [0..<Suc (q div f ^ t mod f)]) = kid L p f es t (q div f ^ t)" by simp
    then show ?thesis using nd filter_kids [OF f(1) es q, of L p t] by (intro exI [of _ node]) (simp del: upt_Suc power_Suc)
  qed
  {
    case 0
    then obtain fu where fu: "fuel = Suc fu" by (cases fuel) simp_all
    from node [OF 0(1)] show ?case unfolding fu
      by (auto simp: Let_def kid_def leaf_branch_def simp del: power_Suc)
  next
    case (Suc t)
    then obtain fu where fu: "fuel = Suc fu" by (cases fuel) simp_all
    have IH: "idx_search (lo_lebs V) fu (fst (idx_at L p f (length es) t (q div f ^ Suc t)), snd (idx_at L p f (length es) t (q div f ^ Suc t)),
        isz f (length es) t (q div f ^ Suc t)) (e_key (es ! q)) = Some (leaf_branch (es ! q))"
      using Suc fu by simp
    have k: "zb_lnum (kid L p f es (Suc t) m) = fst (idx_at L p f (length es) t m)" "zb_offs (kid L p f es (Suc t) m) = snd (idx_at L p f (length es) t m)"
      "zb_len (kid L p f es (Suc t) m) = isz f (length es) t m" for m by (simp_all add: kid_def)
    obtain nd where nd: "read_ubifs (lo_lebs V) (fst (idx_at L p f (length es) (Suc t) (q div f ^ Suc (Suc t))), snd (idx_at L p f (length es) (Suc t) (q div f ^ Suc (Suc t))), isz f (length es) (Suc t) (q div f ^ Suc (Suc t))) = Some nd"
      "node_type nd = UBIFS_IDX_NODE" "idx_level (node_data nd) = Suc t"
      "filter (\<lambda>b. keys_cmp (zb_key b) (e_key (es ! q)) \<le> 0) (idx_branches (node_data nd)) \<noteq> []"
      "last (filter (\<lambda>b. keys_cmp (zb_key b) (e_key (es ! q)) \<le> 0) (idx_branches (node_data nd))) = kid L p f es (Suc t) (q div f ^ Suc t)"
      using node [OF Suc.prems(1)] by blast
    show ?case unfolding fu idx_search.simps nd(1) option.case Let_def nd(5) k using nd(2,3,4) IH by (simp del: power_Suc)
  }
qed

section \<open>The index on flash\<close>

lemma stored_flushed:
  assumes "mk_head_offs st = 0" "stored (view st) pos img" "img \<noteq> []"
  shows "flashed (view st) pos img" "fst pos < mk_head_lnum st"
  using assms by (auto simp: stored_def flashed_def view_def chunk_def split: if_splits)

lemma place_fits: "sz \<le> leb \<Longrightarrow> snd (place leb pos sz) + sz \<le> leb"
  by (simp add: place_def)

lemma isz_le: "isz f n t i \<le> ubifs_idx_node_sz f"
  by (simp add: isz_def ubifs_idx_node_sz_def kids_def)

lemma write_index_ok:
  assumes ok: "mk_ok st" and wr: "\<And>l. wr l" and f: "2 \<le> mk_fanout st" "ubifs_idx_node_sz (mk_fanout st) \<le> uc_leb_size (mk_c st)"
    and ne: "mk_idx st \<noteq> []" and d: "distinct (map e_key (mk_idx st))"
  defines "es \<equiv> sort_key (\<lambda>x. key_num (e_key x)) (mk_idx st)" and "L \<equiv> uc_leb_size (mk_c st)"
  obtains st' H where "write_index wr st = Ret st'" "mk_ok st'" "fixed st' = fixed st" "mk_head_offs st' = 0" "keeps (view st) (view st')"
    "mk_zroot st' = (fst (idx_at L (head st) (mk_fanout st) (length es) H 0), snd (idx_at L (head st) (mk_fanout st) (length es) H 0), isz (mk_fanout st) (length es) H 0)"
    "lev (mk_fanout st) (length es) (Suc H) = 1" "H = 0 \<or> 1 < lev (mk_fanout st) (length es) H"
    "\<forall>t i. t \<le> H \<longrightarrow> i < lev (mk_fanout st) (length es) (Suc t) \<longrightarrow>
       (\<exists>sq. stored (view st') (idx_at L (head st) (mk_fanout st) (length es) t i) (idx_img L (head st) (mk_fanout st) es t i sq))"
proof -
  define f' n where "f' = mk_fanout st" and "n = length es"
  have nn: "n = length (mk_idx st)" "0 < n" using ne by (simp_all add: n_def es_def)
  have f0: "0 < f'" using f(1) by (simp add: f'_def)
  define st0 where "st0 = st\<lparr>mk_head_flags := LPROPS_INDEX\<rparr>"
  have st0: "mk_ok st0" "fixed st0 = fixed st" "mk_idx st0 = mk_idx st" "head st0 = head st" "view st0 = view st" "mk_fanout st0 = f'" "uc_leb_size (mk_c st0) = L"
    using ok by (simp_all add: st0_def mk_ok_def fixed_def head_def view_def f'_def L_def)
  have inv0: "idx_inv st0 (head st) es 0 0 st0"
    using st0(1) by (simp add: idx_inv_def Let_def st0(4) idx_end_simps(1) idx_stored_def keeps_def)
  have cnt: "n div f' + (if n mod f' \<noteq> 0 then 1 else 0) = lev f' n (Suc 0)" by (rule lev_first [OF f0])
  have sz: "ubifs_idx_node_sz (mk_fanout st0) \<le> uc_leb_size (mk_c st0)" "0 < mk_fanout st0" using f(2) f0 st0(6,7) by (simp_all add: f'_def L_def)
  obtain st1 where st1: "bottom_level wr (lev f' n (Suc 0)) [0..<lev f' n (Suc 0)] es n st0 = Ret st1" "idx_inv st0 (head st) es 0 (lev f' n (Suc 0)) st1"
    using bottom_level_ok [where wr = wr, OF wr inv0 sz le0] by (auto simp: st0(6) n_def simp del: lev.simps)
  have up: "\<exists>st' H. upper_levels wr (mk_fanout st0) 0 (lev (mk_fanout st0) (length es) (Suc 0)) es (mk_fanout st0 ^ 0) (idx_end (uc_leb_size (mk_c st0)) (head st) (mk_fanout st0) (length es) 0 0)
      (isz (mk_fanout st0) (length es) 0 (lev (mk_fanout st0) (length es) (Suc 0) - 1)) st1 = Ret st'
    \<and> idx_inv st0 (head st) es H 1 st' \<and> lev (mk_fanout st0) (length es) (Suc H) = 1 \<and> (H = 0 \<or> 1 < lev (mk_fanout st0) (length es) H)"
    by (rule upper_levels_ok [where wr = wr, OF wr _ sz(1)]) (use st1(2) f(1) nn(2) in \<open>simp_all add: st0(6) n_def f'_def del: lev.simps(2)\<close>)
  then obtain st2 H where st2: "upper_levels wr f' 0 (lev f' n (Suc 0)) es 1 (head st) (isz f' n 0 (lev f' n (Suc 0) - 1)) st1 = Ret st2"
    "idx_inv st0 (head st) es H 1 st2" "lev f' n (Suc H) = 1" "H = 0 \<or> 1 < lev f' n H"
    unfolding st0(6) n_def [symmetric] idx_end_simps(1) power_0 by blast
  note iv = idx_invD [OF st2(2), unfolded st0(6,7), folded n_def]
  define st3 where "st3 = st2\<lparr>mk_ihead := (mk_head_lnum st2, ALIGN (mk_head_offs st2) (uc_min_io_size (mk_c st2)))\<rparr>"
  have v3: "mk_ok st3" "view st3 = view st2" "fixed st3 = fixed st2" "mk_zroot st3 = mk_zroot st2" "head st3 = head st2"
    using iv(1) by (simp_all add: st3_def mk_ok_def view_def fixed_def head_def)
  obtain st' where st': "flush_nodes wr st3 = Ret st'" "mk_ok st'" "fixed st' = fixed st3" "mk_idx st' = mk_idx st3" "mk_head_flags st' = mk_head_flags st3"
    "head st' = (if mk_head_offs st3 = 0 then head st3 else (mk_head_lnum st3 + 1, 0))" "keeps (view st3) (view st')" "mk_zroot st' = mk_zroot st3"
    by (rule flush_nodes_ok [where wr = wr, OF v3(1) wr])
  have last: "lev f' n (Suc 0) - 1 < lev f' n (Suc 0)" using lev_pos [OF f0 nn(2), of "Suc 0"] by (simp del: lev.simps)
  have blast: "ubifs_idx_node_sz (child_count f' n (lev f' n (Suc 0)) (lev f' n (Suc 0) - 1)) = isz f' n 0 (lev f' n (Suc 0) - 1)"
    using child_count_kids [OF f0 last] by (simp add: isz_def del: lev.simps(2))
  have ret: "write_index wr st = Ret st'"
    unfolding write_index_def st0_def [symmetric] Let_def st0(3,6) nn(1) [symmetric] cnt qsort_idx_sorts(1) [OF d] es_def [symmetric] st1(1) outcome.case
      head_def [symmetric] blast st0(4) st2(1) st3_def [symmetric] st'(1)
    using nn(2) f0 qsort_idx_sorts(2) [OF d] by (simp del: lev.simps)
  have offs: "mk_head_offs st' = 0" using st'(6) by (auto simp: head_def split: if_splits)
  have zr: "mk_zroot st' = (fst (idx_at L (head st) f' n H 0), snd (idx_at L (head st) f' n H 0), isz f' n H 0)"
    using iv(9) by (simp add: st'(8) v3(4) zroot_at_def)
  have keep: "keeps (view st) (view st')" using keeps_trans [OF iv(6) st'(7) [unfolded v3(2)]] by (simp only: st0(5))
  have nodes: "\<exists>sq. stored (view st') (idx_at L (head st) f' n t i) (idx_img L (head st) f' es t i sq)" if "t \<le> H" "i < lev f' n (Suc t)" for t i
  proof -
    have "t < H \<and> i < lev f' (length es) (Suc t) \<or> t = H \<and> i < 1" using that st2(3) by (cases "t = H") (simp_all add: n_def del: lev.simps)
    then obtain sq where "stored (view st2) (idx_at L (head st) f' n t i) (idx_img L (head st) f' es t i sq)"
      using iv(5) unfolding idx_stored_def n_def by blast
    then show ?thesis using keepsD [OF st'(7) [unfolded v3(2)]] by blast
  qed
  show thesis
    by (rule that [folded f'_def n_def, OF ret st'(2) _ offs keep zr st2(3,4)]) (use st'(3) v3(3) iv(2) st0(2) nodes in simp_all)
qed

lemma place_idx_fits:
  "ubifs_idx_node_sz f \<le> leb \<Longrightarrow> snd (idx_at leb p f n t i) + isz f n t i \<le> leb"
  unfolding idx_at_def by (rule place_fits) (rule order_trans [OF isz_le])

text \<open>A tree over fewer than $2^{32}$ entries is far below the depth that the reader follows.\<close>

lemma height_bound:
  assumes "2 \<le> f" "n < 2 ^ 32" "H = 0 \<or> 1 < lev f n H"
  shows "H < 32"
proof (cases "H = 0")
  case False
  then have "1 * f ^ H < n" using assms(1,3) lev_less_iff [of f 1 n H] by auto
  moreover have "2 ^ H \<le> f ^ H" by (rule power_mono) (use assms(1) in simp_all)
  ultimately have "(2::nat) ^ H < 2 ^ 32" using assms(2) by linarith
  then show ?thesis by (rule power_less_imp_less_exp [rotated]) simp
qed simp

lemma index_lookup:
  assumes ok: "mk_ok st" and wr: "\<And>l. wr l" and f: "2 \<le> mk_fanout st" "mk_fanout st < 2 ^ 16" "ubifs_idx_node_sz (mk_fanout st) \<le> uc_leb_size (mk_c st)"
    and ne: "mk_idx st \<noteq> []" "length (mk_idx st) < 2 ^ 32" and d: "distinct (map e_key (mk_idx st))"
    and fit: "list_all (\<lambda>e. zbranch_fits (leaf_branch e)) (mk_idx st)"
  obtains st' where "write_index wr st = Ret st'" "mk_ok st'" "fixed st' = fixed st" "mk_head_offs st' = 0" "keeps (view st) (view st')"
    "mk_head_lnum st' < 2 ^ 32 \<longrightarrow> (\<forall>e\<in>set (mk_idx st). idx_lookup (mk_lebs st') (mk_zroot st') (e_key e) = Some (leaf_branch e))"
proof -
  define es where "es = sort_key (\<lambda>x. key_num (e_key x)) (mk_idx st)"
  define L where "L = uc_leb_size (mk_c st)"
  define f' n where "f' = mk_fanout st" and "n = length es"
  have n: "n = length (mk_idx st)" by (simp add: n_def es_def)
  obtain st' H where st': "write_index wr st = Ret st'" "mk_ok st'" "fixed st' = fixed st" "mk_head_offs st' = 0" "keeps (view st) (view st')"
    "mk_zroot st' = (fst (idx_at L (head st) f' n H 0), snd (idx_at L (head st) f' n H 0), isz f' n H 0)"
    "lev f' n (Suc H) = 1" "H = 0 \<or> 1 < lev f' n H"
    "\<forall>t i. t \<le> H \<longrightarrow> i < lev f' n (Suc t) \<longrightarrow> (\<exists>sq. stored (view st') (idx_at L (head st) f' n t i) (idx_img L (head st) f' es t i sq))"
    unfolding f'_def n_def L_def es_def by (rule write_index_ok [where wr = wr, OF ok wr f(1,3) ne(1) d])
  have H: "H < 32" by (rule height_bound [OF _ _ st'(8)]) (use f(1) ne(2) n in \<open>simp_all add: f'_def\<close>)
  have f0: "0 < f'" "f' < 2 ^ 16" using f by (simp_all add: f'_def)
  have perm: "set es = set (mk_idx st)" "distinct (map e_key es)" "sorted (map (\<lambda>x. key_num (e_key x)) es)"
  proof -
    show "set es = set (mk_idx st)" "sorted (map (\<lambda>x. key_num (e_key x)) es)" by (simp_all add: es_def)
    show "distinct (map e_key es)" using d by (simp add: es_def distinct_map)
  qed
  have nz: "idx_img L (head st) f' es t i sq \<noteq> []" for t i sq
    using length_idx_img [of L "head st" f' es t i sq] by (auto simp: isz_def ubifs_idx_node_sz_def ubifs_consts)
  have found: "idx_lookup (mk_lebs st') (mk_zroot st') (e_key e) = Some (leaf_branch e)"
    if b: "mk_head_lnum st' < 2 ^ 32" and e: "e \<in> set (mk_idx st)" for e
  proof -
    obtain q where q: "q < length es" "es ! q = e" using e unfolding perm(1) [symmetric] in_set_conv_nth by blast
    have nodes: "\<exists>sq. flashed (view st') (idx_at L (head st) f' (length es) t i) (idx_img L (head st) f' es t i sq)
      \<and> fst (idx_at L (head st) f' (length es) t i) < mk_head_lnum st'" if "t \<le> H" "i < lev f' (length es) (Suc t)" for t i
      using st'(9) that stored_flushed [OF st'(4) _ nz] unfolding n_def by blast
    have zf: "zbranch_fits (kid L (head st) f' es t m)" if t: "t \<le> H" and m: "m < lev f' (length es) t" for t m
    proof (cases t)
      case 0
      then show ?thesis using m fit by (simp add: kid_def list_all_iff perm(1) [symmetric])
    next
      case (Suc s)
      have "fst (idx_at L (head st) f' (length es) s m) < mk_head_lnum st'" using nodes [of s m] t m Suc by auto
      moreover have "snd (idx_at L (head st) f' (length es) s m) + isz f' (length es) s m \<le> L"
        by (rule place_idx_fits) (use f(3) in \<open>simp add: f'_def L_def\<close>)
      ultimately show ?thesis using b mk_okD(2) [OF ok] by (simp add: Suc kid_def zbranch_fits_def L_def)
    qed
    have z: "q div f' ^ Suc H = 0"
    proof -
      have "length es \<le> 1 * f' ^ Suc H" using st'(7) lev_le_iff [OF f0(1), of n "Suc H" 1] by (simp add: n_def)
      then show ?thesis using q(1) by (simp del: power_Suc)
    qed
    have "idx_search (lo_lebs (view st')) UBIFS_MAX_LEVELS (fst (idx_at L (head st) f' (length es) H (q div f' ^ Suc H)),
        snd (idx_at L (head st) f' (length es) H (q div f' ^ Suc H)), isz f' (length es) H (q div f' ^ Suc H)) (e_key (es ! q)) = Some (leaf_branch (es ! q))"
      by (rule idx_search_flashed [where H = H, OF f0 perm(2,3) q(1)]) (use nodes zf H in \<open>auto simp: UBIFS_MAX_LEVELS_def\<close>)
    then show ?thesis unfolding idx_lookup_def z q(2) st'(6) n_def by (simp add: view_def)
  qed
  show thesis by (rule that [OF st'(1-5)]) (blast intro: found)
qed

text \<open>C4. The index can be searched. From a head at any position, with a fanout of at least two whose index node fits into a LEB,
  entries with different keys and a device that accepts every write, writing the index returns, every node that was
  stored before is still stored, and a reader that starts at the root position and follows in every node the last
  branch whose key is not greater finds for the key of every entry the position and length of its node; every index
  node it passes has a valid checksum.\<close>

theorem write_index_lookup:
  assumes "mk_ok st" "\<And>l. wr l" "2 \<le> mk_fanout st" "mk_fanout st < 2 ^ 16" "ubifs_idx_node_sz (mk_fanout st) \<le> uc_leb_size (mk_c st)"
    "mk_idx st \<noteq> []" "length (mk_idx st) < 2 ^ 32" "distinct (map e_key (mk_idx st))" "list_all (\<lambda>e. zbranch_fits (leaf_branch e)) (mk_idx st)"
  shows "\<exists>st'. write_index wr st = Ret st' \<and> mk_head_offs st' = 0 \<and> keeps (view st) (view st')
    \<and> (mk_head_lnum st' < 2 ^ 32 \<longrightarrow>
        (\<forall>e\<in>set (mk_idx st). idx_lookup (mk_lebs st') (mk_zroot st') (e_key e) = Some (leaf_branch e)))"
proof -
  obtain st' where "write_index wr st = Ret st'" "mk_ok st'" "fixed st' = fixed st" "mk_head_offs st' = 0" "keeps (view st) (view st')"
    "mk_head_lnum st' < 2 ^ 32 \<longrightarrow> (\<forall>e\<in>set (mk_idx st). idx_lookup (mk_lebs st') (mk_zroot st') (e_key e) = Some (leaf_branch e))"
    by (rule index_lookup [where wr = wr, OF assms])
  then show ?thesis by blast
qed

text \<open>A small file system with three entries and two branches per index node.\<close>

definition small_mkfs :: mkfs where
  "small_mkfs = \<lparr>mk_c = small_fs, mk_fanout = 2, mk_dead_wm = 2048, mk_dark_wm = 6144, mk_max_sqnum = 3,
     mk_lst = \<lparr>ls_empty_lebs = 0, ls_idx_lebs = 0, ls_total_free = 0, ls_total_dirty = 0, ls_total_used = 0, ls_total_dead = 0, ls_total_dark = 0\<rparr>,
     mk_zroot = (0, 0, 0), mk_old_idx_sz = 0, mk_ihead = (0, 0), mk_gc_lnum = 0, mk_leb_cnt = 0, mk_head_lnum = 11, mk_head_offs = 0, mk_head_flags = 0,
     mk_idx = map (\<lambda>i. \<lparr>e_key = (of_nat (66 - i), 0), e_name = None, e_lnum = 10, e_offs = 160 * i, e_len = 160\<rparr>) [0..<3],
     mk_leb_buf = replicate 16384 0, mk_lebs = Map.empty\<rparr>"

lemma small_mkfs_idx:
  "mk_idx small_mkfs = [\<lparr>e_key = (66, 0), e_name = None, e_lnum = 10, e_offs = 0, e_len = 160\<rparr>,
     \<lparr>e_key = (65, 0), e_name = None, e_lnum = 10, e_offs = 160, e_len = 160\<rparr>, \<lparr>e_key = (64, 0), e_name = None, e_lnum = 10, e_offs = 320, e_len = 160\<rparr>]"
  by (simp add: small_mkfs_def upt_rec)

lemma small_mkfs_ok: "mk_ok small_mkfs"
proof -
  have "\<exists>k. (2048::nat) = 2 ^ k \<and> 3 \<le> k" by (rule exI [of _ 11]) simp
  then show ?thesis by (simp add: mk_ok_def small_mkfs_def small_fs_def)
qed

theorem write_index_lookup_witness:
  "\<exists>st'. write_index (\<lambda>_. True) small_mkfs = Ret st' \<and> (mk_head_lnum st' < 2 ^ 32 \<longrightarrow>
     idx_lookup (mk_lebs st') (mk_zroot st') (65, 0) = Some \<lparr>zb_key = (65, 0), zb_lnum = 10, zb_offs = 160, zb_len = 160\<rparr>)"
proof -
  have h: "2 \<le> mk_fanout small_mkfs" "mk_fanout small_mkfs < 2 ^ 16" "ubifs_idx_node_sz (mk_fanout small_mkfs) \<le> uc_leb_size (mk_c small_mkfs)"
    by (simp_all add: small_mkfs_def small_fs_def ubifs_idx_node_sz_def ubifs_consts)
  have i: "mk_idx small_mkfs \<noteq> []" "length (mk_idx small_mkfs) < 2 ^ 32" "distinct (map e_key (mk_idx small_mkfs))"
    "list_all (\<lambda>e. zbranch_fits (leaf_branch e)) (mk_idx small_mkfs)"
    by (simp_all add: small_mkfs_idx zbranch_fits_def leaf_branch_def)
  show ?thesis using write_index_lookup [of small_mkfs "\<lambda>_. True", OF small_mkfs_ok TrueI h i] unfolding small_mkfs_idx
    by (auto simp: leaf_branch_def)
qed

end
