(* ===== verification/UbifsCompr.thy ===== *)
theory UbifsCompr
  imports UbifsNode
begin

text \<open>
  The compression of data blocks in \<open>mkfs.ubifs\<close> (\<open>mkfs.ubifs/compr.c\<close>). The external compressors are arguments:
  \<open>zlib_stream\<close> is the sequence \<open>deflateInit2\<close>, \<open>deflate\<close>, \<open>deflateEnd\<close> on an output buffer of a given size, and
  \<open>lzo1x_999_compress\<close> is not told the size of its buffer. A result of \<open>None\<close> is a failure of the compressor. The
  share that decides between both is computed in double precision, which is written out.
\<close>

section \<open>Compressors\<close>

definition MKFS_UBIFS_COMPR_NONE :: nat where "MKFS_UBIFS_COMPR_NONE = 0"
definition MKFS_UBIFS_COMPR_LZO :: nat where "MKFS_UBIFS_COMPR_LZO = 1"
definition MKFS_UBIFS_COMPR_ZLIB :: nat where "MKFS_UBIFS_COMPR_ZLIB = 2"
definition WORST_COMPR_FACTOR :: nat where "WORST_COMPR_FACTOR = 4"

text \<open>The size of \<open>zlib_buf\<close>, which \<open>init_compression\<close> allocates.\<close>

definition ZLIB_BUF_SIZE :: nat where "ZLIB_BUF_SIZE = UBIFS_BLOCK_SIZE * WORST_COMPR_FACTOR"

lemmas compr_consts = MKFS_UBIFS_COMPR_NONE_def MKFS_UBIFS_COMPR_LZO_def MKFS_UBIFS_COMPR_ZLIB_def WORST_COMPR_FACTOR_def
  UBIFS_MIN_COMPR_LEN_def

record compressors =
  zlib_stream :: "bytes \<Rightarrow> nat \<Rightarrow> bytes option"
  lzo1x_999_compress :: "bytes \<Rightarrow> bytes option"
  favor_lzo :: bool
  favor_percent :: nat

text \<open>The counter of errors is threaded through. \<open>deflate\<close> is told that the buffer has \<open>out_len\<close> bytes; when it has only \<open>buf_size\<close>,
  a longer output overruns it, and so may a failing call.\<close>

definition zlib_deflate :: "compressors \<Rightarrow> bytes \<Rightarrow> nat \<Rightarrow> nat \<Rightarrow> nat \<Rightarrow> (unit, bytes option \<times> nat) outcome" where
  "zlib_deflate cs in_buf buf_size out_len errcnt =
     (case zlib_stream cs in_buf out_len of
        None \<Rightarrow> if out_len > buf_size then Undef else Ret (None, errcnt + 1)
      | Some out \<Rightarrow> if length out > buf_size then Undef else Ret (Some out, errcnt))"

definition lzo_compress :: "compressors \<Rightarrow> bytes \<Rightarrow> nat \<Rightarrow> nat \<Rightarrow> (unit, bytes option \<times> nat) outcome" where
  "lzo_compress cs in_buf out_size errcnt =
     (case lzo1x_999_compress cs in_buf of
        None \<Rightarrow> Ret (None, errcnt + 1)
      | Some out \<Rightarrow> if length out > out_size then Undef else Ret (Some out, errcnt))"

section \<open>Double precision\<close>

text \<open>The quotient of two numbers below $2^{53}$ rounded to nearest, ties to even: \<open>(m, s)\<close> stands for $m / 2^s$.\<close>

definition round_even :: "nat \<Rightarrow> nat \<Rightarrow> nat" where
  "round_even n d = (let q = n div d; r = n mod d in if 2 * r < d \<or> 2 * r = d \<and> even q then q else q + 1)"

fun double_scale :: "nat \<Rightarrow> nat \<Rightarrow> nat \<Rightarrow> nat" where
  "double_scale 0 n d = 0"
| "double_scale (Suc k) n d = (if 2 ^ 52 * d \<le> n then 0 else Suc (double_scale k (2 * n) d))"

definition double_div :: "nat \<Rightarrow> nat \<Rightarrow> nat \<times> nat" where
  "double_div n d = (let s = double_scale 1074 n d in (round_even (n * 2 ^ s) d, s))"

text \<open>\<open>percent = (double) zlib_len / (double) lzo_len; percent *= 100;\<close> and the comparison.\<close>

definition lzo_good_enough :: "nat \<Rightarrow> nat \<Rightarrow> nat \<Rightarrow> bool" where
  "lzo_good_enough percent zlib_len lzo_len =
     (let (m, s) = double_div zlib_len lzo_len; (m, s) = double_div (m * 100) (2 ^ s) in int m > (100 - int percent) * 2 ^ s)"

section \<open>Choosing a compressor\<close>

definition favor_lzo_compress :: "compressors \<Rightarrow> bytes \<Rightarrow> nat \<Rightarrow> nat \<Rightarrow> (unit, (nat \<times> bytes) option \<times> nat) outcome" where
  "favor_lzo_compress cs in_buf out_len errcnt =
     (case lzo_compress cs in_buf out_len errcnt of
        Ret (lzo, errcnt) \<Rightarrow>
          (case zlib_deflate cs in_buf ZLIB_BUF_SIZE out_len errcnt of
             Ret (zlib, errcnt) \<Rightarrow>
               (case (lzo, zlib) of
                  (None, None) \<Rightarrow> Ret (None, errcnt)
                | (Some l, Some z) \<Rightarrow>
                    if length l \<le> length z then Ret (Some (MKFS_UBIFS_COMPR_LZO, l), errcnt)
                    else if lzo_good_enough (favor_percent cs) (length z) (length l) then Ret (Some (MKFS_UBIFS_COMPR_LZO, l), errcnt)
                    else Ret (Some (MKFS_UBIFS_COMPR_ZLIB, z), errcnt)
                | (None, Some z) \<Rightarrow> Ret (Some (MKFS_UBIFS_COMPR_ZLIB, z), errcnt)
                | (Some l, None) \<Rightarrow> Ret (Some (MKFS_UBIFS_COMPR_LZO, l), errcnt))
           | Err e \<Rightarrow> Err e | Undef \<Rightarrow> Undef)
      | Err e \<Rightarrow> Err e | Undef \<Rightarrow> Undef)"

text \<open>Copying to the output buffer.\<close>

definition no_compress :: "bytes \<Rightarrow> nat \<Rightarrow> (unit, bytes) outcome" where
  "no_compress in_buf out_size = (if length in_buf > out_size then Undef else Ret in_buf)"

definition try_compress :: "compressors \<Rightarrow> bytes \<Rightarrow> nat \<Rightarrow> nat \<Rightarrow> nat \<Rightarrow> (unit, (nat \<times> bytes) option \<times> nat) outcome" where
  "try_compress cs in_buf out_len type errcnt =
     (if favor_lzo cs then favor_lzo_compress cs in_buf out_len errcnt
      else if type = MKFS_UBIFS_COMPR_LZO then
        (case lzo_compress cs in_buf out_len errcnt of
           Ret (r, errcnt) \<Rightarrow> Ret (map_option (Pair type) r, errcnt) | Err e \<Rightarrow> Err e | Undef \<Rightarrow> Undef)
      else if type = MKFS_UBIFS_COMPR_ZLIB then
        (case zlib_deflate cs in_buf out_len out_len errcnt of
           Ret (r, errcnt) \<Rightarrow> Ret (map_option (Pair type) r, errcnt) | Err e \<Rightarrow> Err e | Undef \<Rightarrow> Undef)
      else if type = MKFS_UBIFS_COMPR_NONE then Ret (None, errcnt)
      else Ret (None, errcnt + 1))"

definition compress_data :: "compressors \<Rightarrow> bytes \<Rightarrow> nat \<Rightarrow> nat \<Rightarrow> nat \<Rightarrow> (unit, nat \<times> bytes \<times> nat) outcome" where
  "compress_data cs in_buf out_len type errcnt =
     (let copy = (\<lambda>errcnt. case no_compress in_buf out_len of
                    Ret out \<Rightarrow> Ret (MKFS_UBIFS_COMPR_NONE, out, errcnt) | Err e \<Rightarrow> Err e | Undef \<Rightarrow> Undef)
      in if length in_buf < UBIFS_MIN_COMPR_LEN then copy errcnt
         else case try_compress cs in_buf out_len type errcnt of
             Ret (None, errcnt) \<Rightarrow> copy errcnt
           | Ret (Some (type, out), errcnt) \<Rightarrow> if length out \<ge> length in_buf then copy errcnt else Ret (type, out, errcnt)
           | Err e \<Rightarrow> Err e | Undef \<Rightarrow> Undef)"

section \<open>No data is lost\<close>

text \<open>The documented contract of the external compressors: what they return can be expanded again, \<open>deflate\<close> stays in its
  buffer, and the output of \<open>lzo1x_999_compress\<close> is at most a sixteenth and 67 bytes longer than its input.\<close>

definition codecs_ok :: "compressors \<Rightarrow> (bytes \<Rightarrow> bytes option) \<Rightarrow> (bytes \<Rightarrow> bytes option) \<Rightarrow> bool" where
  "codecs_ok cs inflate unlzo \<longleftrightarrow>
     (\<forall>x n out. zlib_stream cs x n = Some out \<longrightarrow> length out \<le> n \<and> inflate out = Some x)
     \<and> (\<forall>x out. lzo1x_999_compress cs x = Some out \<longrightarrow> length out \<le> length x + length x div 16 + 67 \<and> unlzo out = Some x)"

definition uncompress :: "(bytes \<Rightarrow> bytes option) \<Rightarrow> (bytes \<Rightarrow> bytes option) \<Rightarrow> nat \<Rightarrow> bytes \<Rightarrow> bytes option" where
  "uncompress inflate unlzo type out =
     (if type = MKFS_UBIFS_COMPR_NONE then Some out else if type = MKFS_UBIFS_COMPR_LZO then unlzo out
      else if type = MKFS_UBIFS_COMPR_ZLIB then inflate out else None)"

lemma try_compress_ok:
  assumes "codecs_ok cs inflate unlzo" "length x + length x div 16 + 67 \<le> n" "favor_lzo cs \<longrightarrow> n \<le> ZLIB_BUF_SIZE"
  obtains r ec where "try_compress cs x n type errcnt = Ret (r, ec)"
    "\<forall>ty out. r = Some (ty, out) \<longrightarrow> ty \<noteq> MKFS_UBIFS_COMPR_NONE \<and> ty \<le> MKFS_UBIFS_COMPR_ZLIB \<and> length out \<le> n \<and> uncompress inflate unlzo ty out = Some x"
proof -
  have z: "length out \<le> n \<and> uncompress inflate unlzo MKFS_UBIFS_COMPR_ZLIB out = Some x" if "zlib_stream cs x n = Some out" for out
    using assms(1) that by (auto simp: codecs_ok_def uncompress_def compr_consts)
  have l: "length out \<le> n \<and> uncompress inflate unlzo MKFS_UBIFS_COMPR_LZO out = Some x" if "lzo1x_999_compress cs x = Some out" for out
    using assms that by (fastforce simp: codecs_ok_def uncompress_def compr_consts)
  have lz: "lzo_compress cs x n ec = (case lzo1x_999_compress cs x of None \<Rightarrow> Ret (None, ec + 1) | Some out \<Rightarrow> Ret (Some out, ec))" for ec
    using l by (auto simp: lzo_compress_def split: option.splits)
  have le: "MKFS_UBIFS_COMPR_LZO \<le> MKFS_UBIFS_COMPR_ZLIB" "MKFS_UBIFS_COMPR_LZO \<noteq> MKFS_UBIFS_COMPR_NONE" "MKFS_UBIFS_COMPR_ZLIB \<noteq> MKFS_UBIFS_COMPR_NONE" by (simp_all add: compr_consts)
  have "\<exists>r ec. try_compress cs x n type errcnt = Ret (r, ec)
    \<and> (\<forall>ty out. r = Some (ty, out) \<longrightarrow> ty \<noteq> MKFS_UBIFS_COMPR_NONE \<and> ty \<le> MKFS_UBIFS_COMPR_ZLIB \<and> length out \<le> n \<and> uncompress inflate unlzo ty out = Some x)"
    unfolding try_compress_def favor_lzo_compress_def zlib_deflate_def lz
    using z l le assms(3) by (cases "lzo1x_999_compress cs x"; cases "zlib_stream cs x n"; cases "favor_lzo cs") auto
  then show thesis using that by blast
qed

lemma compress_data_ok:
  assumes "codecs_ok cs inflate unlzo" "length x + length x div 16 + 67 \<le> n" "favor_lzo cs \<longrightarrow> n \<le> ZLIB_BUF_SIZE"
  obtains ty out ec where "compress_data cs x n type errcnt = Ret (ty, out, ec)" "ty \<le> MKFS_UBIFS_COMPR_ZLIB"
    "uncompress inflate unlzo ty out = Some x" "if ty = MKFS_UBIFS_COMPR_NONE then out = x else length out < length x"
proof -
  obtain r ec where r: "try_compress cs x n type errcnt = Ret (r, ec)"
    "\<forall>ty out. r = Some (ty, out) \<longrightarrow> ty \<noteq> MKFS_UBIFS_COMPR_NONE \<and> ty \<le> MKFS_UBIFS_COMPR_ZLIB \<and> length out \<le> n \<and> uncompress inflate unlzo ty out = Some x"
    by (rule try_compress_ok [OF assms])
  have n: "no_compress x n = Ret x" using assms(2) by (simp add: no_compress_def)
  note result = that
  have none: thesis if "compress_data cs x n type errcnt = Ret (MKFS_UBIFS_COMPR_NONE, x, ec)" for ec
    by (rule result [OF that]) (simp_all add: uncompress_def compr_consts)
  consider "length x < UBIFS_MIN_COMPR_LEN" | "\<not> length x < UBIFS_MIN_COMPR_LEN" "r = None"
    | ty out where "\<not> length x < UBIFS_MIN_COMPR_LEN" "r = Some (ty, out)" "length x \<le> length out"
    | ty out where "\<not> length x < UBIFS_MIN_COMPR_LEN" "r = Some (ty, out)" "length out < length x"
    by (cases "length x < UBIFS_MIN_COMPR_LEN"; cases r) (auto, metis not_le)
  then show thesis
  proof cases
    case 4
    then have "compress_data cs x n type errcnt = Ret (ty, out, ec)" by (simp add: compress_data_def Let_def r(1))
    then show ?thesis by (rule that) (use r(2) 4 in simp_all)
  qed (rule none, simp add: compress_data_def Let_def n r(1))+
qed

text \<open>C40. No block is lost: with compressors that meet their contracts and an output buffer with room for the expansion of
  LZO, which is no larger than \<open>zlib_buf\<close> when both compressors are tried, \<open>compress_data\<close> stays in its buffers, and the
  type it reports and the data it returns expand to the block; compressed data is shorter than the block, and a block that does not shrink is copied.\<close>

theorem compress_data_lossless:
  assumes "codecs_ok cs inflate unlzo" "length x + length x div 16 + 67 \<le> n" "favor_lzo cs \<longrightarrow> n \<le> ZLIB_BUF_SIZE"
  shows "\<exists>ty out ec. compress_data cs x n type errcnt = Ret (ty, out, ec) \<and> ty \<le> MKFS_UBIFS_COMPR_ZLIB
    \<and> uncompress inflate unlzo ty out = Some x
    \<and> (if ty = MKFS_UBIFS_COMPR_NONE then out = x else length out < length x)"
  by (rule compress_data_ok [OF assms, of type errcnt]) blast

text \<open>A block of equal bytes, with a compressor that stores the byte and the length.\<close>

definition demo_pack :: "bytes \<Rightarrow> bytes option" where
  "demo_pack x = (if x \<noteq> [] \<and> length x < 2 ^ 32 \<and> x = replicate (length x) (hd x) then Some (hd x # le32 (of_nat (length x))) else None)"

definition demo_unpack :: "bytes \<Rightarrow> bytes option" where
  "demo_unpack out = Some (replicate (unat (le_word (tl out) :: u32)) (hd out))"

definition demo_codecs :: compressors where
  "demo_codecs = \<lparr>zlib_stream = (\<lambda>x n. if n < 5 then None else demo_pack x), lzo1x_999_compress = demo_pack, favor_lzo = True, favor_percent = 20\<rparr>"

lemma demo_codecs_ok: "codecs_ok demo_codecs demo_unpack demo_unpack"
proof -
  have "length out = 5 \<and> demo_unpack out = Some x" if "demo_pack x = Some out" for x out
    using that by (auto simp: demo_pack_def demo_unpack_def codec_simps unat_of_nat_id split: if_splits)
  then show ?thesis by (fastforce simp: codecs_ok_def demo_codecs_def split: if_splits)
qed

theorem compress_data_lossless_witness:
  "\<exists>ty out ec. compress_data demo_codecs (replicate 4096 7) 16384 MKFS_UBIFS_COMPR_LZO 0 = Ret (ty, out, ec)
    \<and> uncompress demo_unpack demo_unpack ty out = Some (replicate 4096 7)"
  using compress_data_lossless [OF demo_codecs_ok, of "replicate 4096 7" 16384 MKFS_UBIFS_COMPR_LZO 0]
  by (auto simp: ZLIB_BUF_SIZE_def ubifs_consts compr_consts)

end
