(* ===== verification/Hashtable.thy ===== *)
theory Hashtable
  imports Prelude "HOL-Library.Multiset"
begin

text \<open>
  The chained hash table of \<open>mkfs.ubifs/hashtable\<close> (\<open>hashtable.c\<close>, \<open>hashtable_itr.c\<close>). A chain of
  \<open>struct entry\<close> cells linked by \<open>next\<close> is the list of its entries, the \<open>table\<close> array the list of the
  chains. The hash and equality functions of a table are fields of its record, as in the source. What
  \<open>malloc\<close> and \<open>realloc\<close> do is an argument of the operations that allocate.
\<close>

unbundle bit_operations_syntax

section \<open>The table\<close>

record ('k, 'v) entry =
  e_k :: 'k
  e_v :: 'v
  e_h :: u32

record ('k, 'v) hashtable =
  tablelength :: nat
  h_table :: "('k, 'v) entry list list"
  entrycount :: u32
  loadlimit :: u32
  primeindex :: nat
  h_hashfn :: "'k \<Rightarrow> u32"
  h_eqfn :: "'k \<Rightarrow> 'k \<Rightarrow> bool"

definition primes :: "nat list" where
  "primes = [53, 97, 193, 389, 769, 1543, 3079, 6151, 12289, 24593, 49157, 98317, 196613, 393241,
     786433, 1572869, 3145739, 6291469, 12582917, 25165843, 50331653, 100663319, 201326611, 402653189,
     805306457, 1610612741]"

definition prime_table_length :: nat where "prime_table_length = length primes"

text \<open>The load limit is computed in single precision: \<open>max_load_factor\<close> is the float nearest to
  0.65, which is \<open>10905190 / 2\<^sup>24\<close>, the size is converted to a float and the product is rounded to one
  before \<open>ceil\<close>. \<open>float_round\<close> rounds a natural number to a significand of 24 bits, ties to even.\<close>

fun sig_shift :: "nat \<Rightarrow> nat" where
  "sig_shift n = (if n < 2 ^ 24 then 0 else Suc (sig_shift (n div 2)))"

declare sig_shift.simps [simp del]

definition float_round :: "nat \<Rightarrow> nat" where
  "float_round n =
     (let s = sig_shift n; q = n div 2 ^ s; r = n mod 2 ^ s
      in if 2 * r > 2 ^ s \<or> (2 * r = 2 ^ s \<and> odd q) then (q + 1) * 2 ^ s else q * 2 ^ s)"

definition load_limit :: "nat \<Rightarrow> u32" where
  "load_limit sz =
     (let p = float_round (float_round sz * 10905190) in of_nat ((p + (2 ^ 24 - 1)) div 2 ^ 24))"

fun find_prime :: "nat \<Rightarrow> nat list \<Rightarrow> nat \<Rightarrow> nat \<times> nat" where
  "find_prime minsize [] pindex = (primes ! 0, pindex)"
| "find_prime minsize (p # ps) pindex =
     (if p > minsize then (p, pindex) else find_prime minsize ps (Suc pindex))"

definition create_hashtable :: "bool \<Rightarrow> u32 \<Rightarrow> ('k \<Rightarrow> u32) \<Rightarrow> ('k \<Rightarrow> 'k \<Rightarrow> bool) \<Rightarrow>
    ('k, 'v) hashtable option" where
  "create_hashtable mem minsize hashf eqf =
     (if minsize > push_bit 30 1 then None
      else let (sz, pindex) = find_prime (unat minsize) primes 0 in
        if \<not> mem then None
        else Some \<lparr>tablelength = sz, h_table = replicate sz [], entrycount = 0,
                   loadlimit = load_limit sz, primeindex = pindex, h_hashfn = hashf, h_eqfn = eqf\<rparr>)"

definition hash_mix :: "u32 \<Rightarrow> u32" where
  "hash_mix i =
     (let i = i + NOT (push_bit 9 i);
          i = i XOR (drop_bit 14 i OR push_bit 18 i);
          i = i + push_bit 4 i
      in i XOR (drop_bit 10 i OR push_bit 22 i))"

definition hash :: "('k, 'v) hashtable \<Rightarrow> 'k \<Rightarrow> u32" where
  "hash h k = hash_mix (h_hashfn h k)"

definition indexFor :: "nat \<Rightarrow> u32 \<Rightarrow> nat" where
  "indexFor tlen hashvalue = unat hashvalue mod tlen"

text \<open>Moving one entry to the front of its chain in the new table, and all of them in the order of the
  two loops.\<close>

definition push_entry :: "nat \<Rightarrow> ('k, 'v) entry list list \<Rightarrow> ('k, 'v) entry \<Rightarrow> ('k, 'v) entry list list" where
  "push_entry sz t e = (let index = indexFor sz (e_h e) in t[index := e # t ! index])"

datatype alloc = Malloc_ok | Only_realloc_ok | No_memory

text \<open>When \<open>malloc\<close> fails but \<open>realloc\<close> succeeds, the code clears memory through \<open>newtable[tablelength]\<close>,
  a pointer that was never written: that path has no defined result.\<close>

definition hashtable_expand :: "alloc \<Rightarrow> ('k, 'v) hashtable \<Rightarrow> (unit, int \<times> ('k, 'v) hashtable) outcome" where
  "hashtable_expand a h =
     (if primeindex h = prime_table_length - 1 then Ret (0, h)
      else let newsize = primes ! Suc (primeindex h) in
        case a of
          No_memory \<Rightarrow> Ret (0, h)
        | Only_realloc_ok \<Rightarrow> Undef
        | Malloc_ok \<Rightarrow>
            Ret (-1, h\<lparr>primeindex := Suc (primeindex h),
                     h_table := foldl (push_entry newsize) (replicate newsize []) (concat (h_table h)),
                     tablelength := newsize, loadlimit := load_limit newsize\<rparr>))"

definition hashtable_count :: "('k, 'v) hashtable \<Rightarrow> u32" where
  "hashtable_count h = entrycount h"

text \<open>\<open>a\<close> is what the allocator does for a larger table, \<open>mem\<close> whether the entry itself can be
  allocated.\<close>

definition hashtable_insert :: "alloc \<Rightarrow> bool \<Rightarrow> ('k, 'v) hashtable \<Rightarrow> 'k \<Rightarrow> 'v \<Rightarrow>
    (unit, int \<times> ('k, 'v) hashtable) outcome" where
  "hashtable_insert a mem h k v =
     (let h = h\<lparr>entrycount := entrycount h + 1\<rparr> in
      case (if entrycount h > loadlimit h then hashtable_expand a h else Ret (-1, h)) of
        Ret (_, h) \<Rightarrow>
          if \<not> mem then Ret (0, h\<lparr>entrycount := entrycount h - 1\<rparr>)
          else Ret (-1, h\<lparr>h_table := push_entry (tablelength h) (h_table h)
                                     \<lparr>e_k = k, e_v = v, e_h = hash h k\<rparr>\<rparr>)
      | Err e \<Rightarrow> Err e
      | Undef \<Rightarrow> Undef)"

text \<open>The walk along one chain, as in the search, and the walk that unlinks the entry it finds.\<close>

fun search_chain :: "(('k, 'v) entry \<Rightarrow> bool) \<Rightarrow> ('k, 'v) entry list \<Rightarrow> 'v option" where
  "search_chain here [] = None"
| "search_chain here (e # es) = (if here e then Some (e_v e) else search_chain here es)"

fun unlink_chain :: "(('k, 'v) entry \<Rightarrow> bool) \<Rightarrow> ('k, 'v) entry list \<Rightarrow> ('v \<times> ('k, 'v) entry list) option" where
  "unlink_chain here [] = None"
| "unlink_chain here (e # es) =
     (if here e then Some (e_v e, es)
      else case unlink_chain here es of None \<Rightarrow> None | Some (v, es') \<Rightarrow> Some (v, e # es'))"

definition here :: "('k, 'v) hashtable \<Rightarrow> 'k \<Rightarrow> ('k, 'v) entry \<Rightarrow> bool" where
  "here h k e \<longleftrightarrow> hash h k = e_h e \<and> h_eqfn h k (e_k e)"

definition hashtable_search :: "('k, 'v) hashtable \<Rightarrow> 'k \<Rightarrow> 'v option" where
  "hashtable_search h k = search_chain (here h k) (h_table h ! indexFor (tablelength h) (hash h k))"

definition hashtable_remove :: "('k, 'v) hashtable \<Rightarrow> 'k \<Rightarrow> 'v option \<times> ('k, 'v) hashtable" where
  "hashtable_remove h k =
     (let index = indexFor (tablelength h) (hash h k) in
      case unlink_chain (here h k) (h_table h ! index) of
        None \<Rightarrow> (None, h)
      | Some (v, es) \<Rightarrow> (Some v, h\<lparr>h_table := (h_table h)[index := es], entrycount := entrycount h - 1\<rparr>))"

text \<open>What \<open>hashtable_destroy\<close> releases: the keys and, on demand, the values, chain by chain.\<close>

definition hashtable_destroy :: "('k, 'v) hashtable \<Rightarrow> bool \<Rightarrow> 'k list \<times> 'v list" where
  "hashtable_destroy h free_values =
     (concat (map (map e_k) (h_table h)), if free_values then concat (map (map e_v) (h_table h)) else [])"

section \<open>The iterator\<close>

text \<open>The pointers \<open>e\<close> and \<open>parent\<close> of an iterator point into the chain \<open>index\<close>; they are positions in
  that chain, with \<open>None\<close> for \<open>NULL\<close>.\<close>

record itr =
  itr_e :: "nat option"
  itr_parent :: "nat option"
  itr_index :: nat

fun first_chain :: "('k, 'v) entry list list \<Rightarrow> nat \<Rightarrow> nat option" where
  "first_chain [] i = None"
| "first_chain (c # cs) i = (if c \<noteq> [] then Some i else first_chain cs (Suc i))"

definition hashtable_iterator :: "('k, 'v) hashtable \<Rightarrow> itr" where
  "hashtable_iterator h =
     (let none = \<lparr>itr_e = None, itr_parent = None, itr_index = tablelength h\<rparr> in
      if entrycount h = 0 then none
      else case first_chain (take (tablelength h) (h_table h)) 0 of
          None \<Rightarrow> none
        | Some i \<Rightarrow> none\<lparr>itr_e := Some 0, itr_index := i\<rparr>)"

text \<open>Advancing to the first chain with an entry at \<open>j\<close> or later.\<close>

definition next_chain :: "('k, 'v) hashtable \<Rightarrow> itr \<Rightarrow> int \<times> itr" where
  "next_chain h it =
     (let j = Suc (itr_index it); it = it\<lparr>itr_parent := None, itr_index := j\<rparr> in
      if tablelength h \<le> j then (0, it\<lparr>itr_e := None\<rparr>)
      else case first_chain (drop j (take (tablelength h) (h_table h))) j of
          None \<Rightarrow> (0, it\<lparr>itr_index := tablelength h, itr_e := None\<rparr>)
        | Some i \<Rightarrow> (-1, it\<lparr>itr_index := i, itr_e := Some 0\<rparr>))"

definition hashtable_iterator_advance :: "('k, 'v) hashtable \<Rightarrow> itr \<Rightarrow> int \<times> itr" where
  "hashtable_iterator_advance h it =
     (case itr_e it of
        None \<Rightarrow> (0, it)
      | Some p \<Rightarrow>
          if Suc p < length (h_table h ! itr_index it)
          then (-1, it\<lparr>itr_parent := Some p, itr_e := Some (Suc p)\<rparr>)
          else next_chain h it)"

text \<open>Unlinking the current entry: without a parent the head of the chain becomes its successor, with
  one the parent's \<open>next\<close> does. The entry itself still points to its successor, so the advance goes
  there; the parent is corrected to the old one, and the successor now follows it.\<close>

definition hashtable_iterator_remove :: "('k, 'v) hashtable \<Rightarrow> itr \<Rightarrow>
    (unit, int \<times> ('k, 'v) hashtable \<times> itr) outcome" where
  "hashtable_iterator_remove h it =
     (case itr_e it of
        None \<Rightarrow> Undef
      | Some p \<Rightarrow>
          let chain = h_table h ! itr_index it;
              rest = drop (Suc p) chain;
              before = (case itr_parent it of None \<Rightarrow> [] | Some q \<Rightarrow> take (Suc q) chain);
              h' = h\<lparr>h_table := (h_table h)[itr_index it := before @ rest],
                     entrycount := entrycount h - 1\<rparr>
          in if rest \<noteq> [] then Ret (-1, h', it\<lparr>itr_e := Some (length before)\<rparr>)
             else let (ret, it') = next_chain h' it in Ret (ret, h', it'))"

fun search_pos :: "(('k, 'v) entry \<Rightarrow> bool) \<Rightarrow> ('k, 'v) entry list \<Rightarrow> nat option \<Rightarrow> nat \<Rightarrow>
    (nat option \<times> nat) option" where
  "search_pos hit [] parent i = None"
| "search_pos hit (e # es) parent i = (if hit e then Some (parent, i) else search_pos hit es (Some i) (Suc i))"

definition hashtable_iterator_search :: "('k, 'v) hashtable \<Rightarrow> 'k \<Rightarrow> itr \<Rightarrow> int \<times> itr" where
  "hashtable_iterator_search h k it =
     (let index = indexFor (tablelength h) (hash h k) in
      case search_pos (here h k) (h_table h ! index) None 0 of
        None \<Rightarrow> (0, it)
      | Some (parent, i) \<Rightarrow> (-1, \<lparr>itr_e = Some i, itr_parent = parent, itr_index = index\<rparr>))"

definition itr_entry :: "('k, 'v) hashtable \<Rightarrow> itr \<Rightarrow> ('k, 'v) entry option" where
  "itr_entry h it = map_option (\<lambda>p. h_table h ! itr_index it ! p) (itr_e it)"

definition hashtable_iterator_key :: "('k, 'v) hashtable \<Rightarrow> itr \<Rightarrow> 'k option" where
  "hashtable_iterator_key h it = map_option e_k (itr_entry h it)"

definition hashtable_iterator_value :: "('k, 'v) hashtable \<Rightarrow> itr \<Rightarrow> 'v option" where
  "hashtable_iterator_value h it = map_option e_v (itr_entry h it)"

section \<open>The load limit\<close>

lemma load_limits:
  "map load_limit primes = [35, 64, 126, 253, 500, 1003, 2002, 3999, 7988, 15986, 31953, 63907, 127799,
     255607, 511182, 1022365, 2044731, 4089455, 8178896, 16357798, 32715572, 65431156, 130862288,
     261724560, 523449152, 1046898240]"
  by (simp add: primes_def load_limit_def float_round_def sig_shift.simps Let_def)

section \<open>Specification\<close>

text \<open>The entries in the order of the table, those whose key is the given one, and the invariant: every
  entry is stored with the mixed hash of its key in the chain that hash selects, the size is the prime
  of its index, and the counter counts. A table built without inserting a key twice is \<open>ht_uniq\<close>.\<close>

definition entries :: "('k, 'v) hashtable \<Rightarrow> ('k, 'v) entry list" where
  "entries h = concat (h_table h)"

definition matches :: "('k, 'v) hashtable \<Rightarrow> 'k \<Rightarrow> ('k, 'v) entry list" where
  "matches h k = filter (\<lambda>e. h_eqfn h k (e_k e)) (entries h)"

definition chains_ok :: "('k \<Rightarrow> u32) \<Rightarrow> nat \<Rightarrow> ('k, 'v) entry list list \<Rightarrow> bool" where
  "chains_ok hf n t \<longleftrightarrow> length t = n \<and>
     (\<forall>i < n. \<forall>e \<in> set (t ! i). e_h e = hash_mix (hf (e_k e)) \<and> indexFor n (e_h e) = i)"

definition ht_inv :: "('k, 'v) hashtable \<Rightarrow> bool" where
  "ht_inv h \<longleftrightarrow> chains_ok (h_hashfn h) (tablelength h) (h_table h) \<and> primeindex h < prime_table_length
     \<and> tablelength h = primes ! primeindex h \<and> loadlimit h = load_limit (tablelength h)
     \<and> unat (entrycount h) = length (entries h)"

definition ht_uniq :: "('k, 'v) hashtable \<Rightarrow> bool" where
  "ht_uniq h \<longleftrightarrow> (\<forall>k. length (matches h k) \<le> 1)"

text \<open>What the table needs of the functions it is created with.\<close>

locale key_ops =
  fixes hf :: "'k \<Rightarrow> u32" and eqf :: "'k \<Rightarrow> 'k \<Rightarrow> bool"
  assumes eq_refl: "eqf k k"
    and eq_sym: "eqf k k' \<Longrightarrow> eqf k' k"
    and eq_trans: "eqf k k' \<Longrightarrow> eqf k' k'' \<Longrightarrow> eqf k k''"
    and eq_hash: "eqf k k' \<Longrightarrow> hf k = hf k'"
begin

lemma eq_cong: "eqf k k' \<Longrightarrow> eqf k = eqf k'"
  using eq_sym eq_trans by blast

end

subsection \<open>Chains\<close>

lemma primes_pos: "i < prime_table_length \<Longrightarrow> 0 < primes ! i"
proof -
  assume "i < prime_table_length"
  then have "primes ! i \<in> set primes" by (simp add: prime_table_length_def)
  moreover have "\<forall>p \<in> set primes. 0 < p" by (simp add: primes_def)
  ultimately show ?thesis by blast
qed

lemma mset_concat_update:
  "i < length t \<Longrightarrow> mset (concat (t[i := c])) + mset (t ! i) = mset (concat t) + mset c"
proof (induction t arbitrary: i)
  case (Cons x t)
  show ?case
  proof (cases i)
    case (Suc j)
    then show ?thesis using Cons.IH [of j] Cons.prems by (simp add: add.assoc)
  qed (simp add: union_ac)
qed simp

lemma push_entry_ok:
  assumes "chains_ok hf n t" and "0 < n" and "e_h e = hash_mix (hf (e_k e))"
  shows "chains_ok hf n (push_entry n t e)" and "mset (concat (push_entry n t e)) = add_mset e (mset (concat t))"
proof -
  let ?i = "indexFor n (e_h e)"
  have len: "length t = n" and i: "?i < n"
    using assms by (simp_all add: chains_ok_def indexFor_def)
  have "mset (concat (t[?i := e # t ! ?i])) + mset (t ! ?i) = mset (concat t) + mset (e # t ! ?i)"
    by (rule mset_concat_update) (simp add: len i)
  then show "mset (concat (push_entry n t e)) = add_mset e (mset (concat t))"
    by (simp add: push_entry_def Let_def)
  show "chains_ok hf n (push_entry n t e)"
    unfolding chains_ok_def push_entry_def Let_def
  proof (intro conjI allI impI ballI)
    show "length (t[?i := e # t ! ?i]) = n" by (simp add: len)
    fix j e' assume j: "j < n" and e': "e' \<in> set (t[?i := e # t ! ?i] ! j)"
    have "e' = e \<and> j = ?i \<or> e' \<in> set (t ! j)"
      using e' j len by (cases "j = ?i") auto
    then show "e_h e' = hash_mix (hf (e_k e'))" and "indexFor n (e_h e') = j"
      using assms(1,3) j by (auto simp: chains_ok_def)
  qed
qed

lemma push_all_ok:
  assumes "chains_ok hf n t" and "0 < n" and "\<forall>e \<in> set es. e_h e = hash_mix (hf (e_k e))"
  shows "chains_ok hf n (foldl (push_entry n) t es)
    \<and> mset (concat (foldl (push_entry n) t es)) = mset es + mset (concat t)"
  using assms
proof (induction es arbitrary: t)
  case (Cons e es)
  have "chains_ok hf n (push_entry n t e)" "mset (concat (push_entry n t e)) = add_mset e (mset (concat t))"
    using push_entry_ok [OF Cons.prems(1,2)] Cons.prems(3) by simp_all
  with Cons.IH [of "push_entry n t e"] Cons.prems show ?case by simp
qed simp

lemma chains_ok_empty: "chains_ok hf n (replicate n [])"
  by (simp add: chains_ok_def)

lemma chains_ok_update:
  assumes "chains_ok hf n t" and "set es \<subseteq> set (t ! i)"
  shows "chains_ok hf n (t[i := es])"
  unfolding chains_ok_def
proof (intro conjI allI impI ballI)
  show "length (t[i := es]) = n" using assms(1) by (simp add: chains_ok_def)
  fix j e assume j: "j < n" and e: "e \<in> set (t[i := es] ! j)"
  have "e \<in> set (t ! j)" using e assms(2) j assms(1) by (cases "j = i") (auto simp: chains_ok_def)
  then show "e_h e = hash_mix (hf (e_k e))" and "indexFor n (e_h e) = j"
    using assms(1) j unfolding chains_ok_def by blast+
qed

lemma chains_ok_hash: "chains_ok hf n t \<Longrightarrow> \<forall>e \<in> set (concat t). e_h e = hash_mix (hf (e_k e))"
  by (auto simp: chains_ok_def in_set_conv_nth) (metis nth_mem)

lemma filter_concat_one:
  assumes "i < length t" and "\<And>j. j < length t \<Longrightarrow> j \<noteq> i \<Longrightarrow> filter P (t ! j) = []"
  shows "filter P (concat t) = filter P (t ! i)"
  using assms
proof (induction t arbitrary: i)
  case (Cons x t)
  show ?case
  proof (cases i)
    case 0
    have "filter P (t ! j) = []" if "j < length t" for j
      using Cons.prems(2) [of "Suc j"] that 0 by simp
    then have "filter P (concat t) = []" by (auto simp: filter_empty_conv in_set_conv_nth) (metis nth_mem)
    then show ?thesis by (simp add: 0)
  next
    case (Suc k)
    have "filter P x = []" using Cons.prems(2) [of 0] Suc by simp
    moreover have "filter P (concat t) = filter P (t ! k)"
    proof (rule Cons.IH)
      show "filter P (t ! j) = []" if "j < length t" "j \<noteq> k" for j
        using Cons.prems(2) [of "Suc j"] that Suc by simp
    qed (use Cons.prems Suc in simp)
    ultimately show ?thesis by (simp add: Suc)
  qed
qed simp

lemma search_chain_filter:
  "search_chain P es = (case filter P es of [] \<Rightarrow> None | e # _ \<Rightarrow> Some (e_v e))"
  by (induction es) auto

lemma unlink_chain_filter:
  "case unlink_chain P es of
     None \<Rightarrow> filter P es = []
   | Some (v, es') \<Rightarrow> \<exists>e. P e \<and> e_v e = v \<and> mset es = add_mset e (mset es') \<and> filter P es = e # filter P es'"
  by (induction es) (auto split: option.splits)

lemma ht_invD:
  assumes "ht_inv h"
  shows "chains_ok (h_hashfn h) (tablelength h) (h_table h)" "0 < tablelength h"
    "length (h_table h) = tablelength h" "primeindex h < prime_table_length"
proof -
  show ok: "chains_ok (h_hashfn h) (tablelength h) (h_table h)" and i: "primeindex h < prime_table_length"
    using assms by (auto simp: ht_inv_def)
  show "0 < tablelength h" using assms primes_pos [OF i] by (simp add: ht_inv_def)
  show "length (h_table h) = tablelength h" using ok by (simp add: chains_ok_def)
qed

subsection \<open>Operations\<close>

text \<open>The short cut through the stored hash changes nothing: in the chain of the key, and only there, the
  entries that compare equal are those the code accepts.\<close>

lemma matches_chain:
  assumes "key_ops (h_hashfn h) (h_eqfn h)" and "ht_inv h"
  shows "matches h k = filter (here h k) (h_table h ! indexFor (tablelength h) (hash h k))"
    and "indexFor (tablelength h) (hash h k) < length (h_table h)"
proof -
  let ?i = "indexFor (tablelength h) (hash h k)" and ?P = "\<lambda>e. h_eqfn h k (e_k e)"
  note ok = ht_invD(1) [OF assms(2)] and pos = ht_invD(2) [OF assms(2)] and len = ht_invD(3) [OF assms(2)]
  from pos len show i: "?i < length (h_table h)" by (simp add: indexFor_def)
  have here: "?P e \<longleftrightarrow> here h k e \<and> j = ?i" if "j < length (h_table h)" "e \<in> set (h_table h ! j)"  "?P e" for e j
    using ok len that key_ops.eq_hash [OF assms(1) that(3)] by (simp add: chains_ok_def here_def hash_def) metis
  have "matches h k = filter ?P (h_table h ! ?i)"
    unfolding matches_def entries_def
    by (rule filter_concat_one [OF i]) (use here in \<open>auto simp: filter_empty_conv\<close>)
  also have "\<dots> = filter (here h k) (h_table h ! ?i)"
    using here [OF i] by (intro filter_cong) (auto simp: here_def)
  finally show "matches h k = filter (here h k) (h_table h ! ?i)" .
qed

lemma search_matches:
  assumes "key_ops (h_hashfn h) (h_eqfn h)" and "ht_inv h"
  shows "hashtable_search h k = (case matches h k of [] \<Rightarrow> None | e # _ \<Rightarrow> Some (e_v e))"
  by (simp add: hashtable_search_def search_chain_filter matches_chain [OF assms])

text \<open>A fresh table is empty.\<close>

lemma find_prime_spec:
  "find_prime m ps i = (sz, j) \<Longrightarrow> (\<exists>p \<in> set ps. p > m) \<Longrightarrow> i \<le> j \<and> j < i + length ps \<and> sz = ps ! (j - i) \<and> sz > m"
proof (induction m ps i rule: find_prime.induct)
  case (2 m p ps i)
  show ?case
  proof (cases "p > m")
    case False
    then have "Suc i \<le> j \<and> j < Suc i + length ps \<and> sz = ps ! (j - Suc i) \<and> sz > m"
      using 2 by simp
    moreover from this have "(p # ps) ! (j - i) = ps ! (j - Suc i)"
      by (metis Suc_diff_Suc Suc_le_lessD nth_Cons_Suc)
    ultimately show ?thesis by simp
  qed (use 2 in auto)
qed simp

lemma create_hashtable_inv:
  assumes "create_hashtable mem minsize hf eqf = Some h"
  shows "ht_inv h" "entries h = []" "h_hashfn h = hf" "h_eqfn h = eqf" "unat minsize < tablelength h"
    "entrycount h \<le> loadlimit h"
proof -
  obtain sz j where f: "find_prime (unat minsize) primes 0 = (sz, j)" by fastforce
  have small: "\<not> minsize > push_bit 30 1" using assms by (auto simp: create_hashtable_def split: if_splits)
  then have "unat minsize \<le> 2 ^ 30" by (simp add: word_less_nat_alt not_less)
  then have "\<exists>p \<in> set primes. p > unat minsize" by (auto simp: primes_def)
  then have j: "j < prime_table_length" "sz = primes ! j" "sz > unat minsize"
    using find_prime_spec [OF f] by (simp_all add: prime_table_length_def)
  have h: "h = \<lparr>tablelength = sz, h_table = replicate sz [], entrycount = 0,
      loadlimit = load_limit sz, primeindex = j, h_hashfn = hf, h_eqfn = eqf\<rparr>"
    using assms small f by (auto simp: create_hashtable_def split: if_splits)
  show "ht_inv h" using j by (simp add: h ht_inv_def chains_ok_empty entries_def)
  show "entries h = []" "h_hashfn h = hf" "h_eqfn h = eqf" "unat minsize < tablelength h"
    "entrycount h \<le> loadlimit h"
    using j by (simp_all add: h entries_def)
qed

lemma expand_spec:
  assumes "ht_inv (h\<lparr>entrycount := c\<rparr>)" and "a \<noteq> Only_realloc_ok"
  obtains r h' where "hashtable_expand a h = Ret (r, h')" and "ht_inv (h'\<lparr>entrycount := c\<rparr>)"
    and "mset (entries h') = mset (entries h)" and "entrycount h' = entrycount h"
    and "h_hashfn h' = h_hashfn h" and "h_eqfn h' = h_eqfn h"
    and "h' = h \<or> primeindex h' = Suc (primeindex h)"
    and "a = Malloc_ok \<Longrightarrow> Suc (primeindex h) < prime_table_length \<Longrightarrow> primeindex h' = Suc (primeindex h)"
proof (cases "primeindex h = prime_table_length - 1 \<or> a = No_memory")
  case True
  then have "hashtable_expand a h = Ret (0, h)" by (auto simp: hashtable_expand_def)
  with assms(1) True show thesis by (intro that [of 0 h]) auto
next
  case False
  let ?n = "primes ! Suc (primeindex h)"
  let ?t = "foldl (push_entry ?n) (replicate ?n []) (concat (h_table h))"
  let ?h = "h\<lparr>primeindex := Suc (primeindex h), h_table := ?t, tablelength := ?n, loadlimit := load_limit ?n\<rparr>"
  have i: "Suc (primeindex h) < prime_table_length"
    using False assms(1) by (simp add: ht_inv_def) linarith
  have "chains_ok (h_hashfn h) (tablelength h) (h_table h)" using ht_invD(1) [OF assms(1)] by simp
  from push_all_ok [OF chains_ok_empty primes_pos [OF i] chains_ok_hash [OF this]]
  have t: "chains_ok (h_hashfn h) ?n ?t" "mset (concat ?t) = mset (concat (h_table h))" by simp_all
  from t(2) have len: "length (concat ?t) = length (concat (h_table h))" by (rule mset_eq_length)
  show thesis
  proof (rule that [of "-1" ?h])
    show "hashtable_expand a h = Ret (-1, ?h)"
      using False assms(2) by (cases a) (simp_all add: hashtable_expand_def Let_def)
    show "ht_inv (?h\<lparr>entrycount := c\<rparr>)"
      using assms(1) i t(1) len by (simp add: ht_inv_def entries_def)
    show "mset (entries ?h) = mset (entries h)" using t(2) by (simp add: entries_def)
  qed simp_all
qed

lemma insert_spec:
  assumes "ht_inv h" and "a \<noteq> Only_realloc_ok" and "length (entries h) + 1 < 2 ^ 32"
  obtains h' where "hashtable_insert a True h k v = Ret (-1, h')" and "ht_inv h'"
    and "mset (entries h') = add_mset \<lparr>e_k = k, e_v = v, e_h = hash h k\<rparr> (mset (entries h))"
    and "h_hashfn h' = h_hashfn h" and "h_eqfn h' = h_eqfn h" and "entrycount h' = entrycount h + 1"
    and "\<lbrakk>a = Malloc_ok; Suc (primeindex h) < prime_table_length; entrycount h + 1 > loadlimit h\<rbrakk> \<Longrightarrow>
      primeindex h' = Suc (primeindex h)"
    and "\<not> entrycount h + 1 > loadlimit h \<Longrightarrow> primeindex h' = primeindex h"
proof -
  let ?h = "h\<lparr>entrycount := entrycount h + 1\<rparr>"
  let ?e = "\<lparr>e_k = k, e_v = v, e_h = hash h k\<rparr>"
  have inv: "ht_inv (?h\<lparr>entrycount := entrycount h\<rparr>)" using assms(1) by simp
  obtain r g where g: "(if entrycount h + 1 > loadlimit h then hashtable_expand a ?h else Ret (-1, ?h)) = Ret (r, g)"
    "ht_inv (g\<lparr>entrycount := entrycount h\<rparr>)" "mset (entries g) = mset (entries h)"
    "entrycount g = entrycount h + 1" "h_hashfn g = h_hashfn h" "h_eqfn g = h_eqfn h"
    "\<lbrakk>a = Malloc_ok; Suc (primeindex h) < prime_table_length; entrycount h + 1 > loadlimit h\<rbrakk> \<Longrightarrow>
      primeindex g = Suc (primeindex h)"
    "\<not> entrycount h + 1 > loadlimit h \<Longrightarrow> primeindex g = primeindex h"
  proof (cases "entrycount h + 1 > loadlimit h")
    case True
    obtain r g where "hashtable_expand a ?h = Ret (r, g)" "ht_inv (g\<lparr>entrycount := entrycount h\<rparr>)"
      "mset (entries g) = mset (entries ?h)" "entrycount g = entrycount ?h"
      "h_hashfn g = h_hashfn ?h" "h_eqfn g = h_eqfn ?h"
      "a = Malloc_ok \<Longrightarrow> Suc (primeindex ?h) < prime_table_length \<Longrightarrow> primeindex g = Suc (primeindex ?h)"
      by (rule expand_spec [OF inv assms(2)]) blast
    with True show thesis by (intro that [of r g]) (simp_all add: entries_def)
  next
    case False
    with inv show thesis by (intro that [of "-1" ?h]) (simp_all add: entries_def)
  qed
  let ?t = "push_entry (tablelength g) (h_table g) ?e"
  have ok: "chains_ok (h_hashfn g) (tablelength g) (h_table g)" "0 < tablelength g"
    using ht_invD(1,2) [OF g(2)] by simp_all
  have t: "chains_ok (h_hashfn g) (tablelength g) ?t" "mset (concat ?t) = add_mset ?e (mset (concat (h_table g)))"
    by (rule push_entry_ok [OF ok]; simp add: hash_def g(5))+
  have len: "length (concat ?t) = Suc (length (entries h))"
    using t(2) g(3) mset_eq_length [of "concat ?t" "?e # entries h"] by (simp add: entries_def)
  have "unat (entrycount h + 1) = Suc (length (entries h))"
    using assms(1,3) by (simp add: ht_inv_def unat_word_ariths)
  then have "ht_inv (g\<lparr>h_table := ?t\<rparr>)" using g(2,4) t(1) len by (simp add: ht_inv_def entries_def)
  moreover have "hashtable_insert a True h k v = Ret (-1, g\<lparr>h_table := ?t\<rparr>)"
    using g(1,5) by (simp add: hashtable_insert_def Let_def hash_def)
  moreover have "mset (entries (g\<lparr>h_table := ?t\<rparr>)) = add_mset ?e (mset (entries h))"
    using t(2) g(3) by (simp add: entries_def)
  ultimately show thesis using g(4-) by (intro that [of "g\<lparr>h_table := ?t\<rparr>"]) simp_all
qed

lemma mset_eq_short: "mset xs = mset ys \<Longrightarrow> length ys \<le> 1 \<Longrightarrow> xs = ys"
  by (cases ys) auto

section \<open>The table is a finite map\<close>

lemma insert_fresh:
  assumes "key_ops (h_hashfn h) (h_eqfn h)" and "ht_inv h" and "ht_uniq h"
    and "hashtable_search h k = None" and "a \<noteq> Only_realloc_ok" and "length (entries h) + 1 < 2 ^ 32"
  shows "\<exists>h'. hashtable_insert a True h k v = Ret (-1, h') \<and> ht_inv h' \<and> ht_uniq h'
    \<and> h_hashfn h' = h_hashfn h \<and> h_eqfn h' = h_eqfn h
    \<and> unat (hashtable_count h') = unat (hashtable_count h) + 1
    \<and> (\<forall>k'. hashtable_search h' k' = (if h_eqfn h k' k then Some v else hashtable_search h k'))"
proof -
  let ?e = "\<lparr>e_k = k, e_v = v, e_h = hash h k\<rparr>"
  obtain h' where h': "hashtable_insert a True h k v = Ret (-1, h')" "ht_inv h'"
    "mset (entries h') = add_mset ?e (mset (entries h))" "h_hashfn h' = h_hashfn h" "h_eqfn h' = h_eqfn h"
    by (rule insert_spec [OF assms(2,5,6), of k v]) blast
  have ops: "key_ops (h_hashfn h') (h_eqfn h')" using assms(1) h'(4,5) by simp
  have "matches h k = []" using assms(4) search_matches [OF assms(1,2), of k] by (auto split: list.splits)
  then have fresh: "matches h k' = []" if "h_eqfn h k' k" for k'
    using key_ops.eq_cong [OF assms(1) that] by (simp add: matches_def)
  have "mset (matches h' k') = (if h_eqfn h k' k then {#?e#} else {#}) + mset (matches h k')" for k'
    using h'(3,5) by (simp add: matches_def mset_filter)
  then have m: "matches h' k' = (if h_eqfn h k' k then [?e] else matches h k')" for k'
    using fresh [of k'] assms(3) by (intro mset_eq_short) (auto simp: ht_uniq_def)
  then have "ht_uniq h'" using assms(3) by (simp add: ht_uniq_def)
  moreover have "hashtable_search h' k' = (if h_eqfn h k' k then Some v else hashtable_search h k')" for k'
    by (simp add: search_matches [OF ops h'(2)] search_matches [OF assms(1,2)] m)
  moreover have "unat (hashtable_count h') = unat (hashtable_count h) + 1"
    using h'(2,3) assms(2) mset_eq_length [of "entries h'" "?e # entries h"]
    by (simp add: hashtable_count_def ht_inv_def)
  ultimately show ?thesis using h' by blast
qed

text \<open>C25. Inserting a key that is not there: with memory for the entry and whether or not the table can
  grow, the insertion succeeds, keeps the invariant and the uniqueness of keys, and afterwards a search
  finds the new value for the new key and what it found before for every other key, although growing
  moves every entry to another chain.\<close>

theorem hashtable_insert_search:
  assumes "key_ops (h_hashfn h) (h_eqfn h)" and "ht_inv h" and "ht_uniq h"
    and "hashtable_search h k = None" and "a \<noteq> Only_realloc_ok" and "length (entries h) + 1 < 2 ^ 32"
  shows "\<exists>h'. hashtable_insert a True h k v = Ret (-1, h') \<and> ht_inv h' \<and> ht_uniq h'
    \<and> h_hashfn h' = h_hashfn h \<and> h_eqfn h' = h_eqfn h
    \<and> unat (hashtable_count h') = unat (hashtable_count h) + 1
    \<and> (\<forall>k'. hashtable_search h' k' = (if h_eqfn h k' k then Some v else hashtable_search h k'))"
  by (rule insert_fresh) (use assms in blast)+

lemma remove_entry:
  assumes "key_ops (h_hashfn h) (h_eqfn h)" and "ht_inv h" and "ht_uniq h"
    and "hashtable_remove h k = (r, h')"
  shows "r = hashtable_search h k \<and> ht_inv h' \<and> ht_uniq h'
    \<and> h_hashfn h' = h_hashfn h \<and> h_eqfn h' = h_eqfn h
    \<and> unat (hashtable_count h') = unat (hashtable_count h) - (if r = None then 0 else 1)
    \<and> (\<forall>k'. hashtable_search h' k' = (if h_eqfn h k' k then None else hashtable_search h k'))"
proof -
  let ?i = "indexFor (tablelength h) (hash h k)"
  note m = matches_chain [OF assms(1,2), of k]
  note sm = search_matches [OF assms(1,2)]
  show ?thesis
  proof (cases "unlink_chain (here h k) (h_table h ! ?i)")
    case None
    then have rh: "r = None" "h' = h" using assms(4) by (simp_all add: hashtable_remove_def Let_def)
    have "matches h k = []" using unlink_chain_filter [of "here h k" "h_table h ! ?i"] None m by simp
    then have "matches h k' = []" if "h_eqfn h k' k" for k'
      using key_ops.eq_cong [OF assms(1) that] by (simp add: matches_def)
    then show ?thesis using rh sm assms(2,3) \<open>matches h k = []\<close> by (auto simp: hashtable_count_def)
  next
    case (Some p)
    then obtain v es where u: "unlink_chain (here h k) (h_table h ! ?i) = Some (v, es)" by (cases p) auto
    then have rh: "r = Some v" "h' = h\<lparr>h_table := (h_table h)[?i := es], entrycount := entrycount h - 1\<rparr>"
      using assms(4) by (simp_all add: hashtable_remove_def Let_def)
    obtain e where e: "here h k e" "e_v e = v" "mset (h_table h ! ?i) = add_mset e (mset es)"
      "filter (here h k) (h_table h ! ?i) = e # filter (here h k) es"
      using unlink_chain_filter [of "here h k" "h_table h ! ?i"] u by auto
    have "mset (concat ((h_table h)[?i := es])) + mset (h_table h ! ?i) = mset (concat (h_table h)) + mset es"
      by (rule mset_concat_update) (rule m(2))
    then have ents: "mset (entries h) = add_mset e (mset (entries h'))" by (simp add: rh e(3) entries_def)
    then have len: "length (entries h) = Suc (length (entries h'))"
      using mset_eq_length [of "entries h" "e # entries h'"] by simp
    have sub: "set es \<subseteq> set (h_table h ! ?i)" using e(3) by (metis set_mset_add_mset_insert set_mset_mset subset_insertI)
    have "chains_ok (h_hashfn h) (tablelength h) ((h_table h)[?i := es])"
      by (rule chains_ok_update [OF ht_invD(1) [OF assms(2)] sub])
    moreover have cnt: "unat (entrycount h - 1) = length (entries h')"
    proof -
      have n: "unat (entrycount h) = Suc (length (entries h'))" using assms(2) len by (simp add: ht_inv_def)
      then have "entrycount h \<noteq> 0" by auto
      then show ?thesis using n by (simp add: unat_minus_one)
    qed
    ultimately have inv: "ht_inv h'" using assms(2) by (auto simp: ht_inv_def rh)
    have ops: "key_ops (h_hashfn h') (h_eqfn h')" using assms(1) by (simp add: rh)
    have mm: "mset (matches h k') = (if h_eqfn h k' (e_k e) then {#e#} else {#}) + mset (matches h' k')" for k'
      using arg_cong [OF ents, of "filter_mset (\<lambda>e. h_eqfn h k' (e_k e))"] by (simp add: matches_def rh)
    have ke: "h_eqfn h k' (e_k e) = h_eqfn h k' k" for k'
    proof -
      have "h_eqfn h k (e_k e)" using e(1) by (simp add: here_def)
      then show ?thesis using key_ops.eq_sym [OF assms(1)] key_ops.eq_trans [OF assms(1)] by blast
    qed
    have short: "length (matches h k') \<le> 1" for k' using assms(3) by (simp add: ht_uniq_def)
    have m': "matches h' k' = (if h_eqfn h k' k then [] else matches h k')" for k'
    proof (cases "h_eqfn h k' k")
      case True
      then have "mset (matches h k') = mset (e # matches h' k')" using mm [of k'] by (simp add: ke)
      then have "length (matches h k') = Suc (length (matches h' k'))" by (metis mset_eq_length length_Cons)
      then show ?thesis using short [of k'] True by simp
    next
      case False
      then have "mset (matches h' k') = mset (matches h k')" using mm [of k'] by (simp add: ke)
      then show ?thesis using False mset_eq_short [OF _ short] by simp
    qed
    then have "ht_uniq h'" using short by (simp add: ht_uniq_def)
    moreover have "r = hashtable_search h k" using e m(1) by (simp add: rh sm)
    moreover have "hashtable_search h' k' = (if h_eqfn h k' k then None else hashtable_search h k')" for k'
      by (simp add: search_matches [OF ops inv] sm m')
    moreover have "unat (hashtable_count h') = unat (hashtable_count h) - (if r = None then 0 else 1)"
    proof -
      have "entrycount h' = entrycount h - 1" by (simp add: rh(2))
      then show ?thesis using cnt len assms(2) rh(1) by (simp add: hashtable_count_def ht_inv_def)
    qed
    moreover have "h_hashfn h' = h_hashfn h" "h_eqfn h' = h_eqfn h" by (simp_all add: rh(2))
    ultimately show ?thesis using inv by blast
  qed
qed

text \<open>C26. Removing a key: the value that a search would have found is returned, the key is gone, every
  other key is found as before, and the counter drops by one exactly when there was an entry.\<close>

theorem hashtable_remove_search:
  assumes "key_ops (h_hashfn h) (h_eqfn h)" and "ht_inv h" and "ht_uniq h"
    and "hashtable_remove h k = (r, h')"
  shows "r = hashtable_search h k \<and> ht_inv h' \<and> ht_uniq h'
    \<and> h_hashfn h' = h_hashfn h \<and> h_eqfn h' = h_eqfn h
    \<and> unat (hashtable_count h') = unat (hashtable_count h) - (if r = None then 0 else 1)
    \<and> (\<forall>k'. hashtable_search h' k' = (if h_eqfn h k' k then None else hashtable_search h k'))"
  by (rule remove_entry) (use assms in blast)+

text \<open>A table of strings hashed by their length, for the witnesses.\<close>

definition demo_table :: "(string, nat) hashtable" where
  "demo_table = the (create_hashtable True 10 (\<lambda>s. of_nat (length s)) (=))"

lemma demo_table:
  "create_hashtable True 10 (\<lambda>s :: string. of_nat (length s)) (=) = Some demo_table"
  "key_ops (h_hashfn demo_table) (h_eqfn demo_table)" "ht_inv demo_table" "ht_uniq demo_table"
  "hashtable_search demo_table k = None" "length (entries demo_table) = 0"
proof -
  show c: "create_hashtable True 10 (\<lambda>s :: string. of_nat (length s)) (=) = Some demo_table"
    by (simp add: demo_table_def create_hashtable_def primes_def)
  note inv = create_hashtable_inv [OF c]
  show k: "key_ops (h_hashfn demo_table) (h_eqfn demo_table)" by unfold_locales (simp_all add: inv)
  show "ht_inv demo_table" "ht_uniq demo_table" "hashtable_search demo_table k = None" "length (entries demo_table) = 0"
    by (simp_all add: inv ht_uniq_def matches_def search_matches [OF k inv(1)])
qed

theorem hashtable_insert_search_witness:
  "\<exists>h'. hashtable_insert Malloc_ok True demo_table ''ab'' 7 = Ret (-1, h')
    \<and> hashtable_search h' ''ab'' = Some 7 \<and> hashtable_search h' ''cd'' = None"
  using hashtable_insert_search [OF demo_table(2-5), of Malloc_ok "''ab''" 7] demo_table(6)
  by (auto simp: create_hashtable_inv(4) [OF demo_table(1)] demo_table(5))

theorem hashtable_remove_search_witness:
  "\<exists>h'. hashtable_remove demo_table ''ab'' = (None, h') \<and> hashtable_search h' ''ab'' = None"
proof -
  obtain r h' where "hashtable_remove demo_table ''ab'' = (r, h')" by fastforce
  with hashtable_remove_search [OF demo_table(2-4) this] show ?thesis
    using demo_table(5) create_hashtable_inv(4) [OF demo_table(1)] by auto
qed

text \<open>C27. The load stays bounded: when the allocator delivers, an insertion into a table that can still
  grow leaves no more entries than the load limit, which is what 0.65 of the size rounds to in single
  precision.\<close>

theorem hashtable_insert_load:
  assumes "ht_inv h" and "entrycount h \<le> loadlimit h" and "Suc (primeindex h) < prime_table_length"
  shows "\<exists>h'. hashtable_insert Malloc_ok True h k v = Ret (-1, h') \<and> entrycount h' \<le> loadlimit h'
    \<and> loadlimit h' = load_limit (tablelength h')"
proof -
  let ?i = "primeindex h"
  have len: "prime_table_length = 26" by (simp add: prime_table_length_def primes_def)
  have lim: "loadlimit h = map load_limit primes ! ?i"
    using assms(1,3) by (simp add: ht_inv_def prime_table_length_def)
  have step: "\<forall>i < 25. map load_limit primes ! i < map load_limit primes ! Suc i
      \<and> map load_limit primes ! Suc i \<le> 1046898240"
    unfolding load_limits by code_simp
  have i: "?i < 25" using assms(3) len by simp
  have small: "loadlimit h < map load_limit primes ! Suc ?i" "map load_limit primes ! Suc ?i \<le> 1046898240"
    using step i lim by auto
  have "entrycount h < 1046898240" using small assms(2) by (meson le_less_trans less_le_trans)
  then have "unat (entrycount h) < 1046898240" by (simp add: word_less_nat_alt)
  then have room: "length (entries h) + 1 < 2 ^ 32" using assms(1) by (simp add: ht_inv_def)
  obtain h' where h': "hashtable_insert Malloc_ok True h k v = Ret (-1, h')" "ht_inv h'"
    "entrycount h' = entrycount h + 1"
    "entrycount h + 1 > loadlimit h \<Longrightarrow> primeindex h' = Suc (primeindex h)"
    "\<not> entrycount h + 1 > loadlimit h \<Longrightarrow> primeindex h' = primeindex h"
    using assms(3) by (auto intro: insert_spec [OF assms(1) _ room, of Malloc_ok k v])
  have lim': "loadlimit h' = map load_limit primes ! primeindex h'" "loadlimit h' = load_limit (tablelength h')"
    using h'(2) by (auto simp: ht_inv_def prime_table_length_def)
  have "entrycount h' \<le> loadlimit h'"
  proof (cases "entrycount h + 1 > loadlimit h")
    case True
    have "entrycount h < loadlimit h'" using assms(2) small(1) lim'(1) h'(4) [OF True] by simp
    then show ?thesis unfolding h'(3) by (rule inc_le)
  next
    case False
    then show ?thesis using h'(3,5) lim lim'(1) by simp
  qed
  with h'(1) lim' show ?thesis by blast
qed

theorem hashtable_insert_load_witness:
  "\<exists>h'. hashtable_insert Malloc_ok True demo_table ''ab'' 7 = Ret (-1, h') \<and> entrycount h' \<le> loadlimit h'"
proof -
  have "Suc (primeindex demo_table) < prime_table_length"
    by (simp add: demo_table_def create_hashtable_def primes_def prime_table_length_def)
  with hashtable_insert_load [OF demo_table(3) create_hashtable_inv(6) [OF demo_table(1)], of "''ab''" 7]
  show ?thesis by blast
qed

section \<open>Iteration\<close>

text \<open>\<open>it_ok h it n\<close>: the iterator stands at the \<open>n\<close>-th entry of the table, or past the last one.\<close>

definition it_ok :: "('k, 'v) hashtable \<Rightarrow> itr \<Rightarrow> nat \<Rightarrow> bool" where
  "it_ok h it n \<longleftrightarrow>
     (case itr_e it of
        None \<Rightarrow> n = length (entries h)
      | Some p \<Rightarrow> itr_index it < length (h_table h) \<and> p < length (h_table h ! itr_index it)
          \<and> itr_parent it = (if p = 0 then None else Some (p - 1))
          \<and> n = length (concat (take (itr_index it) (h_table h))) + p)"

lemma concat_split:
  assumes "i < length t"
  shows "concat t = concat (take i t) @ t ! i @ concat (drop (Suc i) t)"
  using arg_cong [OF id_take_nth_drop [OF assms], of concat] by simp

lemma it_ok_entry:
  assumes "it_ok h it n" and "n < length (entries h)"
  shows "itr_entry h it = Some (entries h ! n)"
  using assms concat_split [of "itr_index it" "h_table h"]
  by (auto simp: it_ok_def itr_entry_def entries_def nth_append split: option.splits)

lemma it_ok_bound:
  assumes "it_ok h it n"
  shows "n \<le> length (entries h)" and "itr_e it \<noteq> None \<longleftrightarrow> n < length (entries h)"
  using assms concat_split [of "itr_index it" "h_table h"]
  by (auto simp: it_ok_def entries_def split: option.splits)

lemma first_chain_spec:
  "case first_chain cs i of None \<Rightarrow> concat cs = []
   | Some j \<Rightarrow> i \<le> j \<and> j < i + length cs \<and> cs ! (j - i) \<noteq> [] \<and> concat (take (j - i) cs) = []"
proof (induction cs i rule: first_chain.induct)
  case (2 c cs i)
  show ?case
  proof (cases "c = []")
    case True
    show ?thesis
    proof (cases "first_chain cs (Suc i)")
      case (Some j)
      with 2 True have j: "Suc i \<le> j" "j < Suc i + length cs" "cs ! (j - Suc i) \<noteq> []" "concat (take (j - Suc i) cs) = []"
        by simp_all
      then have "j - i = Suc (j - Suc i)" by simp
      then show ?thesis using Some True j by simp
    qed (use 2 True in simp)
  qed simp
qed simp

lemma next_chain_ok:
  assumes "length (h_table h) = tablelength h" and "itr_index it < tablelength h"
    and "next_chain h it = (r, it')"
  shows "it_ok h it' (length (concat (take (Suc (itr_index it)) (h_table h))))"
    and "r = (if length (concat (take (Suc (itr_index it)) (h_table h))) < length (entries h) then -1 else 0)"
proof -
  let ?t = "h_table h" and ?j = "Suc (itr_index it)"
  let ?n = "length (concat (take ?j ?t))"
  have tk: "take (tablelength h) ?t = ?t" using assms(1) by simp
  have ent: "entries h = concat (take ?j ?t) @ concat (drop ?j ?t)"
    unfolding entries_def by (metis append_take_drop_id concat_append)
  have "it_ok h it' ?n \<and> r = (if ?n < length (entries h) then -1 else 0)"
  proof (cases "tablelength h \<le> ?j \<or> first_chain (drop ?j ?t) ?j = None")
    case True
    then have "concat (drop ?j ?t) = []"
      using first_chain_spec [of "drop ?j ?t" ?j] assms(1) by auto
    then have "?n = length (entries h)" by (simp add: ent)
    moreover have "itr_e it' = None \<and> r = 0"
      using True assms(3) by (auto simp: next_chain_def Let_def tk split: if_splits)
    ultimately show ?thesis by (simp add: it_ok_def)
  next
    case False
    then obtain i where i: "first_chain (drop ?j ?t) ?j = Some i" by auto
    then have f: "?j \<le> i" "i < ?j + length (drop ?j ?t)" "drop ?j ?t ! (i - ?j) \<noteq> []"
        "concat (take (i - ?j) (drop ?j ?t)) = []"
      using first_chain_spec [of "drop ?j ?t" ?j] by simp_all
    have ti: "take i ?t = take ?j ?t @ take (i - ?j) (drop ?j ?t)"
      using f(1) by (metis le_add_diff_inverse take_add)
    have at: "?t ! i \<noteq> []" "i < length ?t" using f by simp_all
    have "r = -1 \<and> it' = \<lparr>itr_e = Some 0, itr_parent = None, itr_index = i\<rparr>"
      using False i assms(3) by (auto simp: next_chain_def Let_def tk)
    moreover have "length (concat (take i ?t)) = ?n" using f(4) by (simp add: ti)
    moreover have "?n < length (entries h)"
      using at concat_split [OF at(2)] calculation(2) by (simp add: entries_def)
    ultimately show ?thesis using at by (simp add: it_ok_def)
  qed
  then show "it_ok h it' ?n" and "r = (if ?n < length (entries h) then -1 else 0)" by simp_all
qed

lemma hashtable_iterator_ok:
  assumes "ht_inv h"
  shows "it_ok h (hashtable_iterator h) 0"
proof -
  have len: "length (h_table h) = tablelength h" by (rule ht_invD(3) [OF assms])
  have cnt: "entrycount h = 0 \<longleftrightarrow> entries h = []" using assms by (auto simp: ht_inv_def unat_eq_zero)
  show ?thesis
  proof (cases "first_chain (h_table h) 0")
    case None
    then have "entries h = []" using first_chain_spec [of "h_table h" 0] by (simp add: entries_def)
    then show ?thesis using cnt by (simp add: hashtable_iterator_def it_ok_def)
  next
    case (Some i)
    then have i: "i < length (h_table h)" "h_table h ! i \<noteq> []" "concat (take i (h_table h)) = []"
      using first_chain_spec [of "h_table h" 0] by simp_all
    then have "entries h \<noteq> []" using concat_split [OF i(1)] by (simp add: entries_def)
    then show ?thesis using cnt Some i len by (simp add: hashtable_iterator_def it_ok_def Let_def)
  qed
qed

lemma advance_ok:
  assumes "ht_inv h" and "it_ok h it n" and "n < length (entries h)"
    and "hashtable_iterator_advance h it = (r, it')"
  shows "it_ok h it' (Suc n)" and "r = (if Suc n < length (entries h) then -1 else 0)"
proof -
  let ?i = "itr_index it"
  have len: "length (h_table h) = tablelength h" by (rule ht_invD(3) [OF assms(1)])
  obtain p where p: "itr_e it = Some p" using it_ok_bound(2) [OF assms(2)] assms(3) by auto
  with assms(2) have ok: "?i < length (h_table h)" "p < length (h_table h ! ?i)"
      "n = length (concat (take ?i (h_table h))) + p"
    by (simp_all add: it_ok_def)
  note split = concat_split [OF ok(1)]
  have "it_ok h it' (Suc n) \<and> r = (if Suc n < length (entries h) then -1 else 0)"
  proof (cases "Suc p < length (h_table h ! ?i)")
    case True
    then have "r = -1 \<and> it' = it\<lparr>itr_parent := Some p, itr_e := Some (Suc p)\<rparr>"
      using assms(4) p by (auto simp: hashtable_iterator_advance_def)
    then show ?thesis using True ok split by (simp add: it_ok_def entries_def)
  next
    case False
    then have next_c: "next_chain h it = (r, it')" using assms(4) p by (simp add: hashtable_iterator_advance_def)
    have "Suc n = length (concat (take (Suc ?i) (h_table h)))"
      using False ok by (simp add: take_Suc_conv_app_nth)
    then show ?thesis using next_chain_ok [OF len _ next_c] ok(1) len by simp
  qed
  then show "it_ok h it' (Suc n)" and "r = (if Suc n < length (entries h) then -1 else 0)" by simp_all
qed

text \<open>C28. Iterating visits every entry exactly once: after \<open>n\<close> advances a fresh iterator stands at the
  \<open>n\<close>-th entry of the table, the advance that leaves the last entry returns zero, and from then on the
  iterator points nowhere.\<close>

theorem hashtable_iterator_visits:
  assumes "ht_inv h" and "n \<le> length (entries h)"
  shows "let it = ((\<lambda>it. snd (hashtable_iterator_advance h it)) ^^ n) (hashtable_iterator h) in
    itr_entry h it = (if n < length (entries h) then Some (entries h ! n) else None)
    \<and> fst (hashtable_iterator_advance h it) = (if n + 1 < length (entries h) then -1 else 0)"
proof -
  define it where "it k = ((\<lambda>it. snd (hashtable_iterator_advance h it)) ^^ k) (hashtable_iterator h)" for k
  have ok: "k \<le> length (entries h) \<Longrightarrow> it_ok h (it k) k" for k
  proof (induction k)
    case 0
    then show ?case using hashtable_iterator_ok [OF assms(1)] by (simp add: it_def)
  next
    case (Suc k)
    obtain r it' where "hashtable_iterator_advance h (it k) = (r, it')" by fastforce
    moreover from this have "it (Suc k) = it'" by (simp add: it_def)
    ultimately show ?case using advance_ok(1) [OF assms(1)] Suc by simp
  qed
  obtain r it' where adv: "hashtable_iterator_advance h (it n) = (r, it')" by fastforce
  have "itr_entry h (it n) = (if n < length (entries h) then Some (entries h ! n) else None)"
    using it_ok_entry [OF ok [OF assms(2)]] it_ok_bound(2) [OF ok [OF assms(2)]] by (auto simp: itr_entry_def)
  moreover have "r = (if n + 1 < length (entries h) then -1 else 0)"
  proof (cases "n < length (entries h)")
    case True
    then show ?thesis using advance_ok(2) [OF assms(1) ok [OF assms(2)] _ adv] by simp
  next
    case False
    then have "itr_e (it n) = None" using it_ok_bound(2) [OF ok [OF assms(2)]] by simp
    then show ?thesis using adv False by (simp add: hashtable_iterator_advance_def)
  qed
  ultimately show ?thesis using adv by (simp add: it_def Let_def)
qed

theorem hashtable_iterator_visits_witness:
  "\<exists>h'. hashtable_insert Malloc_ok True demo_table ''ab'' 7 = Ret (-1, h') \<and> length (entries h') = 1
     \<and> itr_entry h' (hashtable_iterator h') = Some (entries h' ! 0)
     \<and> fst (hashtable_iterator_advance h' (hashtable_iterator h')) = 0"
proof -
  obtain h' where h': "hashtable_insert Malloc_ok True demo_table ''ab'' 7 = Ret (-1, h')" "ht_inv h'"
    "mset (entries h') = add_mset \<lparr>e_k = ''ab'', e_v = 7, e_h = hash demo_table ''ab''\<rparr> (mset (entries demo_table))"
    using demo_table(6) by (auto intro: insert_spec [OF demo_table(3), of Malloc_ok "''ab''" 7])
  then have "length (entries h') = 1" using demo_table(6) mset_eq_length [of "entries h'" "[_]"] by auto
  with h'(1) hashtable_iterator_visits [OF h'(2), of 0] show ?thesis by (auto simp: Let_def)
qed

text \<open>Removing through an iterator deletes exactly the entry the iterator stands at, keeps the
  invariant, and leaves the iterator at the entry that followed, with zero returned when there is none.\<close>

lemma hashtable_iterator_remove_current:
  assumes "ht_inv h" and "it_ok h it n" and "n < length (entries h)"
  shows "\<exists>r h' it'. hashtable_iterator_remove h it = Ret (r, h', it') \<and> ht_inv h'
    \<and> entries h' = take n (entries h) @ drop (Suc n) (entries h) \<and> it_ok h' it' n
    \<and> r = (if n < length (entries h') then -1 else 0)"
proof -
  let ?i = "itr_index it" and ?t = "h_table h"
  have len: "length ?t = tablelength h" by (rule ht_invD(3) [OF assms(1)])
  obtain p where p: "itr_e it = Some p" using it_ok_bound(2) [OF assms(2)] assms(3) by auto
  with assms(2) have ok: "?i < length ?t" "p < length (?t ! ?i)" "n = length (concat (take ?i ?t)) + p"
      "itr_parent it = (if p = 0 then None else Some (p - 1))"
    by (simp_all add: it_ok_def)
  define rest where "rest = drop (Suc p) (?t ! ?i)"
  define t' where "t' = ?t[?i := take p (?t ! ?i) @ rest]"
  define h' where "h' = h\<lparr>h_table := t', entrycount := entrycount h - 1\<rparr>"
  have before: "(case itr_parent it of None \<Rightarrow> [] | Some q \<Rightarrow> take (Suc q) (?t ! ?i)) = take p (?t ! ?i)"
    by (simp add: ok(4))
  have t': "?i < length t'" "t' ! ?i = take p (?t ! ?i) @ rest" "take ?i t' = take ?i ?t"
      "drop (Suc ?i) t' = drop (Suc ?i) ?t"
    using ok(1) by (simp_all add: t'_def)
  have "take n (entries h) = concat (take ?i ?t) @ take p (?t ! ?i)"
      "drop (Suc n) (entries h) = rest @ concat (drop (Suc ?i) ?t)"
    using ok(2,3) concat_split [OF ok(1)] by (simp_all add: entries_def rest_def)
  then have ent: "entries h' = take n (entries h) @ drop (Suc n) (entries h)"
    using concat_split [OF t'(1)] t' by (simp add: h'_def entries_def)
  have cnt: "unat (entrycount h) = length (entries h)" using assms(1) by (simp add: ht_inv_def)
  then have "entrycount h \<noteq> 0" using assms(3) by auto
  then have "unat (entrycount h - 1) = length (entries h')" using cnt ent assms(3) by (simp add: unat_minus_one)
  moreover have "chains_ok (h_hashfn h) (tablelength h) t'"
    unfolding t'_def rest_def
    by (rule chains_ok_update [OF ht_invD(1) [OF assms(1)]]) (auto dest: in_set_takeD in_set_dropD)
  ultimately have inv: "ht_inv h'" using assms(1) by (auto simp: ht_inv_def h'_def)
  show ?thesis
  proof (cases "rest = []")
    case False
    have "hashtable_iterator_remove h it = Ret (-1, h', it\<lparr>itr_e := Some p\<rparr>)"
      using p False before ok(2) by (simp add: hashtable_iterator_remove_def Let_def rest_def h'_def t'_def)
    moreover have "it_ok h' (it\<lparr>itr_e := Some p\<rparr>) n"
      using t' ok False by (simp add: it_ok_def h'_def)
    moreover have "n < length (entries h')" using it_ok_bound(2) [OF calculation(2)] by simp
    ultimately show ?thesis using inv ent by auto
  next
    case True
    then have d: "length (?t ! ?i) \<le> Suc p" by (simp add: rest_def)
    obtain r it' where nc: "next_chain h' it = (r, it')" by fastforce
    then have "hashtable_iterator_remove h it = Ret (r, h', it')"
      using p True d before by (simp add: hashtable_iterator_remove_def Let_def h'_def t'_def)
    moreover have "length (concat (take (Suc ?i) (h_table h'))) = n"
      using t'(1-3) True ok(2,3) by (simp add: h'_def take_Suc_conv_app_nth)
    moreover have "length (h_table h') = tablelength h'" "?i < tablelength h'"
      using len ok(1) by (simp_all add: h'_def t'_def)
    ultimately show ?thesis using next_chain_ok [OF _ _ nc] inv ent by auto
  qed
qed

end
