(* ===== verification/DevTable.thy ===== *)
theory DevTable
  imports Hashtable CText
begin

text \<open>
  The device table of \<open>mkfs.ubifs\<close> (\<open>devtable.c\<close>): a text file of paths with attributes that the image
  builder creates or overrides, kept in a hash table of directories whose elements point to hash tables
  of names. The elements are shared by pointer, so they live in a list of their own and the path table
  maps a path to its position there. Strings are NUL-free character lists; memory is assumed available.
\<close>

unbundle bit_operations_syntax

section \<open>Keys\<close>

definition sint8 :: "char \<Rightarrow> int" where
  "sint8 c = sint (of_char c :: u8)"

text \<open>The arithmetic of \<open>a += *str << 4\<close> on a signed character: shifted in \<open>int\<close>, added in
  \<open>unsigned\<close>; the right shift is arithmetic.\<close>

definition r5_step :: "u32 \<Rightarrow> char \<Rightarrow> u32" where
  "r5_step a c =
     (let a = a + word_of_int (sint8 c * 16); a = a + word_of_int (sint8 c div 16) in a * 11)"

definition r5_hash :: "string \<Rightarrow> u32" where
  "r5_hash s = foldl r5_step 0 s"

definition is_equivalent :: "string \<Rightarrow> string \<Rightarrow> bool" where
  "is_equivalent k1 k2 \<longleftrightarrow> k1 = k2"

interpretation dev_keys: key_ops r5_hash is_equivalent
  by unfold_locales (simp_all add: is_equivalent_def)

section \<open>Scanning a line\<close>

text \<open>What the code uses of \<open>sscanf\<close>: white space, a word of bounded length, one character, and unsigned
  numbers, which glibc reads as \<open>unsigned long\<close>, saturating, and stores truncated.\<close>

definition strtoul :: "nat \<Rightarrow> string \<Rightarrow> u64 \<times> string" where
  "strtoul base s =
     (let neg = (s \<noteq> [] \<and> hd s = CHR ''-'');
          ds = takeWhile (is_digit base) (if s \<noteq> [] \<and> (hd s = CHR ''-'' \<or> hd s = CHR ''+'') then tl s else s);
          rest = dropWhile (is_digit base) (if s \<noteq> [] \<and> (hd s = CHR ''-'' \<or> hd s = CHR ''+'') then tl s else s);
          v = foldl (\<lambda>n c. n * base + digit_val c) 0 ds
      in (if v \<ge> 2 ^ 64 then 0xFFFFFFFFFFFFFFFF else if neg then - of_nat v else of_nat v, rest))"

definition scan_uint :: "nat \<Rightarrow> string \<Rightarrow> (u32 \<times> string) option" where
  "scan_uint base s =
     (let s = dropWhile isspace s;
          body = (if s \<noteq> [] \<and> (hd s = CHR ''-'' \<or> hd s = CHR ''+'') then tl s else s)
      in if body = [] \<or> \<not> is_digit base (hd body) then None
         else let (v, rest) = strtoul base s in Some (ucast v, rest))"

fun scan_uints :: "nat list \<Rightarrow> u32 list \<Rightarrow> string \<Rightarrow> u32 list" where
  "scan_uints [] defaults s = defaults"
| "scan_uints (b # bs) [] s = []"
| "scan_uints (b # bs) (d # ds) s =
     (case scan_uint b s of None \<Rightarrow> d # ds | Some (v, rest) \<Rightarrow> v # scan_uints bs ds rest)"

record table_line =
  l_buf :: string
  l_type :: "char option"
  l_mode :: u32
  l_uid :: u32
  l_gid :: u32
  l_major :: u32
  l_minor :: u32
  l_start :: u32
  l_increment :: u32
  l_count :: u32

definition scan_line :: "string \<Rightarrow> table_line option" where
  "scan_line line =
     (let s = dropWhile isspace line in
      if s = [] then None
      else let buf = take 1023 (takeWhile (\<lambda>c. \<not> isspace c) s);
               s1 = dropWhile isspace (drop (length buf) s);
               defaults = [0x1ED, 0, 0, 0, 0, 0, 0, 0];
               nums = (if s1 = [] then defaults else scan_uints [8, 10, 10, 10, 10, 10, 10, 10] defaults (tl s1))
           in Some \<lparr>l_buf = buf, l_type = (if s1 = [] then None else Some (hd s1)),
                    l_mode = nums ! 0, l_uid = nums ! 1, l_gid = nums ! 2, l_major = nums ! 3, l_minor = nums ! 4,
                    l_start = nums ! 5, l_increment = nums ! 6, l_count = nums ! 7\<rparr>)"

section \<open>Paths\<close>

fun strstr :: "string \<Rightarrow> string \<Rightarrow> bool" where
  "strstr [] needle \<longleftrightarrow> needle = []"
| "strstr (c # cs) needle \<longleftrightarrow> take (length needle) (c # cs) = needle \<or> strstr cs needle"

text \<open>The split at the last slash. The loop walks backwards without looking for the start of the
  buffer: a path with no slash runs out of it.\<close>

definition separate_last :: "string \<Rightarrow> (string \<times> string) option" where
  "separate_last buf =
     (if CHR ''/'' \<notin> set buf then None
      else let name_len = length (takeWhile (\<lambda>c. c \<noteq> CHR ''/'') (rev buf));
               path_len = length buf - name_len;
               n = drop path_len buf;
               path_len = (if path_len > 1 then path_len - 1 else path_len)
           in Some (take path_len buf, n))"

datatype devtbl_error = Sscanf_failed | Too_long_path | Not_absolute | Root_directory | Double_slash
  | Trailing_slash | Dot_component | Unsupported_type | Count_zero | Referred_twice | Cannot_insert
  | Cannot_open | Too_short

text \<open>The checks of the path. For a path of two characters the comparison with \<open>"/.."\<close> starts one byte
  before the buffer; \<open>pre\<close> is the byte found there.\<close>

definition check_path :: "char \<Rightarrow> string \<Rightarrow> devtbl_error option" where
  "check_path pre buf =
     (let len = length buf in
      if len = 1024 then Some Too_long_path
      else if buf = ''/'' then Some Not_absolute
      else if len = 1 then Some Root_directory
      else if strstr buf ''//'' then Some Double_slash
      else if buf ! (len - 1) = CHR ''/'' then Some Trailing_slash
      else if strstr buf ''/./'' \<or> strstr buf ''/../'' \<or> drop (len - 2) buf = ''/.''
        \<or> (if len = 2 then pre # buf else drop (len - 3) buf) = ''/..'' then Some Dot_component
      else None)"

definition S_IFMT :: u32 where "S_IFMT = 0xF000"
definition S_IFDIR :: u32 where "S_IFDIR = 0x4000"
definition S_IFREG :: u32 where "S_IFREG = 0x8000"
definition S_IFIFO :: u32 where "S_IFIFO = 0x1000"
definition S_IFCHR :: u32 where "S_IFCHR = 0x2000"
definition S_IFBLK :: u32 where "S_IFBLK = 0x6000"

definition type_bits :: "char \<Rightarrow> u32 option" where
  "type_bits c =
     (if c = CHR ''d'' then Some S_IFDIR else if c = CHR ''f'' then Some S_IFREG
      else if c = CHR ''p'' then Some S_IFIFO else if c = CHR ''c'' then Some S_IFCHR
      else if c = CHR ''b'' then Some S_IFBLK else None)"

text \<open>\<open>makedev\<close> of glibc.\<close>

definition makedev :: "u32 \<Rightarrow> u32 \<Rightarrow> u64" where
  "makedev major minor =
     push_bit 8 (ucast (major AND 0xFFF)) OR ucast (minor AND 0xFF)
     OR push_bit 12 (ucast (minor AND NOT 0xFF)) OR push_bit 32 (ucast (major AND NOT 0xFFF))"

section \<open>The tables\<close>

record name_htbl_element =
  nh_name :: string
  nh_mode :: u32
  nh_uid :: u32
  nh_gid :: u32
  nh_dev :: u64

record path_htbl_element =
  ph_path :: string
  name_htbl :: "(string, name_htbl_element) hashtable"

record devtable =
  path_htbl :: "(string, nat) hashtable"
  ph_elts :: "path_htbl_element list"

text \<open>\<open>hashtable_insert\<close> with memory at hand; the code turns a zero into an error.\<close>

definition dt_insert :: "('k, 'v) hashtable \<Rightarrow> 'k \<Rightarrow> 'v \<Rightarrow> (devtbl_error, ('k, 'v) hashtable) outcome" where
  "dt_insert h k v =
     (case hashtable_insert Malloc_ok True h k v of
        Ret (r, h') \<Rightarrow> if r = 0 then Err Cannot_insert else Ret h'
      | Err e \<Rightarrow> Err Cannot_insert
      | Undef \<Rightarrow> Undef)"

definition new_table :: "(string, 'v) hashtable" where
  "new_table = the (create_hashtable True 128 r5_hash is_equivalent)"

text \<open>The element of a directory, made when it is not there yet.\<close>

definition get_path :: "devtable \<Rightarrow> string \<Rightarrow> (devtbl_error, nat \<times> devtable) outcome" where
  "get_path dt path =
     (case hashtable_search (path_htbl dt) path of
        Some i \<Rightarrow> Ret (i, dt)
      | None \<Rightarrow>
          let i = length (ph_elts dt) in
          case dt_insert (path_htbl dt) path i of
            Ret h \<Rightarrow> Ret (i, dt\<lparr>path_htbl := h, ph_elts := ph_elts dt @ [\<lparr>ph_path = path, name_htbl = new_table\<rparr>]\<rparr>)
          | Err e \<Rightarrow> Err e
          | Undef \<Rightarrow> Undef)"

definition set_names :: "devtable \<Rightarrow> nat \<Rightarrow> (string, name_htbl_element) hashtable \<Rightarrow> devtable" where
  "set_names dt i h = dt\<lparr>ph_elts := (ph_elts dt)[i := (ph_elts dt ! i)\<lparr>name_htbl := h\<rparr>]\<rparr>"

text \<open>The names of a counted entry. A name that is already there ends in \<open>out_free\<close>, which frees the
  directory element although the path table still points to it, and the caller then walks that table to
  free it: the program reads freed memory, so this path has no defined result.\<close>

function add_counted :: "(string, name_htbl_element) hashtable \<Rightarrow> table_line \<Rightarrow> u32 \<Rightarrow> string \<Rightarrow> int \<Rightarrow> int \<Rightarrow>
    (devtbl_error, (string, name_htbl_element) hashtable) outcome" where
  "add_counted h l mode name i num =
     (if i < num then
        (let nm = name @ show_int i;
             dev = makedev (l_major l) (l_minor l + (word_of_int i - l_start l) * l_increment l);
             nh = \<lparr>nh_name = nm, nh_mode = mode, nh_uid = l_uid l, nh_gid = l_gid l, nh_dev = dev\<rparr>
         in case hashtable_search h nm of
              Some _ \<Rightarrow> Undef
            | None \<Rightarrow>
                (case dt_insert h nm nh of
                   Ret h' \<Rightarrow> add_counted h' l mode name (i + 1) num
                 | Err e \<Rightarrow> Undef
                 | Undef \<Rightarrow> Undef))
      else Ret h)"
  by pat_completeness auto
termination by (relation "measure (\<lambda>(h, l, mode, name, i, num). nat (num - i))") auto

declare add_counted.simps [simp del]

definition interpret_table_entry :: "char \<Rightarrow> devtable \<Rightarrow> string \<Rightarrow> (devtbl_error, devtable) outcome" where
  "interpret_table_entry pre dt line =
     (case scan_line line of
        None \<Rightarrow> Err Sscanf_failed
      | Some l \<Rightarrow>
        (case check_path pre (l_buf l) of
           Some e \<Rightarrow> Err e
         | None \<Rightarrow>
           (case l_type l of
              None \<Rightarrow> Undef
            | Some t \<Rightarrow>
              (case type_bits t of
                 None \<Rightarrow> Err Unsupported_type
               | Some bits \<Rightarrow>
                 (case separate_last (l_buf l) of
                    None \<Rightarrow> Undef
                  | Some (path, name) \<Rightarrow>
                    (case get_path dt path of
                       Ret (i, dt1) \<Rightarrow>
                         let mode = l_mode l OR bits; names = name_htbl (ph_elts dt1 ! i) in
                         if l_increment l \<noteq> 0 \<and> l_count l = 0 then Err Count_zero
                         else if l_count l = 0 then
                           (case hashtable_search names name of
                              Some _ \<Rightarrow> Err Referred_twice
                            | None \<Rightarrow>
                              (case dt_insert names name
                                  \<lparr>nh_name = name, nh_mode = mode, nh_uid = l_uid l, nh_gid = l_gid l,
                                   nh_dev = makedev (l_major l) (l_minor l)\<rparr> of
                                 Ret h' \<Rightarrow> Ret (set_names dt1 i h')
                               | Err e \<Rightarrow> Undef
                               | Undef \<Rightarrow> Undef))
                         else
                           (case add_counted names l mode name (sint (l_start l)) (sint (l_start l + l_count l)) of
                              Ret h' \<Rightarrow> Ret (set_names dt1 i h')
                            | Err e \<Rightarrow> Err e
                            | Undef \<Rightarrow> Undef)
                     | Err e \<Rightarrow> Err e
                     | Undef \<Rightarrow> Undef))))))"

section \<open>The file\<close>

fun split_lines :: "string \<Rightarrow> string \<Rightarrow> string list" where
  "split_lines acc [] = (if acc = [] then [] else [rev acc])"
| "split_lines acc (c # cs) = (if c = CHR 0x0A then rev (c # acc) # split_lines [] cs else split_lines (c # acc) cs)"

definition trim_line :: "string \<Rightarrow> string" where
  "trim_line line =
     dropWhile (\<lambda>c. c \<in> set [CHR 0x20, CHR 0x0A, CHR 0x0D, CHR 0x09, CHR 0x0B])
       (rev (dropWhile isspace (rev line)))"

fun interpret_lines :: "char \<Rightarrow> devtable \<Rightarrow> string list \<Rightarrow> (devtbl_error, devtable) outcome" where
  "interpret_lines pre dt [] = Ret dt"
| "interpret_lines pre dt (raw # ls) =
     (let line = trim_line raw in
      if line \<noteq> [] \<and> hd line \<noteq> CHR ''#'' then
        (case interpret_table_entry pre dt line of
           Ret dt' \<Rightarrow> interpret_lines pre dt' ls | Err e \<Rightarrow> Err e | Undef \<Rightarrow> Undef)
      else interpret_lines pre dt ls)"

definition empty_devtable :: devtable where
  "empty_devtable = \<lparr>path_htbl = new_table, ph_elts = []\<rparr>"

text \<open>\<open>file\<close> is the content of the file, or \<open>None\<close> when it cannot be opened.\<close>

definition parse_devtable :: "char \<Rightarrow> string option \<Rightarrow> (devtbl_error, devtable) outcome" where
  "parse_devtable pre file =
     (case file of
        None \<Rightarrow> Err Cannot_open
      | Some contents \<Rightarrow>
          if length contents < 10 then Err Too_short
          else interpret_lines pre empty_devtable (split_lines [] contents))"

section \<open>Queries\<close>

definition devtbl_find_path :: "devtable option \<Rightarrow> string \<Rightarrow> nat option" where
  "devtbl_find_path dt path =
     (case dt of None \<Rightarrow> None | Some dt \<Rightarrow> hashtable_search (path_htbl dt) path)"

definition devtbl_find_name :: "devtable option \<Rightarrow> nat \<Rightarrow> string \<Rightarrow> name_htbl_element option" where
  "devtbl_find_name dt ph name =
     (case dt of None \<Rightarrow> None | Some dt \<Rightarrow> hashtable_search (name_htbl (ph_elts dt ! ph)) name)"

record file_attr =
  st_mode :: u32
  st_uid :: u32
  st_gid :: u32

datatype override_error = Both_exist | Different_type

definition override_attributes :: "devtable option \<Rightarrow> file_attr \<Rightarrow> nat \<Rightarrow> name_htbl_element \<Rightarrow>
    (override_error, devtable option \<times> file_attr) outcome" where
  "override_attributes dt st ph nh =
     (case dt of
        None \<Rightarrow> Ret (dt, st)
      | Some d \<Rightarrow>
          if st_mode st AND S_IFMT \<in> {S_IFCHR, S_IFBLK, S_IFIFO} then Err Both_exist
          else if st_mode st AND S_IFMT \<noteq> nh_mode nh AND S_IFMT then Err Different_type
          else Ret (Some (set_names d ph (snd (hashtable_remove (name_htbl (ph_elts d ! ph)) (nh_name nh)))),
                    st\<lparr>st_uid := nh_uid nh, st_gid := nh_gid nh, st_mode := nh_mode nh\<rparr>))"

text \<open>Iterating over the names of a directory.\<close>

definition first_name_htbl_element :: "devtable option \<Rightarrow> nat option \<Rightarrow> (name_htbl_element option \<times> itr) option" where
  "first_name_htbl_element dt ph =
     (case (dt, ph) of
        (Some d, Some i) \<Rightarrow>
          let h = name_htbl (ph_elts d ! i) in
          if hashtable_count h = 0 then None
          else let it = hashtable_iterator h in Some (hashtable_iterator_value h it, it)
      | _ \<Rightarrow> None)"

definition next_name_htbl_element :: "devtable option \<Rightarrow> nat option \<Rightarrow> itr \<Rightarrow> name_htbl_element option \<times> itr" where
  "next_name_htbl_element dt ph it =
     (case (dt, ph) of
        (Some d, Some i) \<Rightarrow>
          let h = name_htbl (ph_elts d ! i); (r, it') = hashtable_iterator_advance h it in
          (if r = 0 then None else hashtable_iterator_value h it', it')
      | _ \<Rightarrow> (None, it))"

section \<open>Tables of strings as maps\<close>

text \<open>What the device table relies on: as long as there is room, putting a fresh key extends the map.\<close>

fun put_fresh :: "('h \<Rightarrow> 'k \<Rightarrow> 'v option) \<Rightarrow> ('h \<Rightarrow> 'k \<Rightarrow> 'v \<Rightarrow> ('e, 'h) outcome) \<Rightarrow> 'h \<Rightarrow>
    ('k \<times> 'v) list \<Rightarrow> ('e, 'h) outcome" where
  "put_fresh look put h [] = Ret h"
| "put_fresh look put h ((k, v) # kvs) =
     (if look h k \<noteq> None then Undef
      else case put h k v of Ret h' \<Rightarrow> put_fresh look put h' kvs | _ \<Rightarrow> Undef)"

locale fresh_map =
  fixes ok :: "'h \<Rightarrow> bool" and room :: "nat \<Rightarrow> 'h \<Rightarrow> bool" and look :: "'h \<Rightarrow> 'k \<Rightarrow> 'v option"
    and put :: "'h \<Rightarrow> 'k \<Rightarrow> 'v \<Rightarrow> ('e, 'h) outcome"
  assumes put_look: "ok h \<Longrightarrow> room (Suc n) h \<Longrightarrow> look h k = None \<Longrightarrow>
      \<exists>h'. put h k v = Ret h' \<and> ok h' \<and> room n h' \<and> look h' = (look h)(k \<mapsto> v)"
begin

lemma put_fresh_look:
  assumes "ok h" and "room (length kvs) h"
  shows "if distinct (map fst kvs) \<and> (\<forall>k \<in> fst ` set kvs. look h k = None)
    then \<exists>h'. put_fresh look put h kvs = Ret h' \<and> ok h' \<and> look h' = look h ++ map_of kvs
    else put_fresh look put h kvs = Undef"
  using assms
proof (induction kvs arbitrary: h)
  case (Cons kv kvs)
  obtain k v where kv: "kv = (k, v)" by (cases kv)
  show ?case
  proof (cases "look h k = None")
    case True
    then obtain h1 where h1: "put h k v = Ret h1" "ok h1" "room (length kvs) h1" "look h1 = (look h)(k \<mapsto> v)"
      using put_look [of h "length kvs" k v] Cons.prems by auto
    have fresh: "(\<forall>k' \<in> fst ` set kvs. look h1 k' = None)
        \<longleftrightarrow> k \<notin> fst ` set kvs \<and> (\<forall>k' \<in> fst ` set kvs. look h k' = None)"
      unfolding h1(4) by (auto split: if_splits)
    have "look h ++ map_of ((k, v) # kvs) = look h1 ++ map_of kvs" if "k \<notin> fst ` set kvs"
    proof
      fix x
      have "map_of kvs k = None" using that by (simp add: map_of_eq_None_iff)
      then show "(look h ++ map_of ((k, v) # kvs)) x = (look h1 ++ map_of kvs) x"
        by (auto simp: h1(4) map_add_def split: option.splits)
    qed
    with Cons.IH [OF h1(2,3)] fresh True show ?thesis
      by (auto simp: kv h1(1) simp del: map_of.simps split: if_splits)
  qed (auto simp: kv)
qed simp

end

definition names_ok :: "(string, 'v) hashtable \<Rightarrow> bool" where
  "names_ok h \<longleftrightarrow> ht_inv h \<and> ht_uniq h \<and> h_hashfn h = r5_hash \<and> h_eqfn h = is_equivalent"

definition has_room :: "nat \<Rightarrow> ('k, 'v) hashtable \<Rightarrow> bool" where
  "has_room n h \<longleftrightarrow> length (entries h) + n < 2 ^ 32"

interpretation name_map: fresh_map names_ok has_room hashtable_search dt_insert
proof
  fix h :: "(string, 'v) hashtable" and n k v
  assume h: "names_ok h" "has_room (Suc n) h" "hashtable_search h k = None"
  have ops: "key_ops (h_hashfn h) (h_eqfn h)"
    using h(1) dev_keys.key_ops_axioms by (simp add: names_ok_def)
  obtain h' where h': "hashtable_insert Malloc_ok True h k v = Ret (-1, h')" "ht_inv h'" "ht_uniq h'"
      "h_hashfn h' = h_hashfn h" "h_eqfn h' = h_eqfn h"
      "unat (hashtable_count h') = unat (hashtable_count h) + 1"
      "\<forall>k'. hashtable_search h' k' = (if h_eqfn h k' k then Some v else hashtable_search h k')"
    using insert_fresh [OF ops _ _ h(3), of Malloc_ok v] h(1,2) by (auto simp: names_ok_def has_room_def)
  have "length (entries h') = length (entries h) + 1"
    using h' h(1) by (simp add: names_ok_def ht_inv_def hashtable_count_def)
  then have "has_room n h'" using h(2) by (simp add: has_room_def)
  moreover have "hashtable_search h' = (hashtable_search h)(k \<mapsto> v)"
    using h'(7) h(1) by (auto simp: names_ok_def is_equivalent_def)
  ultimately show "\<exists>h'. dt_insert h k v = Ret h' \<and> names_ok h' \<and> has_room n h'
      \<and> hashtable_search h' = (hashtable_search h)(k \<mapsto> v)"
    using h' h(1) by (auto simp: dt_insert_def names_ok_def)
qed

section \<open>What the device table holds\<close>

text \<open>The composition of the two queries, and the invariant of the two levels.\<close>

definition dev_lookup :: "devtable \<Rightarrow> string \<Rightarrow> string \<Rightarrow> name_htbl_element option" where
  "dev_lookup dt path name =
     (case devtbl_find_path (Some dt) path of
        None \<Rightarrow> None | Some i \<Rightarrow> devtbl_find_name (Some dt) i name)"

definition dev_inv :: "devtable \<Rightarrow> bool" where
  "dev_inv dt \<longleftrightarrow> names_ok (path_htbl dt) \<and> (\<forall>ph \<in> set (ph_elts dt). names_ok (name_htbl ph))
     \<and> (\<forall>path i. hashtable_search (path_htbl dt) path = Some i \<longrightarrow>
          i < length (ph_elts dt) \<and> ph_path (ph_elts dt ! i) = path)"

definition dev_room :: "nat \<Rightarrow> devtable \<Rightarrow> bool" where
  "dev_room n dt \<longleftrightarrow> has_room n (path_htbl dt) \<and> n < 2 ^ 32
     \<and> (\<forall>ph \<in> set (ph_elts dt). has_room n (name_htbl ph))"

lemma new_table_ok:
  "names_ok (new_table :: (string, 'v) hashtable)" "entries (new_table :: (string, 'v) hashtable) = []"
  "hashtable_search (new_table :: (string, 'v) hashtable) k = None"
proof -
  have c: "create_hashtable True 128 r5_hash is_equivalent = Some (new_table :: (string, 'v) hashtable)"
    by (simp add: new_table_def create_hashtable_def primes_def)
  note inv = create_hashtable_inv [OF c]
  show "names_ok (new_table :: (string, 'v) hashtable)"
    using inv by (simp add: names_ok_def ht_uniq_def matches_def)
  show "entries (new_table :: (string, 'v) hashtable) = []" by (rule inv(2))
  have "key_ops (h_hashfn (new_table :: (string, 'v) hashtable)) (h_eqfn (new_table :: (string, 'v) hashtable))"
    using dev_keys.key_ops_axioms inv(3,4) by simp
  then show "hashtable_search (new_table :: (string, 'v) hashtable) k = None"
    by (simp add: search_matches [OF _ inv(1)] matches_def inv(2))
qed

lemma empty_devtable_inv: "dev_inv empty_devtable" "dev_lookup empty_devtable p n = None"
  by (simp_all add: dev_inv_def empty_devtable_def new_table_ok dev_lookup_def devtbl_find_path_def)

lemma get_path_ok:
  assumes "dev_inv dt" and "dev_room (Suc n) dt"
  obtains i dt1 where "get_path dt path = Ret (i, dt1)" and "dev_inv dt1"
    and "hashtable_search (path_htbl dt1) path = Some i" and "dev_lookup dt1 = dev_lookup dt"
    and "has_room (Suc n) (name_htbl (ph_elts dt1 ! i))" and "i < length (ph_elts dt1)"
proof (cases "hashtable_search (path_htbl dt) path")
  case (Some i)
  then show thesis
    using assms by (intro that [of i dt]) (auto simp: get_path_def dev_inv_def dev_room_def)
next
  case None
  let ?e = "\<lparr>ph_path = path, name_htbl = new_table\<rparr>"
  obtain h where h: "dt_insert (path_htbl dt) path (length (ph_elts dt)) = Ret h" "names_ok h"
      "hashtable_search h = (hashtable_search (path_htbl dt))(path \<mapsto> length (ph_elts dt))"
    using name_map.put_look [of "path_htbl dt" n path "length (ph_elts dt)"] None assms
    by (auto simp: dev_inv_def dev_room_def)
  let ?dt = "dt\<lparr>path_htbl := h, ph_elts := ph_elts dt @ [?e]\<rparr>"
  show thesis
  proof (rule that [of "length (ph_elts dt)" ?dt])
    show "get_path dt path = Ret (length (ph_elts dt), ?dt)"
      using None h(1) by (simp add: get_path_def Let_def)
    show "dev_inv ?dt"
      using assms(1) h(2,3) new_table_ok by (auto simp: dev_inv_def nth_append intro: less_SucI split: if_splits)
    show "dev_lookup ?dt = dev_lookup dt"
      using assms(1) None new_table_ok(3)
      by (auto simp: fun_eq_iff dev_lookup_def devtbl_find_path_def devtbl_find_name_def h(3) dev_inv_def nth_append
          split: option.splits)
    show "has_room (Suc n) (name_htbl (ph_elts ?dt ! length (ph_elts dt)))"
      using assms(2) by (simp add: has_room_def new_table_ok dev_room_def)
  qed (simp_all add: h(3))
qed

lemma set_names_ok:
  assumes "dev_inv dt" and "hashtable_search (path_htbl dt) path = Some i" and "names_ok h"
  shows "dev_inv (set_names dt i h)"
    and "dev_lookup (set_names dt i h) p n = (if p = path then hashtable_search h n else dev_lookup dt p n)"
proof -
  have i: "i < length (ph_elts dt)" "ph_path (ph_elts dt ! i) = path"
    using assms(1,2) by (auto simp: dev_inv_def)
  have names: "\<forall>ph \<in> set ((ph_elts dt)[i := (ph_elts dt ! i)\<lparr>name_htbl := h\<rparr>]). names_ok (name_htbl ph)"
    using assms(1,3) by (auto simp: dev_inv_def dest: set_update_subset_insert [THEN subsetD])
  show "dev_inv (set_names dt i h)"
    using assms(1) names i by (auto simp: dev_inv_def set_names_def nth_list_update)
  have "j \<noteq> i" if "hashtable_search (path_htbl dt) p = Some j" "p \<noteq> path" for j
    using that assms(1) i(2) by (auto simp: dev_inv_def)
  then show "dev_lookup (set_names dt i h) p n = (if p = path then hashtable_search h n else dev_lookup dt p n)"
    using assms(2) i(1)
    by (auto simp: dev_lookup_def devtbl_find_path_def devtbl_find_name_def set_names_def split: option.splits)
qed

section \<open>Counted names\<close>

lemma sint_unat:
  assumes "unat (w :: u32) < 2 ^ 31"
  shows "sint w = int (unat w)"
proof -
  have "int (unat w) < int (2 ^ 31)" using assms by (simp only: of_nat_less_iff)
  then have "uint w < 2 ^ 31" by simp
  moreover have "- (2 ^ 31) \<le> uint w" by (rule order.trans [OF _ uint_ge_0]) simp
  ultimately have "signed_take_bit 31 (uint w) = uint w" by (intro signed_take_bit_int_eq_self)
  then show ?thesis by (simp add: sint_uint)
qed

definition counted :: "table_line \<Rightarrow> u32 \<Rightarrow> string \<Rightarrow> int \<Rightarrow> string \<times> name_htbl_element" where
  "counted l mode name i =
     (let nm = name @ show_int i in
      (nm, \<lparr>nh_name = nm, nh_mode = mode, nh_uid = l_uid l, nh_gid = l_gid l,
           nh_dev = makedev (l_major l) (l_minor l + (word_of_int i - l_start l) * l_increment l)\<rparr>))"

lemma add_counted_put_fresh:
  "add_counted h l mode name i num =
     put_fresh hashtable_search dt_insert h (map (counted l mode name) [i..num - 1])"
proof (induction "nat (num - i)" arbitrary: h i)
  case 0
  then show ?case by (simp add: add_counted.simps [of h])
next
  case (Suc k)
  then have i: "i < num" and k: "k = nat (num - (i + 1))" by simp_all
  have up: "[i..num - 1] = i # [i + 1..num - 1]" using i by (simp add: upto_rec1)
  show ?case
    using Suc.hyps(1) [OF k] i
    by (simp add: add_counted.simps [of h] up counted_def Let_def split: option.split outcome.split)
qed

lemma counted_distinct:
  assumes "0 \<le> i"
  shows "distinct (map fst (map (counted l mode name) [i..num]))"
proof -
  have "inj_on (\<lambda>j. name @ show_int j) (set [i..num])"
  proof (rule inj_onI)
    fix x y :: int
    assume x: "x \<in> set [i..num]" and y: "y \<in> set [i..num]" and eq: "name @ show_int x = name @ show_int y"
    have "0 \<le> x" "0 \<le> y" using x y assms by auto
    then have "nat x = nat y" using eq show_nat_inj by (auto simp: show_int_def)
    then show "x = y" using \<open>0 \<le> x\<close> \<open>0 \<le> y\<close> by simp
  qed
  then show ?thesis by (simp add: distinct_map o_def counted_def Let_def)
qed

section \<open>Interpreting a line\<close>

text \<open>The part every accepted line shares: it is scanned, its path is fit and splits in a directory and a
  name.\<close>

definition good_line :: "char \<Rightarrow> string \<Rightarrow> table_line \<Rightarrow> u32 \<Rightarrow> string \<Rightarrow> string \<Rightarrow> bool" where
  "good_line pre line l mode path name \<longleftrightarrow>
     scan_line line = Some l \<and> check_path pre (l_buf l) = None
     \<and> (case l_type l of None \<Rightarrow> False | Some t \<Rightarrow>
          (case type_bits t of None \<Rightarrow> False | Some bits \<Rightarrow> mode = l_mode l OR bits))
     \<and> separate_last (l_buf l) = Some (path, name)"

lemma interpret_good:
  assumes "good_line pre line l mode path name" and "get_path dt path = Ret (i, dt1)"
  shows "interpret_table_entry pre dt line =
     (if l_increment l \<noteq> 0 \<and> l_count l = 0 then Err Count_zero
      else if l_count l = 0 then
        (case hashtable_search (name_htbl (ph_elts dt1 ! i)) name of
           Some _ \<Rightarrow> Err Referred_twice
         | None \<Rightarrow>
           (case dt_insert (name_htbl (ph_elts dt1 ! i)) name
               \<lparr>nh_name = name, nh_mode = mode, nh_uid = l_uid l, nh_gid = l_gid l,
                nh_dev = makedev (l_major l) (l_minor l)\<rparr> of
              Ret h' \<Rightarrow> Ret (set_names dt1 i h') | Err e \<Rightarrow> Undef | Undef \<Rightarrow> Undef))
      else (case add_counted (name_htbl (ph_elts dt1 ! i)) l mode name (sint (l_start l)) (sint (l_start l + l_count l)) of
              Ret h' \<Rightarrow> Ret (set_names dt1 i h') | Err e \<Rightarrow> Err e | Undef \<Rightarrow> Undef))"
proof -
  obtain t bits where "scan_line line = Some l" "check_path pre (l_buf l) = None" "l_type l = Some t"
      "type_bits t = Some bits" "l_mode l OR bits = mode" "separate_last (l_buf l) = Some (path, name)"
    using assms(1) by (auto simp: good_line_def split: option.splits)
  with assms(2) show ?thesis by (simp add: interpret_table_entry_def Let_def)
qed

lemma find_in_dir:
  assumes "hashtable_search (path_htbl dt) path = Some i"
  shows "hashtable_search (name_htbl (ph_elts dt ! i)) = dev_lookup dt path"
  using assms by (simp add: fun_eq_iff dev_lookup_def devtbl_find_path_def devtbl_find_name_def)

lemma names_in_dir: "dev_inv dt \<Longrightarrow> i < length (ph_elts dt) \<Longrightarrow> names_ok (name_htbl (ph_elts dt ! i))"
  by (simp add: dev_inv_def)

lemma single_entry_added:
  assumes "dev_inv dt" and "dev_room 1 dt" and "good_line pre line l mode path name"
    and "l_count l = 0" and "l_increment l = 0"
  shows "if dev_lookup dt path name \<noteq> None then interpret_table_entry pre dt line = Err Referred_twice
    else \<exists>dt'. interpret_table_entry pre dt line = Ret dt' \<and> dev_inv dt'
      \<and> (\<forall>p n. dev_lookup dt' p n = (if p = path \<and> n = name
           then Some \<lparr>nh_name = name, nh_mode = mode, nh_uid = l_uid l, nh_gid = l_gid l,
                      nh_dev = makedev (l_major l) (l_minor l)\<rparr> else dev_lookup dt p n))"
proof -
  let ?nh = "\<lparr>nh_name = name, nh_mode = mode, nh_uid = l_uid l, nh_gid = l_gid l,
      nh_dev = makedev (l_major l) (l_minor l)\<rparr>"
  have room: "dev_room (Suc 0) dt" using assms(2) by simp
  obtain i dt1 where g: "get_path dt path = Ret (i, dt1)" "dev_inv dt1"
      "hashtable_search (path_htbl dt1) path = Some i" "dev_lookup dt1 = dev_lookup dt"
      "has_room (Suc 0) (name_htbl (ph_elts dt1 ! i))" "i < length (ph_elts dt1)"
    using assms(1) room by (rule get_path_ok)
  note look = find_in_dir [OF g(3), unfolded g(4)]
  note int = interpret_good [OF assms(3) g(1), unfolded look]
  show ?thesis
  proof (cases "dev_lookup dt path name")
    case (Some nh)
    then show ?thesis using int assms(4,5) by simp
  next
    case None
    have none: "hashtable_search (name_htbl (ph_elts dt1 ! i)) name = None" by (simp add: look None)
    obtain h where h: "dt_insert (name_htbl (ph_elts dt1 ! i)) name ?nh = Ret h" "names_ok h"
        "hashtable_search h = (dev_lookup dt path)(name \<mapsto> ?nh)"
      using name_map.put_look [OF names_in_dir [OF g(2,6)] g(5) none, of ?nh] look by auto
    have "interpret_table_entry pre dt line = Ret (set_names dt1 i h)"
      using int assms(4,5) None h(1) by simp
    with set_names_ok [OF g(2,3) h(2)] None show ?thesis by (auto simp: h(3) g(4))
  qed
qed

text \<open>C29. An accepted line without a count adds one name: unless the device table already has it, which
  is an error, the table afterwards returns the attributes of the line for that path and name and is
  unchanged for every other path and name, and its invariant holds.\<close>

theorem interpret_single_entry:
  assumes "dev_inv dt" and "dev_room 1 dt" and "good_line pre line l mode path name"
    and "l_count l = 0" and "l_increment l = 0"
  shows "if dev_lookup dt path name \<noteq> None then interpret_table_entry pre dt line = Err Referred_twice
    else \<exists>dt'. interpret_table_entry pre dt line = Ret dt' \<and> dev_inv dt'
      \<and> (\<forall>p n. dev_lookup dt' p n = (if p = path \<and> n = name
           then Some \<lparr>nh_name = name, nh_mode = mode, nh_uid = l_uid l, nh_gid = l_gid l,
                      nh_dev = makedev (l_major l) (l_minor l)\<rparr> else dev_lookup dt p n))"
  by (rule single_entry_added) (use assms in blast)+

text \<open>C30. An accepted line with a count adds the numbered names \<open>name<start>\<close> to \<open>name<start+count-1>\<close> of
  one directory, the minor number growing by the increment, and leaves every other entry alone. If one of
  those names is already in the table, the run has no defined outcome: the error path frees the directory
  element that the path table still refers to and the clean-up reads it again.\<close>

theorem interpret_counted_entry:
  assumes "dev_inv dt" and "dev_room (Suc (unat (l_count l))) dt" and "good_line pre line l mode path name"
    and "l_count l \<noteq> 0" and "unat (l_start l) + unat (l_count l) < 2 ^ 31"
  shows "let new = map (counted l mode name) [sint (l_start l)..sint (l_start l + l_count l) - 1] in
    if (\<forall>n \<in> fst ` set new. dev_lookup dt path n = None)
    then \<exists>dt'. interpret_table_entry pre dt line = Ret dt' \<and> dev_inv dt' \<and> length new = unat (l_count l)
      \<and> (\<forall>p n. dev_lookup dt' p n = (if p = path \<and> n \<in> fst ` set new then map_of new n else dev_lookup dt p n))
    else interpret_table_entry pre dt line = Undef"
proof -
  define new where "new = map (counted l mode name) [sint (l_start l)..sint (l_start l + l_count l) - 1]"
  have s: "sint (l_start l) = int (unat (l_start l))"
    "sint (l_start l + l_count l) = int (unat (l_start l) + unat (l_count l))"
    using assms(5) by (simp_all add: sint_unat unat_word_ariths)
  have len: "length new = unat (l_count l)" by (simp add: new_def s)
  obtain i dt1 where g: "get_path dt path = Ret (i, dt1)" "dev_inv dt1"
      "hashtable_search (path_htbl dt1) path = Some i" "dev_lookup dt1 = dev_lookup dt"
      "has_room (Suc (unat (l_count l))) (name_htbl (ph_elts dt1 ! i))" "i < length (ph_elts dt1)"
    using assms(1,2) by (rule get_path_ok)
  note look = find_in_dir [OF g(3), unfolded g(4)]
  have room: "has_room (length new) (name_htbl (ph_elts dt1 ! i))" using g(5) len by (simp add: has_room_def)
  have dist: "distinct (map fst new)" unfolding new_def by (rule counted_distinct) (simp add: s)
  note put = name_map.put_fresh_look [OF names_in_dir [OF g(2,6)] room, unfolded look]
  have int: "interpret_table_entry pre dt line =
      (case put_fresh hashtable_search dt_insert (name_htbl (ph_elts dt1 ! i)) new of
         Ret h' \<Rightarrow> Ret (set_names dt1 i h') | Err e \<Rightarrow> Err e | Undef \<Rightarrow> Undef)"
    using interpret_good [OF assms(3) g(1)] assms(4) by (simp add: add_counted_put_fresh new_def)
  show ?thesis
  proof (cases "\<forall>n \<in> fst ` set new. dev_lookup dt path n = None")
    case True
    then obtain h where h: "put_fresh hashtable_search dt_insert (name_htbl (ph_elts dt1 ! i)) new = Ret h"
        "names_ok h" "hashtable_search h = dev_lookup dt path ++ map_of new"
      using put dist by auto
    have "dev_lookup (set_names dt1 i h) p n =
        (if p = path \<and> n \<in> fst ` set new then map_of new n else dev_lookup dt p n)" for p n
      using set_names_ok(2) [OF g(2,3) h(2), of p n] g(4) h(3) map_of_eq_None_iff [of new n]
      by (auto simp: map_add_def split: option.splits)
    then show ?thesis
      using True int h(1) set_names_ok(1) [OF g(2,3) h(2)] len by (simp add: new_def Let_def)
  next
    case False
    then show ?thesis using put int by (auto simp: new_def [symmetric] Let_def)
  qed
qed

lemmas line_eval = good_line_def scan_line_def scan_uint_def strtoul_def isspace_def is_digit_def
  digit_val_def in_range_def of_char_bounds check_path_def separate_last_def type_bits_def Let_def

definition demo_line :: table_line where
  "demo_line = \<lparr>l_buf = ''/dev/null'', l_type = Some CHR ''c'', l_mode = 0x1B6, l_uid = 0, l_gid = 0,
     l_major = 1, l_minor = 3, l_start = 0, l_increment = 0, l_count = 0\<rparr>"

lemma demo_good_line:
  "good_line CHR ''x'' ''/dev/null c 666 0 0 1 3'' demo_line (0x1B6 OR S_IFCHR) ''/dev'' ''null''"
  by (simp add: demo_line_def line_eval)

lemma empty_room: "n < 2 ^ 32 \<Longrightarrow> dev_room n empty_devtable"
  by (simp add: dev_room_def has_room_def empty_devtable_def new_table_ok)

theorem interpret_single_entry_witness:
  "\<exists>dt'. interpret_table_entry CHR ''x'' empty_devtable ''/dev/null c 666 0 0 1 3'' = Ret dt'
     \<and> map_option nh_dev (dev_lookup dt' ''/dev'' ''null'') = Some (makedev 1 3)"
  using interpret_single_entry [OF empty_devtable_inv(1) empty_room demo_good_line]
  by (auto simp: empty_devtable_inv(2) demo_line_def)

definition demo_counted :: table_line where
  "demo_counted = \<lparr>l_buf = ''/dev/hda'', l_type = Some CHR ''b'', l_mode = 0x1A0, l_uid = 0, l_gid = 0,
     l_major = 3, l_minor = 1, l_start = 1, l_increment = 1, l_count = 2\<rparr>"

lemma demo_good_counted:
  "good_line CHR ''x'' ''/dev/hda b 640 0 0 3 1 1 1 2'' demo_counted (0x1A0 OR S_IFBLK) ''/dev'' ''hda''"
  by (simp add: demo_counted_def line_eval)

theorem interpret_counted_entry_witness:
  "\<exists>dt'. interpret_table_entry CHR ''x'' empty_devtable ''/dev/hda b 640 0 0 3 1 1 1 2'' = Ret dt'
     \<and> map_option nh_dev (dev_lookup dt' ''/dev'' ''hda2'') = Some (makedev 3 2)"
proof -
  have names: "[sint (l_start demo_counted)..sint (l_start demo_counted + l_count demo_counted) - 1] = [1, 2]"
    by (simp add: demo_counted_def upto.simps)
  have "show_int 1 = ''1''" "show_int 2 = ''2''" by code_simp+
  then have two: "fst (counted demo_counted m ''hda'' 1) = ''hda1''" "fst (counted demo_counted m ''hda'' 2) = ''hda2''"
      "nh_dev (snd (counted demo_counted m ''hda'' 2)) = makedev 3 2"
      "counted demo_counted m ''hda'' 1 = (''hda1'', snd (counted demo_counted m ''hda'' 1))"
      "counted demo_counted m ''hda'' 2 = (''hda2'', snd (counted demo_counted m ''hda'' 2))" for m
    by (simp_all add: counted_def demo_counted_def Let_def)
  have "l_count demo_counted \<noteq> 0" "unat (l_start demo_counted) + unat (l_count demo_counted) < 2 ^ 31"
      "Suc (unat (l_count demo_counted)) < 2 ^ 32"
    by (simp_all add: demo_counted_def)
  from interpret_counted_entry [OF empty_devtable_inv(1) empty_room [OF this(3)] demo_good_counted this(1,2)]
  obtain dt' where "interpret_table_entry CHR ''x'' empty_devtable ''/dev/hda b 640 0 0 3 1 1 1 2'' = Ret dt'"
      "dev_lookup dt' ''/dev'' ''hda2'' = Some (snd (counted demo_counted (0x1A0 OR S_IFBLK) ''hda'' 2))"
    using two(4,5) [of "0x1A0 OR S_IFBLK"]
    by (cases "counted demo_counted (0x1A0 OR S_IFBLK) ''hda'' 1"; cases "counted demo_counted (0x1A0 OR S_IFBLK) ''hda'' 2")
      (auto simp: empty_devtable_inv(2) names Let_def)
  then show ?thesis by (simp add: two(3))
qed

section \<open>Paths\<close>

text \<open>A path that passes the checks and has a slash is split into a directory and a proper name: the
  name has no slash and is not empty, \<open>.\<close> or \<open>..\<close>, and directory, slash and name make up the path again,
  where the directory is \<open>/\<close> itself for a name in the root.\<close>

lemma accepted_path_splits:
  assumes "check_path pre buf = None" and "CHR ''/'' \<in> set buf"
  shows "\<exists>path name. separate_last buf = Some (path, name) \<and> CHR ''/'' \<notin> set name
    \<and> name \<notin> {[], ''.'', ''..''}
    \<and> (if path = ''/'' then buf = ''/'' @ name else buf = path @ ''/'' @ name)"
proof -
  define name where "name = rev (takeWhile (\<lambda>c. c \<noteq> CHR ''/'') (rev buf))"
  obtain pre' where buf: "buf = pre' @ CHR ''/'' # name"
  proof -
    have "dropWhile (\<lambda>c. c \<noteq> CHR ''/'') (rev buf) \<noteq> []" using assms(2) by (auto simp: dropWhile_eq_Nil_conv)
    then obtain ds where "dropWhile (\<lambda>c. c \<noteq> CHR ''/'') (rev buf) = CHR ''/'' # ds"
      using hd_dropWhile [of "\<lambda>c. c \<noteq> CHR ''/''" "rev buf"] by (metis list.exhaust_sel)
    then have "rev buf = takeWhile (\<lambda>c. c \<noteq> CHR ''/'') (rev buf) @ CHR ''/'' # ds"
      by (metis takeWhile_dropWhile_id)
    then have "buf = rev ds @ CHR ''/'' # name" unfolding name_def
      by (metis append.assoc append_Cons append_Nil rev.simps(2) rev_append rev_rev_ident)
    then show thesis by (rule that)
  qed
  have ns: "CHR ''/'' \<notin> set name" by (auto simp: name_def dest: set_takeWhileD)
  have len: "length (takeWhile (\<lambda>c. c \<noteq> CHR ''/'') (rev buf)) = length name" by (simp add: name_def)
  have sep: "separate_last buf = Some (if pre' = [] then ''/'' else pre', name)"
    using assms(2) by (cases pre') (simp_all add: separate_last_def Let_def len, simp_all add: buf)
  have one: "length buf \<noteq> 1" and last: "buf ! (length buf - 1) \<noteq> CHR ''/''"
    and dots: "drop (length buf - 2) buf \<noteq> ''/.''" "length buf \<noteq> 2 \<longrightarrow> drop (length buf - 3) buf \<noteq> ''/..''"
    and root: "\<not> strstr buf ''//''"
    using assms(1) by (auto simp: check_path_def Let_def split: if_splits)
  have "name \<noteq> []" using one last buf by (auto simp: nth_append)
  moreover have "name \<noteq> ''.''" using dots(1) buf by auto
  moreover have "name \<noteq> ''..''" using dots(2) buf by auto
  moreover have "pre' \<noteq> ''/''" using root buf by auto
  ultimately show ?thesis using sep ns buf by auto
qed

text \<open>C31. Overriding the attributes of a file that the device table names: a character device, block device or FIFO of the host
  is refused, and of the other files exactly those whose type the table would change; otherwise the file gets the mode and
  owner of the table entry and keeps its type, and the entry is gone and no other one is.\<close>

theorem override_attributes_correct:
  assumes "dev_inv dt" and "devtbl_find_path (Some dt) path = Some ph"
  shows "if st_mode st AND S_IFMT \<in> {0x2000, 0x6000, 0x1000} then override_attributes (Some dt) st ph nh = Err Both_exist
    else if st_mode st AND S_IFMT \<noteq> nh_mode nh AND S_IFMT then override_attributes (Some dt) st ph nh = Err Different_type
    else \<exists>d. override_attributes (Some dt) st ph nh = Ret (Some d, \<lparr>st_mode = nh_mode nh, st_uid = nh_uid nh, st_gid = nh_gid nh\<rparr>)
      \<and> nh_mode nh AND S_IFMT = st_mode st AND S_IFMT \<and> dev_inv d
      \<and> (\<forall>p n. dev_lookup d p n = (if p = path \<and> n = nh_name nh then None else dev_lookup dt p n))"
proof -
  let ?h = "name_htbl (ph_elts dt ! ph)"
  have find: "hashtable_search (path_htbl dt) path = Some ph" using assms(2) by (simp add: devtbl_find_path_def)
  then have ph: "ph < length (ph_elts dt)" using assms(1) by (auto simp: dev_inv_def)
  have ok: "names_ok ?h" by (rule names_in_dir [OF assms(1) ph])
  obtain r h' where rem: "hashtable_remove ?h (nh_name nh) = (r, h')" by fastforce
  have ops: "key_ops (h_hashfn ?h) (h_eqfn ?h)" using ok dev_keys.key_ops_axioms by (simp add: names_ok_def)
  have r: "names_ok h'" "hashtable_search h' k' = (if k' = nh_name nh then None else dev_lookup dt path k')" for k'
    using remove_entry [OF ops _ _ rem] ok find_in_dir [OF find] by (auto simp: names_ok_def is_equivalent_def)
  show ?thesis
    using set_names_ok [OF assms(1) find r(1)] rem r(2)
    by (auto simp: override_attributes_def S_IFCHR_def S_IFBLK_def S_IFIFO_def)
qed

theorem override_attributes_correct_witness:
  "\<exists>dt ph nh. dev_inv dt \<and> devtbl_find_path (Some dt) ''/dev'' = Some ph
     \<and> override_attributes (Some dt) \<lparr>st_mode = S_IFCHR, st_uid = 0, st_gid = 0\<rparr> ph nh = Err Both_exist
     \<and> override_attributes (Some dt) \<lparr>st_mode = S_IFREG, st_uid = 0, st_gid = 0\<rparr> ph nh = Err Different_type
     \<and> (\<exists>d. override_attributes (Some dt) \<lparr>st_mode = S_IFDIR OR 7, st_uid = 0, st_gid = 0\<rparr> ph nh = Ret (Some d, \<lparr>st_mode = S_IFDIR, st_uid = 5, st_gid = 6\<rparr>)
          \<and> dev_lookup d ''/dev'' ''null'' = None)"
proof -
  obtain dt where dt: "dev_inv dt" "dev_lookup dt ''/dev'' ''null'' \<noteq> None"
    using single_entry_added [OF empty_devtable_inv(1) empty_room demo_good_line]
    by (auto simp: empty_devtable_inv(2) demo_line_def)
  then obtain ph where ph: "devtbl_find_path (Some dt) ''/dev'' = Some ph"
    by (auto simp: dev_lookup_def split: option.splits)
  let ?nh = "\<lparr>nh_name = ''null'', nh_mode = S_IFDIR, nh_uid = 5, nh_gid = 6, nh_dev = 0\<rparr>"
  note t = override_attributes_correct [OF dt(1) ph, of "\<lparr>st_mode = _, st_uid = 0, st_gid = 0\<rparr>" ?nh]
  show ?thesis
    by (rule exI [of _ dt], rule exI [of _ ph], rule exI [of _ ?nh])
      (use t [of S_IFCHR] t [of S_IFREG] t [of "S_IFDIR OR 7"] dt(1) ph in \<open>auto simp: S_IFMT_def S_IFREG_def S_IFCHR_def S_IFDIR_def\<close>)
qed

end
