(* ===== verification/UbifsFiles.thy ===== *)
theory UbifsFiles
  imports UbifsIndex UbifsCompr DevTable
begin

text \<open>
  The files and directories of \<open>mkfs.ubifs\<close> (\<open>mkfs.ubifs/mkfs.ubifs.c\<close>, \<open>add_inode_with_data\<close> to \<open>write_data\<close>): inodes,
  directory entries and data nodes, hard links, and the walk over a directory of the host together with the device
  table. The host is an argument with the results of its system calls; memory is assumed available. The recursion
  over directories has a bound, which stands for the stack; every bound that the tree of the host respects is enough.
\<close>

section \<open>Constants\<close>

definition UBIFS_ROOT_INO :: u64 where "UBIFS_ROOT_INO = 1"
definition UBIFS_FIRST_INO :: u64 where "UBIFS_FIRST_INO = 64"
definition UBIFS_MAX_INO_DATA :: nat where "UBIFS_MAX_INO_DATA = UBIFS_BLOCK_SIZE"
definition NODE_BUFFER_SIZE :: nat where "NODE_BUFFER_SIZE = UBIFS_DATA_NODE_SZ + UBIFS_BLOCK_SIZE * WORST_COMPR_FACTOR"
definition HASH_TABLE_SIZE :: nat where "HASH_TABLE_SIZE = 10099"

definition UBIFS_ITYPE_REG :: u8 where "UBIFS_ITYPE_REG = 0"
definition UBIFS_ITYPE_DIR :: u8 where "UBIFS_ITYPE_DIR = 1"
definition UBIFS_ITYPE_LNK :: u8 where "UBIFS_ITYPE_LNK = 2"
definition UBIFS_ITYPE_BLK :: u8 where "UBIFS_ITYPE_BLK = 3"
definition UBIFS_ITYPE_CHR :: u8 where "UBIFS_ITYPE_CHR = 4"
definition UBIFS_ITYPE_FIFO :: u8 where "UBIFS_ITYPE_FIFO = 5"
definition UBIFS_ITYPE_SOCK :: u8 where "UBIFS_ITYPE_SOCK = 6"

definition UBIFS_COMPR_FL :: u32 where "UBIFS_COMPR_FL = 0x01"
definition UBIFS_SYNC_FL :: u32 where "UBIFS_SYNC_FL = 0x02"
definition UBIFS_IMMUTABLE_FL :: u32 where "UBIFS_IMMUTABLE_FL = 0x04"
definition UBIFS_APPEND_FL :: u32 where "UBIFS_APPEND_FL = 0x08"
definition UBIFS_DIRSYNC_FL :: u32 where "UBIFS_DIRSYNC_FL = 0x10"

text \<open>The flags and file types of the host.\<close>

definition FS_COMPR_FL :: u32 where "FS_COMPR_FL = 0x04"
definition FS_SYNC_FL :: u32 where "FS_SYNC_FL = 0x08"
definition FS_IMMUTABLE_FL :: u32 where "FS_IMMUTABLE_FL = 0x10"
definition FS_APPEND_FL :: u32 where "FS_APPEND_FL = 0x20"
definition FS_DIRSYNC_FL :: u32 where "FS_DIRSYNC_FL = 0x10000"
definition S_IFLNK :: u32 where "S_IFLNK = 0xA000"
definition S_IFSOCK :: u32 where "S_IFSOCK = 0xC000"

section \<open>State\<close>

record stat = file_attr +
  st_dev :: u64
  st_ino :: u64
  st_nlink :: u32
  st_rdev :: u64
  st_size :: nat
  st_atime :: u64
  st_mtime :: u64
  st_ctime :: u64

definition is_type :: "u32 \<Rightarrow> stat \<Rightarrow> bool" where
  "is_type t st \<longleftrightarrow> st_mode st AND S_IFMT = t"

text \<open>A directory of the host has the names that \<open>readdir\<close> returns until its end or its first error. The content of a
  file is read in pieces: each number bounds one \<open>read\<close>, \<open>None\<close> is a failing one, behind the list they are complete.\<close>

record host =
  h_opendir :: "string \<Rightarrow> string list option"
  h_closedir :: "string \<Rightarrow> bool"
  h_dirfd :: "string \<Rightarrow> bool"
  h_lstat :: "string \<Rightarrow> stat option"
  h_open :: "string \<Rightarrow> bool"
  h_close :: "string \<Rightarrow> bool"
  h_getflags :: "string \<Rightarrow> u32 option"
  h_file :: "string \<Rightarrow> bytes \<times> nat option list"
  h_readlink :: "string \<Rightarrow> bytes option"

record mkfs_env =
  me_host :: host
  me_wr :: "nat \<Rightarrow> bool"
  me_cs :: compressors
  me_key_hash :: "bytes \<Rightarrow> u32"
  me_default_compr :: nat
  me_squash_owner :: bool
  me_root :: "string option"
  me_root_stat :: "stat option"
  me_time :: u64

record inum_mapping =
  im_dev :: u64
  im_inum :: u64
  im_use_inum :: u64
  im_use_nlink :: u32
  im_path_name :: string
  im_st :: stat

record fstree =
  ft_mk :: mkfs
  ft_highest_inum :: u64
  ft_creat_sqnum :: u64
  ft_hash_table :: "inum_mapping list list"
  ft_dt :: "devtable option"
  ft_root_st :: stat
  ft_errcnt :: nat

datatype walk_error = Write_failed | Open_failed | Read_failed | Close_failed | Size_changed | Readlink_failed | Symlink_too_long
  | Unknown_type | Opendir_failed | Closedir_failed | Dirfd_failed | Lstat_failed | Override_failed | Regular_in_table | Bad_root

section \<open>Nodes\<close>

definition ft_add_node :: "mkfs_env \<Rightarrow> ubifs_key \<Rightarrow> bytes option \<Rightarrow> u8 \<Rightarrow> bytes \<Rightarrow> fstree \<Rightarrow> (walk_error, fstree) outcome" where
  "ft_add_node E key name ty body st =
     (case add_node (me_wr E) key name ty body (ft_mk st) of
        Ret mk \<Rightarrow> Ret (st\<lparr>ft_mk := mk\<rparr>) | Err _ \<Rightarrow> Err Write_failed | Undef \<Rightarrow> Undef)"

text \<open>The fields of an inode in the order of \<open>struct ubifs_ino_node\<close>; those that stay zero are written out.\<close>

definition ino_body :: "ubifs_key \<Rightarrow> u64 \<Rightarrow> stat \<Rightarrow> u32 \<Rightarrow> nat \<Rightarrow> bytes \<Rightarrow> bytes" where
  "ino_body key creat st use_flags compr data =
     key_write key @ le64 creat @ le64 (of_nat (st_size st)) @ le64 (st_atime st) @ le64 (st_ctime st) @ le64 (st_mtime st)
     @ le32 0 @ le32 0 @ le32 0 @ le32 (st_nlink st) @ le32 (st_uid st) @ le32 (st_gid st) @ le32 (st_mode st) @ le32 use_flags
     @ le32 (of_nat (length data)) @ memset 0 16 @ le16 (of_nat compr) @ memset 0 26 @ data"

definition use_flags :: "nat \<Rightarrow> u32 \<Rightarrow> stat \<Rightarrow> u32" where
  "use_flags compr flags st =
     (if compr \<noteq> MKFS_UBIFS_COMPR_NONE then UBIFS_COMPR_FL else 0)
     OR (if flags AND FS_COMPR_FL \<noteq> 0 then UBIFS_COMPR_FL else 0)
     OR (if flags AND FS_SYNC_FL \<noteq> 0 then UBIFS_SYNC_FL else 0)
     OR (if flags AND FS_IMMUTABLE_FL \<noteq> 0 then UBIFS_IMMUTABLE_FL else 0)
     OR (if flags AND FS_APPEND_FL \<noteq> 0 then UBIFS_APPEND_FL else 0)
     OR (if flags AND FS_DIRSYNC_FL \<noteq> 0 \<and> is_type S_IFDIR st then UBIFS_DIRSYNC_FL else 0)"

definition add_inode_with_data :: "mkfs_env \<Rightarrow> stat \<Rightarrow> u64 \<Rightarrow> bytes \<Rightarrow> u32 \<Rightarrow> fstree \<Rightarrow> (walk_error, fstree) outcome" where
  "add_inode_with_data E s inum data flags st =
     (let key = ino_key_init inum; compr = me_default_compr E in
      if UBIFS_INO_NODE_SZ + length data > NODE_BUFFER_SIZE then Undef
      else ft_add_node E key None UBIFS_INO_NODE (ino_body key (ft_creat_sqnum st) s (use_flags compr flags s) compr data) st)"

definition add_inode :: "mkfs_env \<Rightarrow> stat \<Rightarrow> u64 \<Rightarrow> u32 \<Rightarrow> fstree \<Rightarrow> (walk_error, fstree) outcome" where
  "add_inode E s inum flags st = add_inode_with_data E s inum [] flags st"

text \<open>\<open>dir\<close> is the open directory, if it exists on the host.\<close>

definition add_dir_inode :: "mkfs_env \<Rightarrow> string option \<Rightarrow> u64 \<Rightarrow> nat \<Rightarrow> u32 \<Rightarrow> stat \<Rightarrow> fstree \<Rightarrow> (walk_error, fstree) outcome" where
  "add_dir_inode E dir inum sz nlink s st =
     (let s = s\<lparr>st_size := sz, st_nlink := nlink\<rparr> in
      case dir of
        None \<Rightarrow> add_inode E s inum 0 st
      | Some d \<Rightarrow>
          if \<not> h_dirfd (me_host E) d then Err Dirfd_failed
          else add_inode E s inum (case h_getflags (me_host E) d of None \<Rightarrow> 0 | Some f \<Rightarrow> f) st)"

definition dev_major :: "u64 \<Rightarrow> u32" where
  "dev_major dev = ucast (drop_bit 8 dev AND 0xFFF) OR (ucast (drop_bit 32 dev) AND NOT 0xFFF)"

definition dev_minor :: "u64 \<Rightarrow> u32" where
  "dev_minor dev = ucast (dev AND 0xFF) OR (ucast (drop_bit 12 dev) AND NOT 0xFF)"

definition add_dev_inode :: "mkfs_env \<Rightarrow> stat \<Rightarrow> u64 \<Rightarrow> u32 \<Rightarrow> fstree \<Rightarrow> (walk_error, fstree) outcome" where
  "add_dev_inode E s inum flags st =
     add_inode_with_data E s inum (le64 (makedev (dev_major (st_rdev s)) (dev_minor (st_rdev s)))) flags st"

text \<open>\<open>readlink\<close> cuts the target at the size of the buffer.\<close>

definition add_symlink_inode :: "mkfs_env \<Rightarrow> string \<Rightarrow> stat \<Rightarrow> u64 \<Rightarrow> u32 \<Rightarrow> fstree \<Rightarrow> (walk_error, fstree) outcome" where
  "add_symlink_inode E path_name s inum flags st =
     (case map_option (take (UBIFS_MAX_INO_DATA + 1)) (h_readlink (me_host E) path_name) of
        None \<Rightarrow> Err Readlink_failed
      | Some buf \<Rightarrow>
          if buf = [] then Err Readlink_failed
          else if length buf > UBIFS_MAX_INO_DATA then Err Symlink_too_long
          else add_inode_with_data E s inum buf flags st)"

definition c_bytes :: "string \<Rightarrow> bytes" where
  "c_bytes s = map of_char s"

definition dent_body :: "ubifs_key \<Rightarrow> u64 \<Rightarrow> u8 \<Rightarrow> bytes \<Rightarrow> bytes" where
  "dent_body key inum type name =
     key_write key @ le64 inum @ [0, type] @ le16 (of_nat (length name)) @ memset 0 4 @ name @ [0]"

definition add_dent_node :: "mkfs_env \<Rightarrow> u64 \<Rightarrow> string \<Rightarrow> u64 \<Rightarrow> u8 \<Rightarrow> fstree \<Rightarrow> (walk_error, fstree) outcome" where
  "add_dent_node E dir_inum name inum type st =
     (let dname = c_bytes name; key = dent_key_init (me_key_hash E) dir_inum dname in
      if UBIFS_DENT_NODE_SZ + length dname + 1 > NODE_BUFFER_SIZE then Undef
      else ft_add_node E key (Some dname) UBIFS_DENT_NODE (dent_body key inum type dname) st)"

section \<open>Files\<close>

definition all_zero :: "bytes \<Rightarrow> bool" where
  "all_zero buf \<longleftrightarrow> list_all (\<lambda>b. b = 0) buf"

definition sys_read :: "nat \<Rightarrow> bytes \<times> nat option list \<Rightarrow> (bytes \<times> bytes \<times> nat option list) option" where
  "sys_read n rd =
     (case rd of
        (rest, []) \<Rightarrow> Some (take n rest, drop n rest, [])
      | (rest, None # cuts) \<Rightarrow> None
      | (rest, Some k # cuts) \<Rightarrow> Some (take (min n (k + 1)) rest, drop (min n (k + 1)) rest, cuts))"

text \<open>One block: \<open>read\<close> is called until it returns nothing or the block is full. The flag is \<open>ret != 0\<close>.\<close>

function read_block :: "bytes \<Rightarrow> bytes \<times> nat option list \<Rightarrow> (bytes \<times> bool \<times> bytes \<times> nat option list) option" where
  "read_block acc rd =
     (case sys_read (UBIFS_BLOCK_SIZE - length acc) rd of
        None \<Rightarrow> None
      | Some (bs, rd) \<Rightarrow>
          if bs \<noteq> [] \<and> length (acc @ bs) \<noteq> UBIFS_BLOCK_SIZE then read_block (acc @ bs) rd else Some (acc @ bs, bs \<noteq> [], rd))"
  by pat_completeness auto
termination
proof (relation "measure (\<lambda>(acc, rd). UBIFS_BLOCK_SIZE - length acc)", goal_cases)
  case (2 acc rd x bs rd')
  then have "length bs \<le> UBIFS_BLOCK_SIZE - length acc"
    by (auto simp: sys_read_def split: prod.splits list.splits option.splits)
  then show ?case using 2 by (cases bs) auto
qed simp

declare read_block.simps [simp del]

definition data_body :: "ubifs_key \<Rightarrow> nat \<Rightarrow> nat \<Rightarrow> bytes \<Rightarrow> bytes" where
  "data_body key sz compr_type data = key_write key @ le32 (of_nat sz) @ le16 (of_nat compr_type) @ memset 0 2 @ data"

definition add_data_node :: "mkfs_env \<Rightarrow> u64 \<Rightarrow> u32 \<Rightarrow> u32 \<Rightarrow> bytes \<Rightarrow> fstree \<Rightarrow> (walk_error, fstree) outcome" where
  "add_data_node E inum block_no flags buf st =
     (let key = data_key_init inum block_no; out_len = NODE_BUFFER_SIZE - UBIFS_DATA_NODE_SZ;
          use_compr = (if me_default_compr E = MKFS_UBIFS_COMPR_NONE \<and> flags AND FS_COMPR_FL \<noteq> 0
                       then MKFS_UBIFS_COMPR_LZO else me_default_compr E)
      in case compress_data (me_cs E) buf out_len use_compr (ft_errcnt st) of
           Ret (compr_type, out, errcnt) \<Rightarrow>
             ft_add_node E key None UBIFS_DATA_NODE (data_body key (length buf) compr_type out) (st\<lparr>ft_errcnt := errcnt\<rparr>)
         | Err _ \<Rightarrow> Undef | Undef \<Rightarrow> Undef)"

lemma sys_read_size:
  "sys_read n rd = Some (bs, rd') \<Longrightarrow> length bs \<le> n \<and> fst rd = bs @ fst rd'"
  by (auto simp: sys_read_def split: prod.splits list.splits option.splits)

lemma read_block_split:
  "read_block acc rd = Some (buf, again, rd') \<Longrightarrow> acc @ fst rd = buf @ fst rd'"
proof (induction acc rd rule: read_block.induct)
  case (1 acc rd)
  obtain bs rd1 where r: "sys_read (UBIFS_BLOCK_SIZE - length acc) rd = Some (bs, rd1)"
    using 1(2) by (auto simp: read_block.simps [of acc rd] split: option.splits)
  note s = sys_read_size [OF r]
  show ?case
  proof (cases "bs \<noteq> [] \<and> length (acc @ bs) \<noteq> UBIFS_BLOCK_SIZE")
    case True
    then have "read_block (acc @ bs) rd1 = Some (buf, again, rd')" using 1(2) r by (simp add: read_block.simps [of acc rd])
    then show ?thesis using 1(1) [OF r refl True] s by simp
  qed (use 1(2) r s in \<open>auto simp: read_block.simps [of acc rd]\<close>)
qed

text \<open>The blocks of a file; a block of zeros becomes a hole.\<close>

function file_blocks :: "mkfs_env \<Rightarrow> u64 \<Rightarrow> u32 \<Rightarrow> bytes \<times> nat option list \<Rightarrow> u32 \<Rightarrow> nat \<Rightarrow> fstree \<Rightarrow> (walk_error, nat \<times> fstree) outcome" where
  "file_blocks E inum flags rd block_no file_size st =
     (case read_block [] rd of
        None \<Rightarrow> Err Read_failed
      | Some (buf, again, rd') \<Rightarrow>
          if buf = [] then Ret (file_size, st)
          else
            let file_size = file_size + length buf in
            if all_zero buf then
              if again then file_blocks E inum flags rd' (block_no + 1) file_size st else Ret (file_size, st)
            else
              case add_data_node E inum block_no flags buf st of
                Ret st \<Rightarrow> if again then file_blocks E inum flags rd' (block_no + 1) file_size st else Ret (file_size, st)
              | Err e \<Rightarrow> Err e | Undef \<Rightarrow> Undef)"
  by pat_completeness auto
termination
  by (relation "measure (\<lambda>(E, inum, flags, rd, block_no, file_size, st). length (fst rd))")
    (auto dest!: read_block_split [of "[]"])

declare file_blocks.simps [simp del]

definition add_file :: "mkfs_env \<Rightarrow> string \<Rightarrow> stat \<Rightarrow> u64 \<Rightarrow> u32 \<Rightarrow> fstree \<Rightarrow> (walk_error, fstree) outcome" where
  "add_file E path_name s inum flags st =
     (if \<not> h_open (me_host E) path_name then Err Open_failed
      else case file_blocks E inum flags (h_file (me_host E) path_name) 0 0 st of
          Ret (file_size, st) \<Rightarrow>
            if \<not> h_close (me_host E) path_name then Err Close_failed
            else if file_size \<noteq> st_size s then Err Size_changed
            else add_inode E s inum flags st
        | Err e \<Rightarrow> Err e | Undef \<Rightarrow> Undef)"

section \<open>Hard links\<close>

fun find_mapping :: "u64 \<Rightarrow> u64 \<Rightarrow> inum_mapping list \<Rightarrow> nat option" where
  "find_mapping dev inum [] = None"
| "find_mapping dev inum (im # ims) = (if im_dev im = dev \<and> im_inum im = inum then Some 0 else map_option Suc (find_mapping dev inum ims))"

text \<open>The place of the mapping, which is put in front of its list when it is new; its other fields are set by the caller.\<close>

definition lookup_inum_mapping :: "u64 \<Rightarrow> u64 \<Rightarrow> inum_mapping list list \<Rightarrow> (nat \<times> nat) \<times> inum_mapping list list" where
  "lookup_inum_mapping dev inum ht =
     (let k = unat inum mod HASH_TABLE_SIZE in
      case find_mapping dev inum (ht ! k) of
        Some j \<Rightarrow> ((k, j), ht)
      | None \<Rightarrow> ((k, 0), ht[k := \<lparr>im_dev = dev, im_inum = inum, im_use_inum = 0, im_use_nlink = 0, im_path_name = [],
                    im_st = \<lparr>st_mode = 0, st_uid = 0, st_gid = 0, st_dev = 0, st_ino = 0, st_nlink = 0, st_rdev = 0, st_size = 0,
                      st_atime = 0, st_mtime = 0, st_ctime = 0\<rparr>\<rparr> # ht ! k]))"

text \<open>Counting a link: the inode number of the file and whether the given one stays unused.\<close>

definition count_link :: "string \<Rightarrow> u64 \<Rightarrow> stat \<Rightarrow> inum_mapping list list \<Rightarrow> u64 \<times> bool \<times> inum_mapping list list" where
  "count_link path_name inum s ht =
     (let ((k, j), ht) = lookup_inum_mapping (st_dev s) (st_ino s) ht; im = ht ! k ! j;
          put = (\<lambda>im. ht[k := (ht ! k)[j := im\<lparr>im_st := s\<rparr>]])
      in if im_use_nlink im = 0
         then (inum, False, put (im\<lparr>im_use_inum := inum, im_use_nlink := 1, im_path_name := path_name\<rparr>))
         else (im_use_inum im, True, put (im\<lparr>im_use_nlink := im_use_nlink im + 1\<rparr>)))"

section \<open>Files that are not directories\<close>

definition inode_type :: "stat \<Rightarrow> u8 option" where
  "inode_type s =
     (if is_type S_IFREG s then Some UBIFS_ITYPE_REG else if is_type S_IFCHR s then Some UBIFS_ITYPE_CHR
      else if is_type S_IFBLK s then Some UBIFS_ITYPE_BLK else if is_type S_IFLNK s then Some UBIFS_ITYPE_LNK
      else if is_type S_IFSOCK s then Some UBIFS_ITYPE_SOCK else if is_type S_IFIFO s then Some UBIFS_ITYPE_FIFO else None)"

text \<open>The flags of a regular file.\<close>

definition file_flags :: "mkfs_env \<Rightarrow> string \<Rightarrow> stat \<Rightarrow> (walk_error, u32) outcome" where
  "file_flags E path_name s =
     (if \<not> is_type S_IFREG s then Ret 0
      else if \<not> h_open (me_host E) path_name then Err Open_failed
      else if \<not> h_close (me_host E) path_name then Err Close_failed
      else Ret (case h_getflags (me_host E) path_name of None \<Rightarrow> 0 | Some f \<Rightarrow> f))"

definition add_content :: "mkfs_env \<Rightarrow> string \<Rightarrow> u64 \<Rightarrow> stat \<Rightarrow> u32 \<Rightarrow> fstree \<Rightarrow> (walk_error, fstree) outcome" where
  "add_content E path_name inum s flags st =
     (if is_type S_IFREG s then add_file E path_name s inum flags st
      else if is_type S_IFCHR s then add_dev_inode E s inum flags st
      else if is_type S_IFBLK s then add_dev_inode E s inum flags st
      else if is_type S_IFLNK s then add_symlink_inode E path_name s inum flags st
      else if is_type S_IFSOCK s then add_inode E s inum flags st
      else if is_type S_IFIFO s then add_inode E s inum flags st
      else Err Unknown_type)"

definition ft_next_sqnum :: "fstree \<Rightarrow> fstree" where
  "ft_next_sqnum st = st\<lparr>ft_mk := next_sqnum (ft_mk st)\<rparr>"

definition add_non_dir :: "mkfs_env \<Rightarrow> string \<Rightarrow> u64 \<Rightarrow> u32 \<Rightarrow> stat \<Rightarrow> fstree \<Rightarrow> (walk_error, u64 \<times> u8 \<times> fstree) outcome" where
  "add_non_dir E path_name inum nlink s st =
     (case file_flags E path_name s of
        Ret flags \<Rightarrow>
          (case inode_type s of
             None \<Rightarrow> Err Unknown_type
           | Some type \<Rightarrow>
               if nlink = 0 \<and> st_nlink s > 1 then
                 let (inum, unused, ht) = count_link path_name inum s (ft_hash_table st) in
                 Ret (inum, type, st\<lparr>ft_hash_table := ht,
                        ft_highest_inum := (if unused then ft_highest_inum st - 1 else ft_highest_inum st)\<rparr>)
               else
                 let s = s\<lparr>st_nlink := (if nlink \<noteq> 0 then nlink else 1)\<rparr>; st = ft_next_sqnum st;
                     st = st\<lparr>ft_creat_sqnum := mk_max_sqnum (ft_mk st)\<rparr> in
                 case add_content E path_name inum s flags st of
                   Ret st \<Rightarrow> Ret (inum, type, st) | Err e \<Rightarrow> Err e | Undef \<Rightarrow> Undef)
      | Err e \<Rightarrow> Err e | Undef \<Rightarrow> Undef)"

section \<open>Directories\<close>

definition make_path :: "string \<Rightarrow> string \<Rightarrow> string" where
  "make_path dir name = dir @ (if dir \<noteq> [] \<and> last dir = CHR ''/'' then [] else ''/'') @ name"

text \<open>The recursive call as an argument: path, inode number, attributes, and whether the directory is only in the device table.\<close>

type_synonym dir_walk = "string \<Rightarrow> u64 \<Rightarrow> stat \<Rightarrow> bool \<Rightarrow> fstree \<Rightarrow> (walk_error, fstree) outcome"

text \<open>One entry with its attributes: its inode, then its name; the size and the link count of the directory grow.\<close>

definition add_entry :: "dir_walk \<Rightarrow> mkfs_env \<Rightarrow> string \<Rightarrow> u64 \<Rightarrow> string \<Rightarrow> stat \<Rightarrow> bool \<Rightarrow> nat \<times> u32 \<Rightarrow> fstree \<Rightarrow>
    (walk_error, (nat \<times> u32) \<times> fstree) outcome" where
  "add_entry rec E name dir_inum d_name s non_existing sn st =
     (let inum = ft_highest_inum st + 1; st = st\<lparr>ft_highest_inum := inum\<rparr>;
          made = (if is_type S_IFDIR s
                  then (case rec name inum s non_existing st of
                          Ret st \<Rightarrow> Ret (inum, UBIFS_ITYPE_DIR, snd sn + 1, st) | Err e \<Rightarrow> Err e | Undef \<Rightarrow> Undef)
                  else (case add_non_dir E name inum 0 s st of
                          Ret (inum, type, st) \<Rightarrow> Ret (inum, type, snd sn, st) | Err e \<Rightarrow> Err e | Undef \<Rightarrow> Undef))
      in case made of
           Ret (inum, type, nlink, st) \<Rightarrow>
             (case add_dent_node E dir_inum d_name inum type st of
                Ret st \<Rightarrow> Ret ((fst sn + ALIGN (UBIFS_DENT_NODE_SZ + length d_name + 1) 8, nlink), st)
              | Err e \<Rightarrow> Err e | Undef \<Rightarrow> Undef)
         | Err e \<Rightarrow> Err e | Undef \<Rightarrow> Undef)"

text \<open>The attributes of an entry of the host: the owner may be squashed, and the device table overrides them.\<close>

definition entry_stat :: "mkfs_env \<Rightarrow> nat option \<Rightarrow> string \<Rightarrow> string \<Rightarrow> fstree \<Rightarrow> (walk_error, stat \<times> fstree) outcome" where
  "entry_stat E ph name d_name st =
     (case h_lstat (me_host E) name of
        None \<Rightarrow> Err Lstat_failed
      | Some s \<Rightarrow>
          (let s = (if me_squash_owner E then s\<lparr>st_uid := 0, st_gid := 0\<rparr> else s) in
           case (case ph of None \<Rightarrow> None | Some i \<Rightarrow> map_option (Pair i) (devtbl_find_name (ft_dt st) i d_name)) of
             None \<Rightarrow> Ret (s, st)
           | Some (i, nh) \<Rightarrow>
               (case override_attributes (ft_dt st) (file_attr.truncate s) i nh of
                  Ret (dt, a) \<Rightarrow> Ret (s\<lparr>st_mode := st_mode a, st_uid := st_uid a, st_gid := st_gid a\<rparr>, st\<lparr>ft_dt := dt\<rparr>)
                | Err _ \<Rightarrow> Err Override_failed | Undef \<Rightarrow> Undef)))"

fun host_entries :: "dir_walk \<Rightarrow> mkfs_env \<Rightarrow> string \<Rightarrow> u64 \<Rightarrow> nat option \<Rightarrow> string list \<Rightarrow> nat \<times> u32 \<Rightarrow> fstree \<Rightarrow>
    (walk_error, (nat \<times> u32) \<times> fstree) outcome" where
  "host_entries rec E dir_name dir_inum ph [] sn st = Ret (sn, st)"
| "host_entries rec E dir_name dir_inum ph (d # ds) sn st =
     (if d = ''.'' \<or> d = ''..'' then host_entries rec E dir_name dir_inum ph ds sn st
      else
        let name = make_path dir_name d in
        case entry_stat E ph name d st of
          Ret (s, st) \<Rightarrow>
            (case add_entry rec E name dir_inum d s False sn st of
               Ret (sn, st) \<Rightarrow> host_entries rec E dir_name dir_inum ph ds sn st
             | Err e \<Rightarrow> Err e | Undef \<Rightarrow> Undef)
        | Err e \<Rightarrow> Err e | Undef \<Rightarrow> Undef)"

text \<open>The attributes of an entry that only the device table has; the group stays that of the root directory.\<close>

definition fake_stat :: "stat \<Rightarrow> name_htbl_element \<Rightarrow> stat" where
  "fake_stat root_st nh = root_st\<lparr>st_uid := nh_uid nh, st_mode := nh_mode nh, st_rdev := nh_dev nh, st_nlink := 1\<rparr>"

text \<open>The remaining names of the device table; \<open>n\<close> bounds the number of steps of the iterator.\<close>

fun table_entries :: "nat \<Rightarrow> dir_walk \<Rightarrow> mkfs_env \<Rightarrow> string \<Rightarrow> u64 \<Rightarrow> nat option \<Rightarrow> name_htbl_element option \<times> itr \<Rightarrow> nat \<times> u32 \<Rightarrow> fstree \<Rightarrow>
    (walk_error, (nat \<times> u32) \<times> fstree) outcome" where
  "table_entries n rec E dir_name dir_inum ph (None, it) sn st = Ret (sn, st)"
| "table_entries 0 rec E dir_name dir_inum ph (Some nh, it) sn st = Undef"
| "table_entries (Suc n) rec E dir_name dir_inum ph (Some nh, it) sn st =
     (if nh_mode nh AND S_IFMT = S_IFREG then Err Regular_in_table
      else
        case add_entry rec E (make_path dir_name (nh_name nh)) dir_inum (nh_name nh) (fake_stat (ft_root_st st) nh) True sn st of
          Ret (sn, st) \<Rightarrow> table_entries n rec E dir_name dir_inum ph (next_name_htbl_element (ft_dt st) ph it) sn st
        | Err e \<Rightarrow> Err e | Undef \<Rightarrow> Undef)"

definition table_size :: "fstree \<Rightarrow> nat option \<Rightarrow> nat" where
  "table_size st ph = (case (ft_dt st, ph) of (Some d, Some i) \<Rightarrow> length (entries (name_htbl (ph_elts d ! i))) | _ \<Rightarrow> 0)"

definition add_table_entries :: "dir_walk \<Rightarrow> mkfs_env \<Rightarrow> string \<Rightarrow> u64 \<Rightarrow> nat option \<Rightarrow> nat \<times> u32 \<Rightarrow> fstree \<Rightarrow>
    (walk_error, (nat \<times> u32) \<times> fstree) outcome" where
  "add_table_entries rec E dir_name dir_inum ph sn st =
     (case first_name_htbl_element (ft_dt st) ph of
        None \<Rightarrow> Ret (sn, st)
      | Some cur \<Rightarrow> table_entries (table_size st ph) rec E dir_name dir_inum ph cur sn st)"

definition finish_directory :: "mkfs_env \<Rightarrow> string option \<Rightarrow> u64 \<Rightarrow> u64 \<Rightarrow> stat \<Rightarrow> nat \<times> u32 \<Rightarrow> fstree \<Rightarrow> (walk_error, fstree) outcome" where
  "finish_directory E dir dir_inum dir_creat_sqnum s sn st =
     (case add_dir_inode E dir dir_inum (fst sn) (snd sn) s (st\<lparr>ft_creat_sqnum := dir_creat_sqnum\<rparr>) of
        Ret st \<Rightarrow> (case dir of None \<Rightarrow> Ret st | Some d \<Rightarrow> if h_closedir (me_host E) d then Ret st else Err Closedir_failed)
      | Err e \<Rightarrow> Err e | Undef \<Rightarrow> Undef)"

text \<open>The path inside the file system starts with the last character of the root directory.\<close>

definition fs_path :: "mkfs_env \<Rightarrow> string \<Rightarrow> string" where
  "fs_path E dir_name = drop ((case me_root E of None \<Rightarrow> 0 | Some r \<Rightarrow> length r) - 1) dir_name"

fun add_directory :: "nat \<Rightarrow> mkfs_env \<Rightarrow> dir_walk" where
  "add_directory 0 E dir_name dir_inum s non_existing st = Undef"
| "add_directory (Suc depth) E dir_name dir_inum s non_existing st =
     (let st = ft_next_sqnum st; dir_creat_sqnum = mk_max_sqnum (ft_mk st); sn = (UBIFS_INO_NODE_SZ, 2) in
      case (if non_existing then Some [] else h_opendir (me_host E) dir_name) of
        None \<Rightarrow> Err Opendir_failed
      | Some names \<Rightarrow>
          let ph = devtbl_find_path (ft_dt st) (fs_path E dir_name) in
          case host_entries (add_directory depth E) E dir_name dir_inum ph names sn st of
            Ret (sn, st) \<Rightarrow>
              (case add_table_entries (add_directory depth E) E dir_name dir_inum ph sn st of
                 Ret (sn, st) \<Rightarrow> finish_directory E (if non_existing then None else Some dir_name) dir_inum dir_creat_sqnum s sn st
               | Err e \<Rightarrow> Err e | Undef \<Rightarrow> Undef)
          | Err e \<Rightarrow> Err e | Undef \<Rightarrow> Undef)"

section \<open>The whole tree\<close>

fun add_links :: "mkfs_env \<Rightarrow> inum_mapping list \<Rightarrow> fstree \<Rightarrow> (walk_error, fstree) outcome" where
  "add_links E [] st = Ret st"
| "add_links E (im # ims) st =
     (case add_non_dir E (im_path_name im) (im_use_inum im) (im_use_nlink im) (im_st im) st of
        Ret (inum, type, st) \<Rightarrow> add_links E ims st | Err e \<Rightarrow> Err e | Undef \<Rightarrow> Undef)"

definition add_multi_linked_files :: "mkfs_env \<Rightarrow> fstree \<Rightarrow> (walk_error, fstree) outcome" where
  "add_multi_linked_files E st = add_links E (concat (ft_hash_table st)) st"

text \<open>Without a root directory its path is a null pointer, which the device table would search with an offset.\<close>

definition add_root :: "nat \<Rightarrow> mkfs_env \<Rightarrow> fstree \<Rightarrow> (walk_error, fstree) outcome" where
  "add_root depth E st =
     (case me_root E of
        Some root \<Rightarrow> add_directory depth E root UBIFS_ROOT_INO (ft_root_st st) False st
      | None \<Rightarrow> if ft_dt st \<noteq> None then Undef else add_directory depth E [] UBIFS_ROOT_INO (ft_root_st st) True st)"

definition no_root_stat :: "u64 \<Rightarrow> stat" where
  "no_root_stat now = \<lparr>st_mode = S_IFDIR OR 0x1ED, st_uid = 0, st_gid = 0, st_dev = 0, st_ino = 0, st_nlink = 0, st_rdev = 0, st_size = 0,
     st_atime = now, st_mtime = now, st_ctime = now\<rparr>"

definition write_data :: "nat \<Rightarrow> mkfs_env \<Rightarrow> fstree \<Rightarrow> (walk_error, fstree) outcome" where
  "write_data depth E st =
     (case (if me_root E = None then Some (no_root_stat (me_time E)) else me_root_stat E) of
        None \<Rightarrow> Err Bad_root
      | Some root_st \<Rightarrow>
          (case add_root depth E (st\<lparr>ft_root_st := root_st, ft_mk := (ft_mk st)\<lparr>mk_head_flags := 0\<rparr>\<rparr>) of
             Ret st \<Rightarrow>
               (case add_multi_linked_files E st of
                  Ret st \<Rightarrow>
                    (case flush_nodes (me_wr E) (ft_mk st) of
                       Ret mk \<Rightarrow> Ret (st\<lparr>ft_mk := mk\<rparr>) | Err _ \<Rightarrow> Err Write_failed | Undef \<Rightarrow> Undef)
                | Err e \<Rightarrow> Err e | Undef \<Rightarrow> Undef)
           | Err e \<Rightarrow> Err e | Undef \<Rightarrow> Undef))"

section \<open>What a step adds\<close>

type_synonym ubifs_node = "ubifs_key \<times> u8 \<times> bytes"

definition holds_node :: "mkfs \<Rightarrow> idx_entry \<Rightarrow> ubifs_node \<Rightarrow> bool" where
  "holds_node mk e nd \<longleftrightarrow> e_key e = fst nd \<and> e_len e = UBIFS_CH_SZ + length (snd (snd nd))
     \<and> take 16 (snd (snd nd)) = key_write (fst nd) \<and> (\<exists>sq. stored (view mk) (e_lnum e, e_offs e) (prepare_node sq (fst (snd nd)) (snd (snd nd))))"

text \<open>Every entry of the index has its node, which starts with the key.\<close>

definition ft_ok :: "fstree \<Rightarrow> bool" where
  "ft_ok st \<longleftrightarrow> mk_ok (ft_mk st) \<and> (\<forall>e\<in>set (mk_idx (ft_mk st)). \<exists>nd. holds_node (ft_mk st) e nd)"

definition adds :: "fstree \<Rightarrow> fstree \<Rightarrow> ubifs_node list \<Rightarrow> bool" where
  "adds st st' nds \<longleftrightarrow> ft_ok st' \<and> fixed (ft_mk st') = fixed (ft_mk st) \<and> keeps (view (ft_mk st)) (view (ft_mk st'))
     \<and> (\<exists>es. mk_idx (ft_mk st') = mk_idx (ft_mk st) @ es \<and> list_all2 (holds_node (ft_mk st')) es nds)"

lemma holds_node_keeps: "holds_node mk e nd \<Longrightarrow> keeps (view mk) (view mk') \<Longrightarrow> holds_node mk' e nd"
  unfolding holds_node_def by (blast intro: keepsD)

lemma addsD:
  assumes "adds st st' nds"
  shows "ft_ok st'" "mk_ok (ft_mk st')" "fixed (ft_mk st') = fixed (ft_mk st)" "keeps (view (ft_mk st)) (view (ft_mk st'))"
  using assms by (simp_all add: adds_def ft_ok_def)

lemma adds_refl: "ft_ok st \<Longrightarrow> adds st st []"
  by (simp add: adds_def keeps_def)

lemma adds_trans:
  assumes "adds st st1 nds" "adds st1 st2 nds'"
  shows "adds st st2 (nds @ nds')"
proof -
  obtain es where es: "mk_idx (ft_mk st1) = mk_idx (ft_mk st) @ es" "list_all2 (holds_node (ft_mk st1)) es nds" using assms(1) by (auto simp: adds_def)
  obtain es' where es': "mk_idx (ft_mk st2) = mk_idx (ft_mk st1) @ es'" "list_all2 (holds_node (ft_mk st2)) es' nds'" using assms(2) by (auto simp: adds_def)
  have "list_all2 (holds_node (ft_mk st2)) es nds"
    using es(2) by (rule list_all2_mono) (blast intro: holds_node_keeps addsD(4) [OF assms(2)])
  then have "list_all2 (holds_node (ft_mk st2)) (es @ es') (nds @ nds')" using es'(2) by (rule list_all2_appendI)
  then show ?thesis using assms es(1) es'(1) keeps_trans addsD(4) [OF assms(1)] addsD(4) [OF assms(2)]
    unfolding adds_def by auto
qed

text \<open>A state is the same for the nodes when the head is.\<close>

lemma adds_cong:
  assumes "adds st st' nds" "ft_mk a = ft_mk st" "ft_mk b = ft_mk st'"
  shows "adds a b nds"
  using assms by (simp add: adds_def ft_ok_def)

lemma ft_ok_next_sqnum: "ft_ok (ft_next_sqnum st) = ft_ok st"
  by (simp add: ft_ok_def ft_next_sqnum_def view_next_sqnum holds_node_def)

lemma adds_next_sqnum: "adds (ft_next_sqnum st) st' nds = adds st st' nds"
  by (simp add: adds_def ft_next_sqnum_def view_next_sqnum)

lemma view_add_to_index: "view (add_to_index key name l o' n mk) = view mk" "fixed (add_to_index key name l o' n mk) = fixed mk"
  "mk_ok (add_to_index key name l o' n mk) = mk_ok mk"
  by (simp_all add: add_to_index_def view_def fixed_def mk_ok_def)

lemma ft_add_node_ok:
  assumes ok: "ft_ok st" and wr: "\<And>l. me_wr E l" and sz: "UBIFS_CH_SZ + length body \<le> uc_leb_size (mk_c (ft_mk st))"
    and key: "take 16 body = key_write key"
  obtains mk where "ft_add_node E key name ty body st = Ret (st\<lparr>ft_mk := mk\<rparr>)" "adds st (st\<lparr>ft_mk := mk\<rparr>) [(key, ty, body)]"
proof -
  define mk0 where "mk0 = next_sqnum (ft_mk st)"
  define node where "node = prepare_node (mk_max_sqnum mk0) ty body"
  define p where "p = place (uc_leb_size (mk_c mk0)) (head mk0) (length node)"
  have mk0: "mk_ok mk0" "view mk0 = view (ft_mk st)" "fixed mk0 = fixed (ft_mk st)" "mk_idx mk0 = mk_idx (ft_mk st)"
    using ok by (simp_all add: mk0_def view_next_sqnum ft_ok_def)
  have fit: "length node \<le> uc_leb_size (mk_c mk0)" using sz by (simp add: node_def mk0_def view_next_sqnum)
  obtain mk1 mk2 where r: "reserve_space (me_wr E) (length node) mk0 = Ret (fst p, snd p, mk1)"
    "put_at (snd p) node mk1 = Ret mk2" "mk_ok mk2" "fixed mk2 = fixed mk0" "mk_idx mk2 = mk_idx mk0" "mk_head_flags mk2 = mk_head_flags mk0"
    "head mk2 = after p (ALIGN (length node) 8)" "keeps (view mk0) (view mk2)" "stored (view mk2) p node"
    unfolding p_def by (rule append_node [where wr = "me_wr E", OF mk0(1) wr fit])
  define mk where "mk = add_to_index key name (fst p) (snd p) (length node) mk2"
  have ret: "ft_add_node E key name ty body st = Ret (st\<lparr>ft_mk := mk\<rparr>)"
    unfolding ft_add_node_def add_node_def Let_def mk0_def [symmetric] node_def [symmetric] r(1,2) by (simp add: mk_def r(2))
  define e where "e = \<lparr>e_key = key, e_name = name, e_lnum = fst p, e_offs = snd p, e_len = length node\<rparr>"
  have idx: "mk_idx mk = mk_idx (ft_mk st) @ [e]" by (simp add: mk_def add_to_index_def r(5) mk0(4) e_def)
  have v: "view mk = view mk2" "fixed mk = fixed mk2" "mk_ok mk" using r(3) by (simp_all add: mk_def view_add_to_index)
  have k: "keeps (view (ft_mk st)) (view mk)" using r(8) by (simp add: v(1) mk0(2))
  have e: "holds_node mk e (key, ty, body)" using r(9) key by (auto simp: holds_node_def e_def v(1) node_def)
  have "\<exists>nd. holds_node mk x nd" if x: "x \<in> set (mk_idx mk)" for x
  proof (cases "x = e")
    case False
    then have "\<exists>nd. holds_node (ft_mk st) x nd" using ok x by (simp add: ft_ok_def idx)
    then show ?thesis using holds_node_keeps [OF _ k] by blast
  qed (use e in blast)
  then have "ft_ok (st\<lparr>ft_mk := mk\<rparr>)" using v(3) by (simp add: ft_ok_def)
  then have "adds st (st\<lparr>ft_mk := mk\<rparr>) [(key, ty, body)]" using e k by (simp add: adds_def idx v(2) r(4) mk0(3))
  then show thesis by (rule that [OF ret])
qed

text \<open>When a node is written, it fits into a LEB.\<close>

lemma ft_add_node_fits:
  assumes ok: "ft_ok st" and wr: "\<And>l. me_wr E l" and ret: "ft_add_node E key name ty body st = Ret st'"
  shows "UBIFS_CH_SZ + length body \<le> uc_leb_size (mk_c (ft_mk st))"
proof (rule ccontr)
  assume big: "\<not> ?thesis"
  define mk0 where "mk0 = next_sqnum (ft_mk st)"
  define node where "node = prepare_node (mk_max_sqnum mk0) ty body"
  have mk0: "mk_ok mk0" "uc_leb_size (mk_c mk0) = uc_leb_size (mk_c (ft_mk st))" using ok by (simp_all add: mk0_def view_next_sqnum ft_ok_def)
  have len: "length node > uc_leb_size (mk_c mk0)" using big by (simp add: node_def mk0(2))
  obtain mk1 where mk1: "flush_nodes (me_wr E) mk0 = Ret mk1" "mk_ok mk1" "fixed mk1 = fixed mk0" "mk_idx mk1 = mk_idx mk0" "mk_head_flags mk1 = mk_head_flags mk0"
    "head mk1 = (if mk_head_offs mk0 = 0 then head mk0 else (mk_head_lnum mk0 + 1, 0))" "keeps (view mk0) (view mk1)" "mk_zroot mk1 = mk_zroot mk0"
    by (rule flush_nodes_ok [where wr = "me_wr E", OF mk0(1) wr])
  have "length node \<le> ALIGN (length node) 8" using ALIGN_bounds(1) [of 8 3 "length node"] by simp
  then have "put_at (mk_head_offs mk1) node (mk1\<lparr>mk_head_offs := mk_head_offs mk1 + ALIGN (length node) 8\<rparr>) = Undef"
    using len mk_okD(9) [OF mk1(2)] fixed_fields(2) [OF mk1(3)] by (simp add: put_at_def Let_def)
  moreover have "reserve_space (me_wr E) (length node) mk0
      = Ret (mk_head_lnum mk1, mk_head_offs mk1, mk1\<lparr>mk_head_offs := mk_head_offs mk1 + ALIGN (length node) 8\<rparr>)"
    using len mk1(1) by (simp add: reserve_space_def)
  ultimately have "add_node (me_wr E) key name ty body (ft_mk st) = Undef"
    unfolding add_node_def Let_def mk0_def [symmetric] node_def [symmetric] by simp
  then show False using ret by (simp add: ft_add_node_def)
qed

section \<open>Reading a file back\<close>

lemma body_keys:
  "take 16 (ino_body key creat s fl compr data) = key_write key" "take 16 (dent_body key inum ty name) = key_write key"
  "take 16 (data_body key sz ct out) = key_write key"
  by (simp_all add: ino_body_def dent_body_def data_body_def key_write_def)

lemma length_ino_body: "length (ino_body key creat s fl compr data) = 136 + length data"
  by (simp add: ino_body_def key_write_def)

lemma length_dent_body: "length (dent_body key inum ty name) = 33 + length name"
  by (simp add: dent_body_def key_write_def)

lemma length_data_body: "length (data_body key sz ct out) = 24 + length out"
  by (simp add: data_body_def key_write_def)

subsection \<open>The fields of an inode and of a directory entry\<close>

text \<open>A reader of the image sees bytes: the fields of \<open>struct ubifs_ino_node\<close> and \<open>struct ubifs_dent_node\<close> by their offsets behind the
  common header, little endian. The flags of an inode are given bit by bit.\<close>

definition le_at :: "nat \<Rightarrow> nat \<Rightarrow> bytes \<Rightarrow> 'a::len word" where
  "le_at offs n b = le_word (take n (drop offs b))"

definition inode_flags :: "nat \<Rightarrow> u32 \<Rightarrow> bool \<Rightarrow> u32 \<Rightarrow> bool" where
  "inode_flags compr flags dir w \<longleftrightarrow> (\<forall>i<32. bit w i \<longleftrightarrow>
     i = 0 \<and> (compr \<noteq> MKFS_UBIFS_COMPR_NONE \<or> bit flags 2) \<or> i = 1 \<and> bit flags 3 \<or> i = 2 \<and> bit flags 4 \<or> i = 3 \<and> bit flags 5
     \<or> i = 4 \<and> bit flags 16 \<and> dir)"

definition inode_says :: "mkfs_env \<Rightarrow> bytes \<Rightarrow> u64 \<Rightarrow> stat \<Rightarrow> u32 \<Rightarrow> bytes \<Rightarrow> bool" where
  "inode_says E b inum s flags data \<longleftrightarrow>
     le_at 0 4 b = (ucast inum :: u32) \<and> le_at 4 4 b = (0 :: u32) \<and> le_at 24 8 b = (of_nat (st_size s) :: u64)
     \<and> le_at 32 8 b = st_atime s \<and> le_at 40 8 b = st_ctime s \<and> le_at 48 8 b = st_mtime s
     \<and> le_at 68 4 b = st_nlink s \<and> le_at 72 4 b = st_uid s \<and> le_at 76 4 b = st_gid s \<and> le_at 80 4 b = st_mode s
     \<and> inode_flags (me_default_compr E) flags (is_type S_IFDIR s) (le_at 84 4 b)
     \<and> le_at 88 4 b = (of_nat (length data) :: u32) \<and> le_at 108 2 b = (of_nat (me_default_compr E) :: u16) \<and> drop 136 b = data"

definition dent_says :: "mkfs_env \<Rightarrow> bytes \<Rightarrow> u64 \<Rightarrow> string \<Rightarrow> u64 \<Rightarrow> u8 \<Rightarrow> bool" where
  "dent_says E b dir_inum n inum ty \<longleftrightarrow>
     le_at 0 4 b = (ucast dir_inum :: u32) \<and> le_at 4 4 b = me_key_hash E (c_bytes n) OR 0x40000000
     \<and> le_at 16 8 b = inum \<and> le_at 25 1 b = ty \<and> le_at 26 2 b = (of_nat (length n) :: u16) \<and> drop 32 b = c_bytes n @ [0]"

lemma and_bit: "w AND 2 ^ n \<noteq> 0 \<longleftrightarrow> bit w n" for w :: u32
  by (simp add: bit_iff_and_push_bit_not_eq_0 push_bit_of_1)

lemma fs_flag_bits: "w AND FS_COMPR_FL \<noteq> 0 \<longleftrightarrow> bit w 2" "w AND FS_SYNC_FL \<noteq> 0 \<longleftrightarrow> bit w 3" "w AND FS_IMMUTABLE_FL \<noteq> 0 \<longleftrightarrow> bit w 4"
  "w AND FS_APPEND_FL \<noteq> 0 \<longleftrightarrow> bit w 5" "w AND FS_DIRSYNC_FL \<noteq> 0 \<longleftrightarrow> bit w 16"
  using and_bit [of w 2] and_bit [of w 3] and_bit [of w 4] and_bit [of w 5] and_bit [of w 16]
  by (simp_all add: FS_COMPR_FL_def FS_SYNC_FL_def FS_IMMUTABLE_FL_def FS_APPEND_FL_def FS_DIRSYNC_FL_def)

lemma ubifs_flag_bits: "i < 32 \<Longrightarrow> bit UBIFS_COMPR_FL i \<longleftrightarrow> i = 0" "i < 32 \<Longrightarrow> bit UBIFS_SYNC_FL i \<longleftrightarrow> i = 1" "i < 32 \<Longrightarrow> bit UBIFS_IMMUTABLE_FL i \<longleftrightarrow> i = 2"
  "i < 32 \<Longrightarrow> bit UBIFS_APPEND_FL i \<longleftrightarrow> i = 3" "i < 32 \<Longrightarrow> bit UBIFS_DIRSYNC_FL i \<longleftrightarrow> i = 4"
  using bit_exp_iff [where ?'a = u32, of 0 i] bit_exp_iff [where ?'a = u32, of 1 i] bit_exp_iff [where ?'a = u32, of 2 i] bit_exp_iff [where ?'a = u32, of 3 i] bit_exp_iff [where ?'a = u32, of 4 i]
  by (auto simp: UBIFS_COMPR_FL_def UBIFS_SYNC_FL_def UBIFS_IMMUTABLE_FL_def UBIFS_APPEND_FL_def UBIFS_DIRSYNC_FL_def)

lemma use_flags_bits: "inode_flags compr flags (is_type S_IFDIR s) (use_flags compr flags s)"
  unfolding inode_flags_def use_flags_def fs_flag_bits by (auto simp: bit_or_iff ubifs_flag_bits)

text \<open>Major and minor number together are the whole device number.\<close>

lemma masks: "(0xFFF :: 'a::len word) = mask 12" "(0xFF :: 'a::len word) = mask 8"
  by (simp_all add: mask_eq_exp_minus_1)
lemma makedev_split: "makedev (dev_major d) (dev_minor d) = d"
proof (rule bit_word_eqI)
  fix n assume "n < LENGTH(64)"
  then have n: "n < 64" by simp
  consider "n < 8" | m where "n = 8 + m" "m < 12" | m where "n = 20 + m" "m < 24" | m where "n = 44 + m" "m < 20"
  proof -
    have "n < 8 \<or> (n = 8 + (n - 8) \<and> n - 8 < 12) \<or> (n = 20 + (n - 20) \<and> n - 20 < 24) \<or> (n = 44 + (n - 44) \<and> n - 44 < 20)" using n by linarith
    then show thesis using that by blast
  qed
  then show "bit (makedev (dev_major d) (dev_minor d)) n = bit d n"
    by cases (auto simp: makedev_def dev_major_def dev_minor_def masks bit_simps)
qed

lemma ino_key_form: "ino_key_init inum = (ucast inum, 0)"
  by (simp add: ino_key_init_def UBIFS_INO_KEY_def)

lemma dent_key_form: "dent_key_init h inum name = (ucast inum, h name OR 0x40000000)"
proof -
  have "push_bit UBIFS_S_KEY_BLOCK_BITS UBIFS_DENT_KEY = (0x40000000 :: u32)" by code_simp
  then show ?thesis by (simp add: dent_key_init_def)
qed

lemma inode_says_body:
  "inode_says E (ino_body (ino_key_init inum) creat s (use_flags (me_default_compr E) flags s) (me_default_compr E) data) inum s flags data"
  using use_flags_bits [of "me_default_compr E" flags s] by (simp add: inode_says_def le_at_def ino_body_def key_write_def ino_key_form codec_simps)

lemma dent_says_body:
  "dent_says E (dent_body (dent_key_init (me_key_hash E) dir_inum (c_bytes n)) inum ty (c_bytes n)) dir_inum n inum ty"
  by (simp add: dent_says_def le_at_def dent_body_def key_write_def dent_key_form codec_simps c_bytes_def)

lemma add_inode_ok:
  assumes "ft_ok st" "\<And>l. me_wr E l" "length data \<le> UBIFS_MAX_INO_DATA"
  obtains mk where "add_inode_with_data E s inum data flags st = Ret (st\<lparr>ft_mk := mk\<rparr>)"
    "adds st (st\<lparr>ft_mk := mk\<rparr>) [(ino_key_init inum, UBIFS_INO_NODE,
       ino_body (ino_key_init inum) (ft_creat_sqnum st) s (use_flags (me_default_compr E) flags s) (me_default_compr E) data)]"
proof -
  let ?b = "ino_body (ino_key_init inum) (ft_creat_sqnum st) s (use_flags (me_default_compr E) flags s) (me_default_compr E) data"
  have sz: "UBIFS_CH_SZ + length ?b \<le> uc_leb_size (mk_c (ft_mk st))" using assms(1,3) mk_okD(1) [of "ft_mk st"] by (simp add: length_ino_body UBIFS_MAX_INO_DATA_def ubifs_consts ft_ok_def)
  have nb: "\<not> UBIFS_INO_NODE_SZ + length data > NODE_BUFFER_SIZE"
    using assms(3) by (simp add: UBIFS_MAX_INO_DATA_def ubifs_consts NODE_BUFFER_SIZE_def compr_consts)
  obtain mk where "ft_add_node E (ino_key_init inum) None UBIFS_INO_NODE ?b st = Ret (st\<lparr>ft_mk := mk\<rparr>)"
    "adds st (st\<lparr>ft_mk := mk\<rparr>) [(ino_key_init inum, UBIFS_INO_NODE, ?b)]"
    by (rule ft_add_node_ok [where E = E, OF assms(1,2) sz body_keys(1)])
  then show thesis using nb by (intro that [of mk]) (simp_all add: add_inode_with_data_def Let_def)
qed

lemma add_dent_ok:
  assumes "ft_ok st" "\<And>l. me_wr E l" "length name \<le> 4096"
  obtains mk where "add_dent_node E dir_inum name inum ty st = Ret (st\<lparr>ft_mk := mk\<rparr>)"
    "adds st (st\<lparr>ft_mk := mk\<rparr>) [(dent_key_init (me_key_hash E) dir_inum (c_bytes name), UBIFS_DENT_NODE,
       dent_body (dent_key_init (me_key_hash E) dir_inum (c_bytes name)) inum ty (c_bytes name))]"
proof -
  let ?k = "dent_key_init (me_key_hash E) dir_inum (c_bytes name)"
  let ?b = "dent_body ?k inum ty (c_bytes name)"
  have sz: "UBIFS_CH_SZ + length ?b \<le> uc_leb_size (mk_c (ft_mk st))" using assms(1,3) mk_okD(1) [of "ft_mk st"] by (simp add: length_dent_body c_bytes_def ubifs_consts ft_ok_def)
  have nb: "\<not> UBIFS_DENT_NODE_SZ + length (c_bytes name) + 1 > NODE_BUFFER_SIZE"
    using assms(3) by (simp add: c_bytes_def ubifs_consts NODE_BUFFER_SIZE_def compr_consts)
  obtain mk where "ft_add_node E ?k (Some (c_bytes name)) UBIFS_DENT_NODE ?b st = Ret (st\<lparr>ft_mk := mk\<rparr>)"
    "adds st (st\<lparr>ft_mk := mk\<rparr>) [(?k, UBIFS_DENT_NODE, ?b)]"
    by (rule ft_add_node_ok [where E = E, OF assms(1,2) sz body_keys(2)])
  then show thesis using nb by (intro that [of mk]) (simp_all add: add_dent_node_def Let_def)
qed

function blocks :: "bytes \<Rightarrow> bytes list" where
  "blocks c = (if c = [] then [] else take UBIFS_BLOCK_SIZE c # blocks (drop UBIFS_BLOCK_SIZE c))"
  by pat_completeness auto
termination
  by (relation "measure length") (auto simp: ubifs_consts)

declare blocks.simps [simp del]

lemma read_block_all:
  "None \<notin> set cuts \<Longrightarrow> length acc < UBIFS_BLOCK_SIZE \<Longrightarrow>
   \<exists>cuts'. None \<notin> set cuts' \<and> read_block acc (c, cuts) = Some (acc @ take (UBIFS_BLOCK_SIZE - length acc) c,
     UBIFS_BLOCK_SIZE \<le> length acc + length c, drop (UBIFS_BLOCK_SIZE - length acc) c, cuts')"
proof (induction acc "(c, cuts)" arbitrary: c cuts rule: read_block.induct)
  case (1 acc c cuts)
  define n where "n = UBIFS_BLOCK_SIZE - length acc"
  define m where "m = (case cuts of [] \<Rightarrow> n | None # _ \<Rightarrow> n | Some k # _ \<Rightarrow> min n (k + 1))"
  have m: "0 < m" "m \<le> n" using 1(3) by (auto simp: m_def n_def split: list.split option.split)
  have r: "sys_read n (c, cuts) = Some (take m c, drop m c, tl cuts)"
    using 1(2) by (cases cuts; cases "hd cuts") (auto simp: sys_read_def m_def)
  have t: "None \<notin> set (tl cuts)" using 1(2) by (cases cuts) auto
  have stop: ?case if "acc @ take m c = acc @ take n c" "drop m c = drop n c" "read_block acc (c, cuts) = Some (acc @ take m c, take m c \<noteq> [], drop m c, tl cuts)"
    "take m c \<noteq> [] \<longleftrightarrow> UBIFS_BLOCK_SIZE \<le> length acc + length c"
    using that t by (intro exI [of _ "tl cuts"]) (simp add: n_def)
  show ?case
  proof (cases "take m c \<noteq> [] \<and> length (acc @ take m c) \<noteq> UBIFS_BLOCK_SIZE")
    case True
    then have l: "length (acc @ take m c) < UBIFS_BLOCK_SIZE" using m(2) 1(3) by (simp add: n_def) linarith
    obtain cuts' where c': "None \<notin> set cuts'" "read_block (acc @ take m c) (drop m c, tl cuts) = Some ((acc @ take m c) @ take (UBIFS_BLOCK_SIZE - length (acc @ take m c)) (drop m c),
      UBIFS_BLOCK_SIZE \<le> length (acc @ take m c) + length (drop m c), drop (UBIFS_BLOCK_SIZE - length (acc @ take m c)) (drop m c), cuts')"
      using 1(1) [OF r [unfolded n_def] refl True t l] by blast
    have ml: "min m (length c) = m \<or> length c < m" by linarith
    have b: "UBIFS_BLOCK_SIZE - length (acc @ take m c) = n - min (length c) m" by (simp add: n_def)
    have tk: "take m c @ take (n - min (length c) m) (drop m c) = take n c" "drop (n - min (length c) m) (drop m c) = drop n c"
    proof -
      show "take m c @ take (n - min (length c) m) (drop m c) = take n c"
        using m(2) by (cases "m \<le> length c") (simp_all add: min_absorb2 min_absorb1 take_add [symmetric])
      show "drop (n - min (length c) m) (drop m c) = drop n c" using m(2) by (cases "m \<le> length c") simp_all
    qed
    have le: "length (acc @ take m c) + length (drop m c) = length acc + length c" by simp
    have "read_block acc (c, cuts) = read_block (acc @ take m c) (drop m c, tl cuts)"
      using True r by (simp add: read_block.simps [of acc "(c, cuts)"] n_def)
    then show ?thesis using c' unfolding b le n_def [symmetric] append_assoc tk by (intro exI [of _ cuts'] conjI) (assumption | simp only:)+
  next
    case False
    have e: "read_block acc (c, cuts) = Some (acc @ take m c, take m c \<noteq> [], drop m c, tl cuts)"
      by (subst read_block.simps) (simp only: r [unfolded n_def] option.case prod.case False if_False)
    show ?thesis
    proof (cases "c = []")
      case True
      show ?thesis by (rule stop) (use e True 1(3) in simp_all)
    next
      case c: False
      then have tn: "take m c \<noteq> []" using m(1) by simp
      then have "length acc + min (length c) m = UBIFS_BLOCK_SIZE" using False by simp
      then have mc: "min (length c) m = n" using 1(3) by (simp add: n_def)
      then have "m = n" "n \<le> length c" using m(2) by linarith+
      then show ?thesis using e tn 1(3) by (intro stop) (simp_all add: n_def)
    qed
  qed
qed

text \<open>The reader of data nodes, with the decompressors as arguments.\<close>

definition data_of :: "(bytes \<Rightarrow> bytes option) \<Rightarrow> (bytes \<Rightarrow> bytes option) \<Rightarrow> bytes \<Rightarrow> bytes option" where
  "data_of inflate unlzo body = uncompress inflate unlzo (unat (le_word (take 2 (drop 20 body)) :: u16)) (drop 24 body)"

lemma data_of_body: "ct < 2 ^ 16 \<Longrightarrow> data_of inflate unlzo (data_body key n ct out) = uncompress inflate unlzo ct out"
  by (simp add: data_of_def data_body_def key_write_def codec_simps unat_of_nat_id)

definition is_data_node :: "(bytes \<Rightarrow> bytes option) \<Rightarrow> (bytes \<Rightarrow> bytes option) \<Rightarrow> u64 \<Rightarrow> nat \<Rightarrow> bytes \<Rightarrow> ubifs_node \<Rightarrow> bool" where
  "is_data_node inflate unlzo inum k b nd \<longleftrightarrow> fst nd = data_key_init inum (of_nat k) \<and> fst (snd nd) = UBIFS_DATA_NODE
     \<and> data_of inflate unlzo (snd (snd nd)) = Some b"

fun block_nodes :: "(nat \<Rightarrow> bytes \<Rightarrow> ubifs_node \<Rightarrow> bool) \<Rightarrow> nat \<Rightarrow> bytes list \<Rightarrow> ubifs_node list \<Rightarrow> bool" where
  "block_nodes P k [] nds \<longleftrightarrow> nds = []"
| "block_nodes P k (b # bs) nds \<longleftrightarrow>
     (if all_zero b then block_nodes P (Suc k) bs nds else \<exists>nd nds'. nds = nd # nds' \<and> P k b nd \<and> block_nodes P (Suc k) bs nds')"

text \<open>The fields of the tree that writing nodes does not change.\<close>

definition frame :: "fstree \<Rightarrow> u64 \<times> u64 \<times> inum_mapping list list \<times> devtable option \<times> stat" where
  "frame st = (ft_highest_inum st, ft_creat_sqnum st, ft_hash_table st, ft_dt st, ft_root_st st)"

lemma add_data_node_ok:
  assumes "ft_ok st" "\<And>l. me_wr E l" "codecs_ok (me_cs E) inflate unlzo" "length buf \<le> UBIFS_BLOCK_SIZE"
  obtains st' nd where "add_data_node E inum (of_nat k) flags buf st = Ret st'" "adds st st' [nd]" "frame st' = frame st"
    "is_data_node inflate unlzo inum k buf nd"
proof -
  let ?key = "data_key_init inum (of_nat k)"
  let ?compr = "if me_default_compr E = MKFS_UBIFS_COMPR_NONE \<and> flags AND FS_COMPR_FL \<noteq> 0 then MKFS_UBIFS_COMPR_LZO else me_default_compr E"
  have room: "length buf + length buf div 16 + 67 \<le> NODE_BUFFER_SIZE - UBIFS_DATA_NODE_SZ"
    using assms(4) by (simp add: NODE_BUFFER_SIZE_def ubifs_consts compr_consts)
  obtain ct out ec where c: "compress_data (me_cs E) buf (NODE_BUFFER_SIZE - UBIFS_DATA_NODE_SZ) ?compr (ft_errcnt st) = Ret (ct, out, ec)"
    "ct \<le> MKFS_UBIFS_COMPR_ZLIB" "uncompress inflate unlzo ct out = Some buf" "if ct = MKFS_UBIFS_COMPR_NONE then out = buf else length out < length buf"
    by (rule compress_data_ok [OF assms(3) room]) (simp_all add: NODE_BUFFER_SIZE_def ZLIB_BUF_SIZE_def)
  have "length out \<le> UBIFS_BLOCK_SIZE" using c(4) assms(4) by (auto split: if_splits)
  then have sz: "UBIFS_CH_SZ + length (data_body ?key (length buf) ct out) \<le> uc_leb_size (mk_c (ft_mk (st\<lparr>ft_errcnt := ec\<rparr>)))"
    using assms(1) mk_okD(1) [of "ft_mk st"] by (simp add: length_data_body ubifs_consts ft_ok_def)
  have ok: "ft_ok (st\<lparr>ft_errcnt := ec\<rparr>)" using assms(1) by (simp add: ft_ok_def)
  obtain mk where n: "ft_add_node E ?key None UBIFS_DATA_NODE (data_body ?key (length buf) ct out) (st\<lparr>ft_errcnt := ec\<rparr>) = Ret (st\<lparr>ft_errcnt := ec\<rparr>\<lparr>ft_mk := mk\<rparr>)"
    "adds (st\<lparr>ft_errcnt := ec\<rparr>) (st\<lparr>ft_errcnt := ec\<rparr>\<lparr>ft_mk := mk\<rparr>) [(?key, UBIFS_DATA_NODE, data_body ?key (length buf) ct out)]"
    by (rule ft_add_node_ok [where E = E, OF ok assms(2) sz body_keys(3)])
  have ct: "ct < 2 ^ 16" using c(2) by (simp add: compr_consts)
  have a: "adds st (st\<lparr>ft_errcnt := ec\<rparr>\<lparr>ft_mk := mk\<rparr>) [(?key, UBIFS_DATA_NODE, data_body ?key (length buf) ct out)]"
    by (rule adds_cong [OF n(2)]) simp_all
  show thesis
    by (rule that [OF _ a]) (use c n(1) in \<open>simp_all add: add_data_node_def Let_def frame_def is_data_node_def data_of_body [OF ct]\<close>)
qed

lemma file_blocks_ok:
  assumes wr: "\<And>l. me_wr E l" and cs: "codecs_ok (me_cs E) inflate unlzo"
  shows "ft_ok st \<Longrightarrow> None \<notin> set cuts \<Longrightarrow> \<exists>st' nds. file_blocks E inum flags (c, cuts) (of_nat k) n st = Ret (n + length c, st')
    \<and> adds st st' nds \<and> frame st' = frame st \<and> block_nodes (is_data_node inflate unlzo inum) k (blocks c) nds"
proof (induction c arbitrary: cuts k n st rule: blocks.induct)
  case (1 c)
  obtain cuts' where r: "None \<notin> set cuts'" "read_block [] (c, cuts) = Some (take UBIFS_BLOCK_SIZE c, UBIFS_BLOCK_SIZE \<le> length c, drop UBIFS_BLOCK_SIZE c, cuts')"
    using read_block_all [OF 1(3), of "[]" c] by (auto simp: ubifs_consts)
  show ?case
  proof (cases "c = []")
    case True
    then show ?thesis using r adds_refl [OF 1(2)] by (intro exI [of _ st] exI [of _ "[]"]) (simp add: file_blocks.simps blocks.simps)
  next
    case False
    let ?b = "take UBIFS_BLOCK_SIZE c" and ?c = "drop UBIFS_BLOCK_SIZE c"
    have b: "?b \<noteq> []" "length ?b \<le> UBIFS_BLOCK_SIZE" "n + length ?b + length ?c = n + length c" using False by (simp_all add: ubifs_consts)
    have k: "of_nat k + 1 = (of_nat (Suc k) :: u32)" by simp
    have step: "\<exists>st' nds. (if UBIFS_BLOCK_SIZE \<le> length c then file_blocks E inum flags (?c, cuts') (of_nat k + 1) (n + length ?b) st1 else Ret (n + length ?b, st1)) = Ret (n + length c, st')
      \<and> adds st1 st' nds \<and> frame st' = frame st1 \<and> block_nodes (is_data_node inflate unlzo inum) (Suc k) (blocks ?c) nds" if s: "ft_ok st1" for st1
    proof (cases "UBIFS_BLOCK_SIZE \<le> length c")
      case True
      then show ?thesis using 1(1) [OF False s r(1), of "Suc k" "n + length ?b"] unfolding k b(3) by simp
    next
      case short: False
      then show ?thesis using adds_refl [OF s] by (intro exI [of _ st1] exI [of _ "[]"]) (simp add: blocks.simps)
    qed
    have unf: "file_blocks E inum flags (c, cuts) (of_nat k) n st =
      (if all_zero ?b then (if UBIFS_BLOCK_SIZE \<le> length c then file_blocks E inum flags (?c, cuts') (of_nat k + 1) (n + length ?b) st else Ret (n + length ?b, st))
       else case add_data_node E inum (of_nat k) flags ?b st of
         Ret st1 \<Rightarrow> (if UBIFS_BLOCK_SIZE \<le> length c then file_blocks E inum flags (?c, cuts') (of_nat k + 1) (n + length ?b) st1 else Ret (n + length ?b, st1))
       | Err e \<Rightarrow> Err e | Undef \<Rightarrow> Undef)"
      by (subst file_blocks.simps) (use r(2) b(1) in \<open>simp only: option.case prod.case Let_def if_False\<close>)
    have bl: "blocks c = ?b # blocks ?c" using False by (subst blocks.simps) simp
    show ?thesis
    proof (cases "all_zero ?b")
      case True
      then show ?thesis using step [OF 1(2)] unfolding unf bl by simp
    next
      case nz: False
      obtain st1 nd where s1: "add_data_node E inum (of_nat k) flags ?b st = Ret st1" "adds st st1 [nd]" "frame st1 = frame st" "is_data_node inflate unlzo inum k ?b nd"
        by (rule add_data_node_ok [where E = E, OF 1(2) wr cs b(2)])
      obtain st' nds where s2: "(if UBIFS_BLOCK_SIZE \<le> length c then file_blocks E inum flags (?c, cuts') (of_nat k + 1) (n + length ?b) st1 else Ret (n + length ?b, st1)) = Ret (n + length c, st')"
        "adds st1 st' nds" "frame st' = frame st1" "block_nodes (is_data_node inflate unlzo inum) (Suc k) (blocks ?c) nds"
        using step [OF addsD(1) [OF s1(2)]] by blast
      show ?thesis unfolding unf bl using nz s1 s2 adds_trans [OF s1(2) s2(2)]
        by (intro exI [of _ st'] exI [of _ "nd # nds"]) simp
    qed
  qed
qed

lemma data_key_block: "k < 2 ^ 29 \<Longrightarrow> unat (take_bit 29 (snd (data_key_init inum (of_nat k)))) = k"
proof -
  assume k: "k < 2 ^ 29"
  have z: "take_bit 29 (push_bit UBIFS_S_KEY_BLOCK_BITS UBIFS_DATA_KEY) = 0"
    by (rule bit_word_eqI) (auto simp: UBIFS_S_KEY_BLOCK_BITS_def UBIFS_DATA_KEY_def bit_take_bit_iff bit_push_bit_iff simp del: push_bit_numeral push_bit_of_1)
  have "take_bit 29 (snd (data_key_init inum (of_nat k))) = take_bit 29 (of_nat k)"
    by (simp add: data_key_init_def take_bit_or z)
  also have "unat \<dots> = take_bit 29 (unat (of_nat k :: u32))" by (simp add: unsigned_take_bit_eq)
  also have "\<dots> = k" using k by (simp add: unat_of_nat_id take_bit_nat_eq_self)
  finally show ?thesis .
qed

lemma data_key_inject: "a < 2 ^ 29 \<Longrightarrow> b < 2 ^ 29 \<Longrightarrow> data_key_init inum (of_nat a) = data_key_init inum (of_nat b) \<longleftrightarrow> a = b"
  using data_key_block by metis

text \<open>Reading a file by its inode number and size: a missing block is a block of zeros.\<close>

definition file_block :: "(bytes \<Rightarrow> bytes option) \<Rightarrow> (bytes \<Rightarrow> bytes option) \<Rightarrow> (ubifs_key \<Rightarrow> (u8 \<times> bytes) option) \<Rightarrow> u64 \<Rightarrow> nat \<Rightarrow> nat \<Rightarrow> bytes option" where
  "file_block inflate unlzo look inum sz k =
     (case look (data_key_init inum (of_nat k)) of
        None \<Rightarrow> Some (memset 0 (min UBIFS_BLOCK_SIZE (sz - k * UBIFS_BLOCK_SIZE)))
      | Some (ty, body) \<Rightarrow> if ty = UBIFS_DATA_NODE then data_of inflate unlzo body else None)"

definition read_file :: "(bytes \<Rightarrow> bytes option) \<Rightarrow> (bytes \<Rightarrow> bytes option) \<Rightarrow> (ubifs_key \<Rightarrow> (u8 \<times> bytes) option) \<Rightarrow> u64 \<Rightarrow> nat \<Rightarrow> bytes option" where
  "read_file inflate unlzo look inum sz =
     (let bs = map (file_block inflate unlzo look inum sz) [0..<(sz + UBIFS_BLOCK_SIZE - 1) div UBIFS_BLOCK_SIZE] in
      if None \<in> set bs then None else Some (concat (map the bs)))"

lemma blocks_shape:
  "concat (blocks c) = c" "length (blocks c) = (length c + UBIFS_BLOCK_SIZE - 1) div UBIFS_BLOCK_SIZE"
  "j < length (blocks c) \<Longrightarrow> length (blocks c ! j) = min UBIFS_BLOCK_SIZE (length c - j * UBIFS_BLOCK_SIZE)"
proof -
  show "concat (blocks c) = c"
  proof (induction c rule: blocks.induct)
    case (1 c)
    then show ?case by (cases "c = []") (simp_all add: blocks.simps [of c] blocks.simps [of "[]"])
  qed
  show "length (blocks c) = (length c + UBIFS_BLOCK_SIZE - 1) div UBIFS_BLOCK_SIZE"
  proof (induction c rule: blocks.induct)
    case (1 c)
    show ?case
    proof (cases "c = []")
      case False
      let ?B = UBIFS_BLOCK_SIZE
      have "Suc ((length c - ?B + ?B - 1) div ?B) = (length c + ?B - 1) div ?B"
      proof (cases "?B \<le> length c")
        case True
        then have "length c + ?B - 1 = (length c - 1) + ?B" "length c - ?B + ?B - 1 = length c - 1" using False by (simp_all add: ubifs_consts)
        then show ?thesis by (simp add: ubifs_consts)
      next
        case short: False
        then have "length c + ?B - 1 = (length c - 1) + ?B" "(length c - 1) div ?B = 0" using False by (auto simp: ubifs_consts)
        then show ?thesis using short by (simp add: ubifs_consts)
      qed
      then show ?thesis using 1 [OF False] False by (simp add: blocks.simps [of c])
    qed (simp add: blocks.simps ubifs_consts)
  qed
  show "j < length (blocks c) \<Longrightarrow> length (blocks c ! j) = min UBIFS_BLOCK_SIZE (length c - j * UBIFS_BLOCK_SIZE)"
  proof (induction c arbitrary: j rule: blocks.induct)
    case (1 c)
    then show ?case by (cases "c = []"; cases j) (simp_all add: blocks.simps [of c] blocks.simps [of "[]"] min.commute)
  qed
qed

lemma blocks_few:
  assumes "length c \<le> 2 ^ 29 * UBIFS_BLOCK_SIZE"
  shows "length (blocks c) \<le> 2 ^ 29"
proof -
  have "(length c + UBIFS_BLOCK_SIZE - 1) div UBIFS_BLOCK_SIZE < Suc (2 ^ 29)" by (rule less_mult_imp_div_less) (use assms in \<open>simp add: ubifs_consts\<close>)
  then show ?thesis unfolding blocks_shape(2) by linarith
qed

lemma block_nodes_keys:
  "block_nodes (is_data_node inflate unlzo inum) k bs nds \<Longrightarrow> nd \<in> set nds \<Longrightarrow> \<exists>j. k \<le> j \<and> j < k + length bs \<and> fst nd = data_key_init inum (of_nat j)"
proof (induction bs arbitrary: k nds)
  case (Cons b bs)
  show ?case
  proof (cases "all_zero b")
    case True
    then obtain j where "Suc k \<le> j \<and> j < Suc k + length bs \<and> fst nd = data_key_init inum (of_nat j)" using Cons by fastforce
    then show ?thesis by (intro exI [of _ j]) simp
  next
    case False
    then obtain nd1 nds' where n: "nds = nd1 # nds'" "is_data_node inflate unlzo inum k b nd1" "block_nodes (is_data_node inflate unlzo inum) (Suc k) bs nds'"
      using Cons.prems(1) by auto
    show ?thesis
    proof (cases "nd = nd1")
      case True
      then show ?thesis using n(2) by (intro exI [of _ k]) (simp add: is_data_node_def)
    next
      case ne: False
      then obtain j where "Suc k \<le> j \<and> j < Suc k + length bs \<and> fst nd = data_key_init inum (of_nat j)" using Cons.IH [OF n(3)] Cons.prems(2) n(1) by auto
      then show ?thesis by (intro exI [of _ j]) simp
    qed
  qed
qed simp

lemma block_nodes_types: "block_nodes (is_data_node inflate unlzo inum) k bs nds \<Longrightarrow> nd \<in> set nds \<Longrightarrow> fst (snd nd) = UBIFS_DATA_NODE"
  by (induction bs arbitrary: k nds) (auto simp: is_data_node_def split: if_splits)

lemma block_nodes_lookup:
  "block_nodes (is_data_node inflate unlzo inum) k bs nds \<Longrightarrow> k + length bs \<le> 2 ^ 29 \<Longrightarrow> j < length bs \<Longrightarrow>
   (case map_of nds (data_key_init inum (of_nat (k + j))) of None \<Rightarrow> all_zero (bs ! j)
    | Some (ty, body) \<Rightarrow> ty = UBIFS_DATA_NODE \<and> data_of inflate unlzo body = Some (bs ! j))"
proof (induction bs arbitrary: k nds j)
  case (Cons b bs)
  let ?key = "\<lambda>i. data_key_init inum (of_nat i) :: ubifs_key"
  have other: "map_of nds' (?key k) = None" if nds': "block_nodes (is_data_node inflate unlzo inum) (Suc k) bs nds'" for nds'
  proof (rule ccontr)
    assume "map_of nds' (?key k) \<noteq> None"
    then obtain v where v: "(?key k, v) \<in> set nds'" by (auto dest: map_of_SomeD)
    obtain i where i: "Suc k \<le> i" "i < Suc k + length bs" "?key k = ?key i" using block_nodes_keys [OF nds' v] by auto
    have "k = i" using data_key_inject [of k i inum] i Cons.prems(2) by simp
    then show False using i(1) by simp
  qed
  show ?case
  proof (cases "all_zero b")
    case True
    then have n: "block_nodes (is_data_node inflate unlzo inum) (Suc k) bs nds" using Cons.prems(1) by simp
    show ?thesis
    proof (cases j)
      case 0
      then show ?thesis using other [OF n] True by simp
    next
      case (Suc i)
      then have e: "(b # bs) ! j = bs ! i" by simp
      show ?thesis unfolding e using Cons.IH [OF n, of i] Cons.prems(2,3) Suc by simp
    qed
  next
    case False
    then obtain nd nds' where n: "nds = nd # nds'" "is_data_node inflate unlzo inum k b nd" "block_nodes (is_data_node inflate unlzo inum) (Suc k) bs nds'"
      using Cons.prems(1) by auto
    obtain ty body where nd: "nd = (?key k, ty, body)" using n(2) by (cases nd) (auto simp: is_data_node_def)
    show ?thesis
    proof (cases j)
      case 0
      then show ?thesis using n(2) by (simp add: n(1) nd is_data_node_def)
    next
      case (Suc i)
      have "?key (Suc (k + i)) \<noteq> ?key k" using data_key_inject [of "Suc (k + i)" k inum] Cons.prems(2,3) Suc by simp
      then have "map_of nds (?key (k + j)) = map_of nds' (?key (Suc k + i))" by (simp add: n(1) nd Suc)
      moreover have e: "(b # bs) ! j = bs ! i" by (simp add: Suc)
      ultimately show ?thesis unfolding e using Cons.IH [OF n(3), of i] Cons.prems(2,3) Suc by simp
    qed
  qed
qed simp

lemma read_file_blocks:
  assumes nds: "block_nodes (is_data_node inflate unlzo inum) 0 (blocks c) nds" and fit: "length c \<le> 2 ^ 29 * UBIFS_BLOCK_SIZE"
    and look: "\<And>k. k < length (blocks c) \<Longrightarrow> look (data_key_init inum (of_nat k)) = map_of nds (data_key_init inum (of_nat k))"
  shows "read_file inflate unlzo look inum (length c) = Some c"
proof -
  note lb = blocks_few [OF fit]
  have b: "file_block inflate unlzo look inum (length c) k = Some (blocks c ! k)" if k: "k < length (blocks c)" for k
  proof (cases "map_of nds (data_key_init inum (of_nat k))")
    case None
    then have "all_zero (blocks c ! k)" using block_nodes_lookup [OF nds _ k] lb by simp
    then have "blocks c ! k = memset 0 (length (blocks c ! k))" by (intro nth_equalityI) (auto simp: all_zero_def list_all_length memset_def)
    then show ?thesis using None look [OF k] blocks_shape(3) [OF k] by (simp add: file_block_def)
  next
    case (Some v)
    then show ?thesis using block_nodes_lookup [OF nds _ k] lb look [OF k] by (cases v) (simp add: file_block_def)
  qed
  have "map (file_block inflate unlzo look inum (length c)) [0..<length (blocks c)] = map (\<lambda>k. Some (blocks c ! k)) [0..<length (blocks c)]"
    by (rule map_cong) (use b in simp_all)
  also have "\<dots> = map Some (blocks c)" by (rule nth_equalityI) simp_all
  finally have "map (file_block inflate unlzo look inum (length c)) [0..<(length c + UBIFS_BLOCK_SIZE - 1) div UBIFS_BLOCK_SIZE] = map Some (blocks c)"
    unfolding blocks_shape(2) .
  then have "read_file inflate unlzo look inum (length c) = Some (concat (map the (map Some (blocks c))))"
    unfolding read_file_def Let_def by auto
  then show ?thesis by (simp add: o_def blocks_shape(1))
qed

lemma add_file_ok:
  assumes ok: "ft_ok st" and wr: "\<And>l. me_wr E l" and cs: "codecs_ok (me_cs E) inflate unlzo"
    and h: "h_open (me_host E) path" "h_close (me_host E) path" "h_file (me_host E) path = (c, cuts)" "None \<notin> set cuts" "st_size s = length c"
  obtains st' nds where "add_file E path s inum flags st = Ret st'"
    "adds st st' (nds @ [(ino_key_init inum, UBIFS_INO_NODE,
       ino_body (ino_key_init inum) (ft_creat_sqnum st) s (use_flags (me_default_compr E) flags s) (me_default_compr E) [])])"
    "frame st' = frame st" "block_nodes (is_data_node inflate unlzo inum) 0 (blocks c) nds"
proof -
  obtain st1 nds where s1: "file_blocks E inum flags (c, cuts) (of_nat 0) 0 st = Ret (0 + length c, st1)"
    "adds st st1 nds" "frame st1 = frame st" "block_nodes (is_data_node inflate unlzo inum) 0 (blocks c) nds"
    using file_blocks_ok [where E = E, OF wr cs ok h(4)] by blast
  have cq: "ft_creat_sqnum st1 = ft_creat_sqnum st" using s1(3) by (simp add: frame_def)
  obtain mk where mk: "add_inode_with_data E s inum [] flags st1 = Ret (st1\<lparr>ft_mk := mk\<rparr>)"
    "adds st1 (st1\<lparr>ft_mk := mk\<rparr>) [(ino_key_init inum, UBIFS_INO_NODE,
       ino_body (ino_key_init inum) (ft_creat_sqnum st1) s (use_flags (me_default_compr E) flags s) (me_default_compr E) [])]"
    by (rule add_inode_ok [where E = E, OF addsD(1) [OF s1(2)] wr, of "[]"]) simp_all
  have "add_file E path s inum flags st = Ret (st1\<lparr>ft_mk := mk\<rparr>)"
    using h s1(1) mk(1) by (simp add: add_file_def add_inode_def)
  moreover have "frame (st1\<lparr>ft_mk := mk\<rparr>) = frame st" using s1(3) by (simp add: frame_def)
  ultimately show thesis using adds_trans [OF s1(2) mk(2)] s1(4) unfolding cq by (intro that)
qed

section \<open>Every step keeps the index\<close>

lemma outcome_Ret: "(case x of Ret a \<Rightarrow> f a | Err e \<Rightarrow> g e | Undef \<Rightarrow> Undef) = Ret y \<longleftrightarrow> (\<exists>a. x = Ret a \<and> f a = Ret y) \<or> (\<exists>e. x = Err e \<and> g e = Ret y)"
  by (cases x) auto

definition grown :: "fstree \<Rightarrow> fstree \<Rightarrow> bool" where
  "grown st st' \<longleftrightarrow> (\<exists>nds. adds st st' nds)"

lemma grownD: "grown st st' \<Longrightarrow> ft_ok st'"
  by (auto simp: grown_def dest: addsD(1))

lemma grown_refl: "ft_ok st \<Longrightarrow> grown st st"
  unfolding grown_def by (blast intro: adds_refl)

lemma grown_trans: "grown st st1 \<Longrightarrow> grown st1 st2 \<Longrightarrow> grown st st2"
  unfolding grown_def by (blast intro: adds_trans)

lemma grown_cong: "grown st st' \<Longrightarrow> ft_mk a = ft_mk st \<Longrightarrow> ft_mk b = ft_mk st' \<Longrightarrow> grown a b"
  unfolding grown_def by (blast intro: adds_cong)

lemma grown_same: "ft_ok st \<Longrightarrow> ft_mk st' = ft_mk st \<Longrightarrow> grown st st'"
  by (rule grown_cong [OF grown_refl]) simp_all

lemma ft_ok_cong: "ft_mk a = ft_mk b \<Longrightarrow> ft_ok a = ft_ok b"
  by (simp add: ft_ok_def)

lemma grown_next_sqnum: "grown (ft_next_sqnum st) st' = grown st st'"
  by (simp add: grown_def adds_next_sqnum)

text \<open>A step with a device that accepts every write.\<close>

definition safe :: "(fstree \<Rightarrow> (walk_error, fstree) outcome) \<Rightarrow> bool" where
  "safe f \<longleftrightarrow> (\<forall>st st'. ft_ok st \<longrightarrow> f st = Ret st' \<longrightarrow> grown st st')"

lemma safeD: "safe f \<Longrightarrow> ft_ok st \<Longrightarrow> f st = Ret st' \<Longrightarrow> grown st st'"
  unfolding safe_def by blast

lemma safe_node:
  assumes wr: "\<And>l. me_wr E l" and key: "take 16 body = key_write key"
  shows "safe (ft_add_node E key name ty body)"
  unfolding safe_def
proof (intro allI impI)
  fix st st' assume s: "ft_ok st" "ft_add_node E key name ty body st = Ret st'"
  obtain mk where "ft_add_node E key name ty body st = Ret (st\<lparr>ft_mk := mk\<rparr>)" "adds st (st\<lparr>ft_mk := mk\<rparr>) [(key, ty, body)]"
    by (rule ft_add_node_ok [where E = E, OF s(1) wr ft_add_node_fits [where E = E, OF s(1) wr s(2)] key])
  then show "grown st st'" using s(2) by (auto simp: grown_def)
qed

lemma safe_inode:
  assumes wr: "\<And>l. me_wr E l"
  shows "safe (add_inode_with_data E s inum data flags)"
  unfolding safe_def add_inode_with_data_def Let_def
  using safeD [OF safe_node [where E = E, OF wr body_keys(1)]] by (auto split: if_splits)

lemma safe_dent:
  assumes wr: "\<And>l. me_wr E l"
  shows "safe (add_dent_node E dir_inum name inum ty)"
  unfolding safe_def add_dent_node_def Let_def
  using safeD [OF safe_node [where E = E, OF wr body_keys(2)]] by (auto split: if_splits)

lemma safe_data:
  assumes wr: "\<And>l. me_wr E l"
  shows "safe (add_data_node E inum block_no flags buf)"
  unfolding safe_def
proof (intro allI impI)
  fix st st' assume s: "ft_ok st" "add_data_node E inum block_no flags buf st = Ret st'"
  let ?key = "data_key_init inum block_no"
  obtain ct out ec where "ft_add_node E ?key None UBIFS_DATA_NODE (data_body ?key (length buf) ct out) (st\<lparr>ft_errcnt := ec\<rparr>) = Ret st'"
    using s(2)    by (auto simp: add_data_node_def Let_def outcome_Ret)
  moreover have "ft_ok (st\<lparr>ft_errcnt := ec\<rparr>)" using s(1) by (simp add: ft_ok_def)
  ultimately have "grown (st\<lparr>ft_errcnt := ec\<rparr>) st'" by (intro safeD [OF safe_node [where E = E, OF wr body_keys(3)]])
  then show "grown st st'" by (rule grown_cong) simp_all
qed

lemma file_blocks_grown:
  "\<forall>l. me_wr E l \<Longrightarrow> ft_ok st \<Longrightarrow> file_blocks E inum flags rd block_no n st = Ret (n', st') \<Longrightarrow> grown st st'"
proof (induction E inum flags rd block_no n st arbitrary: n' st' rule: file_blocks.induct)
  case (1 E inum flags rd block_no n st)
  obtain buf again rd' where r: "read_block [] rd = Some (buf, again, rd')"
    using 1(5) by (auto simp: file_blocks.simps [of E inum flags rd] split: option.splits)
  show ?case
  proof (cases "buf = []")
    case True
    then have "st' = st" using 1(5) r by (simp add: file_blocks.simps [of E inum flags rd])
    then show ?thesis using grown_refl [OF 1(4)] by simp
  next
    case False
    have zero: "grown st st'" if z: "all_zero buf"
    proof (cases again)
      case True
      then have "file_blocks E inum flags rd' (block_no + 1) (n + length buf) st = Ret (n', st')"
        using 1(5) r False z by (simp add: file_blocks.simps [of E inum flags rd])
      then show ?thesis by (rule 1(1) [OF r refl refl False refl z True 1(3,4)])
    next
      case no: False
      then have "st' = st" using 1(5) r False z by (simp add: file_blocks.simps [of E inum flags rd])
      then show ?thesis using grown_refl [OF 1(4)] by simp
    qed
    have data: "grown st st'" if z: "\<not> all_zero buf"
    proof -
      obtain st1 where s1: "add_data_node E inum block_no flags buf st = Ret st1"
        "(if again then file_blocks E inum flags rd' (block_no + 1) (n + length buf) st1 else Ret (n + length buf, st1)) = Ret (n', st')"
        using 1(5) r False z by (auto simp: file_blocks.simps [of E inum flags rd] Let_def outcome_Ret)
      have g: "grown st st1" by (rule safeD [OF safe_data 1(4) s1(1)]) (use 1(3) in blast)
      show ?thesis
      proof (cases again)
        case True
        then have "file_blocks E inum flags rd' (block_no + 1) (n + length buf) st1 = Ret (n', st')" using s1(2) by simp
        then have "grown st1 st'" by (rule 1(2) [OF r refl refl False refl z s1(1) True 1(3) grownD [OF g]])
        then show ?thesis by (rule grown_trans [OF g])
      qed (use s1(2) g in simp)
    qed
    show ?thesis using zero data by blast
  qed
qed

lemma safe_file:
  assumes wr: "\<And>l. me_wr E l"
  shows "safe (add_file E path s inum flags)"
  unfolding safe_def
proof (intro allI impI)
  fix st st' assume s: "ft_ok st" "add_file E path s inum flags st = Ret st'"
  obtain n st1 where f: "file_blocks E inum flags (h_file (me_host E) path) 0 0 st = Ret (n, st1)" "add_inode_with_data E s inum [] flags st1 = Ret st'"
    using s(2) by (auto simp: add_file_def add_inode_def outcome_Ret split: if_splits)
  have "grown st st1" using wr by (intro file_blocks_grown [OF _ s(1) f(1)]) blast
  then show "grown st st'" using safeD [OF safe_inode [where E = E, OF wr] grownD f(2)] grown_trans by blast
qed

lemma safe_content:
  assumes wr: "\<And>l. me_wr E l"
  shows "safe (add_content E path inum s flags)"
  unfolding safe_def add_content_def add_dev_inode_def add_symlink_inode_def add_inode_def
  using safeD [OF safe_file [where E = E, OF wr]] safeD [OF safe_inode [where E = E, OF wr]]
  by (auto split: if_splits option.splits)

lemma non_dir_grown:
  assumes wr: "\<And>l. me_wr E l" and s: "ft_ok st" "add_non_dir E path inum nlink a st = Ret (inum', ty, st')"
  shows "grown st st'"
proof -
  obtain flags where f: "file_flags E path a = Ret flags" using s(2) by (auto simp: add_non_dir_def outcome_Ret)
  obtain t where t: "inode_type a = Some t" using s(2) by (auto simp: add_non_dir_def f split: option.splits)
  show ?thesis
  proof (cases "nlink = 0 \<and> st_nlink a > 1")
    case True
    then have "ft_mk st' = ft_mk st" using s(2) by (auto simp: add_non_dir_def f t split: prod.splits)
    then show ?thesis by (rule grown_same [OF s(1)])
  next
    case False
    define b where "b = a\<lparr>st_nlink := (if nlink \<noteq> 0 then nlink else 1)\<rparr>"
    define st1 where "st1 = (ft_next_sqnum st)\<lparr>ft_creat_sqnum := mk_max_sqnum (ft_mk (ft_next_sqnum st))\<rparr>"
    have "add_content E path inum b flags st1 = Ret st'"
      using s(2) False by (auto simp: add_non_dir_def f t outcome_Ret Let_def b_def [symmetric] st1_def [symmetric])
    moreover have "ft_ok st1" using s(1) ft_ok_next_sqnum [of st] by (simp add: st1_def ft_ok_def)
    ultimately have "grown st1 st'" by (intro safeD [OF safe_content [where E = E, OF wr]])
    then have "grown (ft_next_sqnum st) st'" by (rule grown_cong) (simp_all add: st1_def)
    then show ?thesis by (simp add: grown_next_sqnum)
  qed
qed

definition safe_walk :: "dir_walk \<Rightarrow> bool" where
  "safe_walk rec \<longleftrightarrow> (\<forall>path inum a ne. safe (rec path inum a ne))"

lemma entry_grown:
  assumes wr: "\<And>l. me_wr E l" and rec: "safe_walk rec" and s: "ft_ok st" "add_entry rec E name dir_inum d a ne sn st = Ret (sn', st')"
  shows "grown st st'"
proof -
  define st0 where "st0 = st\<lparr>ft_highest_inum := ft_highest_inum st + 1\<rparr>"
  have ok: "ft_ok st0" using s(1) by (simp add: st0_def ft_ok_def)
  obtain inum ty st1 where s1: "grown st0 st1" "add_dent_node E dir_inum d inum ty st1 = Ret st'"
  proof (cases "is_type S_IFDIR a")
    case True
    then obtain st1 where st1: "rec name (ft_highest_inum st + 1) a ne st0 = Ret st1" "add_dent_node E dir_inum d (ft_highest_inum st + 1) UBIFS_ITYPE_DIR st1 = Ret st'"
      using s(2) by (auto simp: add_entry_def Let_def st0_def [symmetric] outcome_Ret)
    have "safe (rec name (ft_highest_inum st + 1) a ne)" using rec by (simp add: safe_walk_def)
    then show thesis using st1 by (intro that [of st1] safeD [OF _ ok])
  next
    case False
    then obtain inum ty st1 where st1: "add_non_dir E name (ft_highest_inum st + 1) 0 a st0 = Ret (inum, ty, st1)" "add_dent_node E dir_inum d inum ty st1 = Ret st'"
      using s(2) by (auto simp: add_entry_def Let_def st0_def [symmetric] outcome_Ret)
    show thesis by (rule that [OF non_dir_grown [where E = E, OF wr ok st1(1)] st1(2)])
  qed
  have "grown st st1" by (rule grown_cong [OF s1(1)]) (simp_all add: st0_def)
  moreover have "grown st1 st'" by (rule safeD [OF safe_dent [where E = E, OF wr] grownD [OF s1(1)] s1(2)])
  ultimately show ?thesis by (rule grown_trans)
qed

lemma entry_stat_mk: "entry_stat E ph name d st = Ret (a, st') \<Longrightarrow> ft_mk st' = ft_mk st"
  by (auto simp: entry_stat_def Let_def outcome_Ret split: option.splits prod.splits)

lemma host_entries_grown:
  assumes wr: "\<And>l. me_wr E l" and rec: "safe_walk rec"
  shows "ft_ok st \<Longrightarrow> host_entries rec E dir dir_inum ph ds sn st = Ret (sn', st') \<Longrightarrow> grown st st'"
proof (induction ds arbitrary: sn st)
  case (Cons d ds)
  show ?case
  proof (cases "d = ''.'' \<or> d = ''..''")
    case True
    then show ?thesis using Cons by simp
  next
    case False
    then obtain a st1 sn2 st2 where e: "entry_stat E ph (make_path dir d) d st = Ret (a, st1)" "add_entry rec E (make_path dir d) dir_inum d a False sn st1 = Ret (sn2, st2)"
      "host_entries rec E dir dir_inum ph ds sn2 st2 = Ret (sn', st')"
      using Cons.prems(2) by (auto simp: Let_def outcome_Ret)
    have m: "ft_mk st1 = ft_mk st" by (rule entry_stat_mk [OF e(1)])
    have ok1: "ft_ok st1" using Cons.prems(1) ft_ok_cong [OF m] by simp
    have g: "grown st1 st2" by (rule entry_grown [where E = E, OF wr rec ok1 e(2)])
    have "grown st1 st'" by (rule grown_trans [OF g Cons.IH [OF grownD [OF g] e(3)]])
    then show ?thesis by (rule grown_cong) (simp_all add: m)
  qed
qed (simp add: grown_refl)

lemma table_entries_grown:
  assumes wr: "\<And>l. me_wr E l" and rec: "safe_walk rec"
  shows "ft_ok st \<Longrightarrow> table_entries n rec E dir dir_inum ph cur sn st = Ret (sn', st') \<Longrightarrow> grown st st'"
proof (induction n arbitrary: cur sn st)
  case 0
  then show ?case by (cases cur; cases "fst cur") (auto intro: grown_refl)
next
  case (Suc n)
  show ?case
  proof (cases "fst cur")
    case None
    then show ?thesis using Suc.prems by (cases cur) (auto intro: grown_refl)
  next
    case (Some nh)
    obtain it where cur: "cur = (Some nh, it)" using Some by (cases cur) simp
    obtain sn1 st1 where e: "add_entry rec E (make_path dir (nh_name nh)) dir_inum (nh_name nh) (fake_stat (ft_root_st st) nh) True sn st = Ret (sn1, st1)"
      "table_entries n rec E dir dir_inum ph (next_name_htbl_element (ft_dt st1) ph it) sn1 st1 = Ret (sn', st')"
      using Suc.prems(2) by (auto simp: cur outcome_Ret split: if_splits)
    have g: "grown st st1" by (rule entry_grown [where E = E, OF wr rec Suc.prems(1) e(1)])
    show ?thesis by (rule grown_trans [OF g Suc.IH [OF grownD [OF g] e(2)]])
  qed
qed

lemma table_grown:
  assumes wr: "\<And>l. me_wr E l" and rec: "safe_walk rec" and s: "ft_ok st" "add_table_entries rec E dir dir_inum ph sn st = Ret (sn', st')"
  shows "grown st st'"
  using s table_entries_grown [where E = E, OF wr rec s(1)] by (auto simp: add_table_entries_def intro: grown_refl split: option.splits)

lemma finish_grown:
  assumes wr: "\<And>l. me_wr E l" and s: "ft_ok st" "finish_directory E dir dir_inum creat a sn st = Ret st'"
  shows "grown st st'"
proof -
  define st0 where "st0 = st\<lparr>ft_creat_sqnum := creat\<rparr>"
  obtain b flags where "add_inode_with_data E b dir_inum [] flags st0 = Ret st'"
    using s(2) by (auto simp: finish_directory_def add_dir_inode_def add_inode_def Let_def st0_def [symmetric] outcome_Ret split: option.splits if_splits)
  moreover have "ft_ok st0" using s(1) by (simp add: st0_def ft_ok_def)
  ultimately have "grown st0 st'" by (intro safeD [OF safe_inode [where E = E, OF wr]])
  then show ?thesis by (rule grown_cong) (simp_all add: st0_def)
qed

lemma directory_safe:
  assumes wr: "\<And>l. me_wr E l"
  shows "safe_walk (add_directory depth E)"
proof (induction depth)
  case (Suc depth)
  show ?case unfolding safe_walk_def safe_def
  proof (intro allI impI)
    fix path inum a ne st st' assume s: "ft_ok st" "add_directory (Suc depth) E path inum a ne st = Ret st'"
    define st0 where "st0 = ft_next_sqnum st"
    define ph where "ph = devtbl_find_path (ft_dt st0) (fs_path E path)"
    have ok0: "ft_ok st0" using s(1) by (simp add: st0_def ft_ok_next_sqnum)
    obtain names sn1 st1 sn2 st2 where n: "host_entries (add_directory depth E) E path inum ph names (UBIFS_INO_NODE_SZ, 2) st0 = Ret (sn1, st1)"
      "add_table_entries (add_directory depth E) E path inum ph sn1 st1 = Ret (sn2, st2)"
      "finish_directory E (if ne then None else Some path) inum (mk_max_sqnum (ft_mk st0)) a sn2 st2 = Ret st'"
      using s(2) by (auto simp: Let_def st0_def [symmetric] ph_def [symmetric] outcome_Ret simp del: split_paired_Ex split: option.splits prod.splits)
    have g1: "grown st0 st1" by (rule host_entries_grown [where E = E, OF wr Suc ok0 n(1)])
    have g2: "grown st1 st2" by (rule table_grown [where E = E, OF wr Suc grownD [OF g1] n(2)])
    have "grown st2 st'" by (rule finish_grown [where E = E, OF wr grownD [OF g2] n(3)])
    then have "grown st0 st'" using g1 g2 grown_trans by blast
    then show "grown st st'" by (simp add: st0_def grown_next_sqnum)
  qed
qed (simp add: safe_walk_def safe_def)

lemma links_grown:
  assumes wr: "\<And>l. me_wr E l"
  shows "ft_ok st \<Longrightarrow> add_links E ims st = Ret st' \<Longrightarrow> grown st st'"
proof (induction ims arbitrary: st)
  case (Cons im ims)
  obtain inum ty st1 where s1: "add_non_dir E (im_path_name im) (im_use_inum im) (im_use_nlink im) (im_st im) st = Ret (inum, ty, st1)" "add_links E ims st1 = Ret st'"
    using Cons.prems(2) by (auto simp: outcome_Ret)
  have g: "grown st st1" by (rule non_dir_grown [where E = E, OF wr Cons.prems(1) s1(1)])
  show ?case by (rule grown_trans [OF g Cons.IH [OF grownD [OF g] s1(2)]])
qed (simp add: grown_refl)

lemma flush_adds:
  assumes wr: "\<And>l. me_wr E l" and ok: "ft_ok st"
  obtains mk where "flush_nodes (me_wr E) (ft_mk st) = Ret mk" "adds st (st\<lparr>ft_mk := mk\<rparr>) []" "mk_head_offs mk = 0"
proof -
  have mok: "mk_ok (ft_mk st)" using ok by (simp add: ft_ok_def)
  obtain mk where mk: "flush_nodes (me_wr E) (ft_mk st) = Ret mk" "mk_ok mk" "fixed mk = fixed (ft_mk st)" "mk_idx mk = mk_idx (ft_mk st)" "mk_head_flags mk = mk_head_flags (ft_mk st)"
    "head mk = (if mk_head_offs (ft_mk st) = 0 then head (ft_mk st) else (mk_head_lnum (ft_mk st) + 1, 0))" "keeps (view (ft_mk st)) (view mk)" "mk_zroot mk = mk_zroot (ft_mk st)"
    by (rule flush_nodes_ok [where wr = "me_wr E", OF mok wr])
  have "\<exists>nd. holds_node mk e nd" if "e \<in> set (mk_idx mk)" for e
    using that ok mk(4) holds_node_keeps [OF _ mk(7)] unfolding ft_ok_def by (metis (no_types))
  then have "adds st (st\<lparr>ft_mk := mk\<rparr>) []" using mk(2-4,7) by (simp add: adds_def ft_ok_def)
  moreover have "mk_head_offs mk = 0" using mk(6) by (auto simp: head_def split: if_splits)
  ultimately show thesis using mk(1) by (intro that)
qed

lemma write_data_grown:
  assumes wr: "\<And>l. me_wr E l" and s: "ft_ok st" "write_data depth E st = Ret st'"
  shows "grown st st'" "mk_head_offs (ft_mk st') = 0"
proof -
  obtain root_st st1 st2 mk where w: "add_root depth E (st\<lparr>ft_root_st := root_st, ft_mk := (ft_mk st)\<lparr>mk_head_flags := 0\<rparr>\<rparr>) = Ret st1"
    "add_links E (concat (ft_hash_table st1)) st1 = Ret st2" "flush_nodes (me_wr E) (ft_mk st2) = Ret mk" "st' = st2\<lparr>ft_mk := mk\<rparr>"
    using s(2) by (auto simp: write_data_def add_multi_linked_files_def outcome_Ret split: option.splits)
  define st0 where "st0 = st\<lparr>ft_root_st := root_st, ft_mk := (ft_mk st)\<lparr>mk_head_flags := 0\<rparr>\<rparr>"
  have v: "view (ft_mk st0) = view (ft_mk st)" "fixed (ft_mk st0) = fixed (ft_mk st)" "mk_ok (ft_mk st0) = mk_ok (ft_mk st)" "mk_idx (ft_mk st0) = mk_idx (ft_mk st)"
    by (simp_all add: st0_def view_def fixed_def mk_ok_def)
  have ok0: "ft_ok st0" using s(1) by (simp add: ft_ok_def v holds_node_def)
  have "\<exists>path inum ne. add_directory depth E path inum (ft_root_st st0) ne st0 = Ret st1"
    using w(1) by (auto simp: add_root_def st0_def [symmetric] split: option.splits if_splits)
  then have g1: "grown st0 st1" using directory_safe [where E = E, OF wr, of depth] safeD [OF _ ok0] unfolding safe_walk_def by blast
  have g2: "grown st1 st2" by (rule links_grown [where E = E, OF wr grownD [OF g1] w(2)])
  obtain mk' where mk': "flush_nodes (me_wr E) (ft_mk st2) = Ret mk'" "adds st2 (st2\<lparr>ft_mk := mk'\<rparr>) []" "mk_head_offs mk' = 0"
    by (rule flush_adds [where E = E, OF wr grownD [OF g2]])
  have mm: "mk' = mk" using mk'(1) w(3) by simp
  have "grown st0 st'" using g1 g2 mk'(2) grown_trans unfolding mm w(4) by (metis grown_def)
  then show "grown st st'" by (simp add: grown_def adds_def v)
  show "mk_head_offs (ft_mk st') = 0" using mk'(3) by (simp add: mm w(4))
qed

section \<open>The image represents the tree of the host\<close>

text \<open>A host without failures: every file can be read, has one link and as many bytes as its attributes say.\<close>

definition squash :: "mkfs_env \<Rightarrow> stat \<Rightarrow> stat" where
  "squash E s = (if me_squash_owner E then s\<lparr>st_uid := 0, st_gid := 0\<rparr> else s)"

definition good_file :: "mkfs_env \<Rightarrow> string \<Rightarrow> stat \<Rightarrow> bool" where
  "good_file E path s \<longleftrightarrow> inode_type s \<noteq> None \<and> st_nlink s \<le> 1
     \<and> (is_type S_IFREG s \<longrightarrow> h_open (me_host E) path \<and> h_close (me_host E) path \<and> None \<notin> set (snd (h_file (me_host E) path))
          \<and> st_size s = length (fst (h_file (me_host E) path)) \<and> st_size s \<le> 2 ^ 29 * UBIFS_BLOCK_SIZE)
     \<and> (is_type S_IFLNK s \<longrightarrow> (case h_readlink (me_host E) path of None \<Rightarrow> False | Some t \<Rightarrow> t \<noteq> [] \<and> length t \<le> UBIFS_MAX_INO_DATA))"

definition dot :: "string \<Rightarrow> bool" where
  "dot n \<longleftrightarrow> n = ''.'' \<or> n = ''..''"

fun good_tree :: "nat \<Rightarrow> mkfs_env \<Rightarrow> string \<Rightarrow> bool" where
  "good_tree 0 E path \<longleftrightarrow> False"
| "good_tree (Suc d) E path \<longleftrightarrow> h_dirfd (me_host E) path \<and> h_closedir (me_host E) path \<and>
     (case h_opendir (me_host E) path of
        None \<Rightarrow> False
      | Some names \<Rightarrow> list_all (\<lambda>n. dot n \<or> length n \<le> 255 \<and>
          (case h_lstat (me_host E) (make_path path n) of
             None \<Rightarrow> False
           | Some s \<Rightarrow> if is_type S_IFDIR s then good_tree d E (make_path path n) else good_file E (make_path path n) s)) names)"

text \<open>The number of entries of the tree, and the size and links of a directory.\<close>

fun tree_count :: "nat \<Rightarrow> mkfs_env \<Rightarrow> string \<Rightarrow> nat" where
  "tree_count 0 E path = 0"
| "tree_count (Suc d) E path =
     (case h_opendir (me_host E) path of
        None \<Rightarrow> 0
      | Some names \<Rightarrow> sum_list (map (\<lambda>n. if dot n then 0 else Suc
          (case h_lstat (me_host E) (make_path path n) of
             None \<Rightarrow> 0 | Some s \<Rightarrow> if is_type S_IFDIR s then tree_count d E (make_path path n) else 0)) names))"

definition is_dir :: "mkfs_env \<Rightarrow> string \<Rightarrow> bool" where
  "is_dir E path \<longleftrightarrow> (case h_lstat (me_host E) path of None \<Rightarrow> False | Some s \<Rightarrow> is_type S_IFDIR s)"

definition dir_size :: "string list \<Rightarrow> nat" where
  "dir_size names = sum_list (map (\<lambda>n. ALIGN (UBIFS_DENT_NODE_SZ + length n + 1) 8) (filter (\<lambda>n. \<not> dot n) names))"

definition dir_links :: "mkfs_env \<Rightarrow> string \<Rightarrow> string list \<Rightarrow> nat" where
  "dir_links E path names = length (filter (\<lambda>n. \<not> dot n \<and> is_dir E (make_path path n)) names)"

text \<open>What a set of nodes says about a file: its inode, and for a regular file exactly the data nodes of its content.\<close>

definition is_data_key :: "ubifs_key \<Rightarrow> bool" where
  "is_data_key key \<longleftrightarrow> drop_bit 29 (snd key) = 1"

definition path_flags :: "mkfs_env \<Rightarrow> string \<Rightarrow> u32" where
  "path_flags E path = (case h_getflags (me_host E) path of None \<Rightarrow> 0 | Some f \<Rightarrow> f)"

definition inode_data :: "mkfs_env \<Rightarrow> string \<Rightarrow> stat \<Rightarrow> bytes" where
  "inode_data E path s =
     (if is_type S_IFCHR s \<or> is_type S_IFBLK s then le64 (st_rdev s)
      else if is_type S_IFLNK s then the (h_readlink (me_host E) path) else [])"

definition has_inode :: "mkfs_env \<Rightarrow> ubifs_node set \<Rightarrow> u64 \<Rightarrow> stat \<Rightarrow> u32 \<Rightarrow> bytes \<Rightarrow> bool" where
  "has_inode E N inum s flags data \<longleftrightarrow> (\<exists>b. ((ucast inum, 0), UBIFS_INO_NODE, b) \<in> N \<and> inode_says E b inum s flags data)"

definition has_content :: "(bytes \<Rightarrow> bytes option) \<Rightarrow> (bytes \<Rightarrow> bytes option) \<Rightarrow> ubifs_node set \<Rightarrow> u64 \<Rightarrow> bytes \<Rightarrow> bool" where
  "has_content inflate unlzo N inum c \<longleftrightarrow> (\<exists>nds. block_nodes (is_data_node inflate unlzo inum) 0 (blocks c) nds \<and> set nds \<subseteq> N
     \<and> (\<forall>nd\<in>N. is_data_key (fst nd) \<and> fst (fst nd) = ucast inum \<longrightarrow> nd \<in> set nds))"

definition has_file :: "(bytes \<Rightarrow> bytes option) \<Rightarrow> (bytes \<Rightarrow> bytes option) \<Rightarrow> mkfs_env \<Rightarrow> ubifs_node set \<Rightarrow> string \<Rightarrow> u64 \<Rightarrow> stat \<Rightarrow> bool" where
  "has_file inflate unlzo E N path inum s \<longleftrightarrow>
     has_inode E N inum ((squash E s)\<lparr>st_nlink := 1\<rparr>) (if is_type S_IFREG s then path_flags E path else 0) (inode_data E path s)
     \<and> (is_type S_IFREG s \<longrightarrow> has_content inflate unlzo N inum (fst (h_file (me_host E) path)))"

text \<open>The same for a directory: every name has an entry with the number and type of its inode, in a range of numbers.\<close>

definition has_dent :: "mkfs_env \<Rightarrow> ubifs_node set \<Rightarrow> u64 \<Rightarrow> string \<Rightarrow> u64 \<Rightarrow> u8 \<Rightarrow> bool" where
  "has_dent E N dir_inum n inum ty \<longleftrightarrow>
     (\<exists>b. ((ucast dir_inum, me_key_hash E (c_bytes n) OR 0x40000000), UBIFS_DENT_NODE, b) \<in> N \<and> dent_says E b dir_inum n inum ty)"

definition has_entry :: "(string \<Rightarrow> u64 \<Rightarrow> stat \<Rightarrow> bool) \<Rightarrow> (bytes \<Rightarrow> bytes option) \<Rightarrow> (bytes \<Rightarrow> bytes option) \<Rightarrow> mkfs_env \<Rightarrow> ubifs_node set \<Rightarrow>
    nat \<Rightarrow> nat \<Rightarrow> string \<Rightarrow> u64 \<Rightarrow> string \<Rightarrow> bool" where
  "has_entry R inflate unlzo E N lo hi path dir_inum n \<longleftrightarrow>
     (\<exists>s inum ty. h_lstat (me_host E) (make_path path n) = Some s \<and> lo < unat inum \<and> unat inum \<le> hi \<and> has_dent E N dir_inum n inum ty
      \<and> (if is_type S_IFDIR s then ty = UBIFS_ITYPE_DIR \<and> R (make_path path n) inum (squash E s)
         else inode_type s = Some ty \<and> has_file inflate unlzo E N (make_path path n) inum s))"

fun has_tree :: "nat \<Rightarrow> (bytes \<Rightarrow> bytes option) \<Rightarrow> (bytes \<Rightarrow> bytes option) \<Rightarrow> mkfs_env \<Rightarrow> ubifs_node set \<Rightarrow> nat \<Rightarrow> nat \<Rightarrow> string \<Rightarrow> u64 \<Rightarrow> stat \<Rightarrow> bool" where
  "has_tree 0 inflate unlzo E N lo hi path inum s \<longleftrightarrow> False"
| "has_tree (Suc d) inflate unlzo E N lo hi path inum s \<longleftrightarrow>
     (\<exists>names. h_opendir (me_host E) path = Some names
      \<and> has_inode E N inum (s\<lparr>st_size := UBIFS_INO_NODE_SZ + dir_size names, st_nlink := 2 + of_nat (dir_links E path names)\<rparr>) (path_flags E path) []
      \<and> (\<forall>n\<in>set names. \<not> dot n \<longrightarrow> has_entry (has_tree d inflate unlzo E N lo hi) inflate unlzo E N lo hi path inum n))"

text \<open>The inode numbers of the inodes among some keys, and how many of the keys are of directory entries.\<close>

definition ino_nums :: "ubifs_key list \<Rightarrow> nat multiset" where
  "ino_nums keys = mset (map (unat \<circ> fst) (filter (\<lambda>k. drop_bit 29 (snd k) = 0) keys))"

definition dents :: "ubifs_key list \<Rightarrow> nat" where
  "dents keys = length (filter (\<lambda>k. drop_bit 29 (snd k) = 2) keys)"

lemma key_counts_append: "ino_nums (ks @ ks') = ino_nums ks + ino_nums ks'" "dents (ks @ ks') = dents ks + dents ks'"
  by (simp_all add: ino_nums_def dents_def)

text \<open>Nodes of other files do not matter.\<close>

definition data_range :: "nat \<Rightarrow> nat \<Rightarrow> ubifs_node set \<Rightarrow> bool" where
  "data_range lo hi N \<longleftrightarrow> (\<forall>nd\<in>N. is_data_key (fst nd) \<longrightarrow> lo < unat (fst (fst nd)) \<and> unat (fst (fst nd)) \<le> hi)"

lemma has_inode_node:
  "(ino_key_init inum, UBIFS_INO_NODE, ino_body (ino_key_init inum) creat s (use_flags (me_default_compr E) flags s) (me_default_compr E) data) \<in> N \<Longrightarrow>
   has_inode E N inum s flags data"
  unfolding has_inode_def using inode_says_body by (metis ino_key_form)

lemma has_dent_node:
  "(dent_key_init (me_key_hash E) dir_inum (c_bytes n), UBIFS_DENT_NODE, dent_body (dent_key_init (me_key_hash E) dir_inum (c_bytes n)) inum ty (c_bytes n)) \<in> N \<Longrightarrow>
   has_dent E N dir_inum n inum ty"
  unfolding has_dent_def using dent_says_body by (metis dent_key_form)

lemma has_inode_mono: "has_inode E N inum s fl data \<Longrightarrow> N \<subseteq> N' \<Longrightarrow> has_inode E N' inum s fl data"
  unfolding has_inode_def by blast

lemma has_file_mono:
  assumes "has_file inflate unlzo E N path inum s" "N \<subseteq> N'" "unat inum < 2 ^ 32" "\<And>nd. nd \<in> N' - N \<Longrightarrow> is_data_key (fst nd) \<Longrightarrow> unat (fst (fst nd)) \<noteq> unat inum"
  shows "has_file inflate unlzo E N' path inum s"
proof -
  have u: "unat (ucast inum :: u32) = unat inum" using assms(3) by (simp add: unsigned_ucast_eq take_bit_nat_eq_self)
  have "has_content inflate unlzo N' inum c" if "has_content inflate unlzo N inum c" for c
  proof -
    obtain nds where n: "block_nodes (is_data_node inflate unlzo inum) 0 (blocks c) nds" "set nds \<subseteq> N"
      "\<forall>nd\<in>N. is_data_key (fst nd) \<and> fst (fst nd) = ucast inum \<longrightarrow> nd \<in> set nds"
      using \<open>has_content inflate unlzo N inum c\<close> by (auto simp: has_content_def)
    have "nd \<in> set nds" if "nd \<in> N'" "is_data_key (fst nd)" "fst (fst nd) = ucast inum" for nd
      using n(3) that assms(4) [of nd] u by (cases "nd \<in> N") auto
    then show ?thesis using n assms(2) unfolding has_content_def by blast
  qed
  then show ?thesis using assms(1) has_inode_mono [OF _ assms(2)] by (auto simp: has_file_def)
qed

lemma has_entry_mono:
  assumes "has_entry R inflate unlzo E N lo hi path dir_inum n" "N \<subseteq> N'" "lo' \<le> lo" "hi \<le> hi'" "hi < 2 ^ 32"
    and new: "\<And>nd. nd \<in> N' - N \<Longrightarrow> is_data_key (fst nd) \<Longrightarrow> \<not> (lo < unat (fst (fst nd)) \<and> unat (fst (fst nd)) \<le> hi)"
    and R: "\<And>p i s. R p i s \<Longrightarrow> R' p i s"
  shows "has_entry R' inflate unlzo E N' lo' hi' path dir_inum n"
proof -
  obtain s inum ty where e: "h_lstat (me_host E) (make_path path n) = Some s" "lo < unat inum" "unat inum \<le> hi" "has_dent E N dir_inum n inum ty"
    "if is_type S_IFDIR s then ty = UBIFS_ITYPE_DIR \<and> R (make_path path n) inum (squash E s) else inode_type s = Some ty \<and> has_file inflate unlzo E N (make_path path n) inum s"
    using assms(1) by (auto simp: has_entry_def)
  have "has_file inflate unlzo E N' (make_path path n) inum s" if "has_file inflate unlzo E N (make_path path n) inum s"
    by (rule has_file_mono [OF that assms(2)]) (use new e(2,3) assms(5) in fastforce)+
  moreover have "has_dent E N' dir_inum n inum ty" using e(4) assms(2) by (auto simp: has_dent_def)
  ultimately show ?thesis unfolding has_entry_def using e(1-3,5) assms(3,4) R
    by (intro exI [of _ s] exI [of _ inum] exI [of _ ty]) (auto split: if_splits)
qed

lemma has_tree_mono:
  assumes "N \<subseteq> N'" "lo' \<le> lo" "hi \<le> hi'" "hi < 2 ^ 32"
    and new: "\<And>nd. nd \<in> N' - N \<Longrightarrow> is_data_key (fst nd) \<Longrightarrow> \<not> (lo < unat (fst (fst nd)) \<and> unat (fst (fst nd)) \<le> hi)"
  shows "has_tree d inflate unlzo E N lo hi path inum s \<Longrightarrow> has_tree d inflate unlzo E N' lo' hi' path inum s"
proof (induction d arbitrary: path inum s)
  case (Suc d)
  obtain names where n: "h_opendir (me_host E) path = Some names"
    "has_inode E N inum (s\<lparr>st_size := UBIFS_INO_NODE_SZ + dir_size names, st_nlink := 2 + of_nat (dir_links E path names)\<rparr>) (path_flags E path) []"
    "\<forall>n\<in>set names. \<not> dot n \<longrightarrow> has_entry (has_tree d inflate unlzo E N lo hi) inflate unlzo E N lo hi path inum n"
    using Suc.prems by auto
  have "has_entry (has_tree d inflate unlzo E N' lo' hi') inflate unlzo E N' lo' hi' path inum n" if "n \<in> set names" "\<not> dot n" for n
    by (rule has_entry_mono [OF _ assms(1-4) new Suc.IH]) (use n(3) that in blast)+
  then show ?case using n(1) has_inode_mono [OF n(2) assms(1)] by auto
qed simp

lemma drop_small: "drop_bit 29 w = 0" if "unat w < 2 ^ 29" for w :: u32
proof -
  have "take_bit 32 (unat w) = unat w" using that by (simp add: take_bit_nat_eq_self)
  then have "unat (drop_bit 29 w) = drop_bit 29 (unat w)" by (simp add: unsigned_drop_bit_eq)
  also have "\<dots> = 0" using that by (simp add: drop_bit_eq_div)
  finally show ?thesis by (simp add: unat_eq_zero)
qed

lemma dent_kind: "h n < 2 ^ 29 \<Longrightarrow> drop_bit 29 (snd (dent_key_init h inum n)) = 2"
proof -
  have "drop_bit 29 (push_bit 29 2 :: u32) = 2" by code_simp
  then show "h n < 2 ^ 29 \<Longrightarrow> ?thesis"
    using drop_small [of "h n"] by (simp add: dent_key_init_def UBIFS_S_KEY_BLOCK_BITS_def UBIFS_DENT_KEY_def drop_bit_or word_less_nat_alt del: push_bit_numeral)
qed

lemma key_kinds:
  "k < 2 ^ 29 \<Longrightarrow> is_data_key (data_key_init inum (of_nat k))" "\<not> is_data_key (ino_key_init inum)"
  "key_hash n < 2 ^ 29 \<Longrightarrow> \<not> is_data_key (dent_key_init key_hash inum n)"
proof -
  have p: "drop_bit 29 (push_bit 29 1 :: u32) = 1" by code_simp
  show "k < 2 ^ 29 \<Longrightarrow> is_data_key (data_key_init inum (of_nat k))"
    using drop_small [of "of_nat k"] p by (simp add: is_data_key_def data_key_init_def UBIFS_S_KEY_BLOCK_BITS_def UBIFS_DATA_KEY_def drop_bit_or unat_of_nat_id del: push_bit_numeral)
  show "\<not> is_data_key (ino_key_init inum)" by (simp add: is_data_key_def ino_key_init_def UBIFS_INO_KEY_def)
  show "key_hash n < 2 ^ 29 \<Longrightarrow> \<not> is_data_key (dent_key_init key_hash inum n)"
    using dent_kind [of key_hash n inum] by (simp add: is_data_key_def)
qed

lemma ino_counts: "ino_nums [ino_key_init inum] = {#unat (ucast inum :: u32)#}" "dents [ino_key_init inum] = 0"
  by (simp_all add: ino_nums_def dents_def ino_key_form)

lemma dent_counts: "h n < 2 ^ 29 \<Longrightarrow> ino_nums [dent_key_init h inum n] = {#} \<and> dents [dent_key_init h inum n] = 1"
  using dent_kind by (simp add: ino_nums_def dents_def)

lemma data_counts: "\<forall>k\<in>set ks. is_data_key k \<Longrightarrow> ino_nums ks = {#} \<and> dents ks = 0"
  by (induction ks) (auto simp: ino_nums_def dents_def is_data_key_def)

lemma squash_simps:
  "is_type t (squash E s) = is_type t s" "is_type t (s\<lparr>st_nlink := n\<rparr>) = is_type t s" "inode_type (squash E s) = inode_type s"
  "st_nlink (squash E s) = st_nlink s" "st_size (squash E s) = st_size s" "st_rdev (squash E s) = st_rdev s"
proof -
  have m: "st_mode (squash E s) = st_mode s" "st_mode (s\<lparr>st_nlink := n\<rparr>) = st_mode s" by (simp_all add: squash_def)
  show "is_type t (squash E s) = is_type t s" "is_type t (s\<lparr>st_nlink := n\<rparr>) = is_type t s" "inode_type (squash E s) = inode_type s"
    by (simp_all only: is_type_def inode_type_def m)
qed (simp_all add: squash_def)

definition kept :: "fstree \<Rightarrow> u64 \<times> inum_mapping list list \<times> devtable option \<times> stat" where
  "kept st = (ft_highest_inum st, ft_hash_table st, ft_dt st, ft_root_st st)"

lemma has_content_nodes:
  assumes "block_nodes (is_data_node inflate unlzo inum) 0 (blocks c) nds" "\<not> is_data_key (fst nd)"
  shows "has_content inflate unlzo (set (nds @ [nd])) inum c"
  using assms unfolding has_content_def by (intro exI [of _ nds]) auto

lemma content_ok:
  assumes ok: "ft_ok st" and wr: "\<And>l. me_wr E l" and cs: "codecs_ok (me_cs E) inflate unlzo" and g: "good_file E path s"
  defines "flags \<equiv> (if is_type S_IFREG s then path_flags E path else 0)"
  obtains st' nds where "add_content E path inum ((squash E s)\<lparr>st_nlink := 1\<rparr>) flags st = Ret st'" "adds st st' nds" "kept st' = kept st"
    "has_file inflate unlzo E (set nds) path inum s" "\<forall>nd\<in>set nds. is_data_key (fst nd) \<longrightarrow> fst (fst nd) = ucast inum" "ino_nums (map fst nds) = {#unat (ucast inum :: u32)#}" "dents (map fst nds) = 0"
proof -
  define b where "b = (squash E s)\<lparr>st_nlink := 1\<rparr>"
  have b: "is_type t b = is_type t s" "st_size b = st_size s" "st_rdev b = st_rdev s" for t by (simp_all add: b_def squash_simps)
  show thesis
  proof (cases "is_type S_IFREG s")
    case True
    obtain c cuts where c: "h_file (me_host E) path = (c, cuts)" by (rule prod.exhaust)
    have h: "h_open (me_host E) path" "h_close (me_host E) path" "None \<notin> set cuts" "st_size b = length c"
      using g True by (simp_all add: good_file_def c b(2))
    obtain st' nds where f: "add_file E path b inum flags st = Ret st'"
      "adds st st' (nds @ [(ino_key_init inum, UBIFS_INO_NODE, ino_body (ino_key_init inum) (ft_creat_sqnum st) b (use_flags (me_default_compr E) flags b) (me_default_compr E) [])])"
      "frame st' = frame st" "block_nodes (is_data_node inflate unlzo inum) 0 (blocks c) nds"
      by (rule add_file_ok [where E = E, OF ok wr cs h(1,2) c h(3,4)])
    let ?ino = "(ino_key_init inum, UBIFS_INO_NODE, ino_body (ino_key_init inum) (ft_creat_sqnum st) b (use_flags (me_default_compr E) flags b) (me_default_compr E) [])"
    have ret: "add_content E path inum b flags st = Ret st'" using f(1) True by (simp add: add_content_def b)
    have nd: "inode_data E path s = []" using True by (auto simp: inode_data_def is_type_def S_IFREG_def S_IFCHR_def S_IFBLK_def S_IFLNK_def)
    have "has_inode E (set (nds @ [?ino])) inum b flags []" by (rule has_inode_node [where creat = "ft_creat_sqnum st"]) simp
    then have hf: "has_file inflate unlzo E (set (nds @ [?ino])) path inum s"
      using has_content_nodes [OF f(4), of ?ino] key_kinds(2) True by (simp add: has_file_def b_def nd flags_def c)
    have rng: "\<forall>nd\<in>set (nds @ [?ino]). is_data_key (fst nd) \<longrightarrow> fst (fst nd) = ucast inum"
      using block_nodes_keys [OF f(4)] key_kinds(2) [of inum] by (fastforce simp: data_key_init_def)
    have "length (blocks c) \<le> 2 ^ 29" by (rule blocks_few) (use g True in \<open>simp add: good_file_def c\<close>)
    then have "\<forall>k\<in>set (map fst nds). is_data_key k" using block_nodes_keys [OF f(4)] key_kinds(1) by fastforce
    note cnt = data_counts [OF this] ino_counts [of inum]
    show ?thesis by (rule that [folded b_def, OF ret f(2) _ hf rng]) (use f(3) cnt in \<open>simp_all add: frame_def kept_def key_counts_append\<close>)
  next
    case False
    let ?data = "inode_data E path s"
    have ty: "inode_type s \<noteq> None" using g by (simp add: good_file_def)
    have lnk: "h_readlink (me_host E) path = Some (the (h_readlink (me_host E) path))" "the (h_readlink (me_host E) path) \<noteq> []"
      "length (the (h_readlink (me_host E) path)) \<le> UBIFS_MAX_INO_DATA" if "is_type S_IFLNK s"
      using g that by (auto simp: good_file_def split: option.splits)
    have len: "length ?data \<le> UBIFS_MAX_INO_DATA" using lnk(3) by (auto simp: inode_data_def UBIFS_MAX_INO_DATA_def ubifs_consts)
    obtain mk where mk: "add_inode_with_data E b inum ?data flags st = Ret (st\<lparr>ft_mk := mk\<rparr>)"
      "adds st (st\<lparr>ft_mk := mk\<rparr>) [(ino_key_init inum, UBIFS_INO_NODE, ino_body (ino_key_init inum) (ft_creat_sqnum st) b (use_flags (me_default_compr E) flags b) (me_default_compr E) ?data)]"
      by (rule add_inode_ok [where E = E, OF ok wr len])
    let ?ino = "(ino_key_init inum, UBIFS_INO_NODE, ino_body (ino_key_init inum) (ft_creat_sqnum st) b (use_flags (me_default_compr E) flags b) (me_default_compr E) ?data)"
    have "add_content E path inum b flags st = add_inode_with_data E b inum ?data flags st"
    proof (cases "is_type S_IFLNK s")
      case True
      then have o: "\<not> is_type S_IFCHR s" "\<not> is_type S_IFBLK s" by (auto simp: is_type_def S_IFCHR_def S_IFBLK_def S_IFLNK_def)
      obtain t where t: "h_readlink (me_host E) path = Some t" using lnk(1) [OF True] by blast
      show ?thesis using False True o lnk(2,3) [OF True] by (simp add: add_content_def b add_symlink_inode_def inode_data_def t)
    next
      case nl: False
      then show ?thesis using False ty by (auto simp: add_content_def b add_dev_inode_def add_inode_def inode_data_def inode_type_def makedev_split split: if_splits)
    qed
    then have ret: "add_content E path inum b flags st = Ret (st\<lparr>ft_mk := mk\<rparr>)" using mk(1) by simp
    have "has_inode E (set [?ino]) inum b flags ?data" by (rule has_inode_node) simp
    then have hf: "has_file inflate unlzo E (set [?ino]) path inum s" using False by (simp add: has_file_def b_def flags_def)
    show ?thesis by (rule that [folded b_def, OF ret mk(2) _ hf]) (use key_kinds(2) ino_counts [of inum] in \<open>simp_all add: kept_def\<close>)
  qed
qed

lemma non_dir_ok:
  assumes ok: "ft_ok st" and wr: "\<And>l. me_wr E l" and cs: "codecs_ok (me_cs E) inflate unlzo" and g: "good_file E path s"
  obtains st' nds ty where "add_non_dir E path inum 0 (squash E s) st = Ret (inum, ty, st')" "adds st st' nds" "kept st' = kept st" "inode_type s = Some ty"
    "has_file inflate unlzo E (set nds) path inum s" "\<forall>nd\<in>set nds. is_data_key (fst nd) \<longrightarrow> fst (fst nd) = ucast inum" "ino_nums (map fst nds) = {#unat (ucast inum :: u32)#}" "dents (map fst nds) = 0"
proof -
  define st1 where "st1 = (ft_next_sqnum st)\<lparr>ft_creat_sqnum := mk_max_sqnum (ft_mk (ft_next_sqnum st))\<rparr>"
  have ok1: "ft_ok st1" using ok ft_ok_next_sqnum [of st] by (simp add: st1_def ft_ok_def)
  let ?flags = "if is_type S_IFREG s then path_flags E path else 0"
  obtain st' nds where c: "add_content E path inum ((squash E s)\<lparr>st_nlink := 1\<rparr>) ?flags st1 = Ret st'" "adds st1 st' nds" "kept st' = kept st1"
    "has_file inflate unlzo E (set nds) path inum s" "\<forall>nd\<in>set nds. is_data_key (fst nd) \<longrightarrow> fst (fst nd) = ucast inum" "ino_nums (map fst nds) = {#unat (ucast inum :: u32)#}" "dents (map fst nds) = 0"
    by (rule content_ok [where E = E, OF ok1 wr cs g])
  obtain ty where ty: "inode_type s = Some ty" using g by (auto simp: good_file_def)
  have nl: "\<not> st_nlink s > 1" using g unfolding good_file_def by (simp add: not_less)
  have fl: "file_flags E path (squash E s) = Ret ?flags" using g by (simp add: file_flags_def squash_simps path_flags_def good_file_def)
  have ret: "add_non_dir E path inum 0 (squash E s) st = Ret (inum, ty, st')"
    unfolding add_non_dir_def fl using c(1) nl ty by (simp add: squash_simps Let_def st1_def)
  have "adds (ft_next_sqnum st) st' nds" by (rule adds_cong [OF c(2)]) (simp_all add: st1_def)
  then have a: "adds st st' nds" by (simp add: adds_next_sqnum)
  show thesis by (rule that [OF ret a _ ty c(4-7)]) (use c(3) in \<open>simp add: kept_def st1_def ft_next_sqnum_def\<close>)
qed

text \<open>A part of the walk without a device table: it has one inode for each number of \<open>X\<close> and each of those that follow the last
  one, and as many directory entries.\<close>

definition last_inum :: "fstree \<Rightarrow> nat" where
  "last_inum st = unat (ft_highest_inum st)"

definition walked :: "fstree \<Rightarrow> fstree \<Rightarrow> nat \<Rightarrow> nat multiset \<Rightarrow> ubifs_node list \<Rightarrow> bool" where
  "walked st st' c X nds \<longleftrightarrow> adds st st' nds \<and> ft_dt st' = ft_dt st \<and> ft_hash_table st' = ft_hash_table st
     \<and> last_inum st' = last_inum st + c \<and> data_range (last_inum st) (last_inum st') (set nds)
     \<and> ino_nums (map fst nds) = X + mset [Suc (last_inum st)..<Suc (last_inum st')] \<and> dents (map fst nds) = c"

lemma walkedD: "walked st st' c X nds \<Longrightarrow> ft_ok st'" "walked st st' c X nds \<Longrightarrow> last_inum st' = last_inum st + c"
  "walked st st' c X nds \<Longrightarrow> ft_dt st' = ft_dt st" "walked st st' c X nds \<Longrightarrow> data_range (last_inum st) (last_inum st') (set nds)"
  "walked st st' c X nds \<Longrightarrow> ino_nums (map fst nds) = X + mset [Suc (last_inum st)..<Suc (last_inum st')]" "walked st st' c X nds \<Longrightarrow> dents (map fst nds) = c"
  unfolding walked_def by (blast dest: addsD(1))+

lemma walked_refl: "ft_ok st \<Longrightarrow> walked st st 0 {#} []"
  by (simp add: walked_def adds_refl data_range_def ino_nums_def dents_def)

lemma data_range_widen: "data_range lo hi N \<Longrightarrow> lo' \<le> lo \<Longrightarrow> hi \<le> hi' \<Longrightarrow> data_range lo' hi' N"
  unfolding data_range_def by fastforce

lemma walked_trans:
  assumes "walked st st1 a X nds" "walked st1 st2 b Y nds'"
  shows "walked st st2 (a + b) (X + Y) (nds @ nds')"
proof -
  note l = walkedD(2) [OF assms(1)] walkedD(2) [OF assms(2)]
  have "data_range (last_inum st) (last_inum st2) (set nds)" "data_range (last_inum st) (last_inum st2) (set nds')"
    using data_range_widen [OF walkedD(4) [OF assms(1)]] data_range_widen [OF walkedD(4) [OF assms(2)]] l by simp_all
  moreover have "[Suc (last_inum st)..<Suc (last_inum st2)] = [Suc (last_inum st)..<Suc (last_inum st1)] @ [Suc (last_inum st1)..<Suc (last_inum st2)]"
    using upt_add_eq_append [of "Suc (last_inum st)" "Suc (last_inum st1)" b] by (simp add: l del: upt_Suc)
  then have "ino_nums (map fst (nds @ nds')) = X + Y + mset [Suc (last_inum st)..<Suc (last_inum st2)]"
    unfolding map_append key_counts_append walkedD(5) [OF assms(1)] walkedD(5) [OF assms(2)] by (simp del: upt_Suc)
  moreover have "dents (map fst (nds @ nds')) = a + b" by (simp add: key_counts_append walkedD(6) [OF assms(1)] walkedD(6) [OF assms(2)])
  ultimately show ?thesis using assms adds_trans [of st st1 nds st2 nds'] unfolding walked_def by (simp add: data_range_def del: upt_Suc) blast
qed

lemma entry_mono:
  assumes "has_entry (has_tree d inflate unlzo E N lo hi) inflate unlzo E N lo hi path dir_inum n" "lo' \<le> lo" "hi \<le> hi'" "hi < 2 ^ 32"
    "data_range hi ub A" "data_range lb lo B"
  shows "has_entry (has_tree d inflate unlzo E (B \<union> N \<union> A) lo' hi') inflate unlzo E (B \<union> N \<union> A) lo' hi' path dir_inum n"
proof -
  have new: "\<not> (lo < unat (fst (fst nd)) \<and> unat (fst (fst nd)) \<le> hi)" if "nd \<in> B \<union> N \<union> A - N" "is_data_key (fst nd)" for nd
    using that assms(5,6) unfolding data_range_def by fastforce
  show ?thesis by (rule has_entry_mono [OF assms(1) _ assms(2-4) new has_tree_mono [OF _ assms(2-4) new]]) auto
qed

definition walks :: "(bytes \<Rightarrow> bytes option) \<Rightarrow> (bytes \<Rightarrow> bytes option) \<Rightarrow> mkfs_env \<Rightarrow> nat \<Rightarrow> dir_walk \<Rightarrow> bool" where
  "walks inflate unlzo E d rec \<longleftrightarrow> (\<forall>path inum a st. good_tree d E path \<longrightarrow> ft_ok st \<longrightarrow> ft_dt st = None \<longrightarrow> last_inum st + tree_count d E path < 2 ^ 32 \<longrightarrow>
     (\<exists>st' nds. rec path inum a False st = Ret st' \<and> walked st st' (tree_count d E path) {#unat (ucast inum :: u32)#} nds
       \<and> has_tree d inflate unlzo E (set nds) (last_inum st) (last_inum st') path inum a))"

definition entry_count :: "nat \<Rightarrow> mkfs_env \<Rightarrow> string \<Rightarrow> nat" where
  "entry_count d E path = Suc (case h_lstat (me_host E) path of None \<Rightarrow> 0 | Some s \<Rightarrow> if is_type S_IFDIR s then tree_count d E path else 0)"

definition good_entry :: "nat \<Rightarrow> mkfs_env \<Rightarrow> string \<Rightarrow> string \<Rightarrow> bool" where
  "good_entry d E path n \<longleftrightarrow> length n \<le> 255 \<and>
     (case h_lstat (me_host E) (make_path path n) of
        None \<Rightarrow> False
      | Some s \<Rightarrow> if is_type S_IFDIR s then good_tree d E (make_path path n) else good_file E (make_path path n) s)"

lemma entry_ok:
  assumes ok: "ft_ok st" "ft_dt st = None" and wr: "\<And>l. me_wr E l" and cs: "codecs_ok (me_cs E) inflate unlzo" and hash: "\<And>n. me_key_hash E n < 2 ^ 29"
    and rec: "walks inflate unlzo E d rec" and g: "good_entry d E path n" and s: "h_lstat (me_host E) (make_path path n) = Some s"
    and fit: "last_inum st + entry_count d E (make_path path n) < 2 ^ 32"
  obtains st' nds where "add_entry rec E (make_path path n) dir_inum n (squash E s) False sn st
      = Ret ((fst sn + ALIGN (UBIFS_DENT_NODE_SZ + length n + 1) 8, snd sn + (if is_type S_IFDIR s then 1 else 0)), st')"
    "walked st st' (entry_count d E (make_path path n)) {#} nds"
    "has_entry (has_tree d inflate unlzo E (set nds) (last_inum st) (last_inum st')) inflate unlzo E (set nds) (last_inum st) (last_inum st') path dir_inum n"
proof -
  define inum where "inum = ft_highest_inum st + 1"
  define st0 where "st0 = st\<lparr>ft_highest_inum := inum\<rparr>"
  have "last_inum st + 1 < 2 ^ 64" using fit by (simp add: entry_count_def)
  then have in': "unat inum = last_inum st + 1" unfolding inum_def last_inum_def by (simp add: unat_word_ariths)
  have st0: "ft_ok st0" "ft_dt st0 = None" "last_inum st0 = last_inum st + 1" using ok in' by (simp_all add: st0_def ft_ok_def last_inum_def)
  have u: "unat (ucast inum :: u32) = unat inum" using in' fit by (simp add: unsigned_ucast_eq take_bit_nat_eq_self entry_count_def)
  let ?p = "make_path path n"
  obtain st1 nds ty where made: "(if is_type S_IFDIR (squash E s) then (case rec ?p inum (squash E s) False st0 of Ret st \<Rightarrow> Ret (inum, UBIFS_ITYPE_DIR, snd sn + 1, st) | Err e \<Rightarrow> Err e | Undef \<Rightarrow> Undef)
      else (case add_non_dir E ?p inum 0 (squash E s) st0 of Ret (inum, type, st) \<Rightarrow> Ret (inum, type, snd sn, st) | Err e \<Rightarrow> Err e | Undef \<Rightarrow> Undef))
      = Ret (inum, ty, snd sn + (if is_type S_IFDIR s then 1 else 0), st1)" "adds st st1 nds" "ft_dt st1 = None" "ft_hash_table st1 = ft_hash_table st"
    "last_inum st1 = last_inum st + entry_count d E ?p" "data_range (last_inum st) (last_inum st1) (set nds)"
    "ino_nums (map fst nds) = mset [Suc (last_inum st)..<Suc (last_inum st1)]" "Suc (dents (map fst nds)) = entry_count d E ?p"
    "if is_type S_IFDIR s then ty = UBIFS_ITYPE_DIR \<and> has_tree d inflate unlzo E (set nds) (last_inum st + 1) (last_inum st1) ?p inum (squash E s)
     else inode_type s = Some ty \<and> has_file inflate unlzo E (set nds) ?p inum s"
  proof (cases "is_type S_IFDIR s")
    case True
    then have "good_tree d E ?p" "last_inum st0 + tree_count d E ?p < 2 ^ 32" using g fit s st0(3) by (simp_all add: good_entry_def entry_count_def)
    then obtain st1 nds where r: "rec ?p inum (squash E s) False st0 = Ret st1" "walked st0 st1 (tree_count d E ?p) {#unat (ucast inum :: u32)#} nds"
      "has_tree d inflate unlzo E (set nds) (last_inum st0) (last_inum st1) ?p inum (squash E s)"
      using rec st0(1,2) unfolding walks_def by blast
    have a: "adds st st1 nds" by (rule adds_cong [of st0 st1]) (use r(2) in \<open>simp_all add: walked_def st0_def\<close>)
    have l: "last_inum st1 = last_inum st + entry_count d E ?p" using walkedD(2) [OF r(2)] True s st0(3) by (simp add: entry_count_def)
    have dr: "data_range (last_inum st) (last_inum st1) (set nds)" by (rule data_range_widen [OF walkedD(4) [OF r(2)]]) (simp_all add: st0(3))
    have "[Suc (last_inum st)..<Suc (last_inum st1)] = Suc (last_inum st) # [Suc (last_inum st0)..<Suc (last_inum st1)]"
      using l by (subst upt_conv_Cons) (simp_all add: st0(3) entry_count_def)
    then have ns: "ino_nums (map fst nds) = mset [Suc (last_inum st)..<Suc (last_inum st1)]" using walkedD(5) [OF r(2)] u in' by (simp del: upt_Suc)
    have ds: "Suc (dents (map fst nds)) = entry_count d E ?p" using walkedD(6) [OF r(2)] True s by (simp add: entry_count_def)
    show thesis by (rule that [OF _ a _ _ l dr ns ds]) (use True r st0 in \<open>simp_all add: squash_simps walked_def st0_def\<close>)
  next
    case False
    then have gf: "good_file E ?p s" using g s by (simp add: good_entry_def)
    obtain st1 nds ty where r: "add_non_dir E ?p inum 0 (squash E s) st0 = Ret (inum, ty, st1)" "adds st0 st1 nds" "kept st1 = kept st0" "inode_type s = Some ty"
      "has_file inflate unlzo E (set nds) ?p inum s" "\<forall>nd\<in>set nds. is_data_key (fst nd) \<longrightarrow> fst (fst nd) = ucast inum"
      "ino_nums (map fst nds) = {#unat (ucast inum :: u32)#}" "dents (map fst nds) = 0"
      by (rule non_dir_ok [where E = E, OF st0(1) wr cs gf])
    have a: "adds st st1 nds" by (rule adds_cong [OF r(2)]) (simp_all add: st0_def)
    have l: "last_inum st1 = last_inum st + 1" using r(3) st0(3) by (simp add: kept_def last_inum_def)
    have dr: "data_range (last_inum st) (last_inum st1) (set nds)" using r(6) u in' l by (auto simp: data_range_def)
    show thesis by (rule that [OF _ a _ _ _ dr]) (use False r s l ok u in' in \<open>simp_all add: squash_simps kept_def st0_def entry_count_def\<close>)
  qed
  have nl: "length n \<le> 4096" using g by (simp add: good_entry_def)
  let ?dk = "dent_key_init (me_key_hash E) dir_inum (c_bytes n)"
  obtain mk where dn: "add_dent_node E dir_inum n inum ty st1 = Ret (st1\<lparr>ft_mk := mk\<rparr>)"
    "adds st1 (st1\<lparr>ft_mk := mk\<rparr>) [(?dk, UBIFS_DENT_NODE, dent_body ?dk inum ty (c_bytes n))]"
    by (rule add_dent_ok [where E = E, OF addsD(1) [OF made(2)] wr nl])
  define st' where "st' = st1\<lparr>ft_mk := mk\<rparr>"
  define nds' where "nds' = nds @ [(?dk, UBIFS_DENT_NODE, dent_body ?dk inum ty (c_bytes n))]"
  have l': "last_inum st' = last_inum st1" by (simp add: st'_def last_inum_def)
  have ret: "add_entry rec E ?p dir_inum n (squash E s) False sn st
      = Ret ((fst sn + ALIGN (UBIFS_DENT_NODE_SZ + length n + 1) 8, snd sn + (if is_type S_IFDIR s then 1 else 0)), st')"
    unfolding add_entry_def Let_def inum_def [symmetric] st0_def [symmetric] made(1) by (simp add: dn(1) st'_def)
  have ndk: "\<not> is_data_key ?dk" using key_kinds(3) [of "me_key_hash E" "c_bytes n", OF hash] .
  have w: "walked st st' (entry_count d E ?p) {#} nds'"
    using adds_trans [OF made(2) dn(2)] made(3-8) ok(2) ndk l' dent_counts [where h = "me_key_hash E" and n = "c_bytes n" and inum = dir_inum, OF hash]
    by (simp add: walked_def st'_def nds'_def data_range_def key_counts_append del: upt_Suc)
  have sub: "set nds \<subseteq> set nds'" by (auto simp: nds'_def)
  have old: "\<not> is_data_key (fst nd)" if "nd \<in> set nds' - set nds" for nd using that ndk by (auto simp: nds'_def)
  have hi: "last_inum st1 < 2 ^ 32" using fit made(5) by simp
  have rng: "last_inum st < unat inum" "unat inum \<le> last_inum st'" using in' made(5) l' by (simp_all add: entry_count_def)
  have "has_tree d inflate unlzo E (set nds') (last_inum st) (last_inum st') ?p inum (squash E s)"
    if "has_tree d inflate unlzo E (set nds) (last_inum st + 1) (last_inum st1) ?p inum (squash E s)"
    by (rule has_tree_mono [OF sub _ _ hi _ that]) (use l' old in \<open>simp | blast\<close>)+
  moreover have "has_file inflate unlzo E (set nds') ?p inum s" if "has_file inflate unlzo E (set nds) ?p inum s"
    by (rule has_file_mono [OF that sub]) (use rng hi l' old in \<open>linarith | blast\<close>)+
  moreover have "has_dent E (set nds') dir_inum n inum ty" by (rule has_dent_node) (simp add: nds'_def)
  ultimately have "has_entry (has_tree d inflate unlzo E (set nds') (last_inum st) (last_inum st')) inflate unlzo E (set nds') (last_inum st) (last_inum st') path dir_inum n"
    unfolding has_entry_def using s rng made(9) by (intro exI [of _ s] exI [of _ inum] exI [of _ ty]) (auto split: if_splits)
  then show thesis by (rule that [OF ret w])
qed

definition names_count :: "nat \<Rightarrow> mkfs_env \<Rightarrow> string \<Rightarrow> string list \<Rightarrow> nat" where
  "names_count d E path ds = sum_list (map (\<lambda>n. if dot n then 0 else entry_count d E (make_path path n)) ds)"

lemma host_entries_ok:
  assumes wr: "\<And>l. me_wr E l" and cs: "codecs_ok (me_cs E) inflate unlzo" and hash: "\<And>n. me_key_hash E n < 2 ^ 29" and rec: "walks inflate unlzo E d rec"
  shows "ft_ok st \<Longrightarrow> ft_dt st = None \<Longrightarrow> list_all (\<lambda>n. dot n \<or> good_entry d E path n) ds \<Longrightarrow> last_inum st + names_count d E path ds < 2 ^ 32 \<Longrightarrow>
    \<exists>st' nds. host_entries rec E path dir_inum None ds sn st = Ret ((fst sn + dir_size ds, snd sn + of_nat (dir_links E path ds)), st')
      \<and> walked st st' (names_count d E path ds) {#} nds
      \<and> (\<forall>n\<in>set ds. \<not> dot n \<longrightarrow> has_entry (has_tree d inflate unlzo E (set nds) (last_inum st) (last_inum st')) inflate unlzo E (set nds)
           (last_inum st) (last_inum st') path dir_inum n)"
proof (induction ds arbitrary: sn st)
  case Nil
  show ?case using walked_refl [OF Nil(1)] by (intro exI [of _ st] exI [of _ "[]"]) (simp add: dir_size_def dir_links_def names_count_def)
next
  case (Cons n ds)
  show ?case
  proof (cases "dot n")
    case True
    then have c: "names_count d E path (n # ds) = names_count d E path ds" "dir_size (n # ds) = dir_size ds" "dir_links E path (n # ds) = dir_links E path ds"
      by (simp_all add: names_count_def dir_size_def dir_links_def)
    have f: "last_inum st + names_count d E path ds < 2 ^ 32" "list_all (\<lambda>n. dot n \<or> good_entry d E path n) ds" using Cons.prems(3,4) c(1) by simp_all
    have "host_entries rec E path dir_inum None (n # ds) sn st = host_entries rec E path dir_inum None ds sn st" using True by (simp add: dot_def)
    then show ?thesis using Cons.IH [OF Cons.prems(1,2) f(2,1), of sn] True unfolding c by simp
  next
    case False
    let ?p = "make_path path n"
    have g: "good_entry d E path n" using Cons.prems(3) False by simp
    then obtain s where s: "h_lstat (me_host E) ?p = Some s" by (auto simp: good_entry_def split: option.splits)
    have cnt: "names_count d E path (n # ds) = entry_count d E ?p + names_count d E path ds" using False by (simp add: names_count_def)
    have fit: "last_inum st + entry_count d E ?p < 2 ^ 32" using Cons.prems(4) cnt by linarith
    obtain st1 nds1 where e: "add_entry rec E ?p dir_inum n (squash E s) False sn st
        = Ret ((fst sn + ALIGN (UBIFS_DENT_NODE_SZ + length n + 1) 8, snd sn + (if is_type S_IFDIR s then 1 else 0)), st1)"
      "walked st st1 (entry_count d E ?p) {#} nds1"
      "has_entry (has_tree d inflate unlzo E (set nds1) (last_inum st) (last_inum st1)) inflate unlzo E (set nds1) (last_inum st) (last_inum st1) path dir_inum n"
      by (rule entry_ok [where E = E, OF Cons.prems(1,2) wr cs hash rec g s fit])
    define sn1 where "sn1 = (fst sn + ALIGN (UBIFS_DENT_NODE_SZ + length n + 1) 8, snd sn + (if is_type S_IFDIR s then 1 else 0))"
    have l1: "last_inum st1 = last_inum st + entry_count d E ?p" using walkedD(2) [OF e(2)] .
    have fit1: "last_inum st1 + names_count d E path ds < 2 ^ 32" using Cons.prems(4) cnt l1 by linarith
    have dt1: "ft_dt st1 = None" using walkedD(3) [OF e(2)] Cons.prems(2) by simp
    have gd: "list_all (\<lambda>n. dot n \<or> good_entry d E path n) ds" using Cons.prems(3) by simp
    obtain st' nds2 where r: "host_entries rec E path dir_inum None ds sn1 st1 = Ret ((fst sn1 + dir_size ds, snd sn1 + of_nat (dir_links E path ds)), st')"
      "walked st1 st' (names_count d E path ds) {#} nds2"
      "\<forall>n\<in>set ds. \<not> dot n \<longrightarrow> has_entry (has_tree d inflate unlzo E (set nds2) (last_inum st1) (last_inum st')) inflate unlzo E (set nds2) (last_inum st1) (last_inum st') path dir_inum n"
      using Cons.IH [OF walkedD(1) [OF e(2)] dt1 gd fit1, of sn1] by blast
    have l2: "last_inum st' = last_inum st1 + names_count d E path ds" using walkedD(2) [OF r(2)] .
    have hi: "last_inum st1 < 2 ^ 32" "last_inum st' < 2 ^ 32" using fit1 l2 by simp_all
    have es: "entry_stat E None ?p n st = Ret (squash E s, st)" by (simp add: entry_stat_def s squash_def)
    have nd: "\<not> (n = ''.'' \<or> n = ''..'')" using False by (simp add: dot_def)
    have dirs: "fst sn1 + dir_size ds = fst sn + dir_size (n # ds)" "snd sn1 + of_nat (dir_links E path ds) = snd sn + of_nat (dir_links E path (n # ds))"
      using False by (simp_all add: sn1_def dir_size_def dir_links_def is_dir_def s)
    have ret: "host_entries rec E path dir_inum None (n # ds) sn st = Ret ((fst sn + dir_size (n # ds), snd sn + of_nat (dir_links E path (n # ds))), st')"
      using r(1) unfolding host_entries.simps Let_def es if_not_P [OF nd] dirs by (simp add: e(1) [folded sn1_def])
    have w: "walked st st' (names_count d E path (n # ds)) {#} (nds1 @ nds2)" unfolding cnt using walked_trans [OF e(2) r(2)] by simp
    have z: "data_range 0 0 {}" "data_range (last_inum st') 0 {}" by (simp_all add: data_range_def)
    have h1: "has_entry (has_tree d inflate unlzo E (set (nds1 @ nds2)) (last_inum st) (last_inum st')) inflate unlzo E (set (nds1 @ nds2)) (last_inum st) (last_inum st') path dir_inum n"
      using entry_mono [OF e(3) order_refl _ hi(1) walkedD(4) [OF r(2)], of "last_inum st'" 0 "{}"] l2 by (simp add: data_range_def)
    have h2: "has_entry (has_tree d inflate unlzo E (set (nds1 @ nds2)) (last_inum st) (last_inum st')) inflate unlzo E (set (nds1 @ nds2)) (last_inum st) (last_inum st') path dir_inum m"
      if "m \<in> set ds" "\<not> dot m" for m
    proof -
      have "has_entry (has_tree d inflate unlzo E (set nds2) (last_inum st1) (last_inum st')) inflate unlzo E (set nds2) (last_inum st1) (last_inum st') path dir_inum m"
        using r(3) that by blast
      from entry_mono [OF this _ order_refl hi(2) z(2) walkedD(4) [OF e(2)], of "last_inum st"] show ?thesis using l1 by simp
    qed
    show ?thesis using ret w h1 h2 by (intro exI [of _ st'] exI [of _ "nds1 @ nds2"]) auto
  qed
qed

lemma directory_ok:
  assumes wr: "\<And>l. me_wr E l" and cs: "codecs_ok (me_cs E) inflate unlzo" and hash: "\<And>n. me_key_hash E n < 2 ^ 29"
  shows "walks inflate unlzo E d (add_directory d E)"
proof (induction d)
  case (Suc d)
  show ?case unfolding walks_def
  proof (intro allI impI)
    fix path inum and a :: stat and st assume g: "good_tree (Suc d) E path" "ft_ok st" "ft_dt st = None" "last_inum st + tree_count (Suc d) E path < 2 ^ 32"
    obtain names where o: "h_opendir (me_host E) path = Some names" "list_all (\<lambda>n. dot n \<or> good_entry d E path n) names" "h_dirfd (me_host E) path" "h_closedir (me_host E) path"
      using g(1) by (auto simp: good_entry_def split: option.splits)
    have cnt: "tree_count (Suc d) E path = names_count d E path names" unfolding names_count_def entry_count_def by (simp add: o(1))
    define st0 where "st0 = ft_next_sqnum st"
    have st0: "ft_ok st0" "ft_dt st0 = None" "last_inum st0 = last_inum st" "last_inum st0 + names_count d E path names < 2 ^ 32"
      using g(2,3,4) cnt by (simp_all add: st0_def ft_ok_next_sqnum last_inum_def) (simp_all add: ft_next_sqnum_def)
    obtain st1 nds where r: "host_entries (add_directory d E) E path inum None names (UBIFS_INO_NODE_SZ, 2) st0
        = Ret ((UBIFS_INO_NODE_SZ + dir_size names, 2 + of_nat (dir_links E path names)), st1)" "walked st0 st1 (names_count d E path names) {#} nds"
      "\<forall>n\<in>set names. \<not> dot n \<longrightarrow> has_entry (has_tree d inflate unlzo E (set nds) (last_inum st0) (last_inum st1)) inflate unlzo E (set nds) (last_inum st0) (last_inum st1) path inum n"
      using host_entries_ok [where E = E, OF wr cs hash Suc st0(1,2) o(2) st0(4), of inum "(UBIFS_INO_NODE_SZ, 2)"] by auto
    have dt1: "ft_dt st1 = None" using walkedD(3) [OF r(2)] st0(2) by simp
    define b :: stat where "b = a\<lparr>st_size := UBIFS_INO_NODE_SZ + dir_size names, st_nlink := 2 + of_nat (dir_links E path names)\<rparr>"
    define st2 where "st2 = st1\<lparr>ft_creat_sqnum := mk_max_sqnum (ft_mk st0)\<rparr>"
    have ok2: "ft_ok st2" using walkedD(1) [OF r(2)] by (simp add: st2_def ft_ok_def)
    obtain mk where mk: "add_inode_with_data E b inum [] (path_flags E path) st2 = Ret (st2\<lparr>ft_mk := mk\<rparr>)"
      "adds st2 (st2\<lparr>ft_mk := mk\<rparr>) [(ino_key_init inum, UBIFS_INO_NODE, ino_body (ino_key_init inum) (ft_creat_sqnum st2) b (use_flags (me_default_compr E) (path_flags E path) b) (me_default_compr E) [])]"
      by (rule add_inode_ok [where E = E, OF ok2 wr, of "[]"]) simp_all
    let ?ino = "(ino_key_init inum, UBIFS_INO_NODE, ino_body (ino_key_init inum) (ft_creat_sqnum st2) b (use_flags (me_default_compr E) (path_flags E path) b) (me_default_compr E) [])"
    define st' where "st' = st2\<lparr>ft_mk := mk\<rparr>"
    have l': "last_inum st' = last_inum st1" by (simp add: st'_def st2_def last_inum_def)
    have fin: "finish_directory E (Some path) inum (mk_max_sqnum (ft_mk st0)) a (UBIFS_INO_NODE_SZ + dir_size names, 2 + of_nat (dir_links E path names)) st1 = Ret st'"
      using o(3,4) mk(1) unfolding finish_directory_def add_dir_inode_def add_inode_def Let_def fst_conv snd_conv st2_def [symmetric] b_def [symmetric] path_flags_def [symmetric] st'_def
      by (simp add: path_flags_def)
    have ret: "add_directory (Suc d) E path inum a False st = Ret st'"
      using o(1) r(1) fin by (simp add: Let_def st0_def [symmetric] devtbl_find_path_def st0(2) add_table_entries_def first_name_htbl_element_def dt1)
    have a2: "adds st1 st' [?ino]" unfolding st'_def by (rule adds_cong [OF mk(2)]) (simp_all add: st2_def)
    have w1: "walked st1 st' 0 {#unat (ucast inum :: u32)#} [?ino]"
      using a2 key_kinds(2) [of inum] l' ino_counts [of inum] by (simp add: walked_def st'_def st2_def data_range_def)
    have e0: "ft_dt st0 = ft_dt st" "ft_hash_table st0 = ft_hash_table st" "adds st0 x y = adds st x y" for x y
      by (simp_all add: st0_def adds_next_sqnum) (simp_all add: ft_next_sqnum_def)
    have "walked st0 st' (names_count d E path names) {#unat (ucast inum :: u32)#} (nds @ [?ino])" using walked_trans [OF r(2) w1] by simp
    then have w: "walked st st' (tree_count (Suc d) E path) {#unat (ucast inum :: u32)#} (nds @ [?ino])" unfolding cnt walked_def e0 st0(3) .
    have hi: "last_inum st1 < 2 ^ 32" using walkedD(2) [OF r(2)] st0(4) by simp
    have ents: "has_entry (has_tree d inflate unlzo E (set (nds @ [?ino])) (last_inum st) (last_inum st')) inflate unlzo E (set (nds @ [?ino])) (last_inum st) (last_inum st') path inum n"
      if n: "n \<in> set names" "\<not> dot n" for n
    proof -
      have z: "data_range (last_inum st1) (last_inum st1) {?ino}" "data_range 0 (last_inum st0) {}" using key_kinds(2) [of inum] by (simp_all add: data_range_def)
      have "has_entry (has_tree d inflate unlzo E (set nds) (last_inum st0) (last_inum st1)) inflate unlzo E (set nds) (last_inum st0) (last_inum st1) path inum n" using r(3) n by blast
      from entry_mono [OF this order_refl order_refl hi z] show ?thesis by (simp add: l' st0(3))
    qed
    have "has_inode E (set (nds @ [?ino])) inum b (path_flags E path) []" by (rule has_inode_node [where creat = "ft_creat_sqnum st2"]) simp
    then have t: "has_tree (Suc d) inflate unlzo E (set (nds @ [?ino])) (last_inum st) (last_inum st') path inum a"
      using o(1) ents by (simp only: has_tree.simps b_def) blast
    show "\<exists>st' nds. add_directory (Suc d) E path inum a False st = Ret st' \<and> walked st st' (tree_count (Suc d) E path) {#unat (ucast inum :: u32)#} nds
       \<and> has_tree (Suc d) inflate unlzo E (set nds) (last_inum st) (last_inum st') path inum a"
      using ret w t by blast
  qed
qed (simp add: walks_def)

section \<open>The whole tree\<close>

lemma adds_nodes: "adds st st' nds \<Longrightarrow> nd \<in> set nds \<Longrightarrow> \<exists>e\<in>set (mk_idx (ft_mk st')). holds_node (ft_mk st') e nd"
proof -
  assume a: "adds st st' nds" "nd \<in> set nds"
  then obtain es where es: "mk_idx (ft_mk st') = mk_idx (ft_mk st) @ es" "list_all2 (holds_node (ft_mk st')) es nds" by (auto simp: adds_def)
  obtain i where i: "i < length nds" "nds ! i = nd" using a(2) by (auto simp: in_set_conv_nth)
  have "es ! i \<in> set es" "holds_node (ft_mk st') (es ! i) nd" using es(2) i by (auto simp: list_all2_conv_all_nth)
  then show ?thesis using es(1) by auto
qed

text \<open>With an empty head every node is on flash.\<close>

lemma read_held:
  assumes "mk_head_offs mk = 0" "holds_node mk e nd"
  obtains node where "read_ubifs (mk_lebs mk) (e_lnum e, e_offs e, e_len e) = Some node" "node_type node = fst (snd nd)" "node_data node = snd (snd nd)"
    "take 16 (node_data node) = key_write (e_key e)" "e_lnum e < mk_head_lnum mk"
proof -
  obtain sq where s: "stored (view mk) (e_lnum e, e_offs e) (prepare_node sq (fst (snd nd)) (snd (snd nd)))" using assms(2) by (auto simp: holds_node_def)
  let ?n = "prepare_node sq (fst (snd nd)) (snd (snd nd))"
  have ne: "?n \<noteq> []" by (metis length_prepare_node list.size(3) add_is_0 UBIFS_CH_SZ_def zero_neq_numeral)
  note p = prepare_node_ok [of sq "fst (snd nd)" "snd (snd nd)"]
  have r: "read_ubifs (mk_lebs mk) (e_lnum e, e_offs e, e_len e) = Some ?n"
    using read_ubifs_flashed [OF stored_flushed(1) [OF assms(1) s ne] p(1)] assms(2) by (simp add: view_def holds_node_def)
  show thesis by (rule that [OF r p(2,3)]) (use stored_flushed(2) [OF assms(1) s ne] assms(2) p(3) in \<open>simp_all add: holds_node_def\<close>)
qed

lemma write_data_ok:
  assumes ok: "ft_ok st" "ft_dt st = None" "concat (ft_hash_table st) = []" and wr: "\<And>l. me_wr E l" and cs: "codecs_ok (me_cs E) inflate unlzo"
    and hash: "\<And>n. me_key_hash E n < 2 ^ 29" and root: "me_root E = Some root" "me_root_stat E = Some rs" "good_tree d E root" "last_inum st + tree_count d E root < 2 ^ 32"
  obtains st' nds where "write_data d E st = Ret st'" "adds st st' nds" "mk_head_offs (ft_mk st') = 0" "last_inum st' = last_inum st + tree_count d E root"
    "has_tree d inflate unlzo E (set nds) (last_inum st) (last_inum st') root UBIFS_ROOT_INO rs"
    "ino_nums (map fst nds) = add_mset 1 (mset [Suc (last_inum st)..<Suc (last_inum st')])" "dents (map fst nds) = tree_count d E root"
proof -
  define st0 where "st0 = st\<lparr>ft_root_st := rs, ft_mk := (ft_mk st)\<lparr>mk_head_flags := 0\<rparr>\<rparr>"
  have v: "view (ft_mk st0) = view (ft_mk st)" "fixed (ft_mk st0) = fixed (ft_mk st)" "mk_ok (ft_mk st0) = mk_ok (ft_mk st)" "mk_idx (ft_mk st0) = mk_idx (ft_mk st)"
    by (simp_all add: st0_def view_def fixed_def mk_ok_def)
  have st0: "ft_ok st0" "ft_dt st0 = None" "last_inum st0 = last_inum st" "ft_hash_table st0 = ft_hash_table st" "ft_root_st st0 = rs"
    using ok by (simp_all add: ft_ok_def v holds_node_def) (simp_all add: st0_def last_inum_def)
  obtain st1 nds where w: "add_directory d E root UBIFS_ROOT_INO rs False st0 = Ret st1" "walked st0 st1 (tree_count d E root) {#unat (ucast UBIFS_ROOT_INO :: u32)#} nds"
    "has_tree d inflate unlzo E (set nds) (last_inum st0) (last_inum st1) root UBIFS_ROOT_INO rs"
    using directory_ok [where E = E, OF wr cs hash, of d] root(3,4) st0 unfolding walks_def by metis
  have ht: "concat (ft_hash_table st1) = []" using w(2) st0(4) ok(3) by (simp add: walked_def)
  obtain mk where mk: "flush_nodes (me_wr E) (ft_mk st1) = Ret mk" "adds st1 (st1\<lparr>ft_mk := mk\<rparr>) []" "mk_head_offs mk = 0"
    by (rule flush_adds [where E = E, OF wr walkedD(1) [OF w(2)]])
  define st' where "st' = st1\<lparr>ft_mk := mk\<rparr>"
  have ret: "write_data d E st = Ret st'"
    unfolding write_data_def using root(1,2) w(1) ht mk(1)
    by (simp add: st0_def [symmetric] add_root_def st0(5) add_multi_linked_files_def st'_def del: concat_eq_Nil_conv)
  have "adds st0 st1 nds" using w(2) by (simp add: walked_def)
  then have "adds st0 st' (nds @ [])" unfolding st'_def by (rule adds_trans [OF _ mk(2)])
  then have a: "adds st st' nds" by (simp add: adds_def v)
  have l: "last_inum st' = last_inum st1" by (simp add: st'_def last_inum_def)
  have "unat (ucast UBIFS_ROOT_INO :: u32) = 1" by (simp add: UBIFS_ROOT_INO_def)
  then have n: "ino_nums (map fst nds) = add_mset 1 (mset [Suc (last_inum st)..<Suc (last_inum st')])"
    using walkedD(5) [OF w(2)] l st0(3) by (simp del: upt_Suc)
  have h: "mk_head_offs (ft_mk st') = 0" using mk(3) by (simp add: st'_def)
  show thesis by (rule that [OF ret a h _ _ n walkedD(6) [OF w(2)]]) (use walkedD(2) [OF w(2)] w(3) l st0(3) in simp_all)
qed

text \<open>The reader of a regular file: its inode gives the size.\<close>

definition read_regular :: "(bytes \<Rightarrow> bytes option) \<Rightarrow> (bytes \<Rightarrow> bytes option) \<Rightarrow> (ubifs_key \<Rightarrow> (u8 \<times> bytes) option) \<Rightarrow> u64 \<Rightarrow> bytes option" where
  "read_regular inflate unlzo look inum =
     (case look (ucast inum, 0) of
        None \<Rightarrow> None
      | Some (ty, b) \<Rightarrow> if ty = UBIFS_INO_NODE then read_file inflate unlzo look inum (unat (le_at 24 8 b :: u64)) else None)"

lemma file_nodes_look:
  assumes nds: "block_nodes (is_data_node inflate unlzo inum) 0 (blocks c) nds" and fit: "length c \<le> 2 ^ 29 * UBIFS_BLOCK_SIZE"
  shows "map_of (nds @ [(ino_key_init inum, v)]) (ino_key_init inum) = Some v"
    and "k < length (blocks c) \<Longrightarrow> map_of (nds @ [(ino_key_init inum, v)]) (data_key_init inum (of_nat k)) = map_of nds (data_key_init inum (of_nat k))"
proof -
  note n = blocks_few [OF fit]
  have ne: "data_key_init inum (of_nat k) \<noteq> ino_key_init inum" if "k < length (blocks c)" for k
    using key_kinds(1) [of k inum] key_kinds(2) [of inum] that n by auto
  have "map_of nds (ino_key_init inum) = None"
  proof (rule ccontr)
    assume "map_of nds (ino_key_init inum) \<noteq> None"
    then obtain w where "(ino_key_init inum, w) \<in> set nds" by (auto dest: map_of_SomeD)
    then show False using block_nodes_keys [OF nds] ne by fastforce
  qed
  then show "map_of (nds @ [(ino_key_init inum, v)]) (ino_key_init inum) = Some v" by (simp add: map_add_def)
  show "map_of (nds @ [(ino_key_init inum, v)]) (data_key_init inum (of_nat k)) = map_of nds (data_key_init inum (of_nat k))" if "k < length (blocks c)"
    using ne [OF that] by (simp add: map_add_def split: option.split)
qed

text \<open>C5. Files are stored completely: however the system cuts a file into reads, \<open>add_file\<close> writes exactly one inode with the number,
  size, times, link count, owner, mode, flags and compression type of the file, and data nodes such that a reader who finds
  the inode by its number, takes the size from it, looks up the blocks, expands them and takes a missing block for zeros gets
  the content of the file; the nodes are stored with valid checksums and entered in the index, in this order and no others.
  This is for a file that can be opened, read and closed, keeps its size and has at most \<open>2 ^ 29\<close> blocks, and for compressors
  that meet their contracts.\<close>

theorem add_file_reads_back:
  assumes "ft_ok st" "\<And>l. me_wr E l" "codecs_ok (me_cs E) inflate unlzo" "h_open (me_host E) path" "h_close (me_host E) path"
    "h_file (me_host E) path = (c, cuts)" "None \<notin> set cuts" "st_size s = length c" "length c \<le> 2 ^ 29 * UBIFS_BLOCK_SIZE"
  shows "\<exists>st' nds ino. add_file E path s inum flags st = Ret st' \<and> adds st st' nds
    \<and> filter (\<lambda>nd. fst (snd nd) = UBIFS_INO_NODE) nds = [((ucast inum, 0), UBIFS_INO_NODE, ino)] \<and> inode_says E ino inum s flags []
    \<and> read_regular inflate unlzo (map_of nds) inum = Some c"
proof -
  obtain st' nds where f: "add_file E path s inum flags st = Ret st'"
    "adds st st' (nds @ [(ino_key_init inum, UBIFS_INO_NODE, ino_body (ino_key_init inum) (ft_creat_sqnum st) s (use_flags (me_default_compr E) flags s) (me_default_compr E) [])])"
    "frame st' = frame st" "block_nodes (is_data_node inflate unlzo inum) 0 (blocks c) nds"
    by (rule add_file_ok [where E = E, OF assms(1-8)])
  define ino where "ino = ino_body (ino_key_init inum) (ft_creat_sqnum st) s (use_flags (me_default_compr E) flags s) (me_default_compr E) []"
  let ?nds = "nds @ [(ino_key_init inum, UBIFS_INO_NODE, ino)]"
  have says: "inode_says E ino inum s flags []" unfolding ino_def by (rule inode_says_body)
  have "filter (\<lambda>nd. fst (snd nd) = UBIFS_INO_NODE) nds = []" using block_nodes_types [OF f(4)] by (fastforce simp: filter_empty_conv UBIFS_DATA_NODE_def UBIFS_INO_NODE_def)
  then have one: "filter (\<lambda>nd. fst (snd nd) = UBIFS_INO_NODE) ?nds = [((ucast inum, 0), UBIFS_INO_NODE, ino)]" by (simp add: ino_key_form)
  note look = file_nodes_look [OF f(4) assms(9)]
  have "read_file inflate unlzo (map_of ?nds) inum (length c) = Some c" by (rule read_file_blocks [OF f(4) assms(9) look(2)])
  moreover have "unat (le_at 24 8 ino :: u64) = length c" using says assms(8,9) by (simp add: inode_says_def unat_of_nat_id ubifs_consts)
  ultimately have "read_regular inflate unlzo (map_of ?nds) inum = Some c"
    using look(1) [of "(UBIFS_INO_NODE, ino)"] by (simp only: read_regular_def ino_key_form [symmetric] option.case prod.case refl if_True)
  then show ?thesis using f(1,2) one says unfolding ino_def [symmetric] by blast
qed

text \<open>A host with one file of two blocks, read in pieces.\<close>

definition demo_host :: host where
  "demo_host = \<lparr>h_opendir = (\<lambda>p. if p = ''r/'' then Some [''.'', ''..'', ''f''] else None), h_closedir = (\<lambda>_. True), h_dirfd = (\<lambda>_. True),
     h_lstat = (\<lambda>p. if p = ''r/f'' then Some ((no_root_stat 7)\<lparr>st_mode := 0x81A4, st_nlink := 1, st_size := 5000\<rparr>) else None), h_open = (\<lambda>_. True), h_close = (\<lambda>_. True),
     h_getflags = (\<lambda>_. None), h_file = (\<lambda>_. (replicate 5000 7, [Some 99])), h_readlink = (\<lambda>_. None)\<rparr>"

definition demo_env :: mkfs_env where
  "demo_env = \<lparr>me_host = demo_host, me_wr = (\<lambda>_. True), me_cs = demo_codecs, me_key_hash = key_r5_hash, me_default_compr = MKFS_UBIFS_COMPR_LZO,
     me_squash_owner = True, me_root = Some ''r/'', me_root_stat = Some (no_root_stat 7), me_time = 7\<rparr>"

definition small_tree :: fstree where
  "small_tree = \<lparr>ft_mk = small_mkfs\<lparr>mk_idx := []\<rparr>, ft_highest_inum = UBIFS_FIRST_INO, ft_creat_sqnum = 0,
     ft_hash_table = replicate HASH_TABLE_SIZE [], ft_dt = None, ft_root_st = no_root_stat 0, ft_errcnt = 0\<rparr>"

lemma small_tree_ok: "ft_ok small_tree"
  using small_mkfs_ok by (simp add: ft_ok_def small_tree_def mk_ok_def)

theorem add_file_reads_back_witness:
  "\<exists>st' nds ino. add_file demo_env ''r/f'' ((no_root_stat 7)\<lparr>st_size := 5000\<rparr>) 65 0 small_tree = Ret st' \<and> adds small_tree st' nds
    \<and> filter (\<lambda>nd. fst (snd nd) = UBIFS_INO_NODE) nds = [((65, 0), UBIFS_INO_NODE, ino)] \<and> le_at 24 8 ino = (5000 :: u64)
    \<and> read_regular demo_unpack demo_unpack (map_of nds) 65 = Some (replicate 5000 7)"
proof -
  have h: "me_wr demo_env l" "codecs_ok (me_cs demo_env) demo_unpack demo_unpack" "h_open (me_host demo_env) ''r/f''" "h_close (me_host demo_env) ''r/f''"
    "h_file (me_host demo_env) ''r/f'' = (replicate 5000 7, [Some 99])" for l
    using demo_codecs_ok by (simp_all add: demo_env_def demo_host_def)
  let ?s = "(no_root_stat 7)\<lparr>st_size := 5000\<rparr>"
  have c: "None \<notin> set [Some (99 :: nat)]" "st_size ?s = length (replicate 5000 (7 :: u8))" "length (replicate 5000 (7 :: u8)) \<le> 2 ^ 29 * UBIFS_BLOCK_SIZE"
    by (simp_all add: ubifs_consts)
  obtain st' nds ino where "add_file demo_env ''r/f'' ?s 65 0 small_tree = Ret st'" "adds small_tree st' nds"
    "filter (\<lambda>nd. fst (snd nd) = UBIFS_INO_NODE) nds = [((ucast (65 :: u64), 0), UBIFS_INO_NODE, ino)]" "inode_says demo_env ino 65 ?s 0 []"
    "read_regular demo_unpack demo_unpack (map_of nds) 65 = Some (replicate 5000 7)"
    using add_file_reads_back [where E = demo_env, OF small_tree_ok h c, of 65 0] by blast
  then show ?thesis by (intro exI [of _ st'] exI [of _ nds] exI [of _ ino]) (simp add: inode_says_def)
qed

lemma key_hash_small: "key_r5_hash n < 2 ^ 29" "key_test_hash n < 2 ^ 29"
proof -
  have m: "UBIFS_S_KEY_HASH_MASK = mask 29" by (simp add: UBIFS_S_KEY_HASH_MASK_def mask_eq_exp_minus_1)
  have "key_mask_hash h < 2 ^ 29" for h
  proof (cases "h AND UBIFS_S_KEY_HASH_MASK \<le> 2")
    case True
    then have "unat (h AND UBIFS_S_KEY_HASH_MASK) \<le> 2" by (simp add: word_le_nat_alt)
    then have "unat ((h AND UBIFS_S_KEY_HASH_MASK) + 3) = unat (h AND UBIFS_S_KEY_HASH_MASK) + 3"
      by (subst unat_word_ariths(1)) (simp add: mod_less)
    then have "unat ((h AND UBIFS_S_KEY_HASH_MASK) + 3) < 2 ^ 29" using \<open>unat (h AND UBIFS_S_KEY_HASH_MASK) \<le> 2\<close> by simp
    then show ?thesis using True by (simp add: key_mask_hash_def word_less_nat_alt)
  next
    case False
    have "unat (h AND mask 29) < 2 ^ 29" using take_bit_nat_less_exp [of 29 "unat h"] by (simp add: unsigned_take_bit_eq flip: take_bit_eq_mask)
    then show ?thesis using False by (simp add: key_mask_hash_def m word_less_nat_alt)
  qed
  then show "key_r5_hash n < 2 ^ 29" "key_test_hash n < 2 ^ 29" by (simp_all add: key_r5_hash_def key_test_hash_def)
qed

text \<open>The index is sound: whatever the host and the device table contain, when \<open>write_data\<close> returns and the device accepted every
  write, every entry of the index points to a written node with a valid checksum and the recorded length whose key is
  that of the entry, and the entries from before are still in front.\<close>

lemma write_data_index:
  assumes "\<And>l. me_wr E l" "ft_ok st" "write_data depth E st = Ret st'"
  shows "(\<exists>es. mk_idx (ft_mk st') = mk_idx (ft_mk st) @ es) \<and>
    (\<forall>e\<in>set (mk_idx (ft_mk st')). \<exists>node. read_ubifs (mk_lebs (ft_mk st')) (e_lnum e, e_offs e, e_len e) = Some node
       \<and> take 16 (node_data node) = key_write (e_key e))"
proof
  note g = write_data_grown [where E = E, OF assms]
  show "\<exists>es. mk_idx (ft_mk st') = mk_idx (ft_mk st) @ es" using g(1) by (auto simp: grown_def adds_def)
  show "\<forall>e\<in>set (mk_idx (ft_mk st')). \<exists>node. read_ubifs (mk_lebs (ft_mk st')) (e_lnum e, e_offs e, e_len e) = Some node \<and> take 16 (node_data node) = key_write (e_key e)"
  proof
    fix e assume "e \<in> set (mk_idx (ft_mk st'))"
    then obtain nd where "holds_node (ft_mk st') e nd" using grownD [OF g(1)] by (auto simp: ft_ok_def)
    then show "\<exists>node. read_ubifs (mk_lebs (ft_mk st')) (e_lnum e, e_offs e, e_len e) = Some node \<and> take 16 (node_data node) = key_write (e_key e)"
      using read_held [OF g(2)] by metis
  qed
qed

lemma demo_tree: "good_tree 2 demo_env ''r/''" "tree_count 2 demo_env ''r/'' = 1"
proof -
  have d: "dot ''.''" "dot ''..''" "\<not> dot ''f''" by (simp_all add: dot_def)
  have p: "make_path ''r/'' ''f'' = ''r/f''" by (simp add: make_path_def)
  have t: "\<not> is_type S_IFDIR ((no_root_stat 7)\<lparr>st_mode := 0x81A4, st_nlink := 1, st_size := 5000\<rparr>)" by (simp add: is_type_def S_IFDIR_def S_IFMT_def)
  have "good_file demo_env ''r/f'' ((no_root_stat 7)\<lparr>st_mode := 0x81A4, st_nlink := 1, st_size := 5000\<rparr>)"
    by (simp add: good_file_def inode_type_def is_type_def S_IFREG_def S_IFMT_def S_IFLNK_def demo_env_def demo_host_def ubifs_consts)
  then show "good_tree 2 demo_env ''r/''" "tree_count 2 demo_env ''r/'' = 1"
    using d p t by (simp_all add: numeral_2_eq_2 demo_env_def demo_host_def)
qed

text \<open>The nodes a reader gets through the entries of the index.\<close>

definition index_nodes :: "mkfs \<Rightarrow> ubifs_node set" where
  "index_nodes mk = {(e_key e, node_type node, node_data node) | e node.
     e \<in> set (mk_idx mk) \<and> read_ubifs (mk_lebs mk) (e_lnum e, e_offs e, e_len e) = Some node}"

lemma index_nodes_eq:
  assumes "adds st st' nds" "mk_idx (ft_mk st) = []" "mk_head_offs (ft_mk st') = 0"
  shows "index_nodes (ft_mk st') = set nds"
proof -
  obtain es where es: "mk_idx (ft_mk st') = es" "list_all2 (holds_node (ft_mk st')) es nds" using assms(1,2) by (auto simp: adds_def)
  have read: "(e_key e, node_type node, node_data node) = nd"
    if "holds_node (ft_mk st') e nd" "read_ubifs (mk_lebs (ft_mk st')) (e_lnum e, e_offs e, e_len e) = Some node" for e nd node
    by (rule read_held [OF assms(3) that(1)]) (use that in \<open>simp add: holds_node_def prod_eq_iff\<close>)
  have "nd \<in> index_nodes (ft_mk st')" if nd: "nd \<in> set nds" for nd
  proof -
    obtain e where e: "e \<in> set es" "holds_node (ft_mk st') e nd" using adds_nodes [OF assms(1) nd] es(1) by blast
    obtain node where "read_ubifs (mk_lebs (ft_mk st')) (e_lnum e, e_offs e, e_len e) = Some node" using read_held [OF assms(3) e(2)] by blast
    then show ?thesis using read [OF e(2)] e(1) es(1) unfolding index_nodes_def by blast
  qed
  moreover have "nd \<in> set nds" if nd: "nd \<in> index_nodes (ft_mk st')" for nd
  proof -
    obtain e node where e: "nd = (e_key e, node_type node, node_data node)" "e \<in> set es" "read_ubifs (mk_lebs (ft_mk st')) (e_lnum e, e_offs e, e_len e) = Some node"
      using nd es(1) by (auto simp: index_nodes_def)
    obtain nd' where "nd' \<in> set nds" "holds_node (ft_mk st') e nd'" using es(2) e(2) by (metis in_set_conv_nth list_all2_conv_all_nth)
    then show ?thesis using read e(1,3) by blast
  qed
  ultimately show ?thesis by blast
qed

lemma adds_keys: "adds st st' nds \<Longrightarrow> mk_idx (ft_mk st) = [] \<Longrightarrow> map e_key (mk_idx (ft_mk st')) = map fst nds"
  by (auto simp: adds_def holds_node_def list_all2_conv_all_nth intro: nth_equalityI)

text \<open>A bound on the depth that is enough stays enough.\<close>

lemma good_tree_deeper: "good_tree k E path \<Longrightarrow> k \<le> d \<Longrightarrow> good_tree d E path \<and> tree_count d E path = tree_count k E path"
proof (induction k arbitrary: d path)
  case (Suc k)
  obtain d' where d: "d = Suc d'" "k \<le> d'" using Suc.prems(2) by (cases d) auto
  obtain names where o: "h_opendir (me_host E) path = Some names" "\<And>n. n \<in> set names \<Longrightarrow> dot n \<or> good_entry k E path n" "h_dirfd (me_host E) path" "h_closedir (me_host E) path"
    using Suc.prems(1) by (auto simp: good_entry_def list_all_iff split: option.splits)
  have e: "dot n \<or> good_entry d' E path n \<and> entry_count d' E (make_path path n) = entry_count k E (make_path path n)" if n: "n \<in> set names" for n
    using o(2) [OF n] Suc.IH [of "make_path path n" d'] d(2) by (auto simp: good_entry_def entry_count_def split: option.splits if_splits)
  have "names_count d' E path names = names_count k E path names" unfolding names_count_def
    by (rule arg_cong [where f = sum_list], rule map_cong [OF refl]) (use e in auto)
  then have "tree_count d E path = tree_count (Suc k) E path" unfolding d(1) names_count_def entry_count_def by (simp add: o(1))
  moreover have "list_all (\<lambda>n. dot n \<or> good_entry d' E path n) names" using e by (auto simp: list_all_iff)
  then have "good_tree d E path" using o(3,4) by (simp add: d(1) o(1) good_entry_def)
  ultimately show ?case by blast
qed simp

text \<open>C6. The image has the whole tree: for a host directory without failures, whose files have one link each and which the
  device table does not change, \<open>write_data\<close> returns with every bound on the depth that the tree respects and every image
  that was empty so far. Each entry of the index leads to a node with a valid checksum and that key; there is exactly one
  inode for the root and for each of the new numbers, as many as the tree has entries, and as many directory entries. Among the nodes read through the index are, from the root inode
  on: for each directory its inode with the size and link count that its entries give it, and for each name in it a directory
  entry with the number and type of an inode; for each file that is no directory its inode with the attributes of the host (the
  owner squashed if asked for) and the device number or the target of a link; for each regular file exactly the data nodes
  whose expanded contents, with holes for blocks of zeros, are the content of the file.\<close>

theorem write_data_stores_tree:
  assumes "ft_ok st" "mk_idx (ft_mk st) = []" "ft_dt st = None" "concat (ft_hash_table st) = []" "\<And>l. me_wr E l"
    "codecs_ok (me_cs E) inflate unlzo" "\<And>n. me_key_hash E n < 2 ^ 29"
    "me_root E = Some root" "me_root_stat E = Some rs" "good_tree k E root" "k \<le> d" "last_inum st + tree_count k E root < 2 ^ 32"
  shows "\<exists>st'. write_data d E st = Ret st' \<and> last_inum st' = last_inum st + tree_count k E root
    \<and> (\<forall>e\<in>set (mk_idx (ft_mk st')). \<exists>node. read_ubifs (mk_lebs (ft_mk st')) (e_lnum e, e_offs e, e_len e) = Some node
         \<and> take 16 (node_data node) = key_write (e_key e))
    \<and> ino_nums (map e_key (mk_idx (ft_mk st'))) = add_mset 1 (mset [Suc (last_inum st)..<Suc (last_inum st')])
    \<and> dents (map e_key (mk_idx (ft_mk st'))) = tree_count k E root
    \<and> has_tree d inflate unlzo E (index_nodes (ft_mk st')) (last_inum st) (last_inum st') root UBIFS_ROOT_INO rs"
proof -
  have d: "good_tree d E root" "last_inum st + tree_count d E root < 2 ^ 32" "tree_count d E root = tree_count k E root"
    using good_tree_deeper [OF assms(10,11)] assms(12) by simp_all
  obtain st' nds where w: "write_data d E st = Ret st'" "adds st st' nds" "mk_head_offs (ft_mk st') = 0" "last_inum st' = last_inum st + tree_count d E root"
    "has_tree d inflate unlzo E (set nds) (last_inum st) (last_inum st') root UBIFS_ROOT_INO rs"
    "ino_nums (map fst nds) = add_mset 1 (mset [Suc (last_inum st)..<Suc (last_inum st')])" "dents (map fst nds) = tree_count d E root"
    by (rule write_data_ok [where E = E, OF assms(1,3-9) d(1,2)])
  have "has_tree d inflate unlzo E (index_nodes (ft_mk st')) (last_inum st) (last_inum st') root UBIFS_ROOT_INO rs"
    using w(5) index_nodes_eq [OF w(2) assms(2) w(3)] by simp
  then show ?thesis using w(1,4,6,7) d(3) write_data_index [where E = E, OF assms(5,1) w(1)] adds_keys [OF w(2) assms(2)]
    by (intro exI [of _ st']) (simp del: upt_Suc)
qed

theorem write_data_stores_tree_witness:
  "\<exists>st'. write_data 3 demo_env small_tree = Ret st' \<and> last_inum st' = 65
    \<and> ino_nums (map e_key (mk_idx (ft_mk st'))) = {#1, 65#} \<and> dents (map e_key (mk_idx (ft_mk st'))) = 1
    \<and> has_tree 3 demo_unpack demo_unpack demo_env (index_nodes (ft_mk st')) 64 65 ''r/'' UBIFS_ROOT_INO (no_root_stat 7)"
proof -
  have l: "last_inum small_tree = 64" by (simp add: last_inum_def small_tree_def UBIFS_FIRST_INO_def)
  have h: "me_wr demo_env l" "codecs_ok (me_cs demo_env) demo_unpack demo_unpack" "me_key_hash demo_env n < 2 ^ 29" "me_root demo_env = Some ''r/''" "me_root_stat demo_env = Some (no_root_stat 7)" for l n
    using demo_codecs_ok key_hash_small(1) by (simp_all add: demo_env_def)
  have s: "mk_idx (ft_mk small_tree) = []" "ft_dt small_tree = None" "concat (ft_hash_table small_tree) = []" by (simp_all add: small_tree_def)
  have c: "(2 :: nat) \<le> 3" "last_inum small_tree + tree_count 2 demo_env ''r/'' < 2 ^ 32" using demo_tree(2) l by simp_all
  show ?thesis
    using write_data_stores_tree [where E = demo_env, OF small_tree_ok s h demo_tree(1) c] demo_tree(2) l by auto
qed

end
