(* ===== verification/Spec2Isabelle.thy ===== *)
theory Spec2Isabelle
  imports Swab Fexc JffsCompr Ubinize UbifsFiles
begin

text \<open>
  A verification library for the flash tools of the C.H.I.P. SDK.

  \<^bold>\<open>The program.\<close> The SDK builds and flashes NAND images for a small ARM board. Its own C code is in two
  trees. \<open>CHIP-mtd-utils\<close> holds the flash tools: \<open>ubinize\<close> writes UBI images through \<open>libubigen\<close>, \<open>ubiformat\<close>
  scans a flash through \<open>libscan\<close>, \<open>mkfs.ubifs\<close> and \<open>mkfs.jffs2\<close> build file systems with a hash table, a
  device table and a set of compressors. \<open>sunxi-tools\<close> holds the tools for the Allwinner chips, among them
  \<open>fexc\<close>, which converts board descriptions between a text form, a binary form and a boot loader header.
  \<open>CHIP-buildroot\<close> is a vendored build system.

  \<^bold>\<open>Conventions.\<close> A function that reports errors or has undefined behaviour returns an \<open>outcome\<close>: \<open>Ret\<close>, \<open>Err\<close>
  with the reason, or \<open>Undef\<close> when the C code would access memory outside an object or never return. Memory
  is a list of bytes, a C string a list of characters without NUL, machine integers are words where their
  width matters. Results of calls outside the sources (system calls, the MTD library, \<open>malloc\<close> where its
  failure is handled) are arguments. Loops are functions with a termination proof; fuel is in the traversal
  of \<open>LinkedList\<close>, which is shown to suffice with one step per element, and in the walk of \<open>UbifsFiles\<close>, where it
  bounds the depth of the directories (the walk is shown to return for every bound that the tree of the host
  respects) and, by their number, the entries of the device table in one directory.

  \<^bold>\<open>The theories.\<close>
  \<^item> \<open>Prelude\<close>: outcomes, byte images of words, overwriting a buffer, cutting a buffer into pieces.
  \<^item> \<open>CText\<close>: character classes, \<open>strtol\<close> and the number formats of \<open>printf\<close>; scanning a printed number gives
    the number back.
  \<^item> \<open>Crc\<close> (\<open>lib/libcrc32.c\<close>, \<open>mkfs.ubifs/crc16.c\<close>): both table-driven checksums. The tables are those of the
    bit-serial registers (locale \<open>crc_register\<close>), and every short burst of damage changes the checksum.
  \<^item> \<open>Swab\<close> (\<open>include/mtd_swab.h\<close>): byte order conversion does not depend on the host.
  \<^item> \<open>UbiMedia\<close> (\<open>include/mtd/ubi-media.h\<close>): the on-flash headers and their images (locale \<open>crc_sealed\<close>).
  \<^item> \<open>UbiGen\<close> (\<open>ubi-utils/libubigen.c\<close>): geometry, volume table, volumes and layout volume. What is written
    reads back: headers with valid checksums and the input cut into eraseblocks.
  \<^item> \<open>UbiScan\<close> (\<open>ubi-utils/libscan.c\<close>): the scanner's counters partition the eraseblocks, damaged headers are
    never accepted, and a generated volume is accepted completely.
  \<^item> \<open>Dictionary\<close> (\<open>ubi-utils/dictionary.c\<close>): the dictionary of \<open>ubinize\<close> implements a map (locale
    \<open>string_dict\<close>).
  \<^item> \<open>IniParser\<close> (\<open>ubi-utils/libiniparser.c\<close>): the configuration files of \<open>ubinize\<close> on top of the dictionary; a
    dictionary that is written is loaded back.
  \<^item> \<open>Ubinize\<close> (\<open>ubi-utils/ubinize.c\<close>, \<open>ubiutils-common.c\<close>): the command on a map of files. A valid configuration
    gives an image, the image is the layout volume followed by the volumes of the sections, and the scanner
    accepts all of it.
  \<^item> \<open>Hashtable\<close> (\<open>mkfs.ubifs/hashtable/\<close>): insertion, growth, search, removal and the iterator (locale
    \<open>key_ops\<close> for the client's hash and comparison).
  \<^item> \<open>DevTable\<close> (\<open>mkfs.ubifs/devtable.c\<close>): the device table on two levels of hash tables (locale \<open>fresh_map\<close>).
  \<^item> \<open>LptPack\<close>, \<open>LptGeom\<close>, \<open>Lpt\<close> (\<open>mkfs.ubifs/lpt.c\<close>): the LEB properties tree of UBIFS. Packing is concatenation of
    bits, the default geometry is a fixed point with room for four trees, and a reader that knows only the root
    position finds the properties of every LEB in the created tree.
  \<^item> \<open>UbifsNode\<close> (\<open>mkfs.ubifs/key.h\<close>, \<open>include/mtd/ubifs-media.h\<close>) and \<open>UbifsIndex\<close> (\<open>mkfs.ubifs/mkfs.ubifs.c\<close>): keys,
    nodes, the head that collects nodes into LEBs and the index written over them. A reader that knows only the
    root position finds the place of the node of every key.
  \<^item> \<open>UbifsCompr\<close> (\<open>mkfs.ubifs/compr.c\<close>): the compression of data blocks with \<open>zlib\<close> and \<open>lzo\<close> as arguments; no block
    is lost and no buffer overrun, the fixed \<open>zlib_buf\<close> included.
  \<^item> \<open>UbifsFiles\<close> (\<open>mkfs.ubifs/mkfs.ubifs.c\<close>): inodes, data nodes, directory entries, hard links, and the walk over a
    directory of the host together with the device table. A file reads back from its inode however the system cuts
    it. Whatever the host and the device table contain, every entry of the index leads to its node; and for a host without
    failures, hard links and device table the nodes read through the index represent the whole tree, field by field.
  \<^item> \<open>LinkedList\<close> (\<open>include/list.h\<close>): hooks in a store implement lists.
  \<^item> \<open>Script\<close>, \<open>ScriptBin\<close>, \<open>ScriptFex\<close>, \<open>ScriptUboot\<close>, \<open>Fexc\<close> (\<open>sunxi-tools/script*.c\<close>, \<open>fexc.c\<close>): the script
    tree, its binary and text forms, the boot loader header and the command. Both forms read back what
    they write, every parsed tree is well formed, and a file survives \<open>fex2bin\<close> and \<open>bin2fex\<close>.
  \<^item> \<open>Rtime\<close> (\<open>compr_rtime.c\<close>) and \<open>JffsCompr\<close> (\<open>compr.c\<close>): the interface of a compressor is the locale
    \<open>jffs2_codec\<close>; \<open>rtime\<close> interprets it, and the framework loses no data for any registered compressors that
    meet it.

  \<^bold>\<open>How the parts interact.\<close> \<open>UbiGen\<close> and \<open>UbiScan\<close> share the headers of \<open>UbiMedia\<close> and the checksums of \<open>Crc\<close>; the
  scanner is proved against what the generator writes. \<open>Ubinize\<close> composes the ini parser, the generator and the
  dictionary, and its image is given to the scanner. \<open>DevTable\<close> is a client of \<open>Hashtable\<close> through an
  interface, \<open>JffsCompr\<close> of the compressors. \<open>UbifsFiles\<close> composes the device table, the compression and the head of \<open>UbifsIndex\<close>. \<open>Fexc\<close> composes the parsers and generators of the script forms.

  \<^bold>\<open>Not modelled.\<close> Code that mainly talks to the kernel or a device (\<open>libmtd\<close>, \<open>libubi\<close>, the flash command
  line tools, the FEL boot protocol), the external \<open>zlib\<close> and \<open>lzo\<close> libraries, test programs, and the vendored
  \<open>CHIP-buildroot\<close>. Not modelled: \<open>mkfs.jffs2\<close>, of \<open>mkfs.ubifs\<close> the options, the superblock, the
  master node and the log, \<open>libfec\<close>, the red-black tree and the NAND image builder.
  Messages for the user are modelled only where they are the output of a command.
\<close>

end
